(* ===== verification/Prelude.thy ===== *)
theory Prelude
  imports Main "HOL-Library.Word" "HOL-Library.Sublist"
begin

text \<open>
  Shared vocabulary of the development.

  \<^item> Go's sized integers are words: \<open>byte\<close> (8 bits), \<open>u32\<close> and \<open>u64\<close>, with wrap-around.
  \<^item> A byte slice, a \<open>common.Hash\<close> and a \<open>common.Address\<close> are byte lists; where a length
    matters it is a hypothesis.
  \<^item> A Go function that returns a value and an error, may panic, or may run out of the
    bound put on its recursion, returns a value of \<open>res\<close>.
  \<^item> A pure function whose only failure is a run-time panic (index out of range) returns an
    \<open>option\<close>, \<open>None\<close> being the panic.
\<close>

unbundle bit_operations_syntax

named_theorems res_simps \<open>evaluation of the error-carrying sequencing operator\<close>
named_theorems frame \<open>what an operation leaves unchanged\<close>

type_synonym byte = "8 word"
type_synonym u32 = "32 word"
type_synonym u64 = "64 word"
type_synonym bytes = "byte list"
type_synonym hash = bytes
type_synonym address = bytes

section \<open>Results of fallible Go code\<close>

text \<open>
  \<open>Ok\<close> is a normal return, \<open>Err\<close> a return with a non-nil error, \<open>Panic\<close> a run-time panic
  and \<open>Hang\<close> an exhausted bound (the Go code keeps running).
\<close>

datatype ('e, 'a) res = Ok 'a | Err 'e | Panic | Hang

fun rbind :: "('e, 'a) res \<Rightarrow> ('a \<Rightarrow> ('e, 'b) res) \<Rightarrow> ('e, 'b) res" where
  "rbind (Ok x) f = f x"
| "rbind (Err e) f = Err e"
| "rbind Panic f = Panic"
| "rbind Hang f = Hang"

fun rmap :: "('a \<Rightarrow> 'b) \<Rightarrow> ('e, 'a) res \<Rightarrow> ('e, 'b) res" where
  "rmap f (Ok x) = Ok (f x)"
| "rmap f (Err e) = Err e"
| "rmap f Panic = Panic"
| "rmap f Hang = Hang"

lemma rbind_cong [fundef_cong]:
  "m = m' \<Longrightarrow> (\<And>x. m' = Ok x \<Longrightarrow> f x = g x) \<Longrightarrow> rbind m f = rbind m' g"
  by (cases m') auto

lemma rbind_eq_Ok [res_simps]: "rbind m f = Ok y \<longleftrightarrow> (\<exists>x. m = Ok x \<and> f x = Ok y)"
  by (cases m) auto

lemma rmap_eq_Ok [res_simps]: "rmap f m = Ok y \<longleftrightarrow> (\<exists>x. m = Ok x \<and> y = f x)"
  by (cases m) auto

lemma rbind_assoc: "rbind (rbind m f) g = rbind m (\<lambda>x. rbind (f x) g)"
  by (cases m) auto

section \<open>Lists\<close>

lemma nth_append_take_drop: "i < length xs \<Longrightarrow> xs = take i xs @ xs ! i # drop (Suc i) xs"
  by (simp add: id_take_nth_drop)

lemma filter_upt_Suc:
  "filter P [0..<Suc n] = (if P 0 then [0] else []) @ map Suc (filter (P \<circ> Suc) [0..<n])"
proof -
  have "[0..<Suc n] = 0 # map Suc [0..<n]"
    by (simp add: map_Suc_upt upt_conv_Cons del: upt_Suc)
  then show ?thesis by (simp add: filter_map del: upt_Suc)
qed

lemma sorted_wrt_concat_map:
  assumes "sorted_wrt (<) is"
    and "\<And>i. i \<in> set is \<Longrightarrow> sorted_wrt (<) (f i)"
    and "\<And>i j x y. i < j \<Longrightarrow> x \<in> set (f i) \<Longrightarrow> y \<in> set (f j) \<Longrightarrow> x < y"
  shows "sorted_wrt (<) (concat (map f (is :: nat list)) :: 'a::order list)"
  using assms(1,2)
proof (induction "is")
  case Nil
  then show ?case by simp
next
  case (Cons i "is")
  then show ?case using assms(3) by (fastforce simp: sorted_wrt_append)
qed

text \<open>Go's built-in \<open>copy(dst, src)\<close>: the shorter length decides, \<open>dst\<close> keeps its length.\<close>

definition goCopy :: "'a list \<Rightarrow> 'a list \<Rightarrow> 'a list" where
  "goCopy dst src = take (length dst) src @ drop (length src) dst"

lemma length_goCopy [simp]: "length (goCopy dst src) = length dst"
  by (auto simp: goCopy_def)

lemma goCopy_same_length [simp]: "length dst = length src \<Longrightarrow> goCopy dst src = src"
  by (simp add: goCopy_def)

lemma goCopy_nil [simp]: "goCopy [] src = []"
  by (simp add: goCopy_def)

section \<open>Words\<close>

lemma unat_shift1: "unat (drop_bit 1 (t :: 'a::len word)) = unat t div 2"
  by (simp only: unat_drop_bit_eq drop_bit_eq_div [of 1 "unat t"] power_one_right)

lemma unat_shift1_less: "t > 0 \<Longrightarrow> unat (drop_bit 1 (t :: 'a::len word)) < unat t"
  by (simp only: unat_shift1) (simp add: word_less_nat_alt)

lemma unat_of_nat_u32 [simp]: "n < 2 ^ 32 \<Longrightarrow> unat (of_nat n :: u32) = n"
  by (simp add: unat_of_nat)

lemma unat_u32_less [simp]: "unat (x :: u32) < 2 ^ 32"
  using unsigned_less [of x] by simp

lemma of_nat_u32_eq_iff:
  "m < 2 ^ 32 \<Longrightarrow> n < 2 ^ 32 \<Longrightarrow> (of_nat m :: u32) = of_nat n \<longleftrightarrow> m = n"
  by (metis unat_of_nat_u32)

lemma bit_byte_less: "bit (b :: byte) k \<Longrightarrow> k < 8"
  using bit_imp_le_length by fastforce

lemma byte_and_1_eq_1: "((b :: byte) AND 1 = 1) \<longleftrightarrow> bit b 0"
  by (simp add: and_one_eq odd_iff_mod_2_eq_one bit_0)

end
