(* ===== verification/Bitmap.thy ===== *)
theory Bitmap
  imports Prelude
begin

text \<open>
  The bit set of \<open>types/bitmap.go\<close>: a byte slice whose bit \<open>x mod 8\<close> of byte \<open>x div 8\<close>
  records key \<open>x\<close>. Consensus keeps the signers of a block in it, a header the destination
  shards of a block. Operations that index the slice return \<open>None\<close> when Go would panic.
\<close>

section \<open>Operations\<close>

type_synonym Bitmap = bytes

definition NewBitmap :: "u32 \<Rightarrow> Bitmap" where
  "NewBitmap len = replicate (unat ((len + 7) div 8)) 0"

definition HasKey :: "Bitmap \<Rightarrow> u32 \<Rightarrow> bool option" where
  "HasKey b x =
     (let i = unat (drop_bit 3 x) in
      if i < length b then Some (b ! i AND push_bit (unat (x mod 8)) 1 \<noteq> 0) else None)"

definition SetKey :: "Bitmap \<Rightarrow> u32 \<Rightarrow> Bitmap option" where
  "SetKey b x =
     (let i = unat (drop_bit 3 x) in
      if i < length b then Some (b[i := b ! i OR push_bit (unat (x mod 8)) 1]) else None)"

text \<open>
  The loop shared by \<open>Merge\<close>, \<open>GetElement\<close> and \<open>GetSize\<close>:
  \<^verbatim>\<open>for j := uint32(i)*8; t > 0; j++ { if t&1 == 1 { append j }; t = t >> 1 }\<close>.
\<close>

function scanByte :: "byte \<Rightarrow> u32 \<Rightarrow> u32 list" where
  "scanByte t j =
     (if t > 0 then (if t AND 1 = 1 then [j] else []) @ scanByte (drop_bit 1 t) (j + 1) else [])"
  by pat_completeness auto
termination
  by (relation "measure (\<lambda>(t, j). unat t)") (simp_all add: unat_shift1_less del: One_nat_def)

declare scanByte.simps [simp del]

fun mergeFrom :: "nat \<Rightarrow> Bitmap \<Rightarrow> Bitmap \<Rightarrow> Bitmap \<times> u32 list" where
  "mergeFrom i (c # b) (d # x) =
     (let diff = (c AND d) XOR d; (b', ks) = mergeFrom (Suc i) b x in
      ((c OR d) # b', scanByte diff (of_nat i * 8) @ ks))"
| "mergeFrom i b x = (b, [])"

definition Merge :: "Bitmap \<Rightarrow> Bitmap \<Rightarrow> Bitmap \<times> u32 list" where
  "Merge b x = (if length b \<noteq> length x then (b, []) else mergeFrom 0 b x)"

fun getElementFrom :: "nat \<Rightarrow> Bitmap \<Rightarrow> u32 list" where
  "getElementFrom i [] = []"
| "getElementFrom i (t # b) = scanByte t (of_nat i * 8) @ getElementFrom (Suc i) b"

definition GetElement :: "Bitmap \<Rightarrow> u32 list" where
  "GetElement b = getElementFrom 0 b"

function countByte :: "byte \<Rightarrow> u32 \<Rightarrow> u32" where
  "countByte t ans =
     (if t > 0 then countByte (drop_bit 1 t) (if t AND 1 = 1 then ans + 1 else ans) else ans)"
  by pat_completeness auto
termination
  by (relation "measure (\<lambda>(t, ans). unat t)") (simp_all add: unat_shift1_less del: One_nat_def)

declare countByte.simps [simp del]

definition GetSize :: "Bitmap \<Rightarrow> u32" where
  "GetSize b = fold countByte b 0"

text \<open>\<open>utils.ToString\<close> of the gods package is a parameter.\<close>

definition BitmapString :: "(byte \<Rightarrow> string) \<Rightarrow> Bitmap \<Rightarrow> string" where
  "BitmapString toString b =
     ''['' @ concat (map (\<lambda>i. (if i \<noteq> 0 then '','' else []) @ toString (b ! i)) [0..<length b]) @ '']''"

definition BitmapCopy :: "Bitmap \<Rightarrow> Bitmap" where
  "BitmapCopy b = goCopy (replicate (length b) 0) b"

section \<open>The set a bitmap stands for\<close>

definition keys :: "Bitmap \<Rightarrow> nat set" where
  "keys b = {k. k < 8 * length b \<and> bit (b ! (k div 8)) (k mod 8)}"

lemma scanByte_0 [simp]: "scanByte 0 j = []"
  by (simp add: scanByte.simps)

lemma scanByte_bits:
  "unat t < 2 ^ n \<Longrightarrow> scanByte t j = map (\<lambda>k. j + of_nat k) (filter (bit t) [0..<n])"
proof (induction n arbitrary: t j)
  case 0
  then show ?case by (simp add: unat_eq_zero)
next
  case (Suc n)
  show ?case
  proof (cases "t = 0")
    case True
    then show ?thesis by simp
  next
    case False
    have "unat (drop_bit 1 t) < 2 ^ n"
      using Suc.prems by (simp only: unat_shift1) (simp add: less_mult_imp_div_less mult.commute)
    then have "scanByte (drop_bit 1 t) (j + 1) =
        map (\<lambda>k. j + 1 + of_nat k) (filter (bit (drop_bit 1 t)) [0..<n])"
      by (rule Suc.IH)
    moreover have "bit (drop_bit 1 t) = bit t \<circ> Suc"
      by (auto simp: bit_drop_bit_eq)
    ultimately show ?thesis
      using False
      by (subst scanByte.simps)
        (simp add: word_gt_0 byte_and_1_eq_1 filter_upt_Suc o_def add.assoc del: upt_Suc)
  qed
qed

lemma scanByte_eq: "scanByte t j = map (\<lambda>k. j + of_nat k) (filter (bit t) [0..<8])"
  using scanByte_bits [of t 8 j] unsigned_less [of t] by simp

text \<open>
  \<open>getElementFrom\<close> as the strictly increasing list of the keys of the bitmap; the bound on
  the length keeps the 32-bit key counter from wrapping.
\<close>

lemma getElementFrom_eq:
  "getElementFrom i b =
     map of_nat (concat (map (\<lambda>m. map (\<lambda>k. (i + m) * 8 + k) (filter (bit (b ! m)) [0..<8])) [0..<length b]))"
proof (induction b arbitrary: i)
  case Nil
  then show ?case by simp
next
  case (Cons t b)
  have "[0..<length (t # b)] = 0 # map Suc [0..<length b]"
    by (simp add: map_Suc_upt upt_conv_Cons del: upt_Suc)
  then show ?case
    by (simp add: Cons.IH scanByte_eq o_def add.assoc add.left_commute del: upt_Suc upt_eq_Nil_conv)
qed

definition keyList :: "Bitmap \<Rightarrow> nat list" where
  "keyList b = concat (map (\<lambda>m. map (\<lambda>k. m * 8 + k) (filter (bit (b ! m)) [0..<8])) [0..<length b])"

lemma GetElement_keyList: "GetElement b = map of_nat (keyList b)"
  by (simp add: GetElement_def getElementFrom_eq keyList_def)

lemma set_keyList: "set (keyList b) = keys b"
proof -
  have "\<exists>m<length b. \<exists>k'. k' < 8 \<and> bit (b ! m) k' \<and> k = m * 8 + k'"
    if "k < 8 * length b" "bit (b ! (k div 8)) (k mod 8)" for k
    using that by (intro exI [of _ "k div 8"] conjI exI [of _ "k mod 8"])
      (auto simp: less_mult_imp_div_less mult.commute)
  then show ?thesis
    by (fastforce simp: keyList_def keys_def)
qed

lemma sorted_keyList: "sorted_wrt (<) (keyList b)"
  unfolding keyList_def
proof (rule sorted_wrt_concat_map)
  show "sorted_wrt (<) [0..<length b]" by simp
next
  fix m
  have "sorted_wrt (<) (filter (bit (b ! m)) [0..<8])"
    by (rule sorted_wrt_filter) simp
  then show "sorted_wrt (<) (map (\<lambda>k. m * 8 + k) (filter (bit (b ! m)) [0..<8]))"
    by (simp add: sorted_wrt_map)
qed auto

lemma distinct_keyList: "distinct (keyList b)"
  using sorted_keyList strict_sorted_iff by blast

lemma length_keyList: "length (keyList b) = card (keys b)"
  by (metis distinct_card distinct_keyList set_keyList)

lemma unat_key_split: "unat (drop_bit 3 (x :: u32)) = unat x div 8" "unat (x mod 8) = unat x mod 8"
proof -
  show "unat (drop_bit 3 x) = unat x div 8"
    by (simp only: unat_drop_bit_eq drop_bit_eq_div [of 3 "unat x"]) simp
  show "unat (x mod 8) = unat x mod 8"
    by (simp add: unat_mod)
qed

lemma key_in_range: "k div 8 < length b \<longleftrightarrow> k < 8 * length b"
  by auto

lemma HasKey_keys: "HasKey b x = (if unat x < 8 * length b then Some (unat x \<in> keys b) else None)"
  using key_in_range [of "unat x" b]
  by (auto simp: HasKey_def unat_key_split and_exp_eq_0_iff_not_bit keys_def)

lemma keys_bound: "k \<in> keys b \<Longrightarrow> k < 8 * length b"
  by (simp add: keys_def)

lemma finite_keys [simp]: "finite (keys b)"
  by (metis List.finite_set set_keyList)

lemma card_keys_le: "card (keys b) \<le> 8 * length b"
proof -
  have "keys b \<subseteq> {..<8 * length b}" by (auto simp: keys_def)
  then show ?thesis using card_mono [of "{..<8 * length b}" "keys b"] by simp
qed

lemma keys_NewBitmap [simp]: "keys (NewBitmap n) = {}"
  by (auto simp: keys_def NewBitmap_def key_in_range [symmetric])

lemma keys_update:
  assumes "x < 8 * length b"
  shows "keys (b[x div 8 := b ! (x div 8) OR push_bit (x mod 8) 1]) = insert x (keys b)"
    (is "keys ?b = _")
proof (rule set_eqI)
  fix k
  have bits: "bit (?b ! (k div 8)) (k mod 8) \<longleftrightarrow> bit (b ! (k div 8)) (k mod 8) \<or> k = x"
    if "k < 8 * length b"
  proof (cases "k div 8 = x div 8")
    case True
    have "k mod 8 = x mod 8 \<longleftrightarrow> k = x"
      using True by (metis div_mult_mod_eq)
    then show ?thesis using True that assms
      by (auto simp: bit_or_iff bit_exp_iff possible_bit_word key_in_range less_mult_imp_div_less)
  next
    case False
    then show ?thesis using that by auto
  qed
  then show "k \<in> keys ?b \<longleftrightarrow> k \<in> insert x (keys b)"
    using assms by (auto simp: keys_def)
qed

lemma SetKey_spec:
  "SetKey b x = Some b' \<Longrightarrow>
     unat x < 8 * length b \<and> length b' = length b \<and> keys b' = insert (unat x) (keys b)"
  using keys_update [of "unat x" b] key_in_range [of "unat x" b]
  by (auto simp: SetKey_def unat_key_split Let_def split: if_splits)

lemma SetKey_defined: "SetKey b x \<noteq> None \<longleftrightarrow> unat x < 8 * length b"
  using key_in_range [of "unat x" b] by (auto simp: SetKey_def unat_key_split Let_def)

lemma length_mergeFrom [simp]: "length (fst (mergeFrom i b x)) = length b"
  by (induction i b x rule: mergeFrom.induct) (auto simp: split_beta Let_def)

lemma mergeFrom_fst: "length b = length x \<Longrightarrow> fst (mergeFrom i b x) = map2 (OR) b x"
  by (induction i b x rule: mergeFrom.induct) (auto simp: split_beta Let_def)

lemma mergeFrom_snd:
  "length b = length x \<Longrightarrow>
     snd (mergeFrom i b x) = getElementFrom i (map2 (\<lambda>c d. (c AND d) XOR d) b x)"
  by (induction i b x rule: mergeFrom.induct) (auto simp: split_beta Let_def)

lemma keys_map2:
  assumes "length b = length x" and "\<And>c d k. k < 8 \<Longrightarrow> bit (f c d) k \<longleftrightarrow> g (bit c k) (bit d k)"
  shows "k \<in> keys (map2 f b x) \<longleftrightarrow> k < 8 * length b \<and> g (k \<in> keys b) (k \<in> keys x)"
  using assms key_in_range [of k b] by (auto simp: keys_def)

lemma keys_Merge:
  "keys (fst (Merge b x)) = (if length b = length x then keys b \<union> keys x else keys b)"
proof (cases "length b = length x")
  case True
  have "k \<in> keys (fst (Merge b x)) \<longleftrightarrow> k \<in> keys b \<union> keys x" for k
    using True keys_map2 [OF True, of "(OR)" "(\<or>)" k]
    by (auto simp: Merge_def mergeFrom_fst bit_or_iff dest: keys_bound)
  with True show ?thesis by auto
qed (simp add: Merge_def)

lemma keys_Merge_diff:
  "length b = length x \<Longrightarrow> keys (map2 (\<lambda>c d. (c AND d) XOR d) b x) = keys x - keys b"
  using keys_map2 [of b x "\<lambda>c d. (c AND d) XOR d" "\<lambda>p q. q \<and> \<not> p"]
  by (auto simp: bit_xor_iff bit_and_iff dest: keys_bound)

lemma Merge_new:
  "snd (Merge b x) = (if length b = length x
      then GetElement (map2 (\<lambda>c d. (c AND d) XOR d) b x) else [])"
  by (simp add: Merge_def GetElement_def mergeFrom_snd)

lemma length_Merge [simp]: "length (fst (Merge b x)) = length b"
  by (simp add: Merge_def)

lemma countByte_eq: "countByte t ans = ans + of_nat (length (scanByte t j))"
proof (induction t ans arbitrary: j rule: countByte.induct)
  case (1 t ans)
  show ?case
    by (subst countByte.simps, subst scanByte.simps) (use 1 [of "j + 1"] in auto)
qed

lemma fold_countByte: "fold countByte b ans = ans + of_nat (length (getElementFrom i b))"
proof (induction b arbitrary: ans i)
  case Nil
  then show ?case by simp
next
  case (Cons t b)
  have "fold countByte (t # b) ans = fold countByte b (ans + of_nat (length (scanByte t (of_nat i * 8))))"
    by (simp add: countByte_eq [of t ans "of_nat i * 8"])
  also have "\<dots> = ans + of_nat (length (getElementFrom i (t # b)))"
    by (simp add: Cons.IH [of _ "Suc i"] add.assoc)
  finally show ?case .
qed

lemma GetSize_length: "GetSize b = of_nat (length (GetElement b))"
  by (simp add: GetSize_def GetElement_def fold_countByte [of _ _ 0])

lemma length_GetElement: "length (GetElement b) = card (keys b)"
  by (simp add: GetElement_keyList length_keyList)

lemma unat_GetSize: "length b \<le> 2 ^ 28 \<Longrightarrow> unat (GetSize b) = card (keys b)"
  using card_keys_le [of b] by (simp add: GetSize_length length_GetElement)

lemma set_GetElement: "length b \<le> 2 ^ 28 \<Longrightarrow> unat ` set (GetElement b) = keys b"
proof -
  assume "length b \<le> 2 ^ 28"
  then have "unat (of_nat k :: u32) = k" if "k \<in> keys b" for k
    using keys_bound [OF that] by (intro unat_of_nat_u32) simp
  then show ?thesis
    by (auto simp: GetElement_keyList set_keyList image_image image_iff)
qed

lemma sorted_GetElement:
  assumes "length b \<le> 2 ^ 28"
  shows "sorted_wrt (<) (GetElement b)"
proof -
  have "(of_nat k :: u32) < of_nat l" if "k < l" "l \<in> set (keyList b)" for k l
  proof -
    have "l < 2 ^ 32" using keys_bound [of l b] that(2) assms by (simp add: set_keyList)
    then show ?thesis using that(1) by (simp add: word_less_nat_alt)
  qed
  then show ?thesis using sorted_keyList [of b]
    unfolding GetElement_keyList sorted_wrt_map
    by (auto intro: sorted_wrt_mono_rel [rotated])
qed

section \<open>Properties of the bit set\<close>

text \<open>
  \<open>SetKey\<close> and \<open>HasKey\<close> are insertion and membership. For a key within the bitmap,
  \<open>SetKey\<close> does not panic and keeps the size of the bitmap; afterwards \<open>HasKey\<close> answers true on that
  key and is unchanged (also in where it panics) on every other 32-bit key.
\<close>

theorem SetKey_HasKey:
  assumes "unat x < 8 * length b"
  shows "\<exists>b'. SetKey b x = Some b' \<and> length b' = length b \<and>
     (\<forall>y. HasKey b' y = (if y = x then Some True else HasKey b y))"
proof -
  obtain b' where b': "SetKey b x = Some b'" using SetKey_defined [of b x] assms by auto
  have "HasKey b' y = (if y = x then Some True else HasKey b y)" for y
    using SetKey_spec [OF b'] assms by (auto simp: HasKey_keys unsigned_word_eqI)
  then show ?thesis using b' SetKey_spec [OF b'] by blast
qed

theorem SetKey_HasKey_witness:
  "\<exists>b'. SetKey (NewBitmap 12) 9 = Some b' \<and> length b' = length (NewBitmap 12) \<and>
     (\<forall>y. HasKey b' y = (if y = 9 then Some True else HasKey (NewBitmap 12) y))"
  by (rule SetKey_HasKey) (simp add: NewBitmap_def)

text \<open>
  C31: merging signer sets. For bitmaps of equal size (up to the 32-bit key range), \<open>Merge\<close>
  makes the receiver the union of the two sets, and the keys it returns are exactly those that were
  new, in increasing order; \<open>GetSize\<close> is the number of members.
\<close>

theorem Merge_union:
  assumes "length b = length x" "length b \<le> 2 ^ 28"
  shows "set (GetElement (fst (Merge b x))) = set (GetElement b) \<union> set (GetElement x) \<and>
     set (snd (Merge b x)) = set (GetElement x) - set (GetElement b) \<and>
     sorted_wrt (<) (snd (Merge b x)) \<and>
     unat (GetSize (fst (Merge b x))) = card (set (GetElement b) \<union> set (GetElement x))"
proof (intro conjI)
  have el: "set (GetElement c) = of_nat ` keys c" for c
    by (simp add: GetElement_keyList set_keyList)
  have inj: "inj_on (of_nat :: nat \<Rightarrow> u32) (keys b \<union> keys x)"
  proof (rule inj_onI)
    fix k l
    assume k: "k \<in> keys b \<union> keys x" and l: "l \<in> keys b \<union> keys x" and eq: "(of_nat k :: u32) = of_nat l"
    have "k < 2 ^ 32" "l < 2 ^ 32" using k l keys_bound [of _ b] keys_bound [of _ x] assms by fastforce+
    then show "k = l" using eq of_nat_u32_eq_iff by blast
  qed
  have len: "length (map2 (\<lambda>c d. (c AND d) XOR d) b x) \<le> 2 ^ 28" using assms by simp
  show un: "set (GetElement (fst (Merge b x))) = set (GetElement b) \<union> set (GetElement x)"
    using assms(1) by (simp add: el keys_Merge image_Un)
  show "set (snd (Merge b x)) = set (GetElement x) - set (GetElement b)"
    using inj_on_image_set_diff [OF inj, of "keys x" "keys b"] assms(1)
    by (auto simp: Merge_new el keys_Merge_diff)
  show "sorted_wrt (<) (snd (Merge b x))"
    using sorted_GetElement [OF len] assms(1) by (simp add: Merge_new)
  have "unat (GetSize (fst (Merge b x))) = card (keys b \<union> keys x)"
    using unat_GetSize [of "fst (Merge b x)"] assms by (simp add: keys_Merge)
  also have "\<dots> = card (set (GetElement b) \<union> set (GetElement x))"
    using card_image [OF inj] by (simp add: el image_Un)
  finally show "unat (GetSize (fst (Merge b x))) = card (set (GetElement b) \<union> set (GetElement x))" .
qed

theorem Merge_union_witness:
  "set (GetElement (fst (Merge [1, 0] [3, 4]))) = set (GetElement [1, 0]) \<union> set (GetElement [3, 4]) \<and>
   set (snd (Merge [1, 0] [3, 4])) = set (GetElement [3, 4]) - set (GetElement [1, 0])"
  using Merge_union [of "[1, 0]" "[3, 4]"] by simp

end
