(* ===== verification/Types.thy ===== *)
theory Types
  imports Bitmap
begin

text \<open>
  The chain's data: transactions, headers, outbound chunks, blocks and consensus messages
  (\<open>types/transaction.go\<close>, \<open>header.go\<close>, \<open>outboundChunk.go\<close>, \<open>block.go\<close>, \<open>bftMsg.go\<close>).

  Embedded Go structs are record extensions: a \<open>Header\<close> extends a \<open>HeaderForHash\<close>, a
  \<open>Block\<close> extends a \<open>Header\<close>. RLP encoding and Keccak-256 are third-party code and are
  arguments of the functions that use them. Go's fixed-size arrays (\<open>[20]byte\<close>, \<open>[32]byte\<close>)
  are byte lists, with the sizes in the predicates \<open>sized_tx\<close>, \<open>sized_header\<close> and so on.
\<close>

section \<open>Transactions\<close>

record DataTemplate =
  Parameter1 :: u32
  Parameter2 :: string
  Parameter3 :: bytes

definition NewDataTemplate :: "u32 \<Rightarrow> string \<Rightarrow> bytes \<Rightarrow> DataTemplate" where
  "NewDataTemplate p1 p2 p3 = \<lparr>Parameter1 = p1, Parameter2 = p2, Parameter3 = p3\<rparr>"

record Transaction =
  FromShard :: u32
  FromAddr :: address
  ToShard :: u32
  ToAddr :: address
  Value :: u64
  DataBytes :: bytes
  TxHash :: hash

definition zeroAddr :: address where "zeroAddr = replicate 20 0"
definition zeroHash :: hash where "zeroHash = replicate 32 0"

text \<open>
  \<open>ComputeHash\<close> encodes a copy of the transaction whose hash field is zero. The copy of
  the data bytes goes into a nil slice, and \<open>copy\<close> into a slice of length 0 copies nothing.
\<close>

definition ComputeHash :: "(Transaction \<Rightarrow> bytes) \<Rightarrow> (bytes \<Rightarrow> hash) \<Rightarrow> Transaction \<Rightarrow> hash" where
  "ComputeHash rlp keccak t =
     (let fromAddr = goCopy zeroAddr (FromAddr t);
          toAddr = goCopy zeroAddr (ToAddr t);
          dataBytes = goCopy [] (DataBytes t)
      in keccak (rlp \<lparr>FromShard = FromShard t, FromAddr = fromAddr, ToShard = ToShard t,
           ToAddr = toAddr, Value = Value t, DataBytes = dataBytes, TxHash = zeroHash\<rparr>))"

definition NewTransaction ::
  "(Transaction \<Rightarrow> bytes) \<Rightarrow> (bytes \<Rightarrow> hash) \<Rightarrow> u32 \<Rightarrow> u32 \<Rightarrow> address \<Rightarrow> address \<Rightarrow> u64 \<Rightarrow> bytes \<Rightarrow> Transaction" where
  "NewTransaction rlp keccak fromShard toShard fromAddr toAddr value dataBytes =
     (let tx = \<lparr>FromShard = fromShard, FromAddr = fromAddr, ToShard = toShard, ToAddr = toAddr,
                Value = value, DataBytes = dataBytes, TxHash = zeroHash\<rparr>
      in tx\<lparr>TxHash := ComputeHash rlp keccak tx\<rparr>)"

definition TxGetHash :: "Transaction \<Rightarrow> hash" where
  "TxGetHash t = TxHash t"

definition TxCopy :: "Transaction \<Rightarrow> Transaction" where
  "TxCopy t =
     \<lparr>FromShard = FromShard t, FromAddr = goCopy zeroAddr (FromAddr t), ToShard = ToShard t,
      ToAddr = goCopy zeroAddr (ToAddr t), Value = Value t,
      DataBytes = goCopy (replicate (length (DataBytes t)) 0) (DataBytes t),
      TxHash = goCopy zeroHash (TxHash t)\<rparr>"

section \<open>Headers\<close>

record HeaderForHash =
  ShardId :: u32
  PrevBlockHash :: hash
  Height :: u32
  OutboundDstBitmap :: Bitmap
  TxRoot :: hash
  StateRoot :: hash
  Timestamp :: u64

record Header = HeaderForHash +
  Hash :: hash
  SignBitMap :: Bitmap
  Signature :: bytes

definition NewHeaderForHash :: "'a Header_scheme \<Rightarrow> HeaderForHash" where
  "NewHeaderForHash h =
     \<lparr>ShardId = ShardId h, PrevBlockHash = PrevBlockHash h, Height = Height h,
      OutboundDstBitmap = OutboundDstBitmap h, TxRoot = TxRoot h, StateRoot = StateRoot h,
      Timestamp = Timestamp h\<rparr>"

definition HeaderComputeHash ::
  "(HeaderForHash \<Rightarrow> bytes) \<Rightarrow> (bytes \<Rightarrow> hash) \<Rightarrow> HeaderForHash \<Rightarrow> hash" where
  "HeaderComputeHash rlp keccak h = keccak (rlp h)"

definition HeaderGetHash ::
  "(HeaderForHash \<Rightarrow> bytes) \<Rightarrow> (bytes \<Rightarrow> hash) \<Rightarrow> 'a Header_scheme \<Rightarrow> hash" where
  "HeaderGetHash rlp keccak h = HeaderComputeHash rlp keccak (NewHeaderForHash h)"

definition NewHeader ::
  "(HeaderForHash \<Rightarrow> bytes) \<Rightarrow> (bytes \<Rightarrow> hash) \<Rightarrow> u32 \<Rightarrow> u32 \<Rightarrow> hash \<Rightarrow> hash \<Rightarrow> hash \<Rightarrow> Bitmap \<Rightarrow> u64 \<Rightarrow> Header" where
  "NewHeader rlp keccak shardId height prevBlockHash stateRoot txRoot outboundBitmap timestamp =
     (let header = \<lparr>ShardId = shardId, PrevBlockHash = prevBlockHash, Height = height,
          OutboundDstBitmap = outboundBitmap, TxRoot = txRoot, StateRoot = stateRoot,
          Timestamp = timestamp, Hash = zeroHash, SignBitMap = [], Signature = []\<rparr>
      in header\<lparr>Hash := HeaderComputeHash rlp keccak (NewHeaderForHash header)\<rparr>)"

text \<open>The composite literal that \<open>Copy\<close> returns does not mention \<open>SignBitMap\<close>: it is nil.\<close>

definition HeaderCopy :: "'a Header_scheme \<Rightarrow> Header" where
  "HeaderCopy h =
     \<lparr>ShardId = ShardId h, PrevBlockHash = goCopy zeroHash (PrevBlockHash h), Height = Height h,
      OutboundDstBitmap = BitmapCopy (OutboundDstBitmap h),
      TxRoot = goCopy zeroHash (TxRoot h), StateRoot = goCopy zeroHash (StateRoot h),
      Timestamp = Timestamp h, Hash = goCopy zeroHash (Hash h), SignBitMap = [],
      Signature = goCopy (replicate (length (Signature h)) 0) (Signature h)\<rparr>"

section \<open>Outbound chunks and blocks\<close>

record OutboundChunk =
  BlockHash :: hash
  Txs :: "Transaction list"
  ChunkProof :: "bytes list"

definition NewOutboundChunk :: "hash \<Rightarrow> Transaction list \<Rightarrow> bytes list \<Rightarrow> OutboundChunk" where
  "NewOutboundChunk blockHash txs proof = \<lparr>BlockHash = blockHash, Txs = txs, ChunkProof = proof\<rparr>"

definition ChunkCopy :: "OutboundChunk \<Rightarrow> OutboundChunk" where
  "ChunkCopy c =
     \<lparr>BlockHash = BlockHash c, Txs = map TxCopy (Txs c),
      ChunkProof = map (\<lambda>p. goCopy (replicate (length p) 0) p) (ChunkProof c)\<rparr>"

record Block = Header +
  Transactions :: "Transaction list"
  InboundChunks :: "OutboundChunk list"

definition NewBlock :: "Header \<Rightarrow> Transaction list \<Rightarrow> OutboundChunk list \<Rightarrow> Block" where
  "NewBlock h txs inboundChunks =
     Header.extend h \<lparr>Transactions = txs, InboundChunks = inboundChunks\<rparr>"

definition BlockCopy :: "Block \<Rightarrow> Block" where
  "BlockCopy blk =
     Header.extend (HeaderCopy blk)
       \<lparr>Transactions = map TxCopy (Transactions blk), InboundChunks = map ChunkCopy (InboundChunks blk)\<rparr>"

text \<open>\<open>types.Block{Header: h.Copy()}\<close>, the header-only block that the votes carry.\<close>

abbreviation headerOnly :: "Block \<Rightarrow> Block" where
  "headerOnly blk \<equiv> Header.extend (HeaderCopy blk) \<lparr>Transactions = [], InboundChunks = []\<rparr>"

section \<open>Consensus messages\<close>

datatype MessageType =
  MessageType_PREPARE | MessageType_PREPAREVOTE | MessageType_PRECOMMIT
| MessageType_PRECOMMITVOTE | MessageType_COMMIT | MessageType_COMMITVOTE

fun messageTypeByte :: "MessageType \<Rightarrow> byte" where
  "messageTypeByte MessageType_PREPARE = 0"
| "messageTypeByte MessageType_PREPAREVOTE = 1"
| "messageTypeByte MessageType_PRECOMMIT = 2"
| "messageTypeByte MessageType_PRECOMMITVOTE = 3"
| "messageTypeByte MessageType_COMMIT = 4"
| "messageTypeByte MessageType_COMMITVOTE = 5"

record BFTMessage =
  msgType :: MessageType
  BlockNum :: u32
  msgBlockHash :: hash
  msgBlock :: Block
  SenderSig :: bytes
  SenderPubkeyBitmap :: Bitmap

definition NewBFTMsg :: "MessageType \<Rightarrow> Block \<Rightarrow> bytes \<Rightarrow> Bitmap \<Rightarrow> BFTMessage" where
  "NewBFTMsg messageType block sign bitmap =
     \<lparr>msgType = messageType, BlockNum = Height block, msgBlockHash = Hash block,
      msgBlock = block, SenderSig = sign, SenderPubkeyBitmap = bitmap\<rparr>"

definition BFTMessageCopy :: "BFTMessage \<Rightarrow> BFTMessage" where
  "BFTMessageCopy msg =
     \<lparr>msgType = msgType msg, BlockNum = BlockNum msg,
      msgBlockHash = goCopy zeroHash (msgBlockHash msg), msgBlock = BlockCopy (msgBlock msg),
      SenderSig = goCopy (replicate (length (SenderSig msg)) 0) (SenderSig msg),
      SenderPubkeyBitmap = goCopy (replicate (length (SenderPubkeyBitmap msg)) 0) (SenderPubkeyBitmap msg)\<rparr>"

text \<open>Go's zero values, from which decoding starts.\<close>

definition zeroHeader :: Header where
  "zeroHeader = \<lparr>ShardId = 0, PrevBlockHash = zeroHash, Height = 0, OutboundDstBitmap = [],
     TxRoot = zeroHash, StateRoot = zeroHash, Timestamp = 0, Hash = zeroHash, SignBitMap = [],
     Signature = []\<rparr>"

definition zeroBlock :: Block where
  "zeroBlock = NewBlock zeroHeader [] []"

definition zeroChunk :: OutboundChunk where
  "zeroChunk = \<lparr>BlockHash = zeroHash, Txs = [], ChunkProof = []\<rparr>"

definition zeroBFT :: BFTMessage where
  "zeroBFT = \<lparr>msgType = MessageType_PREPARE, BlockNum = 0, msgBlockHash = zeroHash,
     msgBlock = zeroBlock, SenderSig = [], SenderPubkeyBitmap = []\<rparr>"

section \<open>Sizes, and what the copies preserve\<close>

definition sized_tx :: "Transaction \<Rightarrow> bool" where
  "sized_tx t \<longleftrightarrow> length (FromAddr t) = 20 \<and> length (ToAddr t) = 20 \<and> length (TxHash t) = 32"

definition sized_header :: "'a Header_scheme \<Rightarrow> bool" where
  "sized_header h \<longleftrightarrow> length (PrevBlockHash h) = 32 \<and> length (TxRoot h) = 32 \<and>
     length (StateRoot h) = 32 \<and> length (Hash h) = 32"

definition sized_chunk :: "OutboundChunk \<Rightarrow> bool" where
  "sized_chunk c \<longleftrightarrow> length (BlockHash c) = 32 \<and> list_all sized_tx (Txs c)"

definition sized_block :: "Block \<Rightarrow> bool" where
  "sized_block b \<longleftrightarrow> sized_header b \<and> list_all sized_tx (Transactions b) \<and>
     list_all sized_chunk (InboundChunks b)"

lemma length_zeroAddr [simp]: "length zeroAddr = 20"
  by (simp add: zeroAddr_def)

lemma length_zeroHash [simp]: "length zeroHash = 32"
  by (simp add: zeroHash_def)

lemma BitmapCopy_id [simp]: "BitmapCopy b = b"
  by (simp add: BitmapCopy_def)

lemma TxCopy_id: "sized_tx t \<Longrightarrow> TxCopy t = t"
  by (simp add: TxCopy_def sized_tx_def)

lemma map_TxCopy_id: "list_all sized_tx ts \<Longrightarrow> map TxCopy ts = ts"
  by (induction ts) (auto simp: TxCopy_id)

lemma ChunkCopy_id: "sized_chunk c \<Longrightarrow> ChunkCopy c = c"
  by (simp add: ChunkCopy_def sized_chunk_def map_TxCopy_id)

lemma HeaderCopy_eq: "sized_header h \<Longrightarrow> HeaderCopy h = Header.truncate h\<lparr>SignBitMap := []\<rparr>"
  by (simp add: HeaderCopy_def sized_header_def Header.defs)

lemma map_ChunkCopy_id: "list_all sized_chunk cs \<Longrightarrow> map ChunkCopy cs = cs"
  by (induction cs) (auto simp: ChunkCopy_id)

lemma BlockCopy_eq: "sized_block b \<Longrightarrow> BlockCopy b = b\<lparr>SignBitMap := []\<rparr>"
  by (simp add: BlockCopy_def sized_block_def HeaderCopy_eq map_TxCopy_id map_ChunkCopy_id Header.defs)

section \<open>Properties of the hashes\<close>

text \<open>
  The hash of a transaction does not cover its data. \<open>ComputeHash\<close> copies the data into
  a nil slice, so two transactions that differ in \<open>DataBytes\<close> only have the same hash, whatever
  the encoding and the hash function are.
\<close>

theorem ComputeHash_ignores_data:
  "ComputeHash rlp keccak (t\<lparr>DataBytes := d\<rparr>) = ComputeHash rlp keccak t"
  by (simp add: ComputeHash_def)

text \<open>
  \<open>Copy\<close> of a header keeps every field but the set of signers, which is empty in the copy;
  the signature itself is kept.
\<close>

theorem HeaderCopy_drops_signers:
  assumes "sized_header h"
  shows "HeaderCopy h = Header.truncate h\<lparr>SignBitMap := []\<rparr>"
  by (rule HeaderCopy_eq [OF assms])

theorem HeaderCopy_drops_signers_witness:
  "HeaderCopy (zeroHeader\<lparr>SignBitMap := [7], Signature := [1]\<rparr>) =
     Header.truncate (zeroHeader\<lparr>SignBitMap := [7], Signature := [1]\<rparr>)\<lparr>SignBitMap := []\<rparr>"
  by (rule HeaderCopy_drops_signers) (simp add: sized_header_def zeroHeader_def)

end
