(* ===== verification/Topics.thy ===== *)
theory Topics
  imports Prelude
begin

text \<open>
  The message topics of \<open>topics/topics.go\<close>: a one-byte tag put in front of every gossiped
  message, with a name for the log. \<open>Topic\<close> is Go's \<open>uint8\<close>, so every byte is a topic
  value and the table covers the first nineteen only.
\<close>

type_synonym Topic = byte

abbreviation Version :: Topic where "Version \<equiv> 0"
abbreviation UnknownTopic :: Topic where "UnknownTopic \<equiv> 1"
abbreviation Reject :: Topic where "Reject \<equiv> 2"
abbreviation HeaderGossip :: Topic where "HeaderGossip \<equiv> 6"
abbreviation BlockGossip :: Topic where "BlockGossip \<equiv> 7"
abbreviation TxGossip :: Topic where "TxGossip \<equiv> 9"
abbreviation OutboundChunkGossip :: Topic where "OutboundChunkGossip \<equiv> 10"
abbreviation ConsensusLeader :: Topic where "ConsensusLeader \<equiv> 12"
abbreviation ConsensusValidator :: Topic where "ConsensusValidator \<equiv> 13"

record topicBuf =
  tbTopic :: Topic
  tbBuffer :: bytes
  tbStr :: string

definition Topics :: "topicBuf list" where
  "Topics = map (\<lambda>(t, s). \<lparr>tbTopic = t, tbBuffer = [t], tbStr = s\<rparr>)
     [(0, ''version''), (1, ''unkonwn''), (2, ''reject''), (3, ''data''), (4, ''getData''),
      (5, ''PubGossip''), (6, ''getHeader''), (7, ''getBlock''), (8, ''getMBlock''), (9, ''tx''),
      (10, ''block''), (11, ''getStateBlock''), (12, ''consensusLeader''),
      (13, ''consensusValidator''), (14, ''CValidateRequest''), (15, ''MValidateRequest''),
      (16, ''ValidateResult''), (17, ''ShardReject''), (18, ''ShardChallenge'')]"

text \<open>\<open>checkConsistency\<close> panics (\<open>False\<close>) when a table entry is not at the index of its topic.\<close>

definition checkConsistency :: "topicBuf list \<Rightarrow> bool" where
  "checkConsistency ts \<longleftrightarrow> (\<forall>i < length ts. (of_nat i :: byte) = tbTopic (ts ! i))"

definition ToBuffer :: "Topic \<Rightarrow> bytes option" where
  "ToBuffer t = (if unat t < length Topics then Some (tbBuffer (Topics ! unat t)) else None)"

definition TopicString :: "Topic \<Rightarrow> string" where
  "TopicString t = (if length Topics > unat t then tbStr (Topics ! unat t) else ''unknown'')"

fun findTopic :: "topicBuf list \<Rightarrow> string \<Rightarrow> Topic" where
  "findTopic [] s = UnknownTopic"
| "findTopic (t # ts) s = (if tbStr t = s then tbTopic t else findTopic ts s)"

definition StringToTopic :: "string \<Rightarrow> Topic" where
  "StringToTopic s = findTopic Topics s"

text \<open>
  \<open>Prepend\<close> guards the table access with \<open>int(t) > len(Topics)\<close>, so the index
  \<open>len(Topics)\<close> itself falls through to the table access and panics (\<open>None\<close>).
\<close>

definition Prepend :: "bytes \<Rightarrow> Topic \<Rightarrow> bytes option" where
  "Prepend b t =
     (if unat t > length Topics then Some ([t] @ b)
      else if unat t < length Topics then Some (tbBuffer (Topics ! unat t) @ b)
      else None)"

text \<open>\<open>Extract\<close> reads one byte: the topic, whether the read failed (EOF), and the rest.\<close>

fun Extract :: "bytes \<Rightarrow> Topic \<times> bool \<times> bytes" where
  "Extract [] = (Reject, True, [])"
| "Extract (c # p) = (c, False, p)"

definition WriteTopic :: "bytes \<Rightarrow> Topic \<Rightarrow> bytes" where
  "WriteTopic w t = w @ [t]"

section \<open>Facts\<close>

lemma length_Topics [simp]: "length Topics = 19"
  by (simp add: Topics_def)

lemma Topics_columns:
  "map tbTopic Topics = map of_nat [0..<19]" "map tbBuffer Topics = map (\<lambda>i. [of_nat i]) [0..<19]"
  by (simp_all add: Topics_def upt_rec)

lemma Topics_entry: "unat t < 19 \<Longrightarrow> tbTopic (Topics ! unat t) = t \<and> tbBuffer (Topics ! unat t) = [t]"
proof -
  assume t: "unat t < 19"
  have "tbTopic (Topics ! unat t) = map tbTopic Topics ! unat t"
    "tbBuffer (Topics ! unat t) = map tbBuffer Topics ! unat t"
    using t by simp_all
  then show ?thesis using t by (simp add: Topics_columns)
qed

lemma findTopic_nth:
  assumes "distinct (map tbStr ts)" and "i < length ts"
  shows "findTopic ts (tbStr (ts ! i)) = tbTopic (ts ! i)"
  using assms
proof (induction ts arbitrary: i)
  case Nil
  then show ?case by simp
next
  case (Cons t ts)
  then show ?case by (cases i) (force simp: in_set_conv_nth)+
qed

lemma distinct_Topics: "distinct (map tbStr Topics)"
  by (simp add: Topics_def)

text \<open>
  The topic table is consistent, so the check that runs at start-up
  passes; every tabled topic is recovered from its name and from a message it was put in
  front of, and a message keeps its payload; an unknown name is the unknown topic.
\<close>

theorem topic_round_trips:
  "checkConsistency Topics \<and>
   (unat t \<noteq> 19 \<longrightarrow> (\<exists>m. Prepend b t = Some m \<and> Extract m = (t, False, b))) \<and>
   (unat t < 19 \<longrightarrow> StringToTopic (TopicString t) = t \<and> ToBuffer t = Some [t]) \<and>
   (unat t \<ge> 19 \<longrightarrow> StringToTopic (TopicString t) = UnknownTopic \<and> ToBuffer t = None)"
proof (intro conjI impI)
  show "checkConsistency Topics"
    unfolding checkConsistency_def
  proof (intro allI impI)
    fix i
    assume "i < length Topics"
    then show "of_nat i = tbTopic (Topics ! i)"
      using Topics_entry [of "of_nat i"] by (simp add: unat_of_nat)
  qed
  show "\<exists>m. Prepend b t = Some m \<and> Extract m = (t, False, b)" if "unat t \<noteq> 19"
    using that Topics_entry [of t] by (auto simp: Prepend_def)
  show "StringToTopic (TopicString t) = t" if "unat t < 19"
    using that Topics_entry [of t] findTopic_nth [OF distinct_Topics, of "unat t"]
    by (simp add: StringToTopic_def TopicString_def)
  show "ToBuffer t = Some [t]" if "unat t < 19"
    using that Topics_entry [of t] by (simp add: ToBuffer_def)
  show "StringToTopic (TopicString t) = UnknownTopic" if "unat t \<ge> 19"
    using that by (simp add: StringToTopic_def TopicString_def) (simp add: Topics_def)
  show "ToBuffer t = None" if "unat t \<ge> 19"
    using that by (simp add: ToBuffer_def)
qed

theorem topic_round_trips_witness:
  "unat (13 :: Topic) < 19 \<and> StringToTopic (TopicString 13) = 13 \<and>
   (\<exists>m. Prepend [7, 7] 13 = Some m \<and> Extract m = (13, False, [7, 7]))"
  using topic_round_trips [of 13 "[7, 7]"] by simp

text \<open>
  The range check of \<open>Prepend\<close> is off by one. It panics on the topic
  whose number is the size of the table, and on no other.
\<close>

theorem Prepend_panics_iff: "Prepend b t = None \<longleftrightarrow> t = 19"
proof -
  have "t = 19 \<longleftrightarrow> unat t = 19" by (simp add: word_unat_eq_iff)
  then show ?thesis by (auto simp: Prepend_def)
qed

end
