(* ===== verification/Message.thy ===== *)
theory Message
  imports Types Topics
begin

text \<open>
  The network message of \<open>message/bcmessage.go\<close>: a topic, a payload and the cached binary
  form. The RLP codec of each payload type is third-party code; it is the argument
  \<open>codec\<close>, one encoder and one decoder per type. A decoder returns the (possibly partly
  filled) value together with its error, because the code stores the value before it looks
  at the error.
\<close>

section \<open>Messages\<close>

datatype payload =
  PBlock Block | PHeader Header | PChunk OutboundChunk | PBFT BFTMessage

record 'err codec =
  encPayload :: "payload \<Rightarrow> bytes"
  decBlock :: "bytes \<Rightarrow> Block \<times> 'err option"
  decBFT :: "bytes \<Rightarrow> BFTMessage \<times> 'err option"
  decChunk :: "bytes \<Rightarrow> OutboundChunk \<times> 'err option"
  decHeader :: "bytes \<Rightarrow> Header \<times> 'err option"
  eofErr :: 'err

record BlockchainMessage =
  bcmTopic :: Topic
  bcmPayload :: "payload option"
  bcmMarshaled :: "bytes option"

definition NewBlockchainMessage :: "Topic \<Rightarrow> payload \<Rightarrow> BlockchainMessage" where
  "NewBlockchainMessage t p = \<lparr>bcmTopic = t, bcmPayload = Some p, bcmMarshaled = None\<rparr>"

definition SetPayload :: "BlockchainMessage \<Rightarrow> payload \<Rightarrow> BlockchainMessage" where
  "SetPayload m p = m\<lparr>bcmPayload := Some p\<rparr>"

text \<open>\<open>MarshalBinary\<close> returns the bytes and the message with its cache filled; \<open>None\<close> is a panic.\<close>

definition BcmMarshalBinary ::
  "'err codec \<Rightarrow> BlockchainMessage \<Rightarrow> (bytes \<times> BlockchainMessage) option" where
  "BcmMarshalBinary cd m =
     (case bcmMarshaled m of
        Some buf \<Rightarrow> Some (buf, m)
      | None \<Rightarrow>
         (case bcmPayload m of
            None \<Rightarrow> map_option (\<lambda>buf. (buf, m\<lparr>bcmMarshaled := Some buf\<rparr>)) (ToBuffer (bcmTopic m))
          | Some p \<Rightarrow> map_option (\<lambda>buf. (buf, m\<lparr>bcmMarshaled := Some buf\<rparr>))
                        (Prepend (encPayload cd p) (bcmTopic m))))"

text \<open>
  \<open>UnmarshalBinary\<close>: the topic is read first, then the payload type it selects. The error
  of the topic read is overwritten by the payload decoder's on the topics of the switch.
\<close>

definition BcmUnmarshalBinary ::
  "'err codec \<Rightarrow> BlockchainMessage \<Rightarrow> bytes \<Rightarrow> BlockchainMessage \<times> 'err option" where
  "BcmUnmarshalBinary cd m dat =
     (let (topic, eof, buf) = Extract dat;
          m1 = m\<lparr>bcmTopic := topic\<rparr>
      in if topic = BlockGossip then
           (let (b, err) = decBlock cd buf in (SetPayload m1 (PBlock b), err))
         else if topic = ConsensusLeader \<or> topic = ConsensusValidator then
           (let (v, err) = decBFT cd buf in (SetPayload m1 (PBFT v), err))
         else if topic = OutboundChunkGossip then
           (let (c, err) = decChunk cd buf in (SetPayload m1 (PChunk c), err))
         else if topic = HeaderGossip then
           (let (h, err) = decHeader cd buf in (SetPayload m1 (PHeader h), err))
         else (m1, if eof then Some (eofErr cd) else None))"

definition BcmEqual :: "'err codec \<Rightarrow> BlockchainMessage \<Rightarrow> BlockchainMessage \<Rightarrow> bool option" where
  "BcmEqual cd a b =
     (case (BcmMarshalBinary cd a, BcmMarshalBinary cd b) of
        (Some (x, _), Some (y, _)) \<Rightarrow> Some (x = y)
      | _ \<Rightarrow> None)"

definition CachedBinary :: "'err codec \<Rightarrow> BlockchainMessage \<Rightarrow> bytes option" where
  "CachedBinary cd m = map_option fst (BcmMarshalBinary cd m)"

definition BcmHeader :: "BlockchainMessage \<Rightarrow> bytes" where
  "BcmHeader m = []"

text \<open>\<open>ID\<close>: the first eight bytes of the MD5 sum, little endian. MD5 is a parameter.\<close>

definition BcmID :: "'err codec \<Rightarrow> (bytes \<Rightarrow> bytes) \<Rightarrow> BlockchainMessage \<Rightarrow> u64 option" where
  "BcmID cd md5 m = map_option
     (\<lambda>(dat, _). foldr (\<lambda>b acc. push_bit 8 acc OR ucast b) (take 8 (md5 dat)) 0)
     (BcmMarshalBinary cd m)"

section \<open>The codec contract and the round trip\<close>

text \<open>The topic under which the code gossips a payload.\<close>

fun topicFits :: "Topic \<Rightarrow> payload \<Rightarrow> bool" where
  "topicFits t (PBlock _) = (t = BlockGossip)"
| "topicFits t (PBFT _) = (t = ConsensusLeader \<or> t = ConsensusValidator)"
| "topicFits t (PChunk _) = (t = OutboundChunkGossip)"
| "topicFits t (PHeader _) = (t = HeaderGossip)"

text \<open>What the RLP package documents of \<open>EncodeToBytes\<close> and \<open>DecodeBytes\<close>, at one payload.\<close>

fun decodes :: "'err codec \<Rightarrow> payload \<Rightarrow> bool" where
  "decodes cd (PBlock b) = (decBlock cd (encPayload cd (PBlock b)) = (b, None))"
| "decodes cd (PBFT v) = (decBFT cd (encPayload cd (PBFT v)) = (v, None))"
| "decodes cd (PChunk c) = (decChunk cd (encPayload cd (PChunk c)) = (c, None))"
| "decodes cd (PHeader h) = (decHeader cd (encPayload cd (PHeader h)) = (h, None))"

lemma topicFits_tabled: "topicFits t p \<Longrightarrow> Prepend b t = Some (t # b)"
  by (cases p) (auto simp: Prepend_def Topics_def)

lemma BcmMarshalBinary_new:
  "topicFits t p \<Longrightarrow>
     BcmMarshalBinary cd (NewBlockchainMessage t p) =
       Some (t # encPayload cd p,
             NewBlockchainMessage t p\<lparr>bcmMarshaled := Some (t # encPayload cd p)\<rparr>)"
  by (simp add: BcmMarshalBinary_def NewBlockchainMessage_def topicFits_tabled)

lemma BcmUnmarshalBinary_frame:
  "topicFits t p \<Longrightarrow> decodes cd p \<Longrightarrow>
     BcmUnmarshalBinary cd m (t # encPayload cd p) = (SetPayload (m\<lparr>bcmTopic := t\<rparr>) p, None)"
  by (cases p) (auto simp: BcmUnmarshalBinary_def)

text \<open>
  A message sent under the topic of its payload is received unchanged. The
  bytes of \<open>MarshalBinary\<close>, given to \<open>UnmarshalBinary\<close> of a fresh message, give back topic
  and payload with no error, provided the payload's codec round-trips; and a second
  \<open>MarshalBinary\<close> returns the same bytes from the cache.
\<close>

theorem message_round_trip:
  assumes "topicFits t p" and "decodes cd p"
  shows "\<exists>buf m. BcmMarshalBinary cd (NewBlockchainMessage t p) = Some (buf, m) \<and>
      BcmMarshalBinary cd m = Some (buf, m) \<and>
      BcmUnmarshalBinary cd \<lparr>bcmTopic = 0, bcmPayload = None, bcmMarshaled = None\<rparr> buf
        = (NewBlockchainMessage t p, None)"
  using assms
  by (simp add: BcmMarshalBinary_new BcmUnmarshalBinary_frame)
    (simp add: BcmMarshalBinary_def NewBlockchainMessage_def SetPayload_def)

theorem message_round_trip_witness:
  defines "cd \<equiv> \<lparr>encPayload = (\<lambda>_. [192]), decBlock = (\<lambda>_. (zeroBlock, None)),
     decBFT = (\<lambda>_. (zeroBFT, None)), decChunk = (\<lambda>_. (zeroChunk, None)),
     decHeader = (\<lambda>_. (zeroHeader, None)), eofErr = ()\<rparr>"
  shows "topicFits HeaderGossip (PHeader zeroHeader) \<and> decodes cd (PHeader zeroHeader) \<and>
    (\<exists>m. BcmMarshalBinary cd (NewBlockchainMessage HeaderGossip (PHeader zeroHeader)) = Some ([6, 192], m))"
proof -
  have fits: "topicFits HeaderGossip (PHeader zeroHeader)" and dec: "decodes cd (PHeader zeroHeader)"
    by (simp_all add: cd_def)
  from message_round_trip [OF this] show ?thesis
    using fits dec by (auto simp: BcmMarshalBinary_new) (simp add: cd_def)
qed

end
