(* ===== verification/Eventbus.thy ===== *)
theory Eventbus
  imports Topics
begin

text \<open>
  The in-process publish/subscribe broker of \<open>eventbus/\<close>: listeners per topic, the default
  multi-topic listener, and delivery into bounded channels or callbacks.

  Channels are shared objects, so they live in a store from channel names to their
  capacity and contents; a callback listener runs its callback in a new goroutine, which
  the model records. \<open>Publish\<close> starts a goroutine that forwards to the default listener; it
  is queued in \<open>spawned\<close> and run by \<open>runForward\<close>, so an execution can interleave it with
  other operations. The identifiers the code draws from \<open>crypto/rand\<close> are arguments.
\<close>

section \<open>Listeners\<close>

type_synonym chanId = nat

datatype Listener = ChanListener chanId | CallbackListener nat

record 'm channel =
  chanCap :: nat
  chanBuf :: "'m list"

record idListener =
  lisId :: u32
  lisOf :: Listener

record 'm EventBus =
  listeners :: "Topic \<Rightarrow> idListener list"
  mlSet :: "Topic set"
  dispatchers :: "idListener list"
  chans :: "chanId \<Rightarrow> 'm channel"
  called :: "(nat \<times> 'm) list"
  spawned :: "(Topic \<times> 'm) list"

datatype busErr = ChannelFull

text \<open>\<open>Notify\<close>: a full channel is an error, a callback always succeeds.\<close>

fun Notify :: "Listener \<Rightarrow> 'm \<Rightarrow> 'm EventBus \<Rightarrow> busErr option \<times> 'm EventBus" where
  "Notify (ChanListener c) m bus =
     (let ch = chans bus c in
      if length (chanBuf ch) < chanCap ch
      then (None, bus\<lparr>chans := (chans bus)(c := ch\<lparr>chanBuf := chanBuf ch @ [m]\<rparr>)\<rparr>)
      else (Some ChannelFull, bus))"
| "Notify (CallbackListener k) m bus = (None, bus\<lparr>called := called bus @ [(k, m)]\<rparr>)"

fun notifyAll :: "idListener list \<Rightarrow> 'm \<Rightarrow> 'm EventBus \<Rightarrow> busErr list \<times> 'm EventBus" where
  "notifyAll [] m bus = ([], bus)"
| "notifyAll (l # ls) m bus =
     (let (e, bus1) = Notify (lisOf l) m bus; (es, bus2) = notifyAll ls m bus1
      in ((case e of None \<Rightarrow> es | Some x \<Rightarrow> x # es), bus2))"

section \<open>The listener map\<close>

definition NewBus :: "(chanId \<Rightarrow> 'm channel) \<Rightarrow> 'm EventBus" where
  "NewBus cs = \<lparr>listeners = (\<lambda>_. []), mlSet = {}, dispatchers = [], chans = cs, called = [], spawned = []\<rparr>"

definition StoreListener :: "u32 \<Rightarrow> Topic \<Rightarrow> Listener \<Rightarrow> 'm EventBus \<Rightarrow> u32 \<times> 'm EventBus" where
  "StoreListener rnd t lis bus =
     (let i = rnd mod 32 in
      (i, bus\<lparr>listeners := (listeners bus)(t := listeners bus t @ [\<lparr>lisId = i, lisOf = lis\<rparr>])\<rparr>))"

definition LoadListeners :: "Topic \<Rightarrow> 'm EventBus \<Rightarrow> idListener list" where
  "LoadListeners t bus = goCopy (replicate (length (listeners bus t)) \<lparr>lisId = 0, lisOf = CallbackListener 0\<rparr>) (listeners bus t)"

fun removeFirst :: "u32 \<Rightarrow> idListener list \<Rightarrow> idListener list" where
  "removeFirst i [] = []"
| "removeFirst i (l # ls) = (if lisId l = i then ls else l # removeFirst i ls)"

definition DeleteListener :: "Topic \<Rightarrow> u32 \<Rightarrow> 'm EventBus \<Rightarrow> bool \<times> 'm EventBus" where
  "DeleteListener t i bus =
     (i \<in> lisId ` set (listeners bus t),
      bus\<lparr>listeners := (listeners bus)(t := removeFirst i (listeners bus t))\<rparr>)"

definition Subscribe :: "u32 \<Rightarrow> Topic \<Rightarrow> Listener \<Rightarrow> 'm EventBus \<Rightarrow> u32 \<times> 'm EventBus" where
  "Subscribe rnd t lis bus = StoreListener rnd t lis bus"

definition Unsubscribe :: "Topic \<Rightarrow> u32 \<Rightarrow> 'm EventBus \<Rightarrow> 'm EventBus" where
  "Unsubscribe t i bus = snd (DeleteListener t i bus)"

definition Publish :: "Topic \<Rightarrow> 'm \<Rightarrow> 'm EventBus \<Rightarrow> busErr list \<times> 'm EventBus" where
  "Publish t m bus = notifyAll (LoadListeners t bus) m (bus\<lparr>spawned := spawned bus @ [(t, m)]\<rparr>)"

section \<open>The default listener\<close>

definition mlAdd :: "Topic \<Rightarrow> 'm EventBus \<Rightarrow> 'm EventBus" where
  "mlAdd t bus = bus\<lparr>mlSet := insert t (mlSet bus)\<rparr>"

definition AddTopicDefault :: "Topic list \<Rightarrow> 'm EventBus \<Rightarrow> 'm EventBus" where
  "AddTopicDefault ts bus = fold mlAdd ts bus"

definition mlForward :: "Topic \<Rightarrow> 'm \<Rightarrow> 'm EventBus \<Rightarrow> busErr list \<times> 'm EventBus" where
  "mlForward t m bus = (if t \<notin> mlSet bus then ([], bus) else notifyAll (dispatchers bus) m bus)"

definition mlStore :: "u32 \<Rightarrow> Listener \<Rightarrow> 'm EventBus \<Rightarrow> u32 \<times> 'm EventBus" where
  "mlStore rnd lis bus =
     (let i = rnd mod 32 in (i, bus\<lparr>dispatchers := dispatchers bus @ [\<lparr>lisId = i, lisOf = lis\<rparr>]\<rparr>))"

definition SubscribeDefault :: "u32 \<Rightarrow> Listener \<Rightarrow> 'm EventBus \<Rightarrow> u32 \<times> 'm EventBus" where
  "SubscribeDefault rnd lis bus = mlStore rnd lis bus"

definition mlDelete :: "u32 \<Rightarrow> 'm EventBus \<Rightarrow> bool \<times> 'm EventBus" where
  "mlDelete i bus = (i \<in> lisId ` set (dispatchers bus), bus\<lparr>dispatchers := removeFirst i (dispatchers bus)\<rparr>)"

text \<open>A queued forwarding goroutine runs.\<close>

fun runForward :: "'m EventBus \<Rightarrow> 'm EventBus" where
  "runForward bus = (case spawned bus of [] \<Rightarrow> bus
     | (t, m) # rest \<Rightarrow> snd (mlForward t m (bus\<lparr>spawned := rest\<rparr>)))"

section \<open>Delivery\<close>

lemma LoadListeners_eq [simp]: "LoadListeners t bus = listeners bus t"
  by (simp add: LoadListeners_def)

lemma Notify_frame [frame]:
  "listeners (snd (Notify l m bus)) = listeners bus"
  "mlSet (snd (Notify l m bus)) = mlSet bus"
  "dispatchers (snd (Notify l m bus)) = dispatchers bus"
  "spawned (snd (Notify l m bus)) = spawned bus"
  by (cases l; simp add: Let_def)+

lemma notifyAll_frame [frame]:
  "listeners (snd (notifyAll ls m bus)) = listeners bus"
  "mlSet (snd (notifyAll ls m bus)) = mlSet bus"
  "dispatchers (snd (notifyAll ls m bus)) = dispatchers bus"
  "spawned (snd (notifyAll ls m bus)) = spawned bus"
  by (induction ls arbitrary: bus) (auto simp: split_beta Let_def frame)

text \<open>
  What a list of listeners makes of a message: \<open>entries\<close> counts how often it names a channel, \<open>room\<close> is the free part of the
  channel's buffer, \<open>callbacks\<close> lists the callbacks in order, \<open>lost\<close> counts the copies that find no room.
\<close>

definition room :: "'m EventBus \<Rightarrow> chanId \<Rightarrow> nat" where
  "room bus c = chanCap (chans bus c) - length (chanBuf (chans bus c))"

definition entries :: "chanId \<Rightarrow> idListener list \<Rightarrow> nat" where
  "entries c ls = length (filter (\<lambda>l. lisOf l = ChanListener c) ls)"

definition callbacks :: "idListener list \<Rightarrow> nat list" where
  "callbacks ls = concat (map (\<lambda>l. case lisOf l of CallbackListener k \<Rightarrow> [k] | ChanListener c \<Rightarrow> []) ls)"

definition channelsOf :: "idListener list \<Rightarrow> chanId set" where
  "channelsOf ls = {c. ChanListener c \<in> lisOf ` set ls}"

definition lost :: "'m EventBus \<Rightarrow> idListener list \<Rightarrow> nat" where
  "lost bus ls = (\<Sum>c\<in>channelsOf ls. entries c ls - room bus c)"

lemma entries_simps [simp]:
  "entries c [] = 0"
  "entries c (l # ls) = (if lisOf l = ChanListener c then Suc (entries c ls) else entries c ls)"
  by (simp_all add: entries_def)

lemma callbacks_simps [simp]:
  "callbacks [] = []"
  "callbacks (l # ls) = (case lisOf l of CallbackListener k \<Rightarrow> [k] | ChanListener c \<Rightarrow> []) @ callbacks ls"
  by (simp_all add: callbacks_def)

lemma finite_channelsOf: "finite (channelsOf ls)"
proof -
  have "channelsOf ls = ChanListener -` (lisOf ` set ls)" by (auto simp: channelsOf_def)
  then show ?thesis by (simp add: finite_vimageI inj_def)
qed

lemma notifyAll_called:
  "called (snd (notifyAll ls m bus)) = called bus @ map (\<lambda>k. (k, m)) (callbacks ls)"
proof (induction ls arbitrary: bus)
  case (Cons l ls)
  then show ?case by (cases "lisOf l") (simp_all add: split_beta Let_def)
qed simp

lemma notifyAll_chans:
  "chans (snd (notifyAll ls m bus)) c =
     (chans bus c)\<lparr>chanBuf := chanBuf (chans bus c) @ replicate (min (room bus c) (entries c ls)) m\<rparr>"
proof (induction ls arbitrary: bus)
  case (Cons l ls)
  show ?case
  proof (cases "lisOf l = ChanListener c")
    case True
    show ?thesis
    proof (cases "length (chanBuf (chans bus c)) < chanCap (chans bus c)")
      case free: True
      then have "room bus c = Suc (room (snd (Notify (lisOf l) m bus)) c)" using True by (simp add: room_def Let_def)
      then show ?thesis using True free Cons by (simp add: split_beta Let_def)
    next
      case False
      then have "room bus c = 0" by (simp add: room_def)
      then show ?thesis using True False Cons by (simp add: split_beta Let_def)
    qed
  next
    case False
    then have "chans (snd (Notify (lisOf l) m bus)) c = chans bus c" by (cases "lisOf l") (auto simp: Let_def)
    then show ?thesis using False Cons by (simp add: split_beta Let_def room_def)
  qed
qed simp

lemma notifyAll_lost:
  "finite A \<Longrightarrow> channelsOf ls \<subseteq> A \<Longrightarrow>
     fst (notifyAll ls m bus) = replicate (\<Sum>c\<in>A. entries c ls - room bus c) ChannelFull"
proof (induction ls arbitrary: bus)
  case (Cons l ls)
  let ?bus = "snd (Notify (lisOf l) m bus)"
  have sub: "channelsOf ls \<subseteq> A" using Cons.prems(2) by (auto simp: channelsOf_def)
  have IH: "fst (notifyAll ls m b) = replicate (\<Sum>c\<in>A. entries c ls - room b c) ChannelFull" for b :: "'a EventBus"
    by (rule Cons.IH [OF Cons.prems(1) sub])
  show ?case
  proof (cases "lisOf l")
    case (CallbackListener k)
    then show ?thesis using IH by (simp add: split_beta Let_def room_def)
  next
    case (ChanListener c)
    then have c: "c \<in> A" using Cons.prems(2) by (force simp: channelsOf_def)
    have keep: "(\<Sum>x\<in>A - {c}. entries x (l # ls) - room bus x) = (\<Sum>x\<in>A - {c}. entries x ls - room ?bus x)"
      using ChanListener by (intro sum.cong) (auto simp: room_def Let_def)
    note split = sum.remove [OF Cons.prems(1) c, of "\<lambda>x. entries x (l # ls) - room bus x"]
      sum.remove [OF Cons.prems(1) c, of "\<lambda>x. entries x ls - room ?bus x"]
    show ?thesis
    proof (cases "length (chanBuf (chans bus c)) < chanCap (chans bus c)")
      case True
      then have "room bus c = Suc (room ?bus c)" "fst (Notify (lisOf l) m bus) = None"
        using ChanListener by (simp_all add: room_def Let_def)
      then have "(\<Sum>x\<in>A. entries x (l # ls) - room bus x) = (\<Sum>x\<in>A. entries x ls - room ?bus x)"
        unfolding split keep using ChanListener by simp
      then show ?thesis using IH [of ?bus] \<open>fst (Notify (lisOf l) m bus) = None\<close> by (simp add: split_beta Let_def)
    next
      case False
      then have f: "room bus c = 0" "room ?bus c = 0" "fst (Notify (lisOf l) m bus) = Some ChannelFull"
        using ChanListener by (simp_all add: room_def Let_def)
      then have "(\<Sum>x\<in>A. entries x (l # ls) - room bus x) = Suc (\<Sum>x\<in>A. entries x ls - room ?bus x)"
        unfolding split keep using ChanListener by simp
      then show ?thesis using IH [of ?bus] f(3) by (simp add: split_beta Let_def)
    qed
  qed
qed (simp add: room_def)

lemma removeFirst_append_fresh:
  "i \<notin> lisId ` set ls \<Longrightarrow> removeFirst i (ls @ [l]) = (if lisId l = i then ls else ls @ [l])"
  by (induction ls) auto

lemma removeFirst_hit: "i \<in> lisId ` set ls \<Longrightarrow> removeFirst i (ls @ [l]) = removeFirst i ls @ [l]"
  by (induction ls) auto

lemma length_removeFirst: "i \<in> lisId ` set ls \<Longrightarrow> length ls = Suc (length (removeFirst i ls))"
  by (induction ls) auto

text \<open>
  C32: what a publication does. Every listener of the topic is notified, in order, once for each time it is subscribed:
  every callback is called with the message, in the order of the subscriptions, and every channel receives one copy per subscription until its buffer
  is full. A copy that finds the buffer full is lost to that listener and gives one error; no other channel changes,
  the subscriptions do not change, and the message is queued once for the default listener.
\<close>

theorem Publish_delivers:
  assumes "Publish t m bus = (errs, bus')"
  shows "(\<forall>c. chans bus' c =
        (chans bus c)\<lparr>chanBuf := chanBuf (chans bus c) @ replicate (min (room bus c) (entries c (listeners bus t))) m\<rparr>) \<and>
     called bus' = called bus @ map (\<lambda>k. (k, m)) (callbacks (listeners bus t)) \<and>
     errs = replicate (lost bus (listeners bus t)) ChannelFull \<and>
     listeners bus' = listeners bus \<and> mlSet bus' = mlSet bus \<and> dispatchers bus' = dispatchers bus \<and>
     spawned bus' = spawned bus @ [(t, m)]"
proof -
  let ?ls = "listeners bus t" and ?b = "bus\<lparr>spawned := spawned bus @ [(t, m)]\<rparr>"
  have r: "room ?b c = room bus c" for c by (simp add: room_def)
  have bus': "bus' = snd (notifyAll ?ls m ?b)" and errs: "errs = fst (notifyAll ?ls m ?b)"
    using assms by (simp_all add: Publish_def)
  show ?thesis
    using notifyAll_lost [OF finite_channelsOf subset_refl, of ?ls m ?b]
    unfolding bus' errs lost_def by (simp add: frame notifyAll_chans notifyAll_called r)
qed

text \<open>
  Subscribing and then unsubscribing with the returned identifier
  restores the subscriptions of every topic when the identifier was not in use on the topic.
  When it was, the new subscriber stays and an older one is removed.
\<close>

theorem Unsubscribe_after_Subscribe:
  assumes "Subscribe rnd t lis bus = (i, bus')"
  shows "if i \<notin> lisId ` set (listeners bus t)
      then listeners (Unsubscribe t i bus') = listeners bus
      else listeners (Unsubscribe t i bus') t = removeFirst i (listeners bus t) @ [\<lparr>lisId = i, lisOf = lis\<rparr>] \<and>
        length (listeners (Unsubscribe t i bus') t) = length (listeners bus t)"
proof -
  have bus': "listeners bus' = (listeners bus)(t := listeners bus t @ [\<lparr>lisId = i, lisOf = lis\<rparr>])"
    using assms by (auto simp: Subscribe_def StoreListener_def Let_def)
  then show ?thesis
    using length_removeFirst [of i "listeners bus t"]
    by (simp add: Unsubscribe_def DeleteListener_def removeFirst_append_fresh removeFirst_hit)
qed

fun subscribeAll :: "Topic \<Rightarrow> (u32 \<times> Listener) list \<Rightarrow> 'm EventBus \<Rightarrow> 'm EventBus" where
  "subscribeAll t [] bus = bus"
| "subscribeAll t ((r, l) # rs) bus = subscribeAll t rs (snd (Subscribe r t l bus))"

lemma subscribeAll_ids:
  "map lisId (listeners (subscribeAll t rs bus) t) = map lisId (listeners bus t) @ map (\<lambda>(r, l). r mod 32) rs"
  by (induction t rs bus rule: subscribeAll.induct) (auto simp: Subscribe_def StoreListener_def Let_def)

text \<open>
  C33: identifiers are drawn from 32 values, so a topic with more than 32
  subscribers has two with the same identifier, whatever the random numbers are.
\<close>

theorem Subscribe_ids_collide:
  assumes "length rs > 32"
  shows "\<not> distinct (map lisId (listeners (subscribeAll t rs bus) t))"
proof
  let ?ids = "map (\<lambda>(r, l). r mod 32) rs"
  assume "distinct (map lisId (listeners (subscribeAll t rs bus) t))"
  then have "distinct ?ids" by (simp add: subscribeAll_ids)
  then have "card (set ?ids) = length rs" using distinct_card [of ?ids] by simp
  moreover have "unat (r mod 32) < 32" for r :: u32
    by (simp add: unat_mod)
  then have "unat ` set ?ids \<subseteq> {..<32}" by auto
  then have "card (unat ` set ?ids) \<le> 32"
    using card_mono [of "{..<32::nat}" "unat ` set ?ids"] by simp
  moreover have "card (unat ` set ?ids) = card (set ?ids)"
    by (rule card_image) (rule inj_onI, simp only: word_unat_eq_iff)
  ultimately show False using assms by simp
qed

text \<open>Two subscriptions of a channel with room for one message, and a callback between them.\<close>

definition busyBus :: "nat EventBus" where
  "busyBus = subscribeAll HeaderGossip [(5, ChanListener 0), (37, CallbackListener 3), (6, ChanListener 0)]
     (NewBus (\<lambda>_. \<lparr>chanCap = 1, chanBuf = []\<rparr>))"

theorem Publish_delivers_witness:
  "\<exists>errs bus'. Publish HeaderGossip 42 busyBus = (errs, bus') \<and>
     chanBuf (chans bus' 0) = [42] \<and> called bus' = [(3, 42)] \<and> errs = [ChannelFull]"
proof -
  obtain errs bus' where p: "Publish HeaderGossip 42 busyBus = (errs, bus')" by fastforce
  have l: "listeners busyBus HeaderGossip =
      [\<lparr>lisId = 5, lisOf = ChanListener 0\<rparr>, \<lparr>lisId = 5, lisOf = CallbackListener 3\<rparr>, \<lparr>lisId = 6, lisOf = ChanListener 0\<rparr>]"
    "chans busyBus = (\<lambda>_. \<lparr>chanCap = 1, chanBuf = []\<rparr>)" "called busyBus = []"
    by (simp_all add: busyBus_def Subscribe_def StoreListener_def NewBus_def Let_def)
  have "channelsOf (listeners busyBus HeaderGossip) = {0}" by (auto simp: l channelsOf_def)
  then have "lost busyBus (listeners busyBus HeaderGossip) = 1" by (simp add: lost_def room_def l)
  with Publish_delivers [OF p] p show ?thesis by (simp add: l room_def)
qed

theorem Unsubscribe_after_Subscribe_witness:
  "\<exists>i bus'. Subscribe 5 HeaderGossip (ChanListener 0) (NewBus (\<lambda>_. \<lparr>chanCap = 1, chanBuf = [] :: nat list\<rparr>)) = (i, bus') \<and>
     listeners (Unsubscribe HeaderGossip i bus') = (\<lambda>_. [])"
proof -
  obtain i bus' where s: "Subscribe 5 HeaderGossip (ChanListener 0)
      (NewBus (\<lambda>_. \<lparr>chanCap = 1, chanBuf = [] :: nat list\<rparr>)) = (i, bus')"
    by (metis surj_pair)
  from Unsubscribe_after_Subscribe [OF s] have "listeners (Unsubscribe HeaderGossip i bus') = (\<lambda>_. [])"
    by (simp add: NewBus_def)
  with s show ?thesis by blast
qed

theorem Subscribe_ids_collide_witness:
  "\<not> distinct (map lisId (listeners
     (subscribeAll HeaderGossip (replicate 33 (0, ChanListener 0)) (NewBus (\<lambda>_. \<lparr>chanCap = 1, chanBuf = [] :: nat list\<rparr>)))
     HeaderGossip))"
  by (rule Subscribe_ids_collide) simp

end
