(* ===== verification/Encoding.thy ===== *)
theory Encoding
  imports Prelude
begin

text \<open>
  The three key encodings of the binary Merkle Patricia trie (\<open>trie/encoding.go\<close>):
  KEYBYTES (the key), BINARY (one byte per bit, then the terminator 2), and COMPACT (a flag
  nibble for terminator and length, then the bits packed into bytes). The upstream code used
  hexadecimal digits; here a digit is a bit, so lengths are taken modulo 8.

  A run-time panic (slice index out of range, explicit \<open>panic\<close>) is \<open>None\<close>.
\<close>

section \<open>Operations\<close>

text \<open>The body of the loop of \<open>keybytesToBinary\<close>, with its successive reductions of \<open>b\<close>.\<close>

definition byteDigits :: "byte \<Rightarrow> bytes" where
  "byteDigits b =
     (let d7 = b div 128; b = b mod 128;
          d6 = b div 64;  b = b mod 64;
          d5 = b div 32;  b = b mod 32;
          d4 = b div 16;  b = b mod 16;
          d3 = b div 8;   b = b mod 8;
          d2 = b div 4;   b = b mod 4;
          d1 = b div 2;   b = b mod 2
      in [d7, d6, d5, d4, d3, d2, d1, b])"

definition keybytesToBinary :: "bytes \<Rightarrow> bytes" where
  "keybytesToBinary str = concat (map byteDigits str) @ [2]"

definition hasTermBin :: "bytes \<Rightarrow> bool" where
  "hasTermBin s \<longleftrightarrow> length s > 0 \<and> s ! (length s - 1) = 2"

text \<open>\<open>x0<<(n-1) | x1<<(n-2) | ... | x(n-1)\<close>, as the packing loops compute it.\<close>

fun packBits :: "bytes \<Rightarrow> byte" where
  "packBits [] = 0"
| "packBits (x # xs) = push_bit (length xs) x OR packBits xs"

text \<open>
  \<open>decodeNibblesBin\<close> fills a destination slice from groups of eight digits; a last group
  that is not full, or a destination that is too short, is an index panic.
\<close>

fun decodeGroups :: "bytes \<Rightarrow> bytes option" where
  "decodeGroups [] = Some []"
| "decodeGroups (a # b # c # d # e # f # g # h # rest) =
     map_option (\<lambda>bs. packBits [a, b, c, d, e, f, g, h] # bs) (decodeGroups rest)"
| "decodeGroups _ = None"

definition decodeNibblesBin :: "bytes \<Rightarrow> bytes \<Rightarrow> bytes option" where
  "decodeNibblesBin nibbles dst =
     (case decodeGroups nibbles of
        None \<Rightarrow> None
      | Some bs \<Rightarrow> if length bs \<le> length dst then Some (bs @ drop (length bs) dst) else None)"

definition binaryToKeybytes :: "bytes \<Rightarrow> bytes option" where
  "binaryToKeybytes bin =
     (let bin = (if hasTermBin bin then take (length bin - 1) bin else bin) in
      if length bin mod 8 \<noteq> 0 then None
      else decodeNibblesBin bin (replicate (length bin div 8) 0))"

definition compactToBinary :: "bytes \<Rightarrow> bytes option" where
  "compactToBinary compact =
     (if compact = [] then Some compact
      else
        let base = keybytesToBinary compact;
            base = (if base ! 0 = 0 then take (length base - 1) base else base);
            binodd = push_bit 2 (base ! 1) + push_bit 1 (base ! 2) + base ! 3;
            chop = (if binodd > 4 then 4 + 4 + 8 - binodd else 4 + 4 - binodd)
        in if unat chop \<le> length base then Some (drop (unat chop) base) else None)"

definition binaryToCompact :: "bytes \<Rightarrow> bytes option" where
  "binaryToCompact binary =
     (let terminator = (if hasTermBin binary then 1 else 0);
          binary = (if hasTermBin binary then take (length binary - 1) binary else binary);
          buf = replicate ((length binary + 3) div 8 + 1) 0;
          binodd = length binary mod 8;
          flag = push_bit 7 terminator OR push_bit 4 (of_nat binodd);
          head = packBits (take binodd binary)
      in if binodd > 4
         then map_option (\<lambda>bs. flag # (0 OR head) # bs)
                (decodeNibblesBin (drop binodd binary) (drop 2 buf))
         else map_option (\<lambda>bs. (flag OR head) # bs)
                (decodeNibblesBin (drop binodd binary) (drop 1 buf)))"

text \<open>
  The in-place variant that the stack trie uses: it overwrites its argument and returns how
  many bytes of it are the compact form. \<open>inPlaceLoop\<close> is its last loop.
\<close>

definition packAt :: "bytes \<Rightarrow> nat \<Rightarrow> byte" where
  "packAt buf ni = packBits (map (\<lambda>k. buf ! (ni + k)) [0..<8])"

function inPlaceLoop :: "nat \<Rightarrow> nat \<Rightarrow> nat \<Rightarrow> bytes \<Rightarrow> bytes" where
  "inPlaceLoop ni bi n buf =
     (if ni < n then inPlaceLoop (ni + 8) (bi + 1) n (buf[bi := packAt buf ni]) else buf)"
  by pat_completeness auto
termination
  by (relation "measure (\<lambda>(ni, bi, n, buf). n - ni)") auto

declare inPlaceLoop.simps [simp del]

definition binaryToCompactInPlace :: "bytes \<Rightarrow> (nat \<times> bytes) option" where
  "binaryToCompactInPlace binary =
     (if binary = [] then None
      else
        let term = binary ! (length binary - 1) = 2;
            binaryLen = (if term then length binary - 1 else length binary);
            binaryodd = binaryLen mod 8;
            firstByte = (if term then push_bit 7 1 else 0) OR push_bit 4 (of_nat binaryodd);
            binLen = (binaryLen + 3) div 8 + 1;
            head = packBits (take binaryodd binary)
        in if binaryodd > 4
           then let buf = inPlaceLoop binaryodd 2 binaryLen (binary[1 := 0 OR head])
                in Some (binLen, buf[0 := firstByte])
           else let buf = inPlaceLoop binaryodd 1 binaryLen binary
                in Some (binLen, buf[0 := firstByte OR head]))"

fun prefixLen :: "bytes \<Rightarrow> bytes \<Rightarrow> nat" where
  "prefixLen (a # as) (b # bs) = (if a \<noteq> b then 0 else Suc (prefixLen as bs))"
| "prefixLen _ _ = 0"

section \<open>Bits\<close>

definition isBits :: "bytes \<Rightarrow> bool" where
  "isBits xs \<longleftrightarrow> list_all (\<lambda>x. x = 0 \<or> x = 1) xs"

lemma isBits_simps [simp]:
  "isBits []" "isBits (x # xs) \<longleftrightarrow> (x = 0 \<or> x = 1) \<and> isBits xs"
  "isBits (xs @ ys) \<longleftrightarrow> isBits xs \<and> isBits ys"
  by (auto simp: isBits_def)

lemma isBits_zeros [simp]: "isBits (replicate n 0)"
  by (simp add: isBits_def list_all_length)

lemma isBits_take_drop: "isBits xs \<Longrightarrow> isBits (take n xs) \<and> isBits (drop n xs)"
  by (metis append_take_drop_id isBits_simps(3))

lemma digit_of_bit: "drop_bit k (take_bit (Suc k) (b :: byte)) = of_bool (bit b k)"
  by (auto simp: drop_bit_take_bit bit_iff_odd_drop_bit odd_iff_mod_2_eq_one even_iff_mod_2_eq_zero)

lemma take_bit_8_byte [simp]: "take_bit 8 (b :: byte) = b"
  using take_bit_length_eq [of b] by simp

lemma byteDigits_bits: "byteDigits b = map (\<lambda>k. of_bool (bit b k)) [7, 6, 5, 4, 3, 2, 1, 0]"
proof -
  have t: "b mod 128 = take_bit 7 b" "\<And>c :: byte. c mod 64 = take_bit 6 c" "\<And>c :: byte. c mod 32 = take_bit 5 c"
    "\<And>c :: byte. c mod 16 = take_bit 4 c" "\<And>c :: byte. c mod 8 = take_bit 3 c"
    "\<And>c :: byte. c mod 4 = take_bit 2 c" "\<And>c :: byte. c mod 2 = take_bit 1 c"
    by (simp_all add: take_bit_eq_mod)
  have d: "b div 128 = drop_bit 7 (take_bit 8 b)" "\<And>c :: byte. c div 64 = drop_bit 6 c" "\<And>c :: byte. c div 32 = drop_bit 5 c"
    "\<And>c :: byte. c div 16 = drop_bit 4 c" "\<And>c :: byte. c div 8 = drop_bit 3 c"
    "\<And>c :: byte. c div 4 = drop_bit 2 c" "\<And>c :: byte. c div 2 = drop_bit 1 c"
    by (simp_all add: drop_bit_eq_div)
  have one: "take_bit 1 b = of_bool (bit b 0)" using digit_of_bit [of 0 b] by simp
  show ?thesis
    unfolding byteDigits_def Let_def t d
    using digit_of_bit [of 7 b] digit_of_bit [of 6 b] digit_of_bit [of 5 b] digit_of_bit [of 4 b]
      digit_of_bit [of 3 b] digit_of_bit [of 2 b] digit_of_bit [of 1 b] one
    by (simp add: eval_nat_numeral del: take_bit_Suc)
qed

lemma length_byteDigits [simp]: "length (byteDigits b) = 8"
  by (simp add: byteDigits_def Let_def)

lemma isBits_byteDigits [simp]: "isBits (byteDigits b)"
  by (simp add: byteDigits_bits)

lemma byteDigits_nth: "i < 8 \<Longrightarrow> byteDigits b ! i = of_bool (bit b (7 - i))"
proof -
  have "byteDigits b = map (\<lambda>i. of_bool (bit b (7 - i))) [0..<8]"
    by (simp add: byteDigits_bits upt_rec)
  then show "i < 8 \<Longrightarrow> ?thesis" by simp
qed

lemma bit_packBits:
  "isBits xs \<Longrightarrow> k < 8 \<Longrightarrow>
     bit (packBits xs) k \<longleftrightarrow> k < length xs \<and> xs ! (length xs - 1 - k) = 1"
proof (induction xs)
  case Nil
  then show ?case by simp
next
  case (Cons x xs)
  show ?case
  proof (cases "k = length xs")
    case True
    then show ?thesis using Cons by (auto simp: bit_or_iff bit_push_bit_iff)
  next
    case False
    have "\<not> bit (push_bit (length xs) x) k"
      using False Cons.prems by (auto simp: bit_push_bit_iff bit_1_iff)
    moreover have "(x # xs) ! (length xs - k) = xs ! (length xs - 1 - k)" if "k < length xs"
      using that by (simp add: nth_Cons' )
    ultimately show ?thesis using False Cons by (auto simp: bit_or_iff)
  qed
qed

lemma packBits_byteDigits [simp]: "packBits (byteDigits b) = b"
proof (rule bit_word_eqI)
  fix n assume "n < LENGTH(8)"
  then have n: "n < 8" by simp
  then show "bit (packBits (byteDigits b)) n = bit b n"
    using bit_packBits [OF isBits_byteDigits n, of b] by (simp add: byteDigits_nth)
qed

lemma byteDigits_packBits:
  assumes "isBits xs" "length xs \<le> 8"
  shows "byteDigits (packBits xs) = replicate (8 - length xs) 0 @ xs"
proof (rule nth_equalityI)
  show "length (byteDigits (packBits xs)) = length (replicate (8 - length xs) 0 @ xs)"
    using assms by simp
next
  fix i assume i: "i < length (byteDigits (packBits xs))"
  have "byteDigits (packBits xs) ! i = of_bool (bit (packBits xs) (7 - i))"
    using i by (simp add: byteDigits_nth)
  also have "\<dots> = of_bool (7 - i < length xs \<and> xs ! (length xs - 1 - (7 - i)) = 1)"
    using bit_packBits [OF assms(1), of "7 - i"] by simp
  also have "\<dots> = (replicate (8 - length xs) 0 @ xs) ! i"
  proof (cases "i < 8 - length xs")
    case True
    then have "\<not> 7 - i < length xs" by arith
    then show ?thesis using True by (simp add: nth_append)
  next
    case False
    then have "length xs - 1 - (7 - i) = i - (8 - length xs)" and "7 - i < length xs"
      using i assms by simp_all
    moreover have "xs ! (i - (8 - length xs)) = 0 \<or> xs ! (i - (8 - length xs)) = 1"
      using assms(1) False i assms(2) by (simp add: isBits_def list_all_length)
    ultimately show ?thesis using False by (auto simp: nth_append)
  qed
  finally show "byteDigits (packBits xs) ! i = (replicate (8 - length xs) 0 @ xs) ! i" .
qed

lemma decodeGroups_byteDigits: "decodeGroups (byteDigits b @ rest) = map_option ((#) b) (decodeGroups rest)"
proof -
  have "packBits (map (\<lambda>k. of_bool (bit b k)) [7, 6, 5, 4, 3, 2, 1, 0]) = b"
    using packBits_byteDigits [of b] by (simp add: byteDigits_bits)
  then show ?thesis by (simp add: byteDigits_bits)
qed

lemma decodeGroups_digits [simp]: "decodeGroups (concat (map byteDigits str)) = Some str"
  by (induction str) (simp_all add: decodeGroups_byteDigits)

text \<open>Every bit list whose length is a multiple of eight is the digits of its packed bytes.\<close>

lemma decodeGroups_total:
  "isBits xs \<Longrightarrow> length xs = 8 * q \<Longrightarrow>
     \<exists>bs. decodeGroups xs = Some bs \<and> length bs = q \<and> concat (map byteDigits bs) = xs"
proof (induction q arbitrary: xs)
  case 0
  then show ?case by simp
next
  case (Suc q)
  let ?b = "packBits (take 8 xs)"
  have xs: "xs = byteDigits ?b @ drop 8 xs"
    using Suc.prems byteDigits_packBits [of "take 8 xs"] isBits_take_drop by simp
  obtain bs where bs: "decodeGroups (drop 8 xs) = Some bs" "length bs = q"
      "concat (map byteDigits bs) = drop 8 xs"
    using Suc.IH [of "drop 8 xs"] Suc.prems isBits_take_drop by auto
  have "decodeGroups xs = Some (?b # bs)"
    using decodeGroups_byteDigits [of ?b "drop 8 xs"] xs bs(1) by simp
  moreover have "concat (map byteDigits (?b # bs)) = xs"
    using xs bs(3) by simp
  ultimately show ?case using bs(2) by fastforce
qed

section \<open>Round trips\<close>

lemma hasTermBin_snoc [simp]: "hasTermBin (xs @ [2])"
  by (simp add: hasTermBin_def)

lemma hasTermBin_bits: "isBits xs \<Longrightarrow> \<not> hasTermBin xs"
  by (cases xs rule: rev_cases) (auto simp: hasTermBin_def nth_append)

lemma length_concat_digits [simp]: "length (concat (map byteDigits str)) = 8 * length str"
  by (induction str) auto

lemma isBits_concat_digits [simp]: "isBits (concat (map byteDigits str))"
  by (induction str) auto

lemma decodeNibblesBin_exact:
  "isBits xs \<Longrightarrow> length xs = 8 * q \<Longrightarrow>
     \<exists>bs. decodeNibblesBin xs (replicate q 0) = Some bs \<and> length bs = q \<and> concat (map byteDigits bs) = xs"
  using decodeGroups_total [of xs q] by (auto simp: decodeNibblesBin_def)

lemma decodeNibblesBin_digits:
  "decodeNibblesBin (concat (map byteDigits str)) (replicate (length str) 0) = Some str"
  by (simp add: decodeNibblesBin_def)

lemma packBits_append: "packBits (xs @ ys) = push_bit (length ys) (packBits xs) OR packBits ys"
  by (induction xs) (simp_all add: or.assoc add.commute)

lemma packBits_zeros [simp]: "packBits (replicate n 0 @ ys) = packBits ys"
  by (induction n) auto

lemma packBits_replicate_0 [simp]: "packBits (replicate n 0) = 0"
  using packBits_zeros [of n "[]"] by simp

definition lenDigits :: "nat \<Rightarrow> bytes" where
  "lenDigits r = [of_bool (odd (r div 4)), of_bool (odd (r div 2)), of_bool (odd r)]"

lemma flag_packBits:
  "r < 8 \<Longrightarrow> t = 0 \<or> t = 1 \<Longrightarrow>
     push_bit 7 t OR push_bit 4 (of_nat r) = packBits ((t # lenDigits r) @ replicate 4 0)"
proof -
  assume r: "r < 8" and t: "t = 0 \<or> t = 1"
  from r have "r \<in> {0,1,2,3,4,5,6,7}" by auto
  with t show ?thesis by (auto simp: lenDigits_def)
qed

lemma isBits_lenDigits [simp]: "isBits (lenDigits r)" and length_lenDigits [simp]: "length (lenDigits r) = 3"
  by (simp_all add: lenDigits_def)

lemma lenDigits_value:
  "r < 8 \<Longrightarrow> push_bit 2 (lenDigits r ! 0) + push_bit 1 (lenDigits r ! 1) + lenDigits r ! 2 = (of_nat r :: byte)"
proof -
  assume "r < 8"
  then have "r \<in> {0,1,2,3,4,5,6,7}" by auto
  then show ?thesis by (auto simp: lenDigits_def)
qed

text \<open>The compact form, seen as digits: terminator bit, length digits, padding, the bits.\<close>

definition compactDigits :: "byte \<Rightarrow> bytes \<Rightarrow> bytes" where
  "compactDigits t b =
     (let r = length b mod 8 in
      (t # lenDigits r) @ replicate (if r > 4 then 12 - r else 4 - r) 0 @ b)"

lemma compact_parts:
  assumes "isBits b" and r: "r = length b mod 8"
  shows "\<exists>bs. decodeNibblesBin (drop r b) (replicate (length b div 8) 0) = Some bs \<and>
     length bs = length b div 8 \<and> concat (map byteDigits bs) = drop r b"
proof (rule decodeNibblesBin_exact)
  show "isBits (drop r b)" using assms(1) isBits_take_drop by blast
  show "length (drop r b) = 8 * (length b div 8)"
    unfolding r by (simp add: minus_mod_eq_mult_div)
qed

lemma compact_head_digits:
  assumes "isBits b" and r: "r = length b mod 8" and t: "t = 0 \<or> t = 1"
    and flag: "flag = push_bit 7 t OR push_bit 4 (of_nat r)"
  shows "r > 4 \<Longrightarrow> byteDigits flag @ byteDigits (packBits (take r b)) =
      (t # lenDigits r) @ replicate (12 - r) 0 @ take r b"
    and "r \<le> 4 \<Longrightarrow> byteDigits (flag OR packBits (take r b)) =
      (t # lenDigits r) @ replicate (4 - r) 0 @ take r b"
proof -
  have r8: "r < 8" and len: "length (take r b) = r" using r by (auto simp: min_def)
  have flag': "flag = packBits ((t # lenDigits r) @ replicate 4 0)"
    using flag_packBits [OF r8 t] flag by simp
  have bits: "isBits (take r b)" using assms(1) isBits_take_drop by blast
  have d1: "byteDigits flag = (t # lenDigits r) @ replicate 4 0"
    unfolding flag' by (subst byteDigits_packBits) (use t in auto)
  show "r > 4 \<Longrightarrow> byteDigits flag @ byteDigits (packBits (take r b)) =
      (t # lenDigits r) @ replicate (12 - r) 0 @ take r b"
  proof -
    assume "r > 4"
    then have "replicate (12 - r) (0 :: byte) = replicate 4 0 @ replicate (8 - r) 0"
      using r8 by (simp add: replicate_add [symmetric])
    then show ?thesis using r8 len by (simp add: d1 byteDigits_packBits [OF bits])
  qed
  show "r \<le> 4 \<Longrightarrow> byteDigits (flag OR packBits (take r b)) =
      (t # lenDigits r) @ replicate (4 - r) 0 @ take r b"
  proof -
    assume "r \<le> 4"
    then have n: "length (replicate (4 - r) 0 @ take r b) = 4" using len by simp
    let ?l = "(t # lenDigits r) @ (replicate (4 - r) 0 @ take r b)"
    have "flag OR packBits (take r b) = packBits ?l"
      unfolding flag' packBits_append n by simp
    moreover have "isBits ?l" "length ?l = 8"
      using bits t n by auto
    ultimately have "byteDigits (flag OR packBits (take r b)) = ?l"
      using byteDigits_packBits [of ?l] by (simp del: packBits.simps)
    then show ?thesis by simp
  qed
qed

lemma compact_buf_size:
  assumes "r = n mod (8::nat)"
  shows "r > 4 \<Longrightarrow> (n + 3) div 8 + 1 - 2 = n div 8" and "r \<le> 4 \<Longrightarrow> (n + 3) div 8 + 1 - 1 = n div 8"
proof -
  define q where "q = n div 8"
  have "n = 8 * q + r" "r < 8" using assms by (simp_all add: q_def)
  then show "r > 4 \<Longrightarrow> (n + 3) div 8 + 1 - 2 = n div 8" and "r \<le> 4 \<Longrightarrow> (n + 3) div 8 + 1 - 1 = n div 8"
    by auto
qed

lemma binaryToCompact_digits:
  assumes "isBits b" and "tm = [] \<and> t = 0 \<or> tm = [2] \<and> t = 1"
  shows "\<exists>c. binaryToCompact (b @ tm) = Some c \<and> c \<noteq> [] \<and> concat (map byteDigits c) = compactDigits t b"
proof -
  define r where "r = length b mod 8"
  define flag where "flag = (push_bit 7 t OR push_bit 4 (of_nat r) :: byte)"
  obtain bs where bs: "decodeNibblesBin (drop r b) (replicate (length b div 8) 0) = Some bs"
      "concat (map byteDigits bs) = drop r b"
    using compact_parts [OF assms(1) r_def] by blast
  have t: "t = 0 \<or> t = 1" using assms(2) by blast
  note hd = compact_head_digits [OF assms(1) r_def t flag_def]
  have strip: "(if hasTermBin (b @ tm) then take (length (b @ tm) - 1) (b @ tm) else b @ tm) = b"
      "(if hasTermBin (b @ tm) then 1 else 0) = t"
    using assms hasTermBin_bits [OF assms(1)] by auto
  have *: "binaryToCompact (b @ tm) =
      (if r > 4
         then map_option (\<lambda>bs. flag # packBits (take r b) # bs)
                (decodeNibblesBin (drop r b) (drop 2 (replicate ((length b + 3) div 8 + 1) 0)))
         else map_option (\<lambda>bs. (flag OR packBits (take r b)) # bs)
                (decodeNibblesBin (drop r b) (drop 1 (replicate ((length b + 3) div 8 + 1) 0))))"
    unfolding binaryToCompact_def strip Let_def r_def flag_def by simp
  show ?thesis
  proof (cases "r > 4")
    case True
    then have "binaryToCompact (b @ tm) = Some (flag # packBits (take r b) # bs)"
      using * bs(1) compact_buf_size(1) [OF r_def] by (simp del: replicate.simps)
    moreover have "concat (map byteDigits (flag # packBits (take r b) # bs)) =
        (byteDigits flag @ byteDigits (packBits (take r b))) @ drop r b"
      using bs(2) by simp
    ultimately show ?thesis using True hd(1)
      by (simp add: compactDigits_def Let_def r_def [symmetric])
  next
    case False
    then have "binaryToCompact (b @ tm) = Some ((flag OR packBits (take r b)) # bs)"
      using * bs(1) compact_buf_size(2) [OF r_def] by (simp del: replicate.simps)
    then show ?thesis using False hd(2) bs(2)
      by (auto simp: compactDigits_def Let_def r_def [symmetric])
  qed
qed

text \<open>\<open>binaryToKeybytes\<close> undoes \<open>keybytesToBinary\<close>.\<close>

lemma binaryToKeybytes_keybytesToBinary: "binaryToKeybytes (keybytesToBinary k) = Some k"
  using decodeNibblesBin_digits [of k]
  by (simp add: binaryToKeybytes_def keybytesToBinary_def Let_def)

lemma keybytesToBinary_inj: "keybytesToBinary k = keybytesToBinary k' \<Longrightarrow> k = k'"
  by (metis binaryToKeybytes_keybytesToBinary option.inject)

text \<open>\<open>compactToBinary\<close> reads the terminator bit and the length digits back.\<close>

lemma compactToBinary_digits:
  assumes c: "c \<noteq> []" "concat (map byteDigits c) = compactDigits t b"
    and t: "tm = [] \<and> t = 0 \<or> tm = [2] \<and> t = 1"
  shows "compactToBinary c = Some (b @ tm)"
proof -
  define r where "r = length b mod 8"
  have r: "r < 8" by (simp add: r_def)
  define pad where "pad = (if r > 4 then 12 - r else 4 - r)"
  have base: "keybytesToBinary c = (t # lenDigits r) @ replicate pad 0 @ b @ [2]"
    using c(2) by (simp add: keybytesToBinary_def compactDigits_def Let_def r_def pad_def)
  have kb0: "keybytesToBinary c ! 0 = t" by (simp add: base)
  define B where "B = (if keybytesToBinary c ! 0 = 0
      then take (length (keybytesToBinary c) - 1) (keybytesToBinary c) else keybytesToBinary c)"
  have kb: "B = (t # lenDigits r) @ replicate pad 0 @ b @ tm"
    using t unfolding B_def kb0 butlast_conv_take [symmetric] by (auto simp: base butlast_append)
  have val: "push_bit 2 (B ! 1) + push_bit 1 (B ! 2) + B ! 3 = (of_nat r :: byte)"
    unfolding kb using lenDigits_value [OF r] by (simp add: nth_append lenDigits_def)
  have gt: "(of_nat r :: byte) > 4 \<longleftrightarrow> r > 4"
    using r by (simp add: word_less_nat_alt unat_of_nat)
  have chop: "unat (if r > 4 then 4 + 4 + 8 - (of_nat r :: byte) else 4 + 4 - of_nat r) = 4 + pad"
  proof -
    from r have "r \<in> {0,1,2,3,4,5,6,7}" by auto
    then show ?thesis by (auto simp: pad_def)
  qed
  have "compactToBinary c = (if 4 + pad \<le> length B then Some (drop (4 + pad) B) else None)"
    using c(1) by (simp only: compactToBinary_def Let_def B_def [symmetric] val gt chop if_False)
  then show ?thesis unfolding kb drop_append by simp
qed

theorem compact_round_trip_bits:
  assumes "isBits b" and "tm = [] \<or> tm = [2]"
  shows "\<exists>c. binaryToCompact (b @ tm) = Some c \<and> compactToBinary c = Some (b @ tm)"
proof -
  obtain t where t: "tm = [] \<and> t = 0 \<or> tm = [2] \<and> (t :: byte) = 1" using assms(2) by blast
  from binaryToCompact_digits [OF assms(1) t] compactToBinary_digits [OF _ _ t]
  show ?thesis by blast
qed

section \<open>The in-place conversion\<close>

lemma decodeGroups_step:
  "length xs \<ge> 8 \<Longrightarrow>
     decodeGroups xs = map_option ((#) (packBits (take 8 xs))) (decodeGroups (drop 8 xs))"
  by (induction xs rule: decodeGroups.induct) (auto simp: fun_eq_iff)

lemma packAt_take: "ni + 8 \<le> length buf \<Longrightarrow> packAt buf ni = packBits (take 8 (drop ni buf))"
proof -
  assume "ni + 8 \<le> length buf"
  then have "map (\<lambda>k. buf ! (ni + k)) [0..<8] = take 8 (drop ni buf)"
    by (intro nth_equalityI) auto
  then show ?thesis by (simp add: packAt_def)
qed

text \<open>
  The loop overwrites the digits it reads from: the write index never passes the digits that
  are still to be read.
\<close>

lemma inPlaceLoop_spec:
  "n = ni + 8 * q \<Longrightarrow> n \<le> length buf \<Longrightarrow> bi \<le> Suc ni \<Longrightarrow>
     \<exists>bs. decodeGroups (take (n - ni) (drop ni buf)) = Some bs \<and> length bs = q \<and>
       inPlaceLoop ni bi n buf = take bi buf @ bs @ drop (bi + q) buf"
proof (induction q arbitrary: ni bi buf)
  case 0
  then show ?case by (simp add: inPlaceLoop.simps)
next
  case (Suc q)
  let ?b = "packBits (take 8 (drop ni buf))"
  let ?buf = "buf[bi := ?b]"
  have ni: "ni + 8 \<le> n" "bi < length buf" using Suc.prems by auto
  have dropped: "drop (ni + 8) ?buf = drop (ni + 8) buf"
    using Suc.prems by simp
  obtain bs where bs: "decodeGroups (take (n - (ni + 8)) (drop (ni + 8) buf)) = Some bs" "length bs = q"
      "inPlaceLoop (ni + 8) (bi + 1) n ?buf = take (bi + 1) ?buf @ bs @ drop (bi + 1 + q) ?buf"
    using Suc.IH [of "ni + 8" ?buf "bi + 1"] Suc.prems unfolding dropped by auto
  have "decodeGroups (take (n - ni) (drop ni buf)) = Some (?b # bs)"
    using decodeGroups_step [of "take (n - ni) (drop ni buf)"] bs(1) ni(1) Suc.prems(2)
    by (simp add: drop_take add.commute)
  moreover have "inPlaceLoop ni bi n buf = inPlaceLoop (ni + 8) (bi + 1) n ?buf"
    using ni Suc.prems by (subst inPlaceLoop.simps) (simp add: packAt_take)
  moreover have "take (bi + 1) ?buf = take bi buf @ [?b]"
    using ni(2) by (simp add: take_Suc_conv_app_nth)
  ultimately show ?case using bs(2,3) by (simp add: drop_update_cancel)
qed

lemma binaryToCompact_inPlace:
  assumes "binary \<noteq> []"
  shows "\<exists>n buf. binaryToCompactInPlace binary = Some (n, buf) \<and> length buf = length binary \<and>
     n \<le> length binary \<and> binaryToCompact binary = Some (take n buf)"
proof -
  define trm where "trm = (binary ! (length binary - 1) = 2)"
  define L where "L = (if trm then length binary - 1 else length binary)"
  define r where "r = L mod 8"
  define q where "q = L div 8"
  have L: "L = r + 8 * q" "r < 8" by (simp_all add: r_def q_def)
  have Lb: "L \<le> length binary" by (simp add: L_def)
  have tb: "hasTermBin binary = trm" using assms by (simp add: hasTermBin_def trm_def)
  have strip: "(if trm then take (length binary - 1) binary else binary) = take L binary"
    by (simp add: L_def)
  define first where "first = ((if trm then push_bit 7 1 else 0) OR push_bit 4 (of_nat r) :: byte)"
  have flag: "push_bit 7 (if trm then 1 else 0) OR push_bit 4 (of_nat r) = first"
    by (simp add: first_def)
  have hd: "take r (take L binary) = take r binary" using L(1) by simp
  note plain = binaryToCompact_def [of binary, unfolded tb strip Let_def length_take min_absorb2 [OF Lb]
      r_def [symmetric] flag hd]
  note inpl = binaryToCompactInPlace_def [of binary, unfolded trm_def [symmetric] Let_def
      L_def [symmetric] r_def [symmetric] first_def [symmetric]]
  note size = compact_buf_size [OF r_def]
  show ?thesis
  proof (cases "r > 4")
    case True
    let ?h = "packBits (take r binary)"
    have l2: "2 \<le> length binary" using True L Lb by simp
    obtain bs where bs: "decodeGroups (take (L - r) (drop r (binary[1 := ?h]))) = Some bs" "length bs = q"
        "inPlaceLoop r 2 L (binary[1 := ?h]) = take 2 (binary[1 := ?h]) @ bs @ drop (2 + q) (binary[1 := ?h])"
      using inPlaceLoop_spec [of L r q "binary[1 := ?h]" 2] L Lb True by auto
    have "drop r (take L binary) = take (L - r) (drop r (binary[1 := ?h]))"
      using True by (simp add: drop_take)
    then have "binaryToCompact binary = Some (first # ?h # bs)"
      unfolding plain using True bs(1,2) size(1) q_def
      by (simp add: decodeNibblesBin_def del: replicate.simps)
    moreover have "take 2 (binary[1 := ?h]) = [binary ! 0, ?h]"
      using l2 by (cases binary; cases "tl binary") auto
    moreover have "length (inPlaceLoop r 2 L (binary[1 := ?h])) = length binary"
      unfolding bs(3) using bs(2) L Lb True by simp
    moreover have "(L + 3) div 8 + 1 = 2 + q" using size(1) True L by simp
    ultimately show ?thesis
      unfolding inpl using assms True bs(2,3) l2 L Lb by simp
  next
    case False
    let ?h = "packBits (take r binary)"
    obtain bs where bs: "decodeGroups (take (L - r) (drop r binary)) = Some bs" "length bs = q"
        "inPlaceLoop r 1 L binary = take 1 binary @ bs @ drop (1 + q) binary"
      using inPlaceLoop_spec [of L r q binary 1] L Lb by auto
    have l1: "1 + q \<le> length binary" using L Lb assms by (cases binary) auto
    have "binaryToCompact binary = Some ((first OR ?h) # bs)"
      unfolding plain using False bs(1,2) size(2) q_def
      by (simp add: decodeNibblesBin_def drop_take del: replicate.simps)
    moreover have "take 1 binary = [binary ! 0]"
      using assms by (cases binary) auto
    moreover have "length (inPlaceLoop r 1 L binary) = length binary"
      unfolding bs(3) using bs(2) l1 by simp
    moreover have "(L + 3) div 8 + 1 = 1 + q" using size(2) False q_def by simp
    ultimately show ?thesis
      unfolding inpl using assms False bs(2,3) l1 by simp
  qed
qed

section \<open>Malformed compact keys\<close>

lemma high_digits: "b div 16 = packBits (take 4 (byteDigits b))"
proof (rule bit_word_eqI)
  fix n assume "n < LENGTH(8)"
  then have n: "n < 8" by simp
  have "bit (b div 16) n \<longleftrightarrow> bit b (4 + n)"
    using bit_drop_bit_eq [of 4 b] by (simp add: drop_bit_eq_div fun_eq_iff)
  moreover have "isBits (take 4 (byteDigits b))" using isBits_take_drop isBits_byteDigits by blast
  then have "bit (packBits (take 4 (byteDigits b))) n \<longleftrightarrow> n < 4 \<and> bit b (4 + n)"
    using bit_packBits [of "take 4 (byteDigits b)" n] n by (auto simp: byteDigits_nth add.commute)
  ultimately show "bit (b div 16) n = bit (packBits (take 4 (byteDigits b))) n"
    using bit_byte_less [of b "4 + n"] by auto
qed

lemma compactToBinary_single:
  "compactToBinary [x] = None \<longleftrightarrow> x div 16 \<in> {5, 6, 7, 13, 14}"
  unfolding high_digits
  by (cases "bit x 7"; cases "bit x 6"; cases "bit x 5"; cases "bit x 4")
    (simp_all add: compactToBinary_def keybytesToBinary_def byteDigits_bits Let_def)

lemma compactToBinary_long: "length c \<ge> 2 \<Longrightarrow> compactToBinary c \<noteq> None"
proof -
  assume c: "length c \<ge> 2"
  then obtain x y zs where xy: "c = x # y # zs" by (cases c; cases "tl c") auto
  show ?thesis
    by (cases "bit x 7"; cases "bit x 6"; cases "bit x 5"; cases "bit x 4")
      (simp_all add: xy compactToBinary_def keybytesToBinary_def byteDigits_bits Let_def)
qed

section \<open>Properties of the encodings\<close>

text \<open>
  C28: the compact encoding is lossless. For every sequence of bits, with or without the
  terminator, \<open>binaryToCompact\<close> succeeds and \<open>compactToBinary\<close> gives the sequence back; and
  \<open>binaryToKeybytes\<close> inverts \<open>keybytesToBinary\<close> on every key.
\<close>

theorem compact_round_trip:
  assumes "isBits b" and "tm = [] \<or> tm = [2]"
  shows "\<exists>c. binaryToCompact (b @ tm) = Some c \<and> compactToBinary c = Some (b @ tm) \<and>
     binaryToKeybytes (keybytesToBinary k) = Some k"
  using compact_round_trip_bits [OF assms] binaryToKeybytes_keybytesToBinary by blast

theorem compact_round_trip_witness:
  "\<exists>c. binaryToCompact ([1, 0, 1] @ [2]) = Some c \<and> compactToBinary c = Some ([1, 0, 1] @ [2]) \<and>
     binaryToKeybytes (keybytesToBinary [255]) = Some [255]"
  by (rule compact_round_trip) simp_all

text \<open>
  C29: the optimised in-place conversion agrees with the plain one. On every non-empty
  argument \<open>binaryToCompactInPlace\<close> returns without a panic, and the prefix of the buffer that it
  announces is what \<open>binaryToCompact\<close> returns.
\<close>

theorem compact_in_place_agrees:
  assumes "binary \<noteq> []"
  shows "\<exists>n buf. binaryToCompactInPlace binary = Some (n, buf) \<and> length buf = length binary \<and>
     n \<le> length binary \<and> binaryToCompact binary = Some (take n buf)"
  using binaryToCompact_inPlace [OF assms] .

theorem compact_in_place_agrees_witness:
  "\<exists>n buf. binaryToCompactInPlace [1, 1, 0, 2] = Some (n, buf) \<and> length buf = length ([1, 1, 0, 2] :: bytes) \<and>
     n \<le> length ([1, 1, 0, 2] :: bytes) \<and> binaryToCompact [1, 1, 0, 2] = Some (take n buf)"
  by (rule compact_in_place_agrees) simp

text \<open>
  C30: \<open>compactToBinary\<close> panics on exactly the one-byte inputs whose flag nibble announces
  five, six or seven leftover digits (with or without the terminator flag, the nibble 15 apart).
  Such an input is what an encoded node received from another peer may hold.
\<close>

theorem compactToBinary_panics_iff:
  "compactToBinary c = None \<longleftrightarrow> (\<exists>x. c = [x] \<and> x div 16 \<in> {5, 6, 7, 13, 14})"
proof (cases c rule: remdups_adj.cases)
  case 1
  then show ?thesis by (simp add: compactToBinary_def)
next
  case (2 x)
  then show ?thesis using compactToBinary_single [of x] by auto
next
  case (3 x y xs)
  then show ?thesis using compactToBinary_long [of c] by auto
qed

end
