(* ===== verification/Store.thy ===== *)
theory Store
  imports Prelude
begin

text \<open>
  The contract between the tries and their clients. A byte store maps valid keys to
  non-empty values; writing the empty value removes the key, as \<open>Trie.TryUpdate\<close> does. A
  canonical store is determined by its content. The locales are interpreted on the Patricia
  trees, on the Go trie and on the secure trie; the state database works over the first one.
\<close>

text \<open>The effect of one write, and of a list of writes, on the content.\<close>

definition assign :: "(bytes \<Rightarrow> bytes option) \<Rightarrow> bytes \<times> bytes \<Rightarrow> bytes \<Rightarrow> bytes option" where
  "assign m kv = m(fst kv := (if snd kv = [] then None else Some (snd kv)))"

locale byte_store =
  fixes inv :: "'s \<Rightarrow> bool"
    and key :: "bytes \<Rightarrow> bool"
    and look :: "'s \<Rightarrow> bytes \<Rightarrow> bytes option"
    and upd :: "'s \<Rightarrow> bytes \<Rightarrow> bytes \<Rightarrow> 's"
  assumes upd_inv: "inv s \<Longrightarrow> key k \<Longrightarrow> inv (upd s k v)"
    and upd_look: "inv s \<Longrightarrow> key k \<Longrightarrow> key k' \<Longrightarrow>
      look (upd s k v) k' = (if k' = k then if v = [] then None else Some v else look s k')"
begin

lemma look_upd_same: "inv s \<Longrightarrow> key k \<Longrightarrow> v \<noteq> [] \<Longrightarrow> look (upd s k v) k = Some v"
  by (simp add: upd_look)

lemma look_upd_other: "inv s \<Longrightarrow> key k \<Longrightarrow> key k' \<Longrightarrow> k' \<noteq> k \<Longrightarrow> look (upd s k v) k' = look s k'"
  by (simp add: upd_look)

lemma run_inv: "inv s \<Longrightarrow> \<forall>kv \<in> set ops. key (fst kv) \<Longrightarrow> inv (foldl (\<lambda>s kv. upd s (fst kv) (snd kv)) s ops)"
  by (induction ops arbitrary: s) (auto simp: upd_inv)

lemma run_look:
  "inv s \<Longrightarrow> \<forall>kv \<in> set ops. key (fst kv) \<Longrightarrow> (\<And>k. key k \<Longrightarrow> look s k = m k) \<Longrightarrow> key k' \<Longrightarrow>
     look (foldl (\<lambda>s kv. upd s (fst kv) (snd kv)) s ops) k' = foldl assign m ops k'"
proof (induction ops arbitrary: s m)
  case Nil
  then show ?case by simp
next
  case (Cons kv ops)
  have k: "key (fst kv)" using Cons.prems(2) by simp
  have "look (upd s (fst kv) (snd kv)) k = assign m kv k" if "key k" for k
    using that k Cons.prems(1,3) by (simp add: upd_look assign_def)
  then show ?case
    using Cons.IH [of "upd s (fst kv) (snd kv)" "assign m kv"] Cons.prems k by (simp add: upd_inv)
qed

end

locale canonical_store = byte_store +
  assumes canonical: "inv s \<Longrightarrow> inv t \<Longrightarrow> (\<And>k. key k \<Longrightarrow> look s k = look t k) \<Longrightarrow> s = t"
begin

lemma history_independent:
  assumes "inv s" "\<forall>kv \<in> set ops. key (fst kv)" "\<forall>kv \<in> set ops'. key (fst kv)"
    and "\<And>k. key k \<Longrightarrow> foldl assign (look s) ops k = foldl assign (look s) ops' k"
  shows "foldl (\<lambda>s kv. upd s (fst kv) (snd kv)) s ops = foldl (\<lambda>s kv. upd s (fst kv) (snd kv)) s ops'"
proof (rule canonical)
  show "inv (foldl (\<lambda>s kv. upd s (fst kv) (snd kv)) s ops)"
    "inv (foldl (\<lambda>s kv. upd s (fst kv) (snd kv)) s ops')" using assms run_inv by blast+
  show "look (foldl (\<lambda>s kv. upd s (fst kv) (snd kv)) s ops) k =
      look (foldl (\<lambda>s kv. upd s (fst kv) (snd kv)) s ops') k" if "key k" for k
    using that assms run_look [of s ops "look s" k] run_look [of s ops' "look s" k] by simp
qed

lemma upd_commute:
  assumes "inv s" "key k" "key k'" "k \<noteq> k'"
  shows "upd (upd s k v) k' v' = upd (upd s k' v') k v"
  by (rule canonical) (use assms in \<open>auto simp: upd_inv upd_look\<close>)

lemma upd_overwrite:
  assumes "inv s" "key k"
  shows "upd (upd s k v) k v' = upd s k v'"
  by (rule canonical) (use assms in \<open>auto simp: upd_inv upd_look\<close>)

lemma upd_noop:
  assumes "inv s" "key k" "look s k = (if v = [] then None else Some v)"
  shows "upd s k v = s"
  by (rule canonical) (use assms in \<open>auto simp: upd_inv upd_look\<close>)

end

end
