(* ===== verification/Patricia.thy ===== *)
theory Patricia
  imports Encoding Store
begin

text \<open>
  The abstract specification of the trie: a binary Patricia tree with no hashes, caches or
  database. \<open>pwf\<close> says that a tree is in minimal form. Over minimal trees, insertion and
  deletion implement the map operations (the interpretation \<open>pat\<close> of the store contract), and
  a tree is determined by its map (\<open>pwf_canonical\<close>): whatever the history of updates, the
  same content gives the same tree, hence the same root hash. The tries of \<open>trie/trie.go\<close>
  and \<open>trie/stacktrie.go\<close> are related to it in their own theories.
\<close>

section \<open>Keys and trees\<close>

text \<open>A search key: bits, then the terminator 2 (what \<open>keybytesToBinary\<close> produces).\<close>

fun vkey :: "bytes \<Rightarrow> bool" where
  "vkey [] = False"
| "vkey (x # xs) = (if x = 2 then xs = [] else (x = 0 \<or> x = 1) \<and> vkey xs)"

datatype ptree = PNil | PVal bytes | PShort bytes ptree | PFull ptree ptree ptree

definition isFull :: "ptree \<Rightarrow> bool" where
  "isFull p \<longleftrightarrow> (case p of PFull _ _ _ \<Rightarrow> True | _ \<Rightarrow> False)"

definition isValue :: "ptree \<Rightarrow> bool" where
  "isValue p \<longleftrightarrow> (case p of PVal v \<Rightarrow> v \<noteq> [] | _ \<Rightarrow> False)"

text \<open>Minimal form of a non-empty subtree that is entered with at least one digit left.\<close>

fun pwfN :: "ptree \<Rightarrow> bool" where
  "pwfN PNil = False"
| "pwfN (PVal v) = False"
| "pwfN (PShort k c) = (if vkey k then isValue c else k \<noteq> [] \<and> isBits k \<and> isFull c \<and> pwfN c)"
| "pwfN (PFull p0 p1 p2) =
     ((p0 = PNil \<or> pwfN p0) \<and> (p1 = PNil \<or> pwfN p1) \<and> (p2 = PNil \<or> isValue p2) \<and>
      (if p0 = PNil then p1 \<noteq> PNil \<and> p2 \<noteq> PNil else p1 \<noteq> PNil \<or> p2 \<noteq> PNil))"

definition pwf :: "ptree \<Rightarrow> bool" where
  "pwf p \<longleftrightarrow> p = PNil \<or> pwfN p"

section \<open>Operations\<close>

fun plookup :: "ptree \<Rightarrow> bytes \<Rightarrow> bytes option" where
  "plookup PNil key = None"
| "plookup (PVal v) key = (if key = [] then Some v else None)"
| "plookup (PShort k c) key =
     (if length k \<le> length key \<and> take (length k) key = k then plookup c (drop (length k) key) else None)"
| "plookup (PFull p0 p1 p2) [] = None"
| "plookup (PFull p0 p1 p2) (d # key) =
     (if d = 0 then plookup p0 key else if d = 1 then plookup p1 key
      else if d = 2 then plookup p2 key else None)"

definition pextend :: "bytes \<Rightarrow> ptree \<Rightarrow> ptree" where
  "pextend k c = (if k = [] then c else PShort k c)"

text \<open>A branch with the child \<open>c\<close> at digit \<open>d\<close> and then \<open>c'\<close> at digit \<open>e\<close>.\<close>

definition pbranch :: "byte \<Rightarrow> ptree \<Rightarrow> byte \<Rightarrow> ptree \<Rightarrow> ptree" where
  "pbranch d c e c' =
     PFull (if e = 0 then c' else if d = 0 then c else PNil)
           (if e = 1 then c' else if d = 1 then c else PNil)
           (if e = 2 then c' else if d = 2 then c else PNil)"

fun pinsert :: "ptree \<Rightarrow> bytes \<Rightarrow> bytes \<Rightarrow> ptree" where
  "pinsert p [] v = PVal v"
| "pinsert PNil (d # key) v = PShort (d # key) (PVal v)"
| "pinsert (PVal w) (d # key) v = PVal w"
| "pinsert (PShort k c) (d # key) v =
     (let m = prefixLen (d # key) k in
      if m = length k then PShort k (pinsert c (drop m (d # key)) v)
      else pextend (take m (d # key))
             (pbranch (k ! m) (pextend (drop (Suc m) k) c)
                ((d # key) ! m) (pextend (drop (Suc m) (d # key)) (PVal v))))"
| "pinsert (PFull p0 p1 p2) (d # key) v =
     (if d = 0 then PFull (pinsert p0 key v) p1 p2
      else if d = 1 then PFull p0 (pinsert p1 key v) p2
      else if d = 2 then PFull p0 p1 (pinsert p2 key v)
      else PFull p0 p1 p2)"

fun pmerge :: "bytes \<Rightarrow> ptree \<Rightarrow> ptree" where
  "pmerge k (PShort k' c) = PShort (k @ k') c"
| "pmerge k c = PShort k c"

text \<open>A branch with one child left becomes a short node.\<close>

definition pcollapse :: "ptree \<Rightarrow> ptree \<Rightarrow> ptree \<Rightarrow> ptree" where
  "pcollapse p0 p1 p2 =
     (if p0 \<noteq> PNil \<and> p1 = PNil \<and> p2 = PNil then pmerge [0] p0
      else if p0 = PNil \<and> p1 \<noteq> PNil \<and> p2 = PNil then pmerge [1] p1
      else if p0 = PNil \<and> p1 = PNil \<and> p2 \<noteq> PNil then PShort [2] p2
      else PFull p0 p1 p2)"

fun pdelete :: "ptree \<Rightarrow> bytes \<Rightarrow> ptree" where
  "pdelete PNil key = PNil"
| "pdelete (PVal v) key = PNil"
| "pdelete (PShort k c) key =
     (let m = prefixLen key k in
      if m < length k then PShort k c
      else if m = length key then PNil
      else pmerge k (pdelete c (drop m key)))"
| "pdelete (PFull p0 p1 p2) [] = PFull p0 p1 p2"
| "pdelete (PFull p0 p1 p2) (d # key) =
     (if d = 0 then pcollapse (pdelete p0 key) p1 p2
      else if d = 1 then pcollapse p0 (pdelete p1 key) p2
      else if d = 2 then pcollapse p0 p1 (pdelete p2 key)
      else PFull p0 p1 p2)"

section \<open>Keys and prefixes\<close>

lemma vkey_iff: "vkey k \<longleftrightarrow> (\<exists>bs. isBits bs \<and> k = bs @ [2])"
proof (induction k)
  case Nil
  then show ?case by simp
next
  case (Cons x k)
  show ?case
  proof
    assume "vkey (x # k)"
    then consider "x = 2" "k = []" | "x = 0 \<or> x = 1" "vkey k" by (auto split: if_splits)
    then show "\<exists>bs. isBits bs \<and> x # k = bs @ [2]"
    proof cases
      case 1
      then show ?thesis by (intro exI [of _ "[]"]) simp
    next
      case 2
      then obtain bs where "isBits bs" "k = bs @ [2]" using Cons.IH by blast
      then show ?thesis using 2(1) by (intro exI [of _ "x # bs"]) simp
    qed
  next
    assume "\<exists>bs. isBits bs \<and> x # k = bs @ [2]"
    then obtain bs where "isBits bs" "x # k = bs @ [2]" by blast
    then show "vkey (x # k)" using Cons.IH by (cases bs) auto
  qed
qed

lemma vkey_keybytesToBinary [simp]: "vkey (keybytesToBinary key)"
  by (auto simp: vkey_iff keybytesToBinary_def)

lemma vkey_append: "vkey (xs @ ys) \<longleftrightarrow> (if ys = [] then vkey xs else isBits xs \<and> vkey ys)"
  by (induction xs) auto

lemma vkey_not_bits: "vkey k \<Longrightarrow> \<not> isBits k"
  by (auto simp: vkey_iff)

lemma vkey_drop_bits: "vkey key \<Longrightarrow> isBits k \<Longrightarrow> take (length k) key = k \<Longrightarrow> vkey (drop (length k) key)"
  by (metis append_take_drop_id isBits_simps(3) vkey_append vkey_not_bits append_Nil2)

lemma vkey_prefix_eq: "vkey key \<Longrightarrow> vkey k \<Longrightarrow> take (length k) key = k \<Longrightarrow> key = k"
  by (metis append_take_drop_id append_Nil2 vkey_append vkey_not_bits)

lemma prefixLen_le: "prefixLen a b \<le> length a" "prefixLen a b \<le> length b"
  by (induction a b rule: prefixLen.induct) auto

lemma prefixLen_take: "take (prefixLen a b) a = take (prefixLen a b) b"
  by (induction a b rule: prefixLen.induct) auto

lemma prefixLen_differ:
  "prefixLen a b < length a \<Longrightarrow> prefixLen a b < length b \<Longrightarrow> a ! prefixLen a b \<noteq> b ! prefixLen a b"
  by (induction a b rule: prefixLen.induct) auto

lemma prefixLen_whole: "prefixLen a b = length b \<longleftrightarrow> length b \<le> length a \<and> take (length b) a = b"
  by (induction a b rule: prefixLen.induct) auto

lemma prefixLen_append [simp]: "prefixLen (xs @ a) (xs @ b) = length xs + prefixLen a b"
  by (induction xs) auto

lemma prefixLen_same [simp]: "prefixLen a a = length a"
  by (induction a) auto

lemma prefixLen_split:
  assumes "prefixLen a b < length a" "prefixLen a b < length b"
  obtains pre e es d ks where "a = pre @ e # es" "b = pre @ d # ks" "e \<noteq> d" "prefixLen a b = length pre"
proof
  let ?m = "prefixLen a b"
  show "a = take ?m a @ a ! ?m # drop (Suc ?m) a" using assms(1) by (rule nth_append_take_drop)
  show "b = take ?m a @ b ! ?m # drop (Suc ?m) b"
    using nth_append_take_drop [OF assms(2)] prefixLen_take [of a b] by simp
  show "a ! ?m \<noteq> b ! ?m" using prefixLen_differ [OF assms] .
  show "?m = length (take ?m a)" using assms(1) by simp
qed

lemma vkey_prefixLen_less:
  assumes "vkey key" and "vkey k \<or> isBits k" and "prefixLen key k < length k"
  shows "prefixLen key k < length key"
proof (rule ccontr)
  assume "\<not> prefixLen key k < length key"
  then have "take (length key) k = key"
    using prefixLen_take [of key k] prefixLen_le [of key k] by simp
  then obtain r where r: "k = key @ r" by (metis append_take_drop_id)
  with assms show False
    using vkey_not_bits [OF assms(1)] by (cases r) (auto simp: vkey_append)
qed

section \<open>Children of a branch\<close>

definition digit :: "byte \<Rightarrow> bool" where
  "digit d \<longleftrightarrow> d = 0 \<or> d = 1 \<or> d = 2"

definition pchild :: "ptree \<Rightarrow> ptree \<Rightarrow> ptree \<Rightarrow> byte \<Rightarrow> ptree" where
  "pchild p0 p1 p2 d = (if d = 0 then p0 else if d = 1 then p1 else if d = 2 then p2 else PNil)"

definition pset :: "ptree \<Rightarrow> ptree \<Rightarrow> ptree \<Rightarrow> byte \<Rightarrow> ptree \<Rightarrow> ptree" where
  "pset p0 p1 p2 d c = PFull (if d = 0 then c else p0) (if d = 1 then c else p1) (if d = 2 then c else p2)"

lemma vkey_ConsE:
  assumes "vkey key"
  obtains d ks where "key = d # ks" "digit d" "d = 2 \<and> ks = [] \<or> d \<noteq> 2 \<and> vkey ks"
  using assms by (cases key) (auto simp: digit_def split: if_splits)

lemma plookup_PFull: "plookup (PFull p0 p1 p2) (d # key) = plookup (pchild p0 p1 p2 d) key"
  by (simp add: pchild_def)

lemma plookup_pset:
  "digit d \<Longrightarrow> plookup (pset p0 p1 p2 d c) (e # key) =
     (if e = d then plookup c key else plookup (PFull p0 p1 p2) (e # key))"
  by (auto simp: pset_def digit_def)

lemma pinsert_PFull:
  "key = d # ks \<Longrightarrow> digit d \<Longrightarrow>
     pinsert (PFull p0 p1 p2) key v = pset p0 p1 p2 d (pinsert (pchild p0 p1 p2 d) ks v)"
  by (auto simp: pset_def pchild_def digit_def)

lemma isValue_simps [simp]:
  "\<not> isValue PNil" "isValue (PVal v) \<longleftrightarrow> v \<noteq> []" "\<not> isValue (PShort k c)" "\<not> isValue (PFull p0 p1 p2)"
  by (simp_all add: isValue_def)

lemma isFull_simps [simp]:
  "\<not> isFull PNil" "\<not> isFull (PVal v)" "\<not> isFull (PShort k c)" "isFull (PFull p0 p1 p2)"
  by (simp_all add: isFull_def)

lemma pwfN_pset:
  assumes "pwfN (PFull p0 p1 p2)" "digit d" "if d = 2 then isValue c else pwfN c"
  shows "pwfN (pset p0 p1 p2 d c)"
  using assms(2) unfolding digit_def
  by (elim disjE; use assms(1,3) in \<open>auto simp: pset_def split: if_splits\<close>)

section \<open>Lookup laws\<close>

lemma pextend_simps [simp]:
  "pextend [] c = c"
  "plookup (pextend (x # k) c) [] = None"
  "plookup (pextend (x # k) c) (y # ys) = (if x = y then plookup (pextend k c) ys else None)"
  by (auto simp: pextend_def)

lemma plookup_PShort: "plookup (PShort k c) key = plookup (pextend k c) key"
  by (simp add: pextend_def)

declare plookup.simps(3) [simp del]

lemma plookup_pextend_append: "plookup (pextend k c) (k @ r) = plookup c r"
  by (induction k) auto

lemma plookup_pextend_value: "plookup (pextend es (PVal v)) ys = (if ys = es then Some v else None)"
proof (induction es arbitrary: ys)
  case (Cons e es)
  then show ?case by (cases ys) auto
qed simp

lemma plookup_pbranch:
  assumes "d \<in> {0, 1, 2}" "e \<in> {0, 1, 2}" "e \<noteq> d"
  shows "plookup (pextend pre (pbranch d (pextend ks c) e (pextend es (PVal v)))) key' =
     (if key' = pre @ e # es then Some v else plookup (pextend (pre @ d # ks) c) key')"
proof (induction pre arbitrary: key')
  case Nil
  show ?case
  proof (cases key')
    case Nil
    then show ?thesis by (simp add: pbranch_def)
  next
    case (Cons y ys)
    with assms show ?thesis by (auto simp: pbranch_def plookup_pextend_value)
  qed
next
  case (Cons x pre)
  then show ?case by (cases key') auto
qed

lemma plookup_pmerge [simp]: "k \<noteq> [] \<Longrightarrow> plookup (pmerge k c) key = plookup (pextend k c) key"
proof (cases c)
  case (PShort k' c')
  assume "k \<noteq> []"
  have "plookup (pextend (k @ k') c') key = plookup (pextend k (PShort k' c')) key" for key
  proof (induction k arbitrary: key)
    case Nil
    then show ?case by (cases k') (auto simp: plookup_PShort)
  next
    case (Cons x k)
    then show ?case by (cases key) auto
  qed
  then show ?thesis using PShort \<open>k \<noteq> []\<close> by (simp add: plookup_PShort)
qed (simp_all add: pextend_def)

lemma plookup_pcollapse [simp]: "plookup (pcollapse p0 p1 p2) key = plookup (PFull p0 p1 p2) key"
  by (cases key) (auto simp: pcollapse_def plookup_PShort)

text \<open>The cases of a minimal short node.\<close>

lemma pwfN_short_cases:
  assumes "pwfN (PShort k c)"
  obtains (leaf) v where "vkey k" "c = PVal v" "v \<noteq> []"
    | (ext) "isBits k" "k \<noteq> []" "isFull c" "pwfN c"
  using assms by (cases c) (auto simp: isValue_def split: if_splits)

lemma pwfN_not_nil [simp]: "pwfN p \<Longrightarrow> p \<noteq> PNil"
  by auto

lemma pwf_child:
  "pwfN (PFull p0 p1 p2) \<Longrightarrow> pwf p0 \<and> pwf p1 \<and> (p2 = PNil \<or> isValue p2)"
  by (auto simp: pwf_def)

lemma isValueE: "isValue p \<Longrightarrow> (\<And>v. p = PVal v \<Longrightarrow> v \<noteq> [] \<Longrightarrow> thesis) \<Longrightarrow> thesis"
  by (cases p) (auto simp: isValue_def)

section \<open>Insertion\<close>

lemma pinsert_PShort:
  "key \<noteq> [] \<Longrightarrow> pinsert (PShort k c) key v =
     (if prefixLen key k = length k then PShort k (pinsert c (drop (length k) key) v)
      else let m = prefixLen key k in
        pextend (take m key) (pbranch (k ! m) (pextend (drop (Suc m) k) c)
           (key ! m) (pextend (drop (Suc m) key) (PVal v))))"
  by (cases key) (auto simp: Let_def)

text \<open>Where the key leaves the path of a short node, the node is split.\<close>

lemma pinsert_split:
  assumes "vkey key" "pwfN (PShort k c)" "prefixLen key k \<noteq> length k"
  obtains pre e es d ks where "key = pre @ e # es" "k = pre @ d # ks" "e \<noteq> d"
    "pinsert (PShort k c) key v = pextend pre (pbranch d (pextend ks c) e (pextend es (PVal v)))"
proof -
  have lt: "prefixLen key k < length k" using assms(3) prefixLen_le(2) [of key k] by simp
  have "vkey k \<or> isBits k" using assms(2) by (rule pwfN_short_cases) auto
  then have "prefixLen key k < length key" using vkey_prefixLen_less assms(1) lt by blast
  from prefixLen_split [OF this lt] obtain pre e es d ks
    where *: "key = pre @ e # es" "k = pre @ d # ks" "e \<noteq> d" "prefixLen key k = length pre" by metis
  moreover have "pinsert (PShort k c) key v = pextend pre (pbranch d (pextend ks c) e (pextend es (PVal v)))"
    using * assms(1) by (simp add: pinsert_PShort)
  ultimately show thesis using that by blast
qed

lemma vkey_digit: "vkey (xs @ d # ys) \<Longrightarrow> d \<in> {0, 1, 2}" "isBits (xs @ d # ys) \<Longrightarrow> d \<in> {0, 1, 2}"
  by (auto simp: vkey_append split: if_splits)

lemma pwfN_pextend: "isBits k \<Longrightarrow> isFull c \<Longrightarrow> pwfN c \<Longrightarrow> pwfN (pextend k c)"
  using vkey_not_bits by (auto simp: pextend_def)

lemma pwfN_pinsert_split:
  assumes "vkey (pre @ e # es)" "pwfN (PShort (pre @ d # ks) c)" "e \<noteq> d" "v \<noteq> []"
  shows "pwfN (pextend pre (pbranch d (pextend ks c) e (pextend es (PVal v))))"
proof -
  have pre: "isBits pre" using assms(1) by (auto simp: vkey_append)
  have d: "d = 2 \<and> isValue (pextend ks c) \<or> d \<noteq> 2 \<and> pwfN (pextend ks c)" "d \<in> {0, 1, 2}"
    using assms(2) by (cases rule: pwfN_short_cases;
        auto simp: vkey_append pextend_def isValue_def vkey_not_bits dest: vkey_not_bits split: if_splits)+
  have e: "e = 2 \<and> isValue (pextend es (PVal v)) \<or> e \<noteq> 2 \<and> pwfN (pextend es (PVal v))" "e \<in> {0, 1, 2}"
    using assms(1,4) by (auto simp: vkey_append pextend_def isValue_def split: if_splits)
  have "pwfN (pbranch d (pextend ks c) e (pextend es (PVal v)))"
    using d e assms(3) by (auto simp: pbranch_def isValue_def)
  then show ?thesis by (intro pwfN_pextend pre) (simp add: pbranch_def isFull_def)
qed

lemma pinsert_correct:
  "vkey key \<Longrightarrow> v \<noteq> [] \<Longrightarrow> pwf p \<Longrightarrow>
     pwfN (pinsert p key v) \<and> (isFull p \<longrightarrow> isFull (pinsert p key v)) \<and>
     (\<forall>key'. vkey key' \<longrightarrow>
        plookup (pinsert p key v) key' = (if key' = key then Some v else plookup p key'))"
proof (induction p arbitrary: key)
  case PNil
  then show ?case by (cases key) (auto simp: isValue_def isFull_def plookup_PShort plookup_pextend_value split: if_splits)
next
  case (PVal x)
  then show ?case by (simp add: pwf_def)
next
  case (PShort k c)
  have wf: "pwfN (PShort k c)" using PShort.prems by (simp add: pwf_def)
  show ?case
  proof (cases "prefixLen key k = length k")
    case False
    from pinsert_split [OF PShort.prems(1) wf this] obtain pre e es d ks
      where s: "key = pre @ e # es" "k = pre @ d # ks" "e \<noteq> d"
        "pinsert (PShort k c) key v = pextend pre (pbranch d (pextend ks c) e (pextend es (PVal v)))" by metis
    have "d \<in> {0, 1, 2}" "e \<in> {0, 1, 2}"
      using s(1,2) PShort.prems(1) vkey_digit wf by (blast elim: pwfN_short_cases)+
    then show ?thesis
      using s pwfN_pinsert_split [of pre e es d ks c v] PShort.prems(1,2) wf
        plookup_pbranch [of d e pre ks c es v] by (auto simp: isFull_def plookup_PShort)
  next
    case True
    then have whole: "length k \<le> length key" "take (length k) key = k" by (simp_all add: prefixLen_whole)
    have ins: "pinsert (PShort k c) key v = PShort k (pinsert c (drop (length k) key) v)"
      using True PShort.prems(1) by (subst pinsert_PShort) auto
    from wf show ?thesis
    proof (cases rule: pwfN_short_cases)
      case (leaf w)
      then have "key = k" using vkey_prefix_eq PShort.prems(1) whole by blast
      then show ?thesis
        using leaf PShort.prems ins by (auto simp: isValue_def isFull_def plookup_PShort plookup_pextend_value)
    next
      case ext
      have rest: "vkey (drop (length k) key)" using vkey_drop_bits PShort.prems(1) ext whole by blast
      note IH = PShort.IH [OF rest PShort.prems(2)]
      have "plookup (PShort k (pinsert c (drop (length k) key) v)) key' =
          (if key' = key then Some v else plookup (PShort k c) key')" if k': "vkey key'" for key'
      proof (cases "length k \<le> length key' \<and> take (length k) key' = k")
        case True
        then have "vkey (drop (length k) key')" using vkey_drop_bits k' ext by blast
        moreover have "drop (length k) key' = drop (length k) key \<longleftrightarrow> key' = key"
          using True whole by (metis append_take_drop_id)
        ultimately show ?thesis using True IH ext by (simp add: pwf_def plookup.simps(3))
      next
        case False
        then show ?thesis using whole by (auto simp: plookup.simps(3))
      qed
      then show ?thesis using ins IH ext vkey_not_bits by (auto simp: isFull_def pwf_def)
    qed
  qed
next
  case (PFull p0 p1 p2)
  have wf: "pwfN (PFull p0 p1 p2)" using PFull.prems(3) unfolding pwf_def by blast
  obtain d ks where key: "key = d # ks" "digit d" using PFull.prems(1) by (auto elim: vkey_ConsE)
  let ?c = "pchild p0 p1 p2 d" and ?q = "pset p0 p1 p2 d (pinsert (pchild p0 p1 p2 d) ks v)"
  have ins: "pinsert (PFull p0 p1 p2) key v = ?q" using key by (rule pinsert_PFull [of _ d ks])
  have child: "(if d = 2 then isValue (pinsert ?c ks v) else pwfN (pinsert ?c ks v)) \<and>
      (\<forall>ks'. vkey (d # ks') \<longrightarrow>
        plookup (pinsert ?c ks v) ks' = (if ks' = ks then Some v else plookup ?c ks'))"
  proof (cases "d = 2")
    case True
    then show ?thesis using key PFull.prems(1,2) by (auto simp: isValue_def)
  next
    case False
    then have "vkey ks" using PFull.prems(1) key by simp
    moreover have "d = 0 \<or> d = 1" using key(2) False by (auto simp: digit_def)
    ultimately show ?thesis
      using PFull.IH(1,2) [of ks] PFull.prems(2) pwf_child [OF wf] by (auto simp: pchild_def)
  qed
  have "pwfN ?q" using wf key(2) child by (intro pwfN_pset) (auto split: if_splits)
  moreover have "plookup ?q key' = (if key' = key then Some v else plookup (PFull p0 p1 p2) key')"
    if k': "vkey key'" for key'
  proof -
    obtain e es where "key' = e # es" "digit e" using k' by (auto elim: vkey_ConsE)
    then show ?thesis using child k' key
      by (auto simp add: plookup_pset plookup_PFull simp del: plookup.simps vkey.simps)
  qed
  moreover have "isFull ?q" by (simp add: pset_def)
  ultimately show ?case unfolding ins by blast
qed

section \<open>Deletion\<close>

lemma pwfN_pcollapse:
  assumes "pwf p0" "pwf p1" "p2 = PNil \<or> isValue p2" "p0 \<noteq> PNil \<or> p1 \<noteq> PNil \<or> p2 \<noteq> PNil"
  shows "pwfN (pcollapse p0 p1 p2)"
proof -
  have m: "pwfN (pmerge [d] p)" if "pwfN p" "d = 0 \<or> d = 1" for d p
    using that by (cases p) (auto split: if_splits)
  show ?thesis using assms m by (auto simp: pcollapse_def pwf_def)
qed

lemma pcollapse_id: "pwfN (PFull p0 p1 p2) \<Longrightarrow> pcollapse p0 p1 p2 = PFull p0 p1 p2"
  by (auto simp: pcollapse_def split: if_splits)

lemma pdelete_PFull:
  assumes "digit d"
  shows "pdelete (PFull p0 p1 p2) (d # ks) =
     (let c = pdelete (pchild p0 p1 p2 d) ks in
      pcollapse (if d = 0 then c else p0) (if d = 1 then c else p1) (if d = 2 then c else p2))"
  using assms by (auto simp: pchild_def digit_def Let_def)

lemma pdelete_correct:
  "vkey key \<Longrightarrow> pwf p \<Longrightarrow>
     pwf (pdelete p key) \<and> (isFull p \<longrightarrow> pdelete p key \<noteq> PNil) \<and>
     (plookup p key = None \<longrightarrow> pdelete p key = p) \<and>
     (\<forall>key'. vkey key' \<longrightarrow>
        plookup (pdelete p key) key' = (if key' = key then None else plookup p key'))"
proof (induction p arbitrary: key)
  case PNil
  then show ?case by (simp add: pwf_def)
next
  case (PVal x)
  then show ?case by (simp add: pwf_def)
next
  case (PShort k c)
  have wf: "pwfN (PShort k c)" using PShort.prems by (simp add: pwf_def)
  have bad: "plookup (PShort k c) key = None" if "prefixLen key k < length k"
    using that prefixLen_whole [of key k] by (auto simp: plookup.simps(3))
  show ?case
  proof (cases "prefixLen key k = length k")
    case False
    then have lt: "prefixLen key k < length k" using prefixLen_le(2) [of key k] by simp
    then show ?thesis using PShort.prems bad by (simp add: Let_def)
  next
    case True
    then have whole: "length k \<le> length key" "take (length k) key = k" by (simp_all add: prefixLen_whole)
    from wf show ?thesis
    proof (cases rule: pwfN_short_cases)
      case (leaf w)
      then have "key = k" using vkey_prefix_eq PShort.prems(1) whole by blast
      then show ?thesis
        using leaf by (auto simp: pwf_def plookup_PShort plookup_pextend_value)
    next
      case ext
      have rest: "vkey (drop (length k) key)" using vkey_drop_bits PShort.prems(1) ext whole by blast
      then have "length k < length key" by (cases "length k < length key") auto
      then have del: "pdelete (PShort k c) key = pmerge k (pdelete c (drop (length k) key))"
        using True by (simp add: Let_def)
      have "pwf c" using ext by (simp add: pwf_def)
      note IH = PShort.IH [OF rest this]
      let ?c = "pdelete c (drop (length k) key)"
      have c: "pwfN ?c" using IH ext by (auto simp: pwf_def)
      then have "pwfN (pmerge k ?c)"
        using ext vkey_not_bits by (cases ?c) (auto simp: vkey_append split: if_splits)
      moreover have "plookup (PShort k ?c) key' = (if key' = key then None else plookup (PShort k c) key')"
        if k': "vkey key'" for key'
      proof (cases "length k \<le> length key' \<and> take (length k) key' = k")
        case True
        then have "vkey (drop (length k) key')" using vkey_drop_bits k' ext by blast
        moreover have "drop (length k) key' = drop (length k) key \<longleftrightarrow> key' = key"
          using True whole by (metis append_take_drop_id)
        ultimately show ?thesis using True IH by (simp add: plookup.simps(3))
      next
        case False
        then show ?thesis using whole by (auto simp: plookup.simps(3))
      qed
      moreover have "pmerge k ?c = PShort k c" if "plookup (PShort k c) key = None"
        using that IH whole ext by (cases c) (auto simp: plookup.simps(3))
      ultimately show ?thesis unfolding del using ext by (simp add: pwf_def plookup_PShort)
    qed
  qed
next
  case (PFull p0 p1 p2)
  have wf: "pwfN (PFull p0 p1 p2)" using PFull.prems(2) unfolding pwf_def by blast
  obtain d ks where key: "key = d # ks" "digit d" using PFull.prems(1) by (auto elim: vkey_ConsE)
  let ?c = "pchild p0 p1 p2 d"
  define c' where "c' = pdelete ?c ks"
  have child: "(if d = 2 then c' = PNil else pwf c') \<and> (plookup ?c ks = None \<longrightarrow> c' = ?c) \<and>
      (\<forall>ks'. vkey (d # ks') \<longrightarrow> plookup c' ks' = (if ks' = ks then None else plookup ?c ks'))"
  proof (cases "d = 2")
    case True
    then show ?thesis using key PFull.prems(1) pwf_child [OF wf] by (auto simp: c'_def pchild_def elim!: isValueE)
  next
    case False
    then have "vkey ks" using PFull.prems(1) key by simp
    moreover have "d = 0 \<or> d = 1" using key(2) False by (auto simp: digit_def)
    ultimately show ?thesis
      using PFull.IH(1,2) [of ks] pwf_child [OF wf] by (auto simp: pchild_def c'_def)
  qed
  let ?q0 = "if d = 0 then c' else p0" and ?q1 = "if d = 1 then c' else p1" and ?q2 = "if d = 2 then c' else p2"
  have q: "pset p0 p1 p2 d c' = PFull ?q0 ?q1 ?q2" by (simp add: pset_def)
  have del: "pdelete (PFull p0 p1 p2) key = pcollapse ?q0 ?q1 ?q2"
    unfolding key(1) pdelete_PFull [OF key(2)] c'_def Let_def ..
  have "pwfN (pcollapse ?q0 ?q1 ?q2)"
    using wf child pwf_child [OF wf] key(2)
    by (intro pwfN_pcollapse) (auto simp: digit_def split: if_splits)
  moreover have "plookup (PFull ?q0 ?q1 ?q2) key' = (if key' = key then None else plookup (PFull p0 p1 p2) key')"
    if k': "vkey key'" for key'
  proof -
    obtain e es where "key' = e # es" "digit e" using k' by (auto elim: vkey_ConsE)
    then show ?thesis using child k' key unfolding q [symmetric]
      by (auto simp add: plookup_pset plookup_PFull simp del: plookup.simps vkey.simps)
  qed
  moreover have "pcollapse ?q0 ?q1 ?q2 = PFull p0 p1 p2" if "plookup (PFull p0 p1 p2) key = None"
  proof -
    have "c' = ?c" using that child key by (simp add: plookup_PFull del: plookup.simps)
    then have "?q0 = p0" "?q1 = p1" "?q2 = p2" by (auto simp: pchild_def)
    then show ?thesis using pcollapse_id [OF wf] by simp
  qed
  ultimately show ?case unfolding del by (simp add: pwf_def)
qed

section \<open>Canonicity\<close>

text \<open>Every minimal subtree holds a key; a branch holds keys with two different first digits.\<close>

lemma pwfN_has_key: "pwfN p \<Longrightarrow> \<exists>key v. vkey key \<and> plookup p key = Some v"
proof (induction p)
  case (PShort k c)
  then show ?case
  proof (cases rule: pwfN_short_cases [OF PShort.prems])
    case (1 v)
    then show ?thesis by (intro exI [of _ k] exI [of _ v]) (simp add: plookup_PShort plookup_pextend_value)
  next
    case 2
    then obtain key v where "vkey key" "plookup c key = Some v" using PShort.IH by blast
    then show ?thesis using 2
      by (intro exI [of _ "k @ key"] exI [of _ v]) (auto simp: plookup_PShort plookup_pextend_append vkey_append)
  qed
next
  case (PFull p0 p1 p2)
  have ex: "\<exists>key v. vkey key \<and> plookup (PFull p0 p1 p2) key = Some v"
    if "vkey ks" "plookup (pchild p0 p1 p2 d) ks = Some v" "d = 0 \<or> d = 1" for d ks v
    using that by (intro exI [of _ "d # ks"] exI [of _ v]) (auto simp: pchild_def)
  show ?case
  proof (cases "p0 = PNil")
    case False
    then show ?thesis using PFull.IH(1) PFull.prems ex [of _ 0] by (auto simp: pchild_def)
  next
    case True
    then show ?thesis using PFull.IH(2) PFull.prems ex [of _ 1] by (auto simp: pchild_def)
  qed
qed auto

lemma branch_two_digits:
  assumes "pwfN (PFull p0 p1 p2)"
  obtains d ks v e es w where "d \<noteq> e" "vkey (d # ks)" "plookup (PFull p0 p1 p2) (d # ks) = Some v"
    "vkey (e # es)" "plookup (PFull p0 p1 p2) (e # es) = Some w"
proof -
  have k0: "\<exists>ks v. vkey (0 # ks) \<and> plookup (PFull p0 p1 p2) (0 # ks) = Some v" if "p0 \<noteq> PNil"
    using that assms pwfN_has_key [of p0] by auto
  have k1: "\<exists>ks v. vkey (1 # ks) \<and> plookup (PFull p0 p1 p2) (1 # ks) = Some v" if "p1 \<noteq> PNil"
    using that assms pwfN_has_key [of p1] by auto
  have k2: "\<exists>ks v. vkey (2 # ks) \<and> plookup (PFull p0 p1 p2) (2 # ks) = Some v" if nonnil: "p2 \<noteq> PNil"
  proof -
    obtain v where "p2 = PVal v" using nonnil assms by (auto elim: isValueE)
    then show ?thesis by (intro exI [of _ "[]"] exI [of _ v]) simp
  qed
  have "p0 \<noteq> PNil \<and> p1 \<noteq> PNil \<or> p0 \<noteq> PNil \<and> p2 \<noteq> PNil \<or> p1 \<noteq> PNil \<and> p2 \<noteq> PNil"
    using assms by (auto split: if_splits)
  moreover have "(0::byte) \<noteq> 1" "(0::byte) \<noteq> 2" "(1::byte) \<noteq> 2" by simp_all
  ultimately show thesis using k0 k1 k2 that by meson
qed

definition same_map :: "ptree \<Rightarrow> ptree \<Rightarrow> bool" where
  "same_map p q \<longleftrightarrow> (\<forall>key. vkey key \<longrightarrow> plookup p key = plookup q key)"

lemma plookup_PShort_Some: "plookup (PShort k c) key = Some v \<Longrightarrow> \<exists>r. key = k @ r \<and> plookup c r = Some v"
  by (auto simp: plookup.simps(3) split: if_splits intro: exI [of _ "drop (length k) key"])
    (metis append_take_drop_id)

text \<open>The keys of a short node fix its path.\<close>

lemma short_path_prefix:
  assumes wf: "pwfN (PShort k c)" "pwfN (PShort k' c')" and same: "same_map (PShort k c) (PShort k' c')"
  shows "length k \<le> length k' \<and> take (length k) k' = k"
  using wf(2)
proof (cases rule: pwfN_short_cases)
  case (leaf v)
  then have "plookup (PShort k c) k' = Some v"
    using same by (simp add: same_map_def plookup_PShort plookup_pextend_value)
  then show ?thesis using plookup_PShort_Some by fastforce
next
  case ext
  then obtain p0 p1 p2 where c': "c' = PFull p0 p1 p2" by (cases c') auto
  obtain d ks v e es w where two: "d \<noteq> e" "vkey (d # ks)" "plookup c' (d # ks) = Some v"
      "vkey (e # es)" "plookup c' (e # es) = Some w"
    using branch_two_digits ext(4) unfolding c' by metis
  have "vkey (k' @ d # ks)" "vkey (k' @ e # es)" using two ext by (auto simp: vkey_append)
  then have "plookup (PShort k c) (k' @ d # ks) = Some v" "plookup (PShort k c) (k' @ e # es) = Some w"
    using same two by (simp_all add: same_map_def plookup_PShort plookup_pextend_append)
  then obtain r s where r: "k' @ d # ks = k @ r" "k' @ e # es = k @ s" using plookup_PShort_Some by metis
  have "length k \<le> length k'"
  proof (rule ccontr)
    assume "\<not> length k \<le> length k'"
    then have "k ! length k' = d" "k ! length k' = e"
      using r by (metis nth_append nth_append_length not_le)+
    then show False using two(1) by simp
  qed
  then show ?thesis using r(1) by (metis append_eq_append_conv_if)
qed

lemma same_map_sym: "same_map p q \<Longrightarrow> same_map q p"
  by (simp add: same_map_def)

lemma same_map_short: "isBits k \<Longrightarrow> same_map (PShort k c) (PShort k c') \<Longrightarrow> same_map c c'"
  unfolding same_map_def
proof (intro allI impI)
  fix key assume k: "isBits k" "\<forall>key. vkey key \<longrightarrow> plookup (PShort k c) key = plookup (PShort k c') key" "vkey key"
  then have "vkey (k @ key)" by (auto simp: vkey_append)
  then show "plookup c key = plookup c' key"
    using k(2) by (metis plookup_PShort plookup_pextend_append)
qed

lemma same_map_full:
  "same_map (PFull p0 p1 p2) (PFull q0 q1 q2) \<Longrightarrow>
     same_map p0 q0 \<and> same_map p1 q1 \<and> plookup p2 [] = plookup q2 []"
proof -
  assume *: "same_map (PFull p0 p1 p2) (PFull q0 q1 q2)"
  have "plookup p0 key = plookup q0 key" "plookup p1 key = plookup q1 key" if "vkey key" for key
    using * [unfolded same_map_def, rule_format, of "0 # key"] * [unfolded same_map_def, rule_format, of "1 # key"] that
    by simp_all
  moreover have "plookup p2 [] = plookup q2 []"
    using * [unfolded same_map_def, rule_format, of "[2]"] by simp
  ultimately show ?thesis by (simp add: same_map_def)
qed

lemma short_not_branch: "pwfN (PShort k c) \<Longrightarrow> pwfN (PFull q0 q1 q2) \<Longrightarrow> \<not> same_map (PShort k c) (PFull q0 q1 q2)"
proof
  assume wf: "pwfN (PShort k c)" "pwfN (PFull q0 q1 q2)" and same: "same_map (PShort k c) (PFull q0 q1 q2)"
  obtain d ks v e es w where two: "d \<noteq> e" "vkey (d # ks)" "plookup (PFull q0 q1 q2) (d # ks) = Some v"
      "vkey (e # es)" "plookup (PFull q0 q1 q2) (e # es) = Some w"
    using branch_two_digits [OF wf(2)] by metis
  have "k \<noteq> []" using wf(1) by auto
  then show False using two same plookup_PShort_Some [of k c "d # ks" v] plookup_PShort_Some [of k c "e # es" w]
    unfolding same_map_def by (cases k) fastforce+
qed

lemma same_map_nil:
  assumes "same_map a b" "pwf a" "pwf b"
  shows "a = PNil \<longleftrightarrow> b = PNil"
proof -
  have "p \<noteq> PNil \<Longrightarrow> pwf p \<Longrightarrow> same_map p PNil \<Longrightarrow> False" for p
    using pwfN_has_key [of p] unfolding pwf_def same_map_def by auto
  then show ?thesis using assms same_map_sym by blast
qed

lemma pwfN_canonical: "pwfN p \<Longrightarrow> pwfN q \<Longrightarrow> same_map p q \<Longrightarrow> p = q"
proof (induction p arbitrary: q)
  case (PShort k c)
  obtain k' c' where q: "q = PShort k' c'"
    using PShort.prems short_not_branch by (cases q) (auto simp del: pwfN.simps(3,4))
  have "k = k'"
    using short_path_prefix [of k c k' c'] short_path_prefix [of k' c' k c] PShort.prems same_map_sym
    unfolding q by (metis le_antisym take_all order_refl)
  show ?case
  proof (cases rule: pwfN_short_cases [OF PShort.prems(1)])
    case (1 v)
    then obtain w where "c' = PVal w" using PShort.prems(2) q \<open>k = k'\<close> by (auto elim: isValueE)
    moreover have "plookup (PShort k c) k = plookup (PShort k c') k"
      using PShort.prems(3) 1 q \<open>k = k'\<close> by (simp add: same_map_def)
    ultimately show ?thesis using 1 q \<open>k = k'\<close> by (simp add: plookup_PShort plookup_pextend_value)
  next
    case 2
    then have "pwfN c'" using PShort.prems(2) q \<open>k = k'\<close> vkey_not_bits [of k] by (auto split: if_splits)
    moreover have "same_map c c'" using same_map_short 2 PShort.prems(3) q \<open>k = k'\<close> by blast
    ultimately show ?thesis using PShort.IH 2 q \<open>k = k'\<close> by simp
  qed
next
  case (PFull p0 p1 p2)
  obtain q0 q1 q2 where q: "q = PFull q0 q1 q2"
  proof (cases q)
    case (PShort k c)
    then show ?thesis
      using short_not_branch PFull.prems(1,2) same_map_sym [OF PFull.prems(3)] by blast
  qed (use PFull.prems(2) in auto)
  note s = same_map_full [OF PFull.prems(3) [unfolded q]]
  note c = pwf_child [OF PFull.prems(1)] pwf_child [OF PFull.prems(2) [unfolded q]]
  have "p0 = q0" using PFull.IH(1) s same_map_nil [of p0 q0] c unfolding pwf_def by blast
  moreover have "p1 = q1" using PFull.IH(2) s same_map_nil [of p1 q1] c unfolding pwf_def by blast
  moreover have "p2 = q2" using s c by (auto elim!: isValueE)
  ultimately show ?case by (simp add: q)
qed auto

lemma pwf_canonical: "pwf p \<Longrightarrow> pwf q \<Longrightarrow> same_map p q \<Longrightarrow> p = q"
  using pwfN_canonical [of p q] same_map_nil [of p q] unfolding pwf_def by blast

section \<open>The store contract\<close>

text \<open>Writing a value, where the empty value deletes (\<open>Trie.TryUpdate\<close>).\<close>

definition pupdate :: "ptree \<Rightarrow> bytes \<Rightarrow> bytes \<Rightarrow> ptree" where
  "pupdate p key v = (if v = [] then pdelete p key else pinsert p key v)"

lemma pupdate_correct:
  assumes "vkey key" "pwf p"
  shows "pwf (pupdate p key v)"
    and "vkey key' \<Longrightarrow> plookup (pupdate p key v) key' =
      (if key' = key then if v = [] then None else Some v else plookup p key')"
  using pinsert_correct [of key v p] pdelete_correct [of key p] assms
  unfolding pupdate_def by (auto simp: pwf_def [of "pinsert p key v"])

interpretation pat: canonical_store pwf vkey plookup pupdate
  using pupdate_correct pwf_canonical by unfold_locales (auto simp: same_map_def)

end
