(* ===== verification/Trie.thy ===== *)
theory Trie
  imports Patricia Types
begin

text \<open>
  The Merkle Patricia trie of \<open>trie/node.go\<close> and \<open>trie/trie.go\<close>, with its lazily loaded
  nodes. A node is what the Go interface \<open>node\<close> can hold: \<open>nil\<close>, a full node with three
  children (digits 0 and 1, value slot 2), a short node, a hash that stands for a node in the
  database, or a value. The database is read through the function \<open>db\<close> (\<open>Database.node\<close>,
  see the theory \<open>Database\<close>); a missing node is an error value.

  Each recursive operation counts the hash nodes it resolves with \<open>fuel\<close>, because a database
  with a cycle would keep the Go code running (\<open>Hang\<close>). The key length bounds the number of
  resolutions on every well-formed trie, and the exported operations use it; the refinement
  lemmas show that \<open>Hang\<close> and \<open>Panic\<close> never occur there.
\<close>

section \<open>Nodes\<close>

record nodeFlag =
  fl_hash :: "hash option"
  fl_dirty :: bool

datatype node =
    NilN
  | FullN node node node nodeFlag
  | ShortN bytes node nodeFlag
  | HashN hash
  | ValueN bytes

definition newFlag :: nodeFlag where
  "newFlag = \<lparr>fl_hash = None, fl_dirty = True\<rparr>"

text \<open>The method \<open>cache\<close>; on the nil interface the call panics.\<close>

fun nodeCache :: "node \<Rightarrow> (hash option \<times> bool) option" where
  "nodeCache NilN = None"
| "nodeCache (FullN c0 c1 c2 f) = Some (fl_hash f, fl_dirty f)"
| "nodeCache (ShortN k c f) = Some (fl_hash f, fl_dirty f)"
| "nodeCache (HashN h) = Some (None, True)"
| "nodeCache (ValueN v) = Some (None, True)"

text \<open>\<open>n.Children[i]\<close> and the assignment to it; the array has three entries.\<close>

definition childAt :: "node \<Rightarrow> node \<Rightarrow> node \<Rightarrow> byte \<Rightarrow> node option" where
  "childAt c0 c1 c2 i =
     (if i = 0 then Some c0 else if i = 1 then Some c1 else if i = 2 then Some c2 else None)"

definition withChild :: "node \<Rightarrow> node \<Rightarrow> node \<Rightarrow> nodeFlag \<Rightarrow> byte \<Rightarrow> node \<Rightarrow> node" where
  "withChild c0 c1 c2 f i c =
     FullN (if i = 0 then c else c0) (if i = 1 then c else c1) (if i = 2 then c else c2) f"

lemma size_childAt: "childAt c0 c1 c2 i = Some c \<Longrightarrow> size c < size (FullN c0 c1 c2 f)"
  by (auto simp: childAt_def split: if_splits)

section \<open>Reading\<close>

datatype trieErr = MissingNode hash bytes | NonConsensus | BlobErr hash

type_synonym nodeDb = "hash \<Rightarrow> node option"

definition resolveHash :: "nodeDb \<Rightarrow> hash \<Rightarrow> bytes \<Rightarrow> (trieErr, node) res" where
  "resolveHash db n pfx = (case db n of Some nd \<Rightarrow> Ok nd | None \<Rightarrow> Err (MissingNode n pfx))"

definition resolve :: "nodeDb \<Rightarrow> node \<Rightarrow> bytes \<Rightarrow> (trieErr, node) res" where
  "resolve db n pfx = (case n of HashN h \<Rightarrow> resolveHash db h pfx | _ \<Rightarrow> Ok n)"

function tryGet :: "nodeDb \<Rightarrow> nat \<Rightarrow> node \<Rightarrow> bytes \<Rightarrow> nat \<Rightarrow> (trieErr, bytes option \<times> node \<times> bool) res" where
  "tryGet db fuel NilN key pos = Ok (None, NilN, False)"
| "tryGet db fuel (ValueN v) key pos = Ok (Some v, ValueN v, False)"
| "tryGet db fuel (ShortN k c f) key pos =
     (if length key - pos < length k \<or> k \<noteq> take (length k) (drop pos key)
      then Ok (None, ShortN k c f, False)
      else rbind (tryGet db fuel c key (pos + length k)) (\<lambda>(value, newnode, didResolve).
        Ok (value, if didResolve then ShortN k newnode f else ShortN k c f, didResolve)))"
| "tryGet db fuel (FullN c0 c1 c2 f) key pos =
     (if pos < length key then
        (case childAt c0 c1 c2 (key ! pos) of
           None \<Rightarrow> Panic
         | Some c \<Rightarrow> rbind (tryGet db fuel c key (pos + 1)) (\<lambda>(value, newnode, didResolve).
             Ok (value,
                 if didResolve then withChild c0 c1 c2 f (key ! pos) newnode else FullN c0 c1 c2 f,
                 didResolve)))
      else Panic)"
| "tryGet db fuel (HashN h) key pos =
     (case fuel of
        0 \<Rightarrow> Hang
      | Suc fuel' \<Rightarrow> rbind (resolveHash db h (take pos key)) (\<lambda>child.
          rbind (tryGet db fuel' child key pos) (\<lambda>(value, newnode, _). Ok (value, newnode, True))))"
  by pat_completeness auto
termination
  by (relation "measures [\<lambda>(db, fuel, n, key, pos). fuel, \<lambda>(db, fuel, n, key, pos). size n]")
    (auto simp: size_childAt [simplified])

text \<open>
  \<open>tryGetNode\<close> follows a path to a node and reads its encoding from the database
  (\<open>blob\<close> is \<open>Database.Node\<close>).
\<close>

function tryGetNode :: "nodeDb \<Rightarrow> (hash \<Rightarrow> bytes option) \<Rightarrow> nat \<Rightarrow> node \<Rightarrow> bytes \<Rightarrow> nat \<Rightarrow>
    (trieErr, bytes option \<times> node \<times> nat) res" where
  "tryGetNode db blob fuel n path pos =
     (if pos \<ge> length path then
        (case (case n of HashN h \<Rightarrow> Some (Some h) | _ \<Rightarrow> map_option fst (nodeCache n)) of
           None \<Rightarrow> Panic
         | Some None \<Rightarrow> Err NonConsensus
         | Some (Some h) \<Rightarrow>
             (case blob h of None \<Rightarrow> Err (BlobErr h) | Some b \<Rightarrow> Ok (Some b, n, 1)))
      else
        (case n of
           NilN \<Rightarrow> Ok (None, NilN, 0)
         | ValueN v \<Rightarrow> Ok (None, NilN, 0)
         | ShortN k c f \<Rightarrow>
             (if length path - pos < length k \<or> k \<noteq> take (length k) (drop pos path)
              then Ok (None, ShortN k c f, 0)
              else rbind (tryGetNode db blob fuel c path (pos + length k)) (\<lambda>(item, newnode, resolved).
                Ok (item, if resolved > 0 then ShortN k newnode f else ShortN k c f, resolved)))
         | FullN c0 c1 c2 f \<Rightarrow>
             (case childAt c0 c1 c2 (path ! pos) of
                None \<Rightarrow> Panic
              | Some c \<Rightarrow> rbind (tryGetNode db blob fuel c path (pos + 1)) (\<lambda>(item, newnode, resolved).
                  Ok (item,
                      if resolved > 0 then withChild c0 c1 c2 f (path ! pos) newnode
                      else FullN c0 c1 c2 f,
                      resolved)))
         | HashN h \<Rightarrow>
             (case fuel of
                0 \<Rightarrow> Hang
              | Suc fuel' \<Rightarrow> rbind (resolveHash db h (take pos path)) (\<lambda>child.
                  rbind (tryGetNode db blob fuel' child path pos) (\<lambda>(item, newnode, resolved).
                    Ok (item, newnode, resolved + 1))))))"
  by pat_completeness auto
termination
  by (relation "measures [\<lambda>(db, blob, fuel, n, path, pos). fuel, \<lambda>(db, blob, fuel, n, path, pos). size n]")
    (auto simp: size_childAt [simplified])

declare tryGetNode.simps [simp del]

section \<open>Inserting\<close>

function insertAt :: "nodeDb \<Rightarrow> nat \<Rightarrow> node \<Rightarrow> bytes \<Rightarrow> bytes \<Rightarrow> node \<Rightarrow> (trieErr, bool \<times> node) res" where
  "insertAt db fuel n pfx key value =
     (if key = [] then
        (case n of
           ValueN v \<Rightarrow> (case value of ValueN w \<Rightarrow> Ok (v \<noteq> w, value) | _ \<Rightarrow> Panic)
         | _ \<Rightarrow> Ok (True, value))
      else
        (case n of
           ShortN k c f \<Rightarrow>
             (let matchlen = prefixLen key k in
              if matchlen = length k then
                rbind (insertAt db fuel c (pfx @ take matchlen key) (drop matchlen key) value)
                  (\<lambda>(dirty, nn). if \<not> dirty then Ok (False, n) else Ok (True, ShortN k nn newFlag))
              else if matchlen \<ge> length key then Panic
              else
                rbind (insertAt db fuel NilN (pfx @ take (matchlen + 1) k) (drop (matchlen + 1) k) c) (\<lambda>(_, a).
                  rbind (insertAt db fuel NilN (pfx @ take (matchlen + 1) key) (drop (matchlen + 1) key) value) (\<lambda>(_, b).
                    if childAt NilN NilN NilN (k ! matchlen) = None \<or> childAt NilN NilN NilN (key ! matchlen) = None
                    then Panic
                    else
                      let branch = FullN
                            (if key ! matchlen = 0 then b else if k ! matchlen = 0 then a else NilN)
                            (if key ! matchlen = 1 then b else if k ! matchlen = 1 then a else NilN)
                            (if key ! matchlen = 2 then b else if k ! matchlen = 2 then a else NilN) newFlag
                      in if matchlen = 0 then Ok (True, branch)
                         else Ok (True, ShortN (take matchlen key) branch newFlag))))
         | FullN c0 c1 c2 f \<Rightarrow>
             (case childAt c0 c1 c2 (hd key) of
                None \<Rightarrow> Panic
              | Some c \<Rightarrow> rbind (insertAt db fuel c (pfx @ [hd key]) (tl key) value) (\<lambda>(dirty, nn).
                  if \<not> dirty then Ok (False, n)
                  else Ok (True, withChild c0 c1 c2 newFlag (hd key) nn)))
         | NilN \<Rightarrow> Ok (True, ShortN key value newFlag)
         | HashN h \<Rightarrow>
             (case fuel of
                0 \<Rightarrow> Hang
              | Suc fuel' \<Rightarrow> rbind (resolveHash db h pfx) (\<lambda>rn.
                  rbind (insertAt db fuel' rn pfx key value) (\<lambda>(dirty, nn).
                    if \<not> dirty then Ok (False, rn) else Ok (True, nn))))
         | ValueN v \<Rightarrow> Panic))"
  by pat_completeness auto
termination
  by (relation "measures [\<lambda>(db, fuel, n, pfx, key, value). fuel, \<lambda>(db, fuel, n, pfx, key, value). size n]")
    (auto simp: size_childAt [simplified])

declare insertAt.simps [simp del]

text \<open>\<open>insertNode\<close> puts a whole node at a path; it does not resolve hash nodes.\<close>

function insertNode :: "nodeDb \<Rightarrow> nat \<Rightarrow> node \<Rightarrow> bytes \<Rightarrow> bytes \<Rightarrow> node \<Rightarrow> (trieErr, bool \<times> node) res" where
  "insertNode db fuel n pfx key val =
     (if key = [] then Ok (True, val)
      else
        (case n of
           ShortN k c f \<Rightarrow>
             (let matchlen = prefixLen key k in
              if matchlen = length k then
                rbind (insertNode db fuel c (pfx @ take matchlen key) (drop matchlen key) val)
                  (\<lambda>(dirty, nn). if \<not> dirty then Ok (False, n) else Ok (True, ShortN k nn newFlag))
              else if matchlen \<ge> length key then Panic
              else
                rbind (insertAt db fuel NilN (pfx @ take (matchlen + 1) k) (drop (matchlen + 1) k) c) (\<lambda>(_, a).
                  rbind (insertNode db fuel NilN (pfx @ take (matchlen + 1) key) (drop (matchlen + 1) key) val) (\<lambda>(_, b).
                    if childAt NilN NilN NilN (k ! matchlen) = None \<or> childAt NilN NilN NilN (key ! matchlen) = None
                    then Panic
                    else
                      let branch = FullN
                            (if key ! matchlen = 0 then b else if k ! matchlen = 0 then a else NilN)
                            (if key ! matchlen = 1 then b else if k ! matchlen = 1 then a else NilN)
                            (if key ! matchlen = 2 then b else if k ! matchlen = 2 then a else NilN) newFlag
                      in if matchlen = 0 then Ok (True, branch)
                         else Ok (True, ShortN (take matchlen key) branch newFlag))))
         | FullN c0 c1 c2 f \<Rightarrow>
             (case childAt c0 c1 c2 (hd key) of
                None \<Rightarrow> Panic
              | Some c \<Rightarrow> rbind (insertNode db fuel c (pfx @ [hd key]) (tl key) val) (\<lambda>(dirty, nn).
                  if \<not> dirty then Ok (False, n)
                  else Ok (True, withChild c0 c1 c2 newFlag (hd key) nn)))
         | NilN \<Rightarrow> Ok (True, ShortN key val newFlag)
         | HashN h \<Rightarrow> Panic
         | ValueN v \<Rightarrow> Panic))"
  by pat_completeness auto
termination
  by (relation "measure (\<lambda>(db, fuel, n, pfx, key, val). size n)") (auto simp: size_childAt [simplified])

declare insertNode.simps [simp del]

section \<open>Deleting\<close>

text \<open>
  The loop over the children of a full node after a deletion: the index of the single
  non-nil child, \<open>-2\<close> when two are left, \<open>-1\<close> when none is.
\<close>

fun singleChild :: "int \<Rightarrow> int \<Rightarrow> node list \<Rightarrow> int" where
  "singleChild i pos [] = pos"
| "singleChild i pos (c # cs) =
     (if c \<noteq> NilN then if pos = -1 then singleChild (i + 1) i cs else -2
      else singleChild (i + 1) pos cs)"

text \<open>The full node that is left after a child has been removed, reduced if it can be.\<close>

definition reduceFull :: "nodeDb \<Rightarrow> bytes \<Rightarrow> node \<Rightarrow> node \<Rightarrow> node \<Rightarrow> (trieErr, bool \<times> node) res" where
  "reduceFull db pfx c0 c1 c2 =
     (let pos = singleChild 0 (-1) [c0, c1, c2];
          cp = (if pos = 0 then c0 else if pos = 1 then c1 else c2)
      in if pos \<ge> 0 then
           if pos \<noteq> 2 then
             rbind (resolve db cp pfx) (\<lambda>cnode.
               case cnode of
                 ShortN k' c' f' \<Rightarrow> Ok (True, ShortN (of_int pos # k') c' newFlag)
               | _ \<Rightarrow> Ok (True, ShortN [of_int pos] cp newFlag))
           else Ok (True, ShortN [of_int pos] cp newFlag)
         else Ok (True, FullN c0 c1 c2 newFlag))"

function deleteAt :: "nodeDb \<Rightarrow> nat \<Rightarrow> node \<Rightarrow> bytes \<Rightarrow> bytes \<Rightarrow> (trieErr, bool \<times> node) res" where
  "deleteAt db fuel (ShortN k c f) pfx key =
     (let matchlen = prefixLen key k in
      if matchlen < length k then Ok (False, ShortN k c f)
      else if matchlen = length key then Ok (True, NilN)
      else rbind (deleteAt db fuel c (pfx @ take (length k) key) (drop (length k) key)) (\<lambda>(dirty, child).
        if \<not> dirty then Ok (False, ShortN k c f)
        else case child of
               ShortN k' c' f' \<Rightarrow> Ok (True, ShortN (k @ k') c' newFlag)
             | _ \<Rightarrow> Ok (True, ShortN k child newFlag)))"
| "deleteAt db fuel (FullN c0 c1 c2 f) pfx key =
     (case key of
        [] \<Rightarrow> Panic
      | d # ks \<Rightarrow>
          (case childAt c0 c1 c2 d of
             None \<Rightarrow> Panic
           | Some c \<Rightarrow> rbind (deleteAt db fuel c (pfx @ [d]) ks) (\<lambda>(dirty, nn).
               if \<not> dirty then Ok (False, FullN c0 c1 c2 f)
               else
                 reduceFull db pfx (if d = 0 then nn else c0) (if d = 1 then nn else c1)
                   (if d = 2 then nn else c2))))"
| "deleteAt db fuel (ValueN v) pfx key = Ok (True, NilN)"
| "deleteAt db fuel NilN pfx key = Ok (False, NilN)"
| "deleteAt db fuel (HashN h) pfx key =
     (case fuel of
        0 \<Rightarrow> Hang
      | Suc fuel' \<Rightarrow> rbind (resolveHash db h pfx) (\<lambda>rn.
          rbind (deleteAt db fuel' rn pfx key) (\<lambda>(dirty, nn).
            if \<not> dirty then Ok (False, rn) else Ok (True, nn))))"
  by pat_completeness auto
termination
  by (relation "measures [\<lambda>(db, fuel, n, pfx, key). fuel, \<lambda>(db, fuel, n, pfx, key). size n]")
    (auto simp: size_childAt [simplified])

section \<open>The trie object\<close>

record Trie =
  tr_root :: node
  tr_unhashed :: nat

definition TrieNew :: "nodeDb \<Rightarrow> hash \<Rightarrow> hash \<Rightarrow> (trieErr, Trie) res" where
  "TrieNew db emptyRoot root =
     (if root \<noteq> zeroHash \<and> root \<noteq> emptyRoot
      then rbind (resolveHash db root []) (\<lambda>n. Ok \<lparr>tr_root = n, tr_unhashed = 0\<rparr>)
      else Ok \<lparr>tr_root = NilN, tr_unhashed = 0\<rparr>)"

text \<open>The bound on hash resolutions that the exported operations pass down.\<close>

definition keyFuel :: "bytes \<Rightarrow> nat" where
  "keyFuel k = length k + 1"

text \<open>An operation returns the trie as it is left, also when it fails.\<close>

definition TryGet :: "nodeDb \<Rightarrow> Trie \<Rightarrow> bytes \<Rightarrow> (trieErr, bytes option) res \<times> Trie" where
  "TryGet db t key =
     (let k = keybytesToBinary key in
      case tryGet db (keyFuel k) (tr_root t) k 0 of
        Ok (value, newroot, didResolve) \<Rightarrow>
          (Ok value, if didResolve then t\<lparr>tr_root := newroot\<rparr> else t)
      | Err e \<Rightarrow> (Err e, t) | Panic \<Rightarrow> (Panic, t) | Hang \<Rightarrow> (Hang, t))"

text \<open>\<open>Get\<close>, \<open>Update\<close> and \<open>Delete\<close> only log an error of their \<open>Try\<close> variant.\<close>

definition TrieGet :: "nodeDb \<Rightarrow> Trie \<Rightarrow> bytes \<Rightarrow> (trieErr, bytes option) res \<times> Trie" where
  "TrieGet db t key = (case TryGet db t key of (Err e, t') \<Rightarrow> (Ok None, t') | r \<Rightarrow> r)"

definition TryGetNode :: "nodeDb \<Rightarrow> (hash \<Rightarrow> bytes option) \<Rightarrow> Trie \<Rightarrow> bytes \<Rightarrow>
    (trieErr, bytes option \<times> nat) res \<times> Trie" where
  "TryGetNode db blob t path =
     (case compactToBinary path of
        None \<Rightarrow> (Panic, t)
      | Some p \<Rightarrow>
          (case tryGetNode db blob (keyFuel p) (tr_root t) p 0 of
             Ok (item, newroot, resolved) \<Rightarrow>
               (Ok (item, resolved), if resolved > 0 then t\<lparr>tr_root := newroot\<rparr> else t)
           | Err e \<Rightarrow> (Err e, t) | Panic \<Rightarrow> (Panic, t) | Hang \<Rightarrow> (Hang, t)))"

definition TryUpdate :: "nodeDb \<Rightarrow> Trie \<Rightarrow> bytes \<Rightarrow> bytes \<Rightarrow> (trieErr, unit) res \<times> Trie" where
  "TryUpdate db t key value =
     (let t = t\<lparr>tr_unhashed := tr_unhashed t + 1\<rparr>; k = keybytesToBinary key in
      case (if length value \<noteq> 0 then insertAt db (keyFuel k) (tr_root t) [] k (ValueN value)
            else deleteAt db (keyFuel k) (tr_root t) [] k) of
        Ok (_, n) \<Rightarrow> (Ok (), t\<lparr>tr_root := n\<rparr>)
      | Err e \<Rightarrow> (Err e, t) | Panic \<Rightarrow> (Panic, t) | Hang \<Rightarrow> (Hang, t))"

definition TrieUpdate :: "nodeDb \<Rightarrow> Trie \<Rightarrow> bytes \<Rightarrow> bytes \<Rightarrow> (trieErr, unit) res \<times> Trie" where
  "TrieUpdate db t key value =
     (case TryUpdate db t key value of (Err e, t') \<Rightarrow> (Ok (), t') | r \<Rightarrow> r)"

definition TryUpdateNode :: "nodeDb \<Rightarrow> Trie \<Rightarrow> bytes \<Rightarrow> node \<Rightarrow> (trieErr, unit) res \<times> Trie" where
  "TryUpdateNode db t key n =
     (let t = t\<lparr>tr_unhashed := tr_unhashed t + 1\<rparr> in
      case compactToBinary key of
        None \<Rightarrow> (Panic, t)
      | Some k \<Rightarrow>
          (case insertNode db (keyFuel k) (tr_root t) [] k n of
             Ok (_, n) \<Rightarrow> (Ok (), t\<lparr>tr_root := n\<rparr>)
           | Err e \<Rightarrow> (Err e, t) | Panic \<Rightarrow> (Panic, t) | Hang \<Rightarrow> (Hang, t)))"

definition TryDelete :: "nodeDb \<Rightarrow> Trie \<Rightarrow> bytes \<Rightarrow> (trieErr, unit) res \<times> Trie" where
  "TryDelete db t key =
     (let t = t\<lparr>tr_unhashed := tr_unhashed t + 1\<rparr>; k = keybytesToBinary key in
      case deleteAt db (keyFuel k) (tr_root t) [] k of
        Ok (_, n) \<Rightarrow> (Ok (), t\<lparr>tr_root := n\<rparr>)
      | Err e \<Rightarrow> (Err e, t) | Panic \<Rightarrow> (Panic, t) | Hang \<Rightarrow> (Hang, t))"

definition TrieDelete :: "nodeDb \<Rightarrow> Trie \<Rightarrow> bytes \<Rightarrow> (trieErr, unit) res \<times> Trie" where
  "TrieDelete db t key = (case TryDelete db t key of (Err e, t') \<Rightarrow> (Ok (), t') | r \<Rightarrow> r)"

definition TrieReset :: "Trie \<Rightarrow> Trie" where
  "TrieReset t = t\<lparr>tr_root := NilN, tr_unhashed := 0\<rparr>"

section \<open>Refinement to Patricia trees\<close>

declare ex_bool_eq [simp]

text \<open>
  \<open>loads db R b n p\<close>: with its hash nodes read from \<open>db\<close>, the node \<open>n\<close> is the tree \<open>p\<close>, and
  every hash in it (hash nodes and cached hashes) is related by \<open>R\<close> to the subtree it stands
  for; \<open>b\<close> tells whether the node is the root. A node without a cached hash is dirty unless its
  tree has no hash (it is embedded in its parent); a clean node with a hash is in the database;
  and below a cached hash every loaded node that has a hash carries it (\<open>deep\<close>). The database
  holds short and full nodes only, because \<open>decodeNode\<close> builds nothing else.
\<close>

definition inner :: "node \<Rightarrow> bool" where
  "inner n \<longleftrightarrow> (case n of ShortN _ _ _ \<Rightarrow> True | FullN _ _ _ _ \<Rightarrow> True | _ \<Rightarrow> False)"

fun deep :: "(bool \<Rightarrow> hash \<Rightarrow> ptree \<Rightarrow> bool) \<Rightarrow> bool \<Rightarrow> node \<Rightarrow> ptree \<Rightarrow> bool" where
  "deep R b (ShortN k c f) (PShort k' p) =
     ((fl_hash f \<noteq> None \<or> (\<forall>h. \<not> R b h (PShort k' p))) \<and> deep R False c p)"
| "deep R b (FullN c0 c1 c2 f) (PFull p0 p1 p2) =
     ((fl_hash f \<noteq> None \<or> (\<forall>h. \<not> R b h (PFull p0 p1 p2))) \<and>
      deep R False c0 p0 \<and> deep R False c1 p1 \<and> deep R False c2 p2)"
| "deep R b n p = True"

definition flagOk :: "nodeDb \<Rightarrow> (hash \<Rightarrow> ptree \<Rightarrow> bool) \<Rightarrow> nodeFlag \<Rightarrow> ptree \<Rightarrow> bool \<Rightarrow> bool" where
  "flagOk db R f p below \<longleftrightarrow>
     (case fl_hash f of
        None \<Rightarrow> fl_dirty f \<or> (\<forall>h. \<not> R h p)
      | Some h \<Rightarrow> R h p \<and> (fl_dirty f \<or> db h \<noteq> None) \<and> below)"

inductive loads :: "nodeDb \<Rightarrow> (bool \<Rightarrow> hash \<Rightarrow> ptree \<Rightarrow> bool) \<Rightarrow> bool \<Rightarrow> node \<Rightarrow> ptree \<Rightarrow> bool" for db R where
  L_nil: "loads db R b NilN PNil"
| L_val: "loads db R b (ValueN v) (PVal v)"
| L_short: "loads db R False c p \<Longrightarrow> flagOk db (R b) f (PShort k p) (deep R False c p) \<Longrightarrow>
     loads db R b (ShortN k c f) (PShort k p)"
| L_full: "loads db R False c0 p0 \<Longrightarrow> loads db R False c1 p1 \<Longrightarrow> loads db R False c2 p2 \<Longrightarrow>
     flagOk db (R b) f (PFull p0 p1 p2) (deep R False c0 p0 \<and> deep R False c1 p1 \<and> deep R False c2 p2) \<Longrightarrow>
     loads db R b (FullN c0 c1 c2 f) (PFull p0 p1 p2)"
| L_hash: "db h = Some n \<Longrightarrow> inner n \<Longrightarrow> loads db R b n p \<Longrightarrow> R b h p \<Longrightarrow> deep R b n p \<Longrightarrow> loads db R b (HashN h) p"

inductive_simps loads_NilN [simp]: "loads db R b NilN p"
inductive_simps loads_ValueN [simp]: "loads db R b (ValueN v) p"
inductive_simps loads_ShortN [simp]: "loads db R b (ShortN k c f) p"
inductive_simps loads_FullN [simp]: "loads db R b (FullN c0 c1 c2 f) p"
inductive_simps loads_HashN: "loads db R b (HashN h) p"

lemma inner_simps [simp]:
  "\<not> inner NilN" "\<not> inner (ValueN v)" "\<not> inner (HashN h)" "inner (ShortN k c f)" "inner (FullN c0 c1 c2 f)"
  by (simp_all add: inner_def)

lemma flagOk_newFlag [simp]: "flagOk db R newFlag p below"
  by (simp add: flagOk_def newFlag_def)

lemma loads_not_nil: "loads db R b n p \<Longrightarrow> p = PNil \<longleftrightarrow> n = NilN"
  by (induction rule: loads.induct) (auto simp: inner_def)

text \<open>The keys with which a subtree of a minimal tree is entered.\<close>

definition entered :: "ptree \<Rightarrow> bytes \<Rightarrow> bool" where
  "entered p ks \<longleftrightarrow> (if ks = [] then p = PNil \<or> isValue p else vkey ks \<and> pwf p)"

lemma entered_short:
  assumes "entered (PShort k c) key" "length k \<le> length key" "take (length k) key = k"
  shows "entered c (drop (length k) key)" "k \<noteq> []"
proof -
  have key: "vkey key" "pwfN (PShort k c)"
    using assms(1) unfolding entered_def pwf_def by (auto split: if_splits)
  from key(2) show "entered c (drop (length k) key)"
  proof (cases rule: pwfN_short_cases)
    case (leaf v)
    then show ?thesis using vkey_prefix_eq key(1) assms(3) by (fastforce simp: entered_def)
  next
    case ext
    then show ?thesis using vkey_drop_bits [OF key(1)] assms(3) by (force simp: entered_def pwf_def)
  qed
  show "k \<noteq> []" using key(2) by auto
qed

lemma entered_full:
  assumes "entered (PFull p0 p1 p2) key"
  obtains d ks where "key = d # ks" "digit d" "entered (pchild p0 p1 p2 d) ks" "pwfN (PFull p0 p1 p2)"
proof -
  have key: "vkey key" "pwfN (PFull p0 p1 p2)"
    using assms unfolding entered_def pwf_def by (auto split: if_splits)
  obtain d ks where d: "key = d # ks" "digit d" "d = 2 \<and> ks = [] \<or> d \<noteq> 2 \<and> vkey ks"
    using key(1) by (rule vkey_ConsE)
  have "entered (pchild p0 p1 p2 d) ks"
  proof (cases "d = 2")
    case True
    then show ?thesis using d pwf_child [OF key(2)] by (auto simp: entered_def pchild_def)
  next
    case False
    then have "vkey ks" "ks \<noteq> []" using d by auto
    then show ?thesis using d False pwf_child [OF key(2)] by (auto simp: entered_def pchild_def digit_def)
  qed
  then show thesis using that d key(2) by blast
qed

lemma childAt_digit:
  assumes "digit d" "loads db R False c0 p0" "loads db R False c1 p1" "loads db R False c2 p2"
  obtains c where "childAt c0 c1 c2 d = Some c" "loads db R False c (pchild p0 p1 p2 d)"
  using assms by (auto simp: childAt_def pchild_def digit_def)

lemma loads_withChild:
  assumes "digit d" "loads db R False c0 p0" "loads db R False c1 p1" "loads db R False c2 p2" "loads db R False c p"
    and "flagOk db (R b) f (pset p0 p1 p2 d p)
      (deep R False (if d = 0 then c else c0) (if d = 0 then p else p0) \<and>
       deep R False (if d = 1 then c else c1) (if d = 1 then p else p1) \<and>
       deep R False (if d = 2 then c else c2) (if d = 2 then p else p2))"
  shows "loads db R b (withChild c0 c1 c2 f d c) (pset p0 p1 p2 d p)"
  using assms by (simp add: withChild_def pset_def)

lemma pset_pchild [simp]: "digit d \<Longrightarrow> pset p0 p1 p2 d (pchild p0 p1 p2 d) = PFull p0 p1 p2"
  by (auto simp: pset_def pchild_def digit_def)

lemma entered_value: "entered (PVal v) key \<Longrightarrow> key = []"
  by (auto simp: entered_def pwf_def split: if_splits)

lemma inner_entered: "loads db R b n p \<Longrightarrow> inner n \<Longrightarrow> entered p key \<Longrightarrow> key \<noteq> []"
  by (induction rule: loads.induct) (auto simp: entered_def)

definition isHash :: "node \<Rightarrow> bool" where
  "isHash n \<longleftrightarrow> (case n of HashN _ \<Rightarrow> True | _ \<Rightarrow> False)"

lemma isHash_simps [simp]:
  "\<not> isHash NilN" "\<not> isHash (ValueN v)" "isHash (HashN h)" "\<not> isHash (ShortN k c f)" "\<not> isHash (FullN c0 c1 c2 f)"
  by (simp_all add: isHash_def)

lemma inner_not_hash: "inner n \<Longrightarrow> \<not> isHash n"
  by (cases n) simp_all

text \<open>Resolutions that a search with \<open>len\<close> digits left may need.\<close>

definition enough :: "nat \<Rightarrow> node \<Rightarrow> nat \<Rightarrow> bool" where
  "enough fuel n len \<longleftrightarrow> len + (if isHash n then 1 else 0) \<le> fuel"

lemma enough_child: "enough fuel n len \<Longrightarrow> len' < len \<Longrightarrow> enough fuel c len'"
  by (auto simp: enough_def split: if_splits)

lemma drop_Cons_nth: "drop i xs = y # ys \<Longrightarrow> i < length xs \<and> xs ! i = y \<and> drop (i + 1) xs = ys"
  by (cases "i < length xs") (simp_all add: Cons_nth_drop_Suc [symmetric])

lemma tryGet_refines:
  "loads db R b n p \<Longrightarrow> entered p (drop pos key) \<Longrightarrow> pos \<le> length key \<Longrightarrow> enough fuel n (length key - pos) \<Longrightarrow>
     \<exists>nn r. tryGet db fuel n key pos = Ok (plookup p (drop pos key), nn, r) \<and> loads db R b nn p \<and>
       (deep R b n p \<longrightarrow> deep R b nn p)"
proof (induction arbitrary: pos fuel rule: loads.induct)
  case L_nil
  then show ?case by auto
next
  case (L_val b v)
  then show ?case using entered_value [of v "drop pos key"] by auto
next
  case (L_short c p b f k)
  show ?case
  proof (cases "length k \<le> length (drop pos key) \<and> take (length k) (drop pos key) = k")
    case False
    then show ?thesis using L_short by (auto simp: plookup.simps(3))
  next
    case True
    have e: "entered p (drop (pos + length k) key)" "k \<noteq> []"
      using entered_short [OF L_short.prems(1)] True by (simp_all add: add.commute)
    have len: "pos + length k \<le> length key" using True L_short.prems(2) by auto
    have "enough fuel c (length key - (pos + length k))"
      by (rule enough_child [OF L_short.prems(3)]) (use e(2) len in \<open>cases k; simp\<close>)
    then obtain nn r where "tryGet db fuel c key (pos + length k) = Ok (plookup p (drop (pos + length k) key), nn, r)"
        "loads db R False nn p" "deep R False c p \<longrightarrow> deep R False nn p"
      using L_short.IH [OF e(1) len] by blast
    then show ?thesis using True L_short.hyps
      by (auto simp: plookup.simps(3) add.commute flagOk_def split: option.splits)
  qed
next
  case (L_full c0 p0 c1 p1 c2 p2 b f)
  from L_full.prems(1) obtain d ks where d: "drop pos key = d # ks" "digit d" "entered (pchild p0 p1 p2 d) ks"
    by (rule entered_full)
  have pos: "pos < length key" "key ! pos = d" "drop (pos + 1) key = ks"
    using drop_Cons_nth [OF d(1)] by simp_all
  have en: "enough fuel c (length key - (pos + 1))" for c
    by (rule enough_child [OF L_full.prems(3)]) (use pos in simp)
  obtain c where c: "childAt c0 c1 c2 d = Some c" "loads db R False c (pchild p0 p1 p2 d)"
    using childAt_digit d(2) L_full.hyps by metis
  have "\<exists>nn r. tryGet db fuel c key (pos + 1) = Ok (plookup (pchild p0 p1 p2 d) ks, nn, r) \<and>
      loads db R False nn (pchild p0 p1 p2 d) \<and> (deep R False c (pchild p0 p1 p2 d) \<longrightarrow> deep R False nn (pchild p0 p1 p2 d))"
    using L_full.IH [of "pos + 1" fuel] c(1) d(2,3) pos en [of c0] en [of c1] en [of c2]
    by (auto simp: childAt_def pchild_def digit_def split: if_splits)
  then obtain nn r where g: "tryGet db fuel c key (pos + 1) = Ok (plookup (pchild p0 p1 p2 d) ks, nn, r)"
      "loads db R False nn (pchild p0 p1 p2 d)" "deep R False c (pchild p0 p1 p2 d) \<longrightarrow> deep R False nn (pchild p0 p1 p2 d)"
    by blast
  have "loads db R b (withChild c0 c1 c2 f d nn) (PFull p0 p1 p2)"
    using L_full.hyps g(2,3) c(1) d(2)
    by (auto simp: withChild_def childAt_def pchild_def digit_def flagOk_def split: option.splits)
  moreover have "deep R b (FullN c0 c1 c2 f) (PFull p0 p1 p2) \<longrightarrow> deep R b (withChild c0 c1 c2 f d nn) (PFull p0 p1 p2)"
    using g(3) c(1) d(2) by (auto simp: withChild_def childAt_def pchild_def digit_def)
  ultimately show ?case using g(1) c(1) d(1) pos L_full.hyps
    by (auto simp: plookup_PFull simp del: plookup.simps)
next
  case (L_hash h n b p)
  have "fuel \<noteq> 0" using L_hash.prems(3) by (auto simp: enough_def)
  then obtain fuel' where f: "fuel = Suc fuel'" by (cases fuel) auto
  then have "enough fuel' n (length key - pos)"
    using L_hash.prems(3) inner_not_hash [OF L_hash.hyps(2)] by (auto simp: enough_def)
  from L_hash.IH [OF L_hash.prems(1,2) this] show ?case
    using L_hash.hyps(1,5) by (auto simp: f resolveHash_def)
qed

subsection \<open>Insertion\<close>

lemma insertAt_NilN [simp]:
  "insertAt db fuel NilN pfx key value = Ok (True, if key = [] then value else ShortN key value newFlag)"
  by (subst insertAt.simps) simp

lemma insertAt_ValueN:
  "insertAt db fuel (ValueN w) pfx [] (ValueN v) = Ok (w \<noteq> v, ValueN v)"
  by (subst insertAt.simps) simp

lemma insertAt_HashN:
  "key \<noteq> [] \<Longrightarrow> insertAt db (Suc fuel) (HashN h) pfx key value =
     rbind (resolveHash db h pfx) (\<lambda>rn. rbind (insertAt db fuel rn pfx key value) (\<lambda>(dirty, nn).
       if \<not> dirty then Ok (False, rn) else Ok (True, nn)))"
  by (subst insertAt.simps) simp

lemma insertAt_FullN:
  "childAt c0 c1 c2 d = Some c \<Longrightarrow> insertAt db fuel (FullN c0 c1 c2 f) pfx (d # ks) value =
     rbind (insertAt db fuel c (pfx @ [d]) ks value) (\<lambda>(dirty, nn).
       if \<not> dirty then Ok (False, FullN c0 c1 c2 f) else Ok (True, withChild c0 c1 c2 newFlag d nn))"
  by (subst insertAt.simps) (simp cong: if_cong)

lemma insertAt_ShortN_through:
  "key \<noteq> [] \<Longrightarrow> prefixLen key k = length k \<Longrightarrow> insertAt db fuel (ShortN k c f) pfx key value =
     rbind (insertAt db fuel c (pfx @ take (length k) key) (drop (length k) key) value) (\<lambda>(dirty, nn).
       if \<not> dirty then Ok (False, ShortN k c f) else Ok (True, ShortN k nn newFlag))"
  by (subst insertAt.simps) (simp add: Let_def)

definition nextend :: "bytes \<Rightarrow> node \<Rightarrow> node" where
  "nextend k c = (if k = [] then c else ShortN k c newFlag)"

definition nbranch :: "byte \<Rightarrow> node \<Rightarrow> byte \<Rightarrow> node \<Rightarrow> node" where
  "nbranch d a e b =
     FullN (if e = 0 then b else if d = 0 then a else NilN) (if e = 1 then b else if d = 1 then a else NilN)
       (if e = 2 then b else if d = 2 then a else NilN) newFlag"

lemma insertAt_ShortN_split:
  assumes "digit d" "digit e" "e \<noteq> d"
  shows "insertAt db fuel (ShortN (pre @ d # ks) c f) pfx (pre @ e # es) value =
     Ok (True, nextend pre (nbranch d (nextend ks c) e (nextend es value)))"
proof -
  have "childAt NilN NilN NilN d \<noteq> None" "childAt NilN NilN NilN e \<noteq> None"
    using assms by (auto simp: childAt_def digit_def)
  then show ?thesis
    using assms(3) by (subst insertAt.simps) (auto simp: Let_def nextend_def nbranch_def)
qed

lemma loads_nextend: "loads db R False c p \<Longrightarrow> loads db R False (nextend k c) (pextend k p)"
  by (auto simp: nextend_def pextend_def)

lemma loads_nextend_top: "(\<And>b. loads db R b c p) \<Longrightarrow> loads db R b (nextend k c) (pextend k p)"
  by (auto simp: nextend_def pextend_def)

lemma loads_nbranch:
  "loads db R False a p \<Longrightarrow> loads db R False b q \<Longrightarrow> loads db R rt (nbranch d a e b) (pbranch d p e q)"
  by (simp add: nbranch_def pbranch_def)

lemma short_digit: "pwfN (PShort (pre @ d # ks) c) \<Longrightarrow> d = 0 \<or> d = 1 \<or> d = 2"
  by (erule pwfN_short_cases) (use vkey_digit [of pre d ks] in auto)

lemma insertAt_refines:
  "loads db R b n p \<Longrightarrow> entered p key \<Longrightarrow> v \<noteq> [] \<Longrightarrow> enough fuel n (length key) \<Longrightarrow>
     \<exists>dirty nn. insertAt db fuel n pfx key (ValueN v) = Ok (dirty, nn) \<and>
       loads db R b nn (pinsert p key v) \<and> (dirty \<or> pinsert p key v = p)"
proof (induction arbitrary: pfx key fuel rule: loads.induct)
  case L_nil
  then show ?case by (cases key) auto
next
  case (L_val b w)
  then have "key = []" using entered_value by blast
  then show ?case by (auto simp: insertAt_ValueN)
next
  case (L_short c p b f k)
  have key: "vkey key" "pwfN (PShort k p)"
    using L_short.prems(1) unfolding entered_def pwf_def by (auto split: if_splits)
  show ?case
  proof (cases "prefixLen key k = length k")
    case False
    from pinsert_split [OF key False] obtain pre e es d ks
      where s: "key = pre @ e # es" "k = pre @ d # ks" "e \<noteq> d"
        "pinsert (PShort k p) key v = pextend pre (pbranch d (pextend ks p) e (pextend es (PVal v)))" by metis
    have "digit d" "digit e"
      using key vkey_digit(1) short_digit unfolding s(1,2) digit_def by blast+
    then have "insertAt db fuel (ShortN k c f) pfx key (ValueN v) =
        Ok (True, nextend pre (nbranch d (nextend ks c) e (nextend es (ValueN v))))"
      unfolding s(1,2) using s(3) by (rule insertAt_ShortN_split)
    moreover have "loads db R b (nextend pre (nbranch d (nextend ks c) e (nextend es (ValueN v)))) (pinsert (PShort k p) key v)"
      unfolding s(4) by (rule loads_nextend_top, rule loads_nbranch) (use L_short.hyps(1) in \<open>auto intro!: loads_nextend\<close>)
    ultimately show ?thesis by blast
  next
    case True
    then have whole: "length k \<le> length key" "take (length k) key = k" by (simp_all add: prefixLen_whole)
    note e = entered_short [OF L_short.prems(1) whole]
    have "enough fuel c (length (drop (length k) key))"
      by (rule enough_child [OF L_short.prems(3)]) (use whole(1) e(2) in \<open>cases k; auto\<close>)
    from L_short.IH [OF e(1) L_short.prems(2) this] obtain dirty nn
      where i: "insertAt db fuel c (pfx @ take (length k) key) (drop (length k) key) (ValueN v) = Ok (dirty, nn)"
        "loads db R False nn (pinsert p (drop (length k) key) v)" "dirty \<or> pinsert p (drop (length k) key) v = p"
      by blast
    have ne: "key \<noteq> []" using key(1) by auto
    have eq: "pinsert (PShort k p) key v = PShort k (pinsert p (drop (length k) key) v)"
      using True ne by (simp add: pinsert_PShort)
    have step: "insertAt db fuel (ShortN k c f) pfx key (ValueN v) =
        (if dirty then Ok (True, ShortN k nn newFlag) else Ok (False, ShortN k c f))"
      unfolding insertAt_ShortN_through [OF ne True] i(1) by simp
    show ?thesis
    proof (cases dirty)
      case True
      then show ?thesis using step i(2) unfolding eq by auto
    next
      case False
      then have "pinsert p (drop (length k) key) v = p" using i(3) by blast
      then show ?thesis using step False L_short.hyps unfolding eq by auto
    qed
  qed
next
  case (L_full c0 p0 c1 p1 c2 p2 b f)
  from L_full.prems(1) obtain d ks where d: "key = d # ks" "digit d" "entered (pchild p0 p1 p2 d) ks"
    by (rule entered_full)
  have en: "enough fuel c (length ks)" for c
    by (rule enough_child [OF L_full.prems(3)]) (use d(1) in simp)
  obtain c where c: "childAt c0 c1 c2 d = Some c" "loads db R False c (pchild p0 p1 p2 d)"
    using childAt_digit d(2) L_full.hyps by metis
  have "\<exists>dirty nn. insertAt db fuel c (pfx @ [d]) ks (ValueN v) = Ok (dirty, nn) \<and>
      loads db R False nn (pinsert (pchild p0 p1 p2 d) ks v) \<and> (dirty \<or> pinsert (pchild p0 p1 p2 d) ks v = pchild p0 p1 p2 d)"
    using L_full.IH [of ks fuel "pfx @ [d]"] c(1) d(2,3) L_full.prems(2) en [of c0] en [of c1] en [of c2]
    by (auto simp: childAt_def pchild_def digit_def split: if_splits)
  then obtain dirty nn where i: "insertAt db fuel c (pfx @ [d]) ks (ValueN v) = Ok (dirty, nn)"
      "loads db R False nn (pinsert (pchild p0 p1 p2 d) ks v)"
      "dirty \<or> pinsert (pchild p0 p1 p2 d) ks v = pchild p0 p1 p2 d" by blast
  have eq: "pinsert (PFull p0 p1 p2) key v = pset p0 p1 p2 d (pinsert (pchild p0 p1 p2 d) ks v)"
    using d by (intro pinsert_PFull)
  have "loads db R b (withChild c0 c1 c2 newFlag d nn) (pinsert (PFull p0 p1 p2) key v)"
    unfolding eq using d(2) L_full.hyps(1,2,3) i(2) by (intro loads_withChild) auto
  moreover have "insertAt db fuel (FullN c0 c1 c2 f) pfx key (ValueN v) =
      (if dirty then Ok (True, withChild c0 c1 c2 newFlag d nn) else Ok (False, FullN c0 c1 c2 f))"
    unfolding d(1) insertAt_FullN [OF c(1)] i(1) by simp
  moreover have "pinsert (PFull p0 p1 p2) key v = PFull p0 p1 p2" if "\<not> dirty"
    unfolding eq using i(3) that d(2) by simp
  ultimately show ?case using L_full.hyps by (cases dirty) simp_all
next
  case (L_hash h n b p)
  have "fuel \<noteq> 0" using L_hash.prems(3) by (auto simp: enough_def)
  then obtain fuel' where f: "fuel = Suc fuel'" by (cases fuel) auto
  then have en: "enough fuel' n (length key)"
    using L_hash.prems(3) inner_not_hash [OF L_hash.hyps(2)] by (auto simp: enough_def)
  have "key \<noteq> []" using inner_entered L_hash.hyps L_hash.prems(1) by blast
  then have "insertAt db fuel (HashN h) pfx key (ValueN v) =
      rbind (insertAt db fuel' n pfx key (ValueN v)) (\<lambda>(dirty, nn).
        if \<not> dirty then Ok (False, n) else Ok (True, nn))"
    using L_hash.hyps(1) by (simp add: f resolveHash_def insertAt_HashN)
  with L_hash.IH [OF L_hash.prems(1,2) en, of pfx] L_hash.hyps(3) show ?case by fastforce
qed

subsection \<open>Deletion\<close>

lemma singleChild_three:
  "singleChild 0 (-1) [a, b, c] =
     (if a \<noteq> NilN then if b \<noteq> NilN \<or> c \<noteq> NilN then -2 else 0
      else if b \<noteq> NilN then if c \<noteq> NilN then -2 else 1
      else if c \<noteq> NilN then 2 else -1)"
  by simp

lemma resolve_refines:
  "loads db R b n p \<Longrightarrow> \<exists>nd. resolve db n pfx = Ok nd \<and> loads db R b nd p \<and> \<not> isHash nd"
  by (cases n) (auto simp: resolve_def resolveHash_def loads_HashN dest: inner_not_hash)

lemma loads_PShort: "loads db R b nd (PShort k p) \<Longrightarrow> \<not> isHash nd \<Longrightarrow> \<exists>c f. nd = ShortN k c f \<and> loads db R False c p"
  by (cases nd) auto

lemma loads_not_PShort: "loads db R b nd p \<Longrightarrow> (\<And>k q. p \<noteq> PShort k q) \<Longrightarrow> nd \<noteq> ShortN k c f"
  by (cases nd) auto

lemma reduceFull_one:
  assumes "loads db R False cp q" "q \<noteq> PNil"
  shows "\<exists>nn. rbind (resolve db cp pfx) (\<lambda>cnode. case cnode of
        ShortN k' c' f' \<Rightarrow> Ok (True, ShortN (d # k') c' newFlag)
      | _ \<Rightarrow> Ok (True, ShortN [d] cp newFlag)) = Ok (True, nn) \<and> loads db R b nn (pmerge [d] q) \<and> \<not> isHash nn"
proof -
  obtain nd where nd: "resolve db cp pfx = Ok nd" "loads db R False nd q" "\<not> isHash nd"
    using resolve_refines [OF assms(1)] by blast
  then show ?thesis
  proof (cases q)
    case (PShort k p)
    then obtain c f where "nd = ShortN k c f" "loads db R False c p" using nd loads_PShort by blast
    then show ?thesis using nd(1) PShort by simp
  qed (use nd assms in \<open>cases nd; simp\<close>)+
qed

lemma reduceFull_refines:
  assumes "loads db R False c0 q0" "loads db R False c1 q1" "loads db R False c2 q2"
  shows "\<exists>nn. reduceFull db pfx c0 c1 c2 = Ok (True, nn) \<and> loads db R b nn (pcollapse q0 q1 q2) \<and> \<not> isHash nn"
proof -
  note nil = loads_not_nil [OF assms(1)] loads_not_nil [OF assms(2)] loads_not_nil [OF assms(3)]
  consider (zero) "q0 \<noteq> PNil" "q1 = PNil" "q2 = PNil" | (one) "q0 = PNil" "q1 \<noteq> PNil" "q2 = PNil"
    | (two) "q0 = PNil" "q1 = PNil" "q2 \<noteq> PNil"
    | (more) "\<not> (q0 \<noteq> PNil \<and> q1 = PNil \<and> q2 = PNil)" "\<not> (q0 = PNil \<and> q1 \<noteq> PNil \<and> q2 = PNil)"
      "\<not> (q0 = PNil \<and> q1 = PNil \<and> q2 \<noteq> PNil)" by blast
  then show ?thesis
  proof cases
    case zero
    then show ?thesis using reduceFull_one [OF assms(1), of pfx 0] nil
      by (simp add: reduceFull_def Let_def pcollapse_def)
  next
    case one
    then show ?thesis using reduceFull_one [OF assms(2), of pfx 1] nil
      by (simp add: reduceFull_def Let_def pcollapse_def)
  next
    case two
    then show ?thesis using assms(3) nil by (simp add: reduceFull_def Let_def pcollapse_def)
  next
    case more
    then have "singleChild 0 (-1) [c0, c1, c2] < 0"
      unfolding singleChild_three using nil by auto
    moreover have "pcollapse q0 q1 q2 = PFull q0 q1 q2" using more unfolding pcollapse_def by (simp only: if_False)
    ultimately show ?thesis using assms unfolding reduceFull_def Let_def by simp
  qed
qed

lemma pmerge_node:
  assumes "loads db R False child q" "\<not> isHash child" "q \<noteq> PNil"
  shows "\<exists>nn. (case child of
        ShortN k' c' f' \<Rightarrow> Ok (True, ShortN (k @ k') c' newFlag)
      | _ \<Rightarrow> Ok (True, ShortN k child newFlag)) = Ok (True, nn) \<and> loads db R b nn (pmerge k q) \<and> \<not> isHash nn"
proof (cases q)
  case (PShort k' p)
  then obtain c f where "child = ShortN k' c f" "loads db R False c p" using assms loads_PShort by blast
  then show ?thesis using PShort by simp
qed (use assms in \<open>cases child; simp\<close>)+

lemma deleteAt_refines:
  "loads db R b n p \<Longrightarrow> entered p key \<Longrightarrow> enough fuel n (length key) \<Longrightarrow>
     \<exists>dirty nn. deleteAt db fuel n pfx key = Ok (dirty, nn) \<and> loads db R b nn (pdelete p key) \<and>
       (if dirty then \<not> isHash nn else pdelete p key = p)"
proof (induction arbitrary: pfx key fuel rule: loads.induct)
  case L_nil
  then show ?case by auto
next
  case (L_val b w)
  then show ?case by auto
next
  case (L_short c p b f k)
  have key: "vkey key" "pwfN (PShort k p)"
    using L_short.prems(1) unfolding entered_def pwf_def by (auto split: if_splits)
  show ?case
  proof (cases "prefixLen key k = length k")
    case False
    then have "prefixLen key k < length k" using prefixLen_le(2) [of key k] by simp
    then show ?thesis using L_short.hyps by (simp add: Let_def)
  next
    case True
    then have whole: "length k \<le> length key" "take (length k) key = k" by (simp_all add: prefixLen_whole)
    note e = entered_short [OF L_short.prems(1) whole]
    let ?ks = "drop (length k) key"
    have "enough fuel c (length ?ks)"
      by (rule enough_child [OF L_short.prems(2)]) (use whole(1) e(2) in \<open>cases k; auto\<close>)
    from L_short.IH [OF e(1) this] obtain dirty nn
      where i: "deleteAt db fuel c (pfx @ take (length k) key) ?ks = Ok (dirty, nn)"
        "loads db R False nn (pdelete p ?ks)" "if dirty then \<not> isHash nn else pdelete p ?ks = p"
      by blast
    show ?thesis
    proof (cases "length key = length k")
      case eq: True
      then show ?thesis using True by (simp add: Let_def)
    next
      case False
      have del: "pdelete (PShort k p) key = pmerge k (pdelete p ?ks)"
        using True False by (simp add: Let_def)
      have step: "deleteAt db fuel (ShortN k c f) pfx key =
          (if \<not> dirty then Ok (False, ShortN k c f) else case nn of
             ShortN k' c' f' \<Rightarrow> Ok (True, ShortN (k @ k') c' newFlag) | _ \<Rightarrow> Ok (True, ShortN k nn newFlag))"
        using True False i(1) by (simp add: Let_def)
      have ext: "isFull p" "pwfN p" "vkey ?ks"
        using key(2) False vkey_prefix_eq [OF key(1) _ whole(2)] vkey_drop_bits [OF key(1) _ whole(2)]
        by (auto split: if_splits)
      show ?thesis
      proof (cases dirty)
        case True
        have "pdelete p ?ks \<noteq> PNil" using pdelete_correct [OF ext(3), of p] ext by (simp add: pwf_def)
        then show ?thesis
          using pmerge_node [OF i(2)] i(3) True unfolding step del by fastforce
      next
        case False
        then have "pmerge k (pdelete p ?ks) = PShort k p" using i(3) ext(1) by (cases p) auto
        then show ?thesis unfolding step del using False L_short.hyps by simp
      qed
    qed
  qed
next
  case (L_full c0 p0 c1 p1 c2 p2 b f)
  from L_full.prems(1) obtain d ks where d: "key = d # ks" "digit d" "entered (pchild p0 p1 p2 d) ks"
      "pwfN (PFull p0 p1 p2)"
    by (rule entered_full)
  have en: "enough fuel c (length ks)" for c
    by (rule enough_child [OF L_full.prems(2)]) (use d(1) in simp)
  obtain c where c: "childAt c0 c1 c2 d = Some c" "loads db R False c (pchild p0 p1 p2 d)"
    using childAt_digit d(2) L_full.hyps by metis
  let ?c = "pdelete (pchild p0 p1 p2 d) ks"
  have "\<exists>dirty nn. deleteAt db fuel c (pfx @ [d]) ks = Ok (dirty, nn) \<and>
      loads db R False nn ?c \<and> (if dirty then \<not> isHash nn else ?c = pchild p0 p1 p2 d)"
    using L_full.IH [of ks fuel "pfx @ [d]"] c(1) d(2,3) en [of c0] en [of c1] en [of c2]
    by (auto simp: childAt_def pchild_def digit_def split: if_splits)
  then obtain dirty nn where i: "deleteAt db fuel c (pfx @ [d]) ks = Ok (dirty, nn)"
      "loads db R False nn ?c" "if dirty then \<not> isHash nn else ?c = pchild p0 p1 p2 d" by blast
  have del: "pdelete (PFull p0 p1 p2) key =
      pcollapse (if d = 0 then ?c else p0) (if d = 1 then ?c else p1) (if d = 2 then ?c else p2)"
    unfolding d(1) pdelete_PFull [OF d(2)] Let_def ..
  have step: "deleteAt db fuel (FullN c0 c1 c2 f) pfx key =
      (if \<not> dirty then Ok (False, FullN c0 c1 c2 f)
       else reduceFull db pfx (if d = 0 then nn else c0) (if d = 1 then nn else c1) (if d = 2 then nn else c2))"
    using c(1) i(1) d(1) by simp
  show ?case
  proof (cases dirty)
    case True
    have "\<exists>m. reduceFull db pfx (if d = 0 then nn else c0) (if d = 1 then nn else c1) (if d = 2 then nn else c2) =
        Ok (True, m) \<and> loads db R b m (pdelete (PFull p0 p1 p2) key) \<and> \<not> isHash m"
      unfolding del by (rule reduceFull_refines) (use i(2) L_full.hyps in auto)
    then show ?thesis unfolding step using True by auto
  next
    case False
    then have "?c = pchild p0 p1 p2 d" using i(3) by simp
    then have "pdelete (PFull p0 p1 p2) key = PFull p0 p1 p2"
      unfolding del using pcollapse_id [OF d(4)] d(2) by (auto simp: pchild_def digit_def)
    then show ?thesis unfolding step using False L_full.hyps by simp
  qed
next
  case (L_hash h n b p)
  have "fuel \<noteq> 0" using L_hash.prems(2) by (auto simp: enough_def)
  then obtain fuel' where f: "fuel = Suc fuel'" by (cases fuel) auto
  then have en: "enough fuel' n (length key)"
    using L_hash.prems(2) inner_not_hash [OF L_hash.hyps(2)] by (auto simp: enough_def)
  have "deleteAt db fuel (HashN h) pfx key =
      rbind (deleteAt db fuel' n pfx key) (\<lambda>(dirty, nn). if \<not> dirty then Ok (False, n) else Ok (True, nn))"
    using L_hash.hyps(1) by (simp add: f resolveHash_def)
  with L_hash.IH [OF L_hash.prems(1) en, of pfx] L_hash.hyps(3) show ?case by fastforce
qed

section \<open>The trie implements the store contract\<close>

definition represents :: "nodeDb \<Rightarrow> (bool \<Rightarrow> hash \<Rightarrow> ptree \<Rightarrow> bool) \<Rightarrow> Trie \<Rightarrow> ptree \<Rightarrow> bool" where
  "represents db R t p \<longleftrightarrow> pwf p \<and> loads db R True (tr_root t) p"

lemma entered_key: "pwf p \<Longrightarrow> entered p (keybytesToBinary key)"
  using vkey_keybytesToBinary [of key] by (cases "keybytesToBinary key") (auto simp: entered_def)

lemma enough_key: "enough (keyFuel k) n (length k)"
  by (simp add: enough_def keyFuel_def)

lemma TryGet_represents:
  assumes "represents db R t p"
  shows "\<exists>t'. TryGet db t key = (Ok (plookup p (keybytesToBinary key)), t') \<and> represents db R t' p"
proof -
  let ?k = "keybytesToBinary key"
  have "\<exists>nn r. tryGet db (keyFuel ?k) (tr_root t) ?k 0 = Ok (plookup p (drop 0 ?k), nn, r) \<and> loads db R True nn p \<and>
      (deep R True (tr_root t) p \<longrightarrow> deep R True nn p)"
    by (rule tryGet_refines) (use assms in \<open>auto simp: represents_def entered_key enough_key\<close>)
  then show ?thesis using assms by (auto simp: TryGet_def represents_def Let_def)
qed

lemma TryUpdate_represents:
  assumes "represents db R t p"
  shows "\<exists>t'. TryUpdate db t key v = (Ok (), t') \<and>
     represents db R t' (pupdate p (keybytesToBinary key) v) \<and> tr_unhashed t' = tr_unhashed t + 1"
proof -
  let ?k = "keybytesToBinary key"
  have p: "pwf p" "loads db R True (tr_root t) p" using assms by (simp_all add: represents_def)
  have ins: "\<exists>dirty nn. insertAt db (keyFuel ?k) (tr_root t) [] ?k (ValueN v) = Ok (dirty, nn) \<and>
      loads db R True nn (pinsert p ?k v)" if "v \<noteq> []"
    using insertAt_refines [OF p(2) entered_key [OF p(1)] that enough_key] by blast
  have del: "\<exists>dirty nn. deleteAt db (keyFuel ?k) (tr_root t) [] ?k = Ok (dirty, nn) \<and>
      loads db R True nn (pdelete p ?k)"
    using deleteAt_refines [OF p(2) entered_key [OF p(1)] enough_key] by blast
  have "pwf (pupdate p ?k v)" using pupdate_correct(1) p(1) by simp
  then show ?thesis
    using ins del by (cases "v = []") (auto simp: TryUpdate_def represents_def pupdate_def Let_def)
qed

lemma TryDelete_eq: "TryDelete db t key = TryUpdate db t key []"
  by (simp add: TryDelete_def TryUpdate_def)

text \<open>Reading and writing as a client sees them.\<close>

definition trieInv :: "nodeDb \<Rightarrow> (bool \<Rightarrow> hash \<Rightarrow> ptree \<Rightarrow> bool) \<Rightarrow> Trie \<Rightarrow> bool" where
  "trieInv db R t \<longleftrightarrow> (\<exists>p. represents db R t p)"

definition storeGet :: "nodeDb \<Rightarrow> Trie \<Rightarrow> bytes \<Rightarrow> bytes option" where
  "storeGet db t key = (case fst (TrieGet db t key) of Ok v \<Rightarrow> v | _ \<Rightarrow> None)"

definition storeUpdate :: "nodeDb \<Rightarrow> Trie \<Rightarrow> bytes \<Rightarrow> bytes \<Rightarrow> Trie" where
  "storeUpdate db t key v = snd (TrieUpdate db t key v)"

lemma storeGet_represents: "represents db R t p \<Longrightarrow> storeGet db t key = plookup p (keybytesToBinary key)"
  using TryGet_represents [of db R t p key] by (auto simp: storeGet_def TrieGet_def)

lemma storeUpdate_represents:
  "represents db R t p \<Longrightarrow> represents db R (storeUpdate db t key v) (pupdate p (keybytesToBinary key) v)"
  using TryUpdate_represents [of db R t p key v] by (auto simp: storeUpdate_def TrieUpdate_def)

interpretation goTrie: byte_store "trieInv db R" "\<lambda>_. True" "storeGet db" "storeUpdate db" for db R
proof
  show "trieInv db R (storeUpdate db s k v)" if "trieInv db R s" for s k v
    using that storeUpdate_represents unfolding trieInv_def by blast
  show "storeGet db (storeUpdate db s k v) k' = (if k' = k then if v = [] then None else Some v else storeGet db s k')"
    if s: "trieInv db R s" for s k k' v
  proof -
    obtain p where p: "represents db R s p" using s by (auto simp: trieInv_def)
    have "pwf p" using p by (simp add: represents_def)
    moreover have "keybytesToBinary k' = keybytesToBinary k \<longleftrightarrow> k' = k" using keybytesToBinary_inj by blast
    ultimately show ?thesis
      using storeGet_represents [OF p] storeGet_represents [OF storeUpdate_represents [OF p]]
      by (simp add: pat.upd_look)
  qed
qed

text \<open>
  C9: the trie is a map. On a trie that represents a minimal tree over its database,
  \<open>TryUpdate\<close> succeeds (no panic, no missing node, no endless resolution), keeps that
  invariant, and afterwards \<open>TryGet\<close> returns the value just written (nothing, if the empty
  value was written, which deletes) and is unchanged on every other key.
\<close>

theorem TryUpdate_then_TryGet:
  assumes "represents db R t p"
  shows "\<exists>t' q. TryUpdate db t key v = (Ok (), t') \<and> represents db R t' q \<and>
     (\<forall>key'. fst (TryGet db t' key') =
        (if key' = key then Ok (if v = [] then None else Some v) else fst (TryGet db t key')))"
proof -
  obtain t' where u: "TryUpdate db t key v = (Ok (), t')"
      "represents db R t' (pupdate p (keybytesToBinary key) v)"
    using TryUpdate_represents [OF assms] by blast
  have g: "fst (TryGet db s k) = Ok (storeGet db s k)" if "represents db R s q" for s q k
    using TryGet_represents [OF that, of k] by (auto simp: storeGet_def TrieGet_def)
  have "t' = storeUpdate db t key v" using u(1) by (simp add: storeUpdate_def TrieUpdate_def)
  moreover have "trieInv db R t" using assms by (auto simp: trieInv_def)
  ultimately have "storeGet db t' key' = (if key' = key then if v = [] then None else Some v else storeGet db t key')"
    for key' using goTrie.upd_look [of db R t key] by simp
  then have "fst (TryGet db t' key') =
      (if key' = key then Ok (if v = [] then None else Some v) else fst (TryGet db t key'))" for key'
    using g [OF u(2)] g [OF assms] by simp
  then show ?thesis using u by blast
qed

theorem TryUpdate_then_TryGet_witness:
  "\<exists>t' q. TryUpdate (\<lambda>_. None) \<lparr>tr_root = NilN, tr_unhashed = 0\<rparr> [5] [7] = (Ok (), t') \<and>
     represents (\<lambda>_. None) (\<lambda>_ _ _. True) t' q \<and>
     (\<forall>key'. fst (TryGet (\<lambda>_. None) t' key') =
        (if key' = [5] then Ok (if [7 :: byte] = [] then None else Some [7])
         else fst (TryGet (\<lambda>_. None) \<lparr>tr_root = NilN, tr_unhashed = 0\<rparr> key')))"
  by (rule TryUpdate_then_TryGet [where p = PNil]) (simp add: represents_def pwf_def)

end
