(* ===== verification/Hasher.thy ===== *)
theory Hasher
  imports Trie
begin

text \<open>
  Hashing of a trie (\<open>trie/hasher.go\<close>, \<open>Trie.Hash\<close>). RLP and Keccak are code outside the
  repository: they are the two functions of a record \<open>crypto\<close> that every definition takes.
  The specification is the Merkle digest of the abstract Patricia tree, in which a subtree
  whose encoding is shorter than 32 bytes is embedded in its parent. The hasher computes that
  digest whatever part of the trie is loaded and whatever is cached, and caches only correct
  hashes; so the root hash depends on the content of the trie alone.
\<close>

section \<open>Encoding of nodes\<close>

datatype rlpItem = RStr bytes | RList "rlpItem list"

record crypto =
  rlpEncode :: "rlpItem \<Rightarrow> bytes"
  keccak256 :: "bytes \<Rightarrow> hash"

text \<open>
  The RLP structure of a collapsed node: a short node is the list of its key and child, a full
  node the list of its three children with nil as the empty string (\<open>fullNode.EncodeRLP\<close>).
\<close>

fun nodeItem :: "node \<Rightarrow> rlpItem" where
  "nodeItem NilN = RStr []"
| "nodeItem (ValueN v) = RStr v"
| "nodeItem (HashN h) = RStr h"
| "nodeItem (ShortN k c f) = RList [RStr k, nodeItem c]"
| "nodeItem (FullN c0 c1 c2 f) = RList [nodeItem c0, nodeItem c1, nodeItem c2]"

section \<open>The hasher\<close>

definition hashData :: "crypto \<Rightarrow> bytes \<Rightarrow> hash" where
  "hashData H data = keccak256 H data"

definition shortnodeToHash :: "crypto \<Rightarrow> node \<Rightarrow> bool \<Rightarrow> node" where
  "shortnodeToHash H n force =
     (let tmp = rlpEncode H (nodeItem n) in
      if length tmp < 32 \<and> \<not> force then n else HashN (hashData H tmp))"

definition fullnodeToHash :: "crypto \<Rightarrow> node \<Rightarrow> bool \<Rightarrow> node" where
  "fullnodeToHash H n force =
     (let tmp = rlpEncode H (nodeItem n) in
      if length tmp < 32 \<and> \<not> force then n else HashN (hashData H tmp))"

text \<open>The cached hash of the node that replaces the original one.\<close>

definition setHash :: "nodeFlag \<Rightarrow> node \<Rightarrow> nodeFlag" where
  "setHash f hashed = f\<lparr>fl_hash := (case hashed of HashN hn \<Rightarrow> Some hn | _ \<Rightarrow> None)\<rparr>"

text \<open>
  \<open>hash\<close> and the two functions that collapse the children. The parallel branch of
  \<open>hashFullNodeChildren\<close> computes the same two children. \<open>None\<close> is a panic.
\<close>

function hasherHash :: "crypto \<Rightarrow> node \<Rightarrow> bool \<Rightarrow> (node \<times> node) option"
  and hashShortNodeChildren :: "crypto \<Rightarrow> bytes \<Rightarrow> node \<Rightarrow> nodeFlag \<Rightarrow> (node \<times> bytes \<times> node \<times> nodeFlag) option"
  and hashFullNodeChildren :: "crypto \<Rightarrow> node \<Rightarrow> node \<Rightarrow> node \<Rightarrow> nodeFlag \<Rightarrow>
    (node \<times> node \<times> node \<times> node \<times> nodeFlag) option" where
  "hasherHash H NilN force = None"
| "hasherHash H (ValueN v) force = Some (ValueN v, ValueN v)"
| "hasherHash H (HashN h) force = Some (HashN h, HashN h)"
| "hasherHash H (ShortN k c f) force =
     (case fl_hash f of
        Some h \<Rightarrow> Some (HashN h, ShortN k c f)
      | None \<Rightarrow>
          (case hashShortNodeChildren H k c f of
             None \<Rightarrow> None
           | Some (collapsed, k', c', f') \<Rightarrow>
               let hashed = shortnodeToHash H collapsed force
               in Some (hashed, ShortN k' c' (setHash f' hashed))))"
| "hasherHash H (FullN c0 c1 c2 f) force =
     (case fl_hash f of
        Some h \<Rightarrow> Some (HashN h, FullN c0 c1 c2 f)
      | None \<Rightarrow>
          (case hashFullNodeChildren H c0 c1 c2 f of
             None \<Rightarrow> None
           | Some (collapsed, d0, d1, d2, f') \<Rightarrow>
               let hashed = fullnodeToHash H collapsed force
               in Some (hashed, FullN d0 d1 d2 (setHash f' hashed))))"
| "hashShortNodeChildren H k c f =
     (case binaryToCompact k of
        None \<Rightarrow> None
      | Some ck \<Rightarrow>
          if inner c then
            (case hasherHash H c False of
               None \<Rightarrow> None
             | Some (hn, cached) \<Rightarrow> Some (ShortN ck hn f, k, cached, f))
          else Some (ShortN ck c f, k, c, f))"
| "hashFullNodeChildren H c0 c1 c2 f =
     (case (if c0 \<noteq> NilN then hasherHash H c0 False else Some (ValueN [], NilN)) of
        None \<Rightarrow> None
      | Some (h0, d0) \<Rightarrow>
          (case (if c1 \<noteq> NilN then hasherHash H c1 False else Some (ValueN [], NilN)) of
             None \<Rightarrow> None
           | Some (h1, d1) \<Rightarrow> Some (FullN h0 h1 c2 f, d0, d1, c2, f)))"
  by pat_completeness auto
termination
  by (relation "measure (\<lambda>x. case x of Inl (H, n, force) \<Rightarrow> 2 * size n
        | Inr (Inl (H, k, c, f)) \<Rightarrow> 2 * size c + 1
        | Inr (Inr (H, c0, c1, c2, f)) \<Rightarrow> 2 * (size c0 + size c1) + 1)") auto

definition proofHash :: "crypto \<Rightarrow> node \<Rightarrow> (node \<times> node) option" where
  "proofHash H original =
     (case original of
        ShortN k c f \<Rightarrow>
          map_option (\<lambda>(sn, _). (sn, shortnodeToHash H sn False)) (hashShortNodeChildren H k c f)
      | FullN c0 c1 c2 f \<Rightarrow>
          map_option (\<lambda>(fn, _). (fn, fullnodeToHash H fn False)) (hashFullNodeChildren H c0 c1 c2 f)
      | n \<Rightarrow> Some (n, n))"

text \<open>\<open>Trie.Hash\<close> with \<open>hashRoot\<close>; the hash of the root is forced, whatever its size.\<close>

definition hashRoot :: "crypto \<Rightarrow> hash \<Rightarrow> Trie \<Rightarrow> (node \<times> node \<times> Trie) option" where
  "hashRoot H emptyRoot t =
     (if tr_root t = NilN then Some (HashN emptyRoot, NilN, t)
      else map_option (\<lambda>(hashed, cached). (hashed, cached, t\<lparr>tr_unhashed := 0\<rparr>))
             (hasherHash H (tr_root t) True))"

definition TrieHash :: "crypto \<Rightarrow> hash \<Rightarrow> Trie \<Rightarrow> (hash \<times> Trie) option" where
  "TrieHash H emptyRoot t =
     (case hashRoot H emptyRoot t of
        Some (HashN h, cached, t') \<Rightarrow> Some (h, t'\<lparr>tr_root := cached\<rparr>)
      | _ \<Rightarrow> None)"

section \<open>Merkle digest of a Patricia tree\<close>

definition pinner :: "ptree \<Rightarrow> bool" where
  "pinner p \<longleftrightarrow> (case p of PShort _ _ \<Rightarrow> True | PFull _ _ _ \<Rightarrow> True | _ \<Rightarrow> False)"

definition reference :: "crypto \<Rightarrow> ptree \<Rightarrow> rlpItem \<Rightarrow> rlpItem" where
  "reference H p i =
     (if pinner p \<and> \<not> length (rlpEncode H i) < 32 then RStr (keccak256 H (rlpEncode H i)) else i)"

fun pitem :: "crypto \<Rightarrow> ptree \<Rightarrow> rlpItem" where
  "pitem H PNil = RStr []"
| "pitem H (PVal v) = RStr v"
| "pitem H (PShort k c) = RList [RStr (the (binaryToCompact k)), reference H c (pitem H c)]"
| "pitem H (PFull p0 p1 p2) =
     RList [reference H p0 (pitem H p0), reference H p1 (pitem H p1), reference H p2 (pitem H p2)]"

definition pdigest :: "crypto \<Rightarrow> ptree \<Rightarrow> hash" where
  "pdigest H p = keccak256 H (rlpEncode H (pitem H p))"

definition rootOf :: "crypto \<Rightarrow> hash \<Rightarrow> ptree \<Rightarrow> hash" where
  "rootOf H emptyRoot p = (if p = PNil then emptyRoot else pdigest H p)"

text \<open>What a hash in a trie stands for; below the root, only a large subtree has one.\<close>

definition merkle :: "crypto \<Rightarrow> bool \<Rightarrow> hash \<Rightarrow> ptree \<Rightarrow> bool" where
  "merkle H root h p \<longleftrightarrow>
     pinner p \<and> h = pdigest H p \<and> (root \<or> \<not> length (rlpEncode H (pitem H p)) < 32)"

lemma pinner_simps [simp]:
  "\<not> pinner PNil" "\<not> pinner (PVal v)" "pinner (PShort k c)" "pinner (PFull p0 p1 p2)"
  by (simp_all add: pinner_def)

lemma loads_pinner: "loads db R b n p \<Longrightarrow> inner n \<or> isHash n \<longleftrightarrow> pinner p"
  by (induction rule: loads.induct) auto

lemma binaryToCompact_some: "pwfN (PShort k c) \<Longrightarrow> \<exists>ck. binaryToCompact k = Some ck"
proof (erule pwfN_short_cases)
  assume "vkey k"
  then show ?thesis using compact_round_trip_bits vkey_iff by fastforce
next
  assume "isBits k"
  then show ?thesis using compact_round_trip_bits [of k "[]"] by auto
qed

lemma merkle_reference:
  "merkle H False h p \<Longrightarrow> reference H p (pitem H p) = RStr h"
  by (simp add: merkle_def reference_def pdigest_def)

lemma toHash_eq: "fullnodeToHash H n force = shortnodeToHash H n force"
  by (simp add: fullnodeToHash_def shortnodeToHash_def)

text \<open>Hashing a node whose collapsed form encodes the tree.\<close>

lemma merkle_ex: "(\<forall>h. \<not> merkle H b h p) \<longleftrightarrow> \<not> (pinner p \<and> (b \<or> \<not> length (rlpEncode H (pitem H p)) < 32))"
  by (auto simp: merkle_def)

lemma toHash_correct:
  assumes "nodeItem col = pitem H p" "pinner p" "\<not> isHash col"
  shows "nodeItem (shortnodeToHash H col False) = reference H p (pitem H p)"
    and "shortnodeToHash H col True = HashN (pdigest H p)"
    and "flagOk db (merkle H b) f p below \<Longrightarrow> fl_hash f = None \<Longrightarrow>
      flagOk db (merkle H b) (setHash f (shortnodeToHash H col b)) p True"
    and "fl_hash (setHash f (shortnodeToHash H col b)) \<noteq> None \<or> (\<forall>h. \<not> merkle H b h p)"
  using assms
  by (auto simp: shortnodeToHash_def reference_def hashData_def pdigest_def setHash_def flagOk_def merkle_def
      Let_def split: node.splits)

text \<open>What hashing returns for a subtree.\<close>

definition hashedAs :: "nodeDb \<Rightarrow> crypto \<Rightarrow> bool \<Rightarrow> (node \<times> node) option \<Rightarrow> ptree \<Rightarrow> bool" where
  "hashedAs db H b r p \<longleftrightarrow> (\<exists>hn cc. r = Some (hn, cc) \<and> loads db (merkle H) b cc p \<and> deep (merkle H) b cc p \<and>
     (if b then pinner p \<longrightarrow> hn = HashN (pdigest H p) else nodeItem hn = reference H p (pitem H p)))"

lemma hashedAs_cached:
  "loads db (merkle H) b n p \<Longrightarrow> deep (merkle H) b n p \<Longrightarrow> merkle H b h p \<Longrightarrow> hashedAs db H b (Some (HashN h, n)) p"
  using merkle_reference by (auto simp: hashedAs_def merkle_def)

lemma hashedAs_short:
  assumes "nodeItem col = pitem H (PShort k p)" "\<not> isHash col" "loads db (merkle H) False c p" "deep (merkle H) False c p"
    and "flagOk db (merkle H b) f (PShort k p) below" "fl_hash f = None"
  shows "hashedAs db H b (Some (shortnodeToHash H col b, ShortN k c (setHash f (shortnodeToHash H col b)))) (PShort k p)"
  using toHash_correct(1,2) [OF assms(1) _ assms(2)] toHash_correct(3) [OF assms(1) _ assms(2,5,6)]
    toHash_correct(4) [OF assms(1) _ assms(2), of f b] assms(3,4)
  by (cases b) (auto simp: hashedAs_def)

lemma hashedAs_full:
  assumes "nodeItem col = pitem H (PFull p0 p1 p2)" "\<not> isHash col"
    and "loads db (merkle H) False c0 p0" "loads db (merkle H) False c1 p1" "loads db (merkle H) False c2 p2"
    and "deep (merkle H) False c0 p0" "deep (merkle H) False c1 p1" "deep (merkle H) False c2 p2"
    and "flagOk db (merkle H b) f (PFull p0 p1 p2) below" "fl_hash f = None"
  shows "hashedAs db H b (Some (shortnodeToHash H col b, FullN c0 c1 c2 (setHash f (shortnodeToHash H col b))))
     (PFull p0 p1 p2)"
  using toHash_correct(1,2) [OF assms(1) _ assms(2)] toHash_correct(3) [OF assms(1) _ assms(2,9,10)]
    toHash_correct(4) [OF assms(1) _ assms(2), of f b] assms(3-8)
  by (cases b) (auto simp: hashedAs_def)

lemma cached_deep:
  "loads db R b (ShortN k c f) p \<Longrightarrow> fl_hash f = Some h \<Longrightarrow> R b h p \<and> deep R b (ShortN k c f) p"
  "loads db R b (FullN c0 c1 c2 f) p \<Longrightarrow> fl_hash f = Some h \<Longrightarrow> R b h p \<and> deep R b (FullN c0 c1 c2 f) p"
  by (auto simp: flagOk_def)

lemma deep_outer: "loads db R b n p \<Longrightarrow> \<not> inner n \<Longrightarrow> deep R b n p"
  by (cases n) auto

text \<open>Collapsing the children, given that hashing each child is correct.\<close>

lemma shortChildren_correct:
  assumes wf: "pwfN (PShort k p)" and c: "loads db (merkle H) False c p"
    and rec: "pwf p \<or> isValue p \<Longrightarrow> c \<noteq> NilN \<Longrightarrow> hashedAs db H False (hasherHash H c False) p"
  shows "\<exists>ck hn cc. hashShortNodeChildren H k c f = Some (ShortN ck hn f, k, cc, f) \<and>
     loads db (merkle H) False cc p \<and> deep (merkle H) False cc p \<and> nodeItem (ShortN ck hn f) = pitem H (PShort k p)"
proof -
  obtain ck where ck: "binaryToCompact k = Some ck" using binaryToCompact_some [OF wf] by blast
  have nn: "pwf p \<or> isValue p" "c \<noteq> NilN" using wf c by (auto simp: pwf_def split: if_splits)
  show ?thesis
  proof (cases "inner c")
    case True
    then show ?thesis using rec [OF nn] ck by (auto simp: hashedAs_def)
  next
    case False
    then have "nodeItem c = reference H p (pitem H p)"
      using c nn(2) by (cases c) (auto simp: reference_def loads_HashN merkle_def pdigest_def)
    then show ?thesis using False c ck deep_outer [OF c] by auto
  qed
qed

lemma fullChildren_correct:
  assumes wf: "pwfN (PFull p0 p1 p2)"
    and c: "loads db (merkle H) False c0 p0" "loads db (merkle H) False c1 p1" "loads db (merkle H) False c2 p2"
    and rec: "pwf p0 \<or> isValue p0 \<Longrightarrow> c0 \<noteq> NilN \<Longrightarrow> hashedAs db H False (hasherHash H c0 False) p0"
      "pwf p1 \<or> isValue p1 \<Longrightarrow> c1 \<noteq> NilN \<Longrightarrow> hashedAs db H False (hasherHash H c1 False) p1"
  shows "\<exists>h0 h1 d0 d1. hashFullNodeChildren H c0 c1 c2 f = Some (FullN h0 h1 c2 f, d0, d1, c2, f) \<and>
     loads db (merkle H) False d0 p0 \<and> loads db (merkle H) False d1 p1 \<and>
     deep (merkle H) False d0 p0 \<and> deep (merkle H) False d1 p1 \<and> deep (merkle H) False c2 p2 \<and>
     nodeItem (FullN h0 h1 c2 f) = pitem H (PFull p0 p1 p2)"
proof -
  note pc = pwf_child [OF wf]
  have kid: "\<exists>hn cc. (if c \<noteq> NilN then hasherHash H c False else Some (ValueN [], NilN)) = Some (hn, cc) \<and>
      loads db (merkle H) False cc p \<and> deep (merkle H) False cc p \<and> nodeItem hn = reference H p (pitem H p)"
    if "loads db (merkle H) False c p" "c \<noteq> NilN \<Longrightarrow> hashedAs db H False (hasherHash H c False) p" for c p
    using that by (cases "c = NilN") (auto simp: hashedAs_def reference_def)
  obtain h0 d0 where k0: "(if c0 \<noteq> NilN then hasherHash H c0 False else Some (ValueN [], NilN)) = Some (h0, d0)"
      "loads db (merkle H) False d0 p0" "deep (merkle H) False d0 p0" "nodeItem h0 = reference H p0 (pitem H p0)"
    using kid [OF c(1)] rec(1) pc by blast
  obtain h1 d1 where k1: "(if c1 \<noteq> NilN then hasherHash H c1 False else Some (ValueN [], NilN)) = Some (h1, d1)"
      "loads db (merkle H) False d1 p1" "deep (merkle H) False d1 p1" "nodeItem h1 = reference H p1 (pitem H p1)"
    using kid [OF c(2)] rec(2) pc by blast
  have "nodeItem c2 = reference H p2 (pitem H p2)"
    using c(3) pc loads_pinner [OF c(3)]
    by (cases c2) (auto simp: reference_def loads_HashN elim!: isValueE)
  moreover have "deep (merkle H) False c2 p2" using c(3) pc by (cases c2) (auto elim!: isValueE)
  ultimately show ?thesis using k0 k1 by simp
qed

lemma hash_correct:
  "loads db (merkle H) b n p \<Longrightarrow> pwf p \<or> isValue p \<Longrightarrow> n \<noteq> NilN \<Longrightarrow> hashedAs db H b (hasherHash H n b) p"
proof (induction rule: loads.induct)
  case (L_nil b)
  then show ?case by simp
next
  case (L_val b v)
  then show ?case by (auto simp: hashedAs_def reference_def)
next
  case (L_short c p b f k)
  have wf: "pwfN (PShort k p)" using L_short.prems(1) by (auto simp: pwf_def simp del: pwfN.simps)
  show ?case
  proof (cases "fl_hash f")
    case (Some h)
    then show ?thesis using cached_deep(1) [OF loads.L_short [OF L_short.hyps] Some] loads.L_short [OF L_short.hyps]
      by (auto simp del: deep.simps loads_ShortN intro!: hashedAs_cached)
  next
    case None
    from shortChildren_correct [OF wf L_short.hyps(1) L_short.IH, of f] obtain ck hn cc
      where ch: "hashShortNodeChildren H k c f = Some (ShortN ck hn f, k, cc, f)"
        "loads db (merkle H) False cc p" "deep (merkle H) False cc p" "nodeItem (ShortN ck hn f) = pitem H (PShort k p)" by blast
    from hashedAs_short [OF ch(4) _ ch(2,3) L_short.hyps(2) None] show ?thesis
      using None by (simp add: ch(1) Let_def del: hashShortNodeChildren.simps)
  qed
next
  case (L_full c0 p0 c1 p1 c2 p2 b f)
  have wf: "pwfN (PFull p0 p1 p2)" using L_full.prems(1) by (auto simp: pwf_def simp del: pwfN.simps)
  show ?case
  proof (cases "fl_hash f")
    case (Some h)
    then show ?thesis using cached_deep(2) [OF loads.L_full [OF L_full.hyps] Some] loads.L_full [OF L_full.hyps]
      by (auto simp del: deep.simps loads_FullN intro!: hashedAs_cached)
  next
    case None
    from fullChildren_correct [OF wf L_full.hyps(1-3) L_full.IH(1,2), of f] obtain h0 h1 d0 d1
      where ch: "hashFullNodeChildren H c0 c1 c2 f = Some (FullN h0 h1 c2 f, d0, d1, c2, f)"
        "loads db (merkle H) False d0 p0" "loads db (merkle H) False d1 p1"
        "deep (merkle H) False d0 p0" "deep (merkle H) False d1 p1" "deep (merkle H) False c2 p2"
        "nodeItem (FullN h0 h1 c2 f) = pitem H (PFull p0 p1 p2)" by blast
    from hashedAs_full [OF ch(7) _ ch(2,3) L_full.hyps(3) ch(4,5,6) L_full.hyps(4) None] show ?thesis
      using None by (simp add: ch(1) Let_def toHash_eq del: hashFullNodeChildren.simps)
  qed
next
  case (L_hash h n b p)
  then show ?case by (auto simp: loads_HashN intro!: hashedAs_cached)
qed

lemma TrieHash_deep:
  assumes "represents db (merkle H) t p"
  shows "\<exists>t'. TrieHash H emptyRoot t = Some (rootOf H emptyRoot p, t') \<and> represents db (merkle H) t' p \<and>
     deep (merkle H) True (tr_root t') p"
proof (cases "tr_root t = NilN")
  case True
  then have "p = PNil" using assms by (simp add: represents_def)
  then show ?thesis using True assms
    by (auto simp: TrieHash_def hashRoot_def rootOf_def represents_def)
next
  case False
  have l: "loads db (merkle H) True (tr_root t) p" and wf: "pwf p"
    using assms by (simp_all add: represents_def)
  have p: "p \<noteq> PNil" "pinner p"
    using False loads_not_nil [OF l] wf by (auto simp: pwf_def pinner_def split: ptree.splits)
  obtain cc where "hasherHash H (tr_root t) True = Some (HashN (pdigest H p), cc)"
      "loads db (merkle H) True cc p" "deep (merkle H) True cc p"
    using hash_correct [OF l _ False] wf p(2) by (auto simp: hashedAs_def)
  then show ?thesis using False p wf
    by (auto simp: TrieHash_def hashRoot_def rootOf_def represents_def)
qed

lemma TrieHash_represents:
  assumes "represents db (merkle H) t p"
  shows "\<exists>t'. TrieHash H emptyRoot t = Some (rootOf H emptyRoot p, t') \<and> represents db (merkle H) t' p"
  using TrieHash_deep [OF assms] by blast

section \<open>The root hash does not depend on the history\<close>

lemma foldl_assign_image:
  assumes "inj f"
  shows "foldl assign m (map (\<lambda>kv. (f (fst kv), snd kv)) ops) (f k) = foldl assign (m \<circ> f) ops k"
proof (induction ops arbitrary: m)
  case (Cons kv ops)
  have "assign m (f (fst kv), snd kv) \<circ> f = assign (m \<circ> f) kv"
    using assms by (auto simp: assign_def fun_eq_iff inj_eq)
  then show ?case using Cons.IH [of "assign m (f (fst kv), snd kv)"] by (simp add: comp_def)
qed simp

lemma foldl_assign_outside:
  "k \<notin> range f \<Longrightarrow> foldl assign m (map (\<lambda>kv. (f (fst kv), snd kv)) ops) k = m k"
  by (induction ops arbitrary: m) (auto simp: assign_def)

lemma inj_keybytesToBinary: "inj keybytesToBinary"
  by (meson injI keybytesToBinary_inj)

lemma run_represents:
  "represents db R t p \<Longrightarrow>
     represents db R (foldl (\<lambda>t kv. storeUpdate db t (fst kv) (snd kv)) t ops)
       (foldl (\<lambda>p kv. pupdate p (fst kv) (snd kv)) p (map (\<lambda>kv. (keybytesToBinary (fst kv), snd kv)) ops))"
proof (induction ops arbitrary: t p)
  case (Cons kv ops)
  then show ?case using storeUpdate_represents [OF Cons.prems] by simp
qed simp

lemma run_same_tree:
  assumes "represents db R t p"
    and "foldl assign (storeGet db t) ops = foldl assign (storeGet db t) ops'"
  shows "foldl (\<lambda>p kv. pupdate p (fst kv) (snd kv)) p (map (\<lambda>kv. (keybytesToBinary (fst kv), snd kv)) ops) =
     foldl (\<lambda>p kv. pupdate p (fst kv) (snd kv)) p (map (\<lambda>kv. (keybytesToBinary (fst kv), snd kv)) ops')"
proof (rule pat.history_independent)
  show "pwf p" using assms(1) by (simp add: represents_def)
  have g: "plookup p \<circ> keybytesToBinary = storeGet db t"
    using storeGet_represents [OF assms(1)] by auto
  show "foldl assign (plookup p) (map (\<lambda>kv. (keybytesToBinary (fst kv), snd kv)) ops) k =
      foldl assign (plookup p) (map (\<lambda>kv. (keybytesToBinary (fst kv), snd kv)) ops') k" if "vkey k" for k
  proof (cases "k \<in> range keybytesToBinary")
    case True
    then show ?thesis
      using assms(2) foldl_assign_image [OF inj_keybytesToBinary] unfolding g [symmetric] by fastforce
  next
    case False
    then show ?thesis by (simp add: foldl_assign_outside)
  qed
qed auto

text \<open>
  C10: the root hash depends on the content of the trie only. Two sequences of updates,
  insertions and deletions that lead to the same content give tries whose \<open>Hash\<close> returns the
  same value, whatever was loaded from the database or cached before, and \<open>Hash\<close> never
  panics on them.
\<close>

theorem root_hash_history_independent:
  assumes "represents db (merkle H) t p"
    and "foldl assign (storeGet db t) ops = foldl assign (storeGet db t) ops'"
  shows "\<exists>h t1 t2.
     TrieHash H emptyRoot (foldl (\<lambda>t kv. storeUpdate db t (fst kv) (snd kv)) t ops) = Some (h, t1) \<and>
     TrieHash H emptyRoot (foldl (\<lambda>t kv. storeUpdate db t (fst kv) (snd kv)) t ops') = Some (h, t2)"
  using TrieHash_represents [OF run_represents [OF assms(1), of ops]]
    TrieHash_represents [OF run_represents [OF assms(1), of ops']]
  unfolding run_same_tree [OF assms] by blast

theorem root_hash_history_independent_witness:
  "\<exists>h t1 t2.
     TrieHash \<lparr>rlpEncode = \<lambda>_. [], keccak256 = \<lambda>d. d\<rparr> [] (foldl (\<lambda>t kv. storeUpdate (\<lambda>_. None) t (fst kv) (snd kv))
       \<lparr>tr_root = NilN, tr_unhashed = 0\<rparr> [([1], [7]), ([2], [8])]) = Some (h, t1) \<and>
     TrieHash \<lparr>rlpEncode = \<lambda>_. [], keccak256 = \<lambda>d. d\<rparr> [] (foldl (\<lambda>t kv. storeUpdate (\<lambda>_. None) t (fst kv) (snd kv))
       \<lparr>tr_root = NilN, tr_unhashed = 0\<rparr> [([2], [9]), ([2], [8]), ([1], [7])]) = Some (h, t2)"
proof (rule root_hash_history_independent)
  show "represents (\<lambda>_. None) (merkle \<lparr>rlpEncode = \<lambda>_. [], keccak256 = \<lambda>d. d\<rparr>)
      \<lparr>tr_root = NilN, tr_unhashed = 0\<rparr> PNil"
    by (simp add: represents_def pwf_def)
  have "foldl assign m [([1], [7]), ([2], [8])] = foldl assign m [([2], [9]), ([2], [8]), ([1], [7])]" for m
    by (simp add: assign_def fun_eq_iff)
  then show "foldl assign (storeGet (\<lambda>_. None) \<lparr>tr_root = NilN, tr_unhashed = 0\<rparr>) [([1], [7]), ([2], [8])] =
      foldl assign (storeGet (\<lambda>_. None) \<lparr>tr_root = NilN, tr_unhashed = 0\<rparr>) [([2], [9]), ([2], [8]), ([1], [7])]" .
qed

end
