(* ===== verification/StateDB.thy ===== *)
theory StateDB
  imports Trie "HOL-Library.AList" "HOL-Library.Multiset"
begin

text \<open>
  The account state (\<open>state/journal.go\<close>, \<open>state/state_object.go\<close>, \<open>state/statedb.go\<close>).

  The Go interface \<open>Trie\<close> of \<open>state/database.go\<close> is the record \<open>trieOps\<close> of the operations that
  the state calls; the RLP codec of an account, code outside the repository, is part of it.
  The locale \<open>account_trie\<close> states what they promise. A Go map is a HOL map, a Go set of
  addresses that is iterated over is a distinct list in which the order is the iteration order;
  state objects are values held in the map under their address, as only the map refers to them.
  Balances are 64-bit words, so that their arithmetic wraps around.
\<close>

section \<open>Data\<close>

record stateObject =
  so_address :: address
  so_Balance :: u64
  so_dbErr :: "trieErr option"
  so_suicided :: bool
  so_deleted :: bool

datatype journalEntry =
    CreateObjectChange address
  | ResetObjectChange stateObject bool
  | SuicideChange address bool u64
  | BalanceChange address u64
  | RefundChange u64
  | AddLogChange hash
  | TouchChange address

record journal =
  j_entries :: "journalEntry list"
  j_dirties :: "(address \<times> int) list"

record Log =
  log_data :: bytes
  log_TxHash :: hash
  log_BlockHash :: hash
  log_TxIndex :: u64
  log_Index :: u64

record ('d, 't) StateDB =
  sd_db :: 'd
  sd_trie :: 't
  sd_stateObjects :: "address \<rightharpoonup> stateObject"
  sd_stateObjectsPending :: "address list"
  sd_stateObjectsDirty :: "address list"
  sd_dbErr :: "trieErr option"
  sd_refund :: u64
  sd_thash :: hash
  sd_bhash :: hash
  sd_txIndex :: u64
  sd_logs :: "hash \<rightharpoonup> Log list"
  sd_logSize :: u64
  sd_journal :: journal

text \<open>
  The trie as the state uses it. \<open>TryGet\<close> returns nil (\<open>None\<close>) for an absent key and may load
  nodes, so every operation returns the trie; an error is the left summand.
\<close>

record ('d, 't) trieOps =
  op_OpenTrie :: "'d \<Rightarrow> hash \<Rightarrow> trieErr + 't"
  op_TryGet :: "'d \<Rightarrow> 't \<Rightarrow> bytes \<Rightarrow> (trieErr + bytes option) \<times> 't"
  op_TryUpdate :: "'d \<Rightarrow> 't \<Rightarrow> bytes \<Rightarrow> bytes \<Rightarrow> (trieErr + unit) \<times> 't"
  op_TryDelete :: "'d \<Rightarrow> 't \<Rightarrow> bytes \<Rightarrow> (trieErr + unit) \<times> 't"
  op_Hash :: "'t \<Rightarrow> hash \<times> 't"
  op_Commit :: "'d \<Rightarrow> 't \<Rightarrow> (trieErr + hash) \<times> 'd \<times> 't"
  op_CopyTrie :: "'t \<Rightarrow> 't"
  encAccount :: "u64 \<Rightarrow> bytes"
  decAccount :: "bytes \<Rightarrow> u64 option"

section \<open>Journal\<close>

definition newJournal :: journal where
  "newJournal = \<lparr>j_entries = [], j_dirties = []\<rparr>"

fun dirtied :: "journalEntry \<Rightarrow> address option" where
  "dirtied (CreateObjectChange a) = Some a"
| "dirtied (ResetObjectChange p d) = None"
| "dirtied (SuicideChange a p b) = Some a"
| "dirtied (BalanceChange a p) = Some a"
| "dirtied (RefundChange p) = None"
| "dirtied (AddLogChange h) = None"
| "dirtied (TouchChange a) = Some a"

definition dirtyCount :: "(address \<times> int) list \<Rightarrow> address \<Rightarrow> int" where
  "dirtyCount d a = (case map_of d a of Some n \<Rightarrow> n | None \<Rightarrow> 0)"

definition journalDirty :: "journal \<Rightarrow> address \<Rightarrow> journal" where
  "journalDirty j a = j\<lparr>j_dirties := AList.update a (dirtyCount (j_dirties j) a + 1) (j_dirties j)\<rparr>"

definition journalAppend :: "journal \<Rightarrow> journalEntry \<Rightarrow> journal" where
  "journalAppend j entry =
     (let j = j\<lparr>j_entries := j_entries j @ [entry]\<rparr> in
      case dirtied entry of Some a \<Rightarrow> journalDirty j a | None \<Rightarrow> j)"

definition journalLength :: "journal \<Rightarrow> nat" where
  "journalLength j = length (j_entries j)"

definition dropDirty :: "journal \<Rightarrow> journalEntry \<Rightarrow> journal" where
  "dropDirty j entry =
     (case dirtied entry of
        None \<Rightarrow> j
      | Some a \<Rightarrow>
          let n = dirtyCount (j_dirties j) a - 1
          in if n = 0 then j\<lparr>j_dirties := AList.delete a (j_dirties j)\<rparr>
             else j\<lparr>j_dirties := AList.update a n (j_dirties j)\<rparr>)"

section \<open>State objects\<close>

definition newObject :: "address \<Rightarrow> u64 \<Rightarrow> stateObject" where
  "newObject a balance =
     \<lparr>so_address = a, so_Balance = balance, so_dbErr = None, so_suicided = False, so_deleted = False\<rparr>"

definition soEmpty :: "stateObject \<Rightarrow> bool" where
  "soEmpty so \<longleftrightarrow> so_Balance so = 0"

definition deepCopy :: "stateObject \<Rightarrow> stateObject" where
  "deepCopy so = (newObject (so_address so) (so_Balance so))
     \<lparr>so_suicided := so_suicided so, so_deleted := so_deleted so\<rparr>"

text \<open>The address \<open>0x03\<close>.\<close>

definition ripemd :: address where
  "ripemd = replicate 19 0 @ [3]"

section \<open>The state database\<close>

definition emptyStateDB :: "'d \<Rightarrow> 't \<Rightarrow> ('d, 't) StateDB" where
  "emptyStateDB db tr =
     \<lparr>sd_db = db, sd_trie = tr, sd_stateObjects = Map.empty, sd_stateObjectsPending = [], sd_stateObjectsDirty = [],
      sd_dbErr = None, sd_refund = 0, sd_thash = zeroHash, sd_bhash = zeroHash, sd_txIndex = 0,
      sd_logs = Map.empty, sd_logSize = 0, sd_journal = newJournal\<rparr>"

definition StateNew :: "('d, 't) trieOps \<Rightarrow> hash \<Rightarrow> 'd \<Rightarrow> trieErr + ('d, 't) StateDB" where
  "StateNew ops root db =
     (case op_OpenTrie ops db root of Inl e \<Rightarrow> Inl e | Inr tr \<Rightarrow> Inr (emptyStateDB db tr))"

definition setError :: "('d, 't) StateDB \<Rightarrow> trieErr \<Rightarrow> ('d, 't) StateDB" where
  "setError s err = (if sd_dbErr s = None then s\<lparr>sd_dbErr := Some err\<rparr> else s)"

definition clearJournalAndRefund :: "('d, 't) StateDB \<Rightarrow> ('d, 't) StateDB" where
  "clearJournalAndRefund s =
     (if length (j_entries (sd_journal s)) > 0 then s\<lparr>sd_journal := newJournal, sd_refund := 0\<rparr> else s)"

definition StateReset :: "('d, 't) trieOps \<Rightarrow> ('d, 't) StateDB \<Rightarrow> hash \<Rightarrow> (trieErr + unit) \<times> ('d, 't) StateDB" where
  "StateReset ops s root =
     (case op_OpenTrie ops (sd_db s) root of
        Inl e \<Rightarrow> (Inl e, s)
      | Inr tr \<Rightarrow>
          (Inr (), clearJournalAndRefund
            (s\<lparr>sd_trie := tr, sd_stateObjects := Map.empty, sd_stateObjectsPending := [],
               sd_stateObjectsDirty := [], sd_thash := zeroHash, sd_bhash := zeroHash, sd_txIndex := 0,
               sd_logs := Map.empty, sd_logSize := 0\<rparr>)))"

definition appendJournal :: "('d, 't) StateDB \<Rightarrow> journalEntry \<Rightarrow> ('d, 't) StateDB" where
  "appendJournal s e = s\<lparr>sd_journal := journalAppend (sd_journal s) e\<rparr>"

definition AddLog :: "('d, 't) StateDB \<Rightarrow> Log \<Rightarrow> ('d, 't) StateDB" where
  "AddLog s log =
     (let s = appendJournal s (AddLogChange (sd_thash s));
          log = log\<lparr>log_TxHash := sd_thash s, log_BlockHash := sd_bhash s,
                    log_TxIndex := sd_txIndex s, log_Index := sd_logSize s\<rparr>;
          old = (case sd_logs s (sd_thash s) of Some l \<Rightarrow> l | None \<Rightarrow> [])
      in s\<lparr>sd_logs := (sd_logs s)(sd_thash s \<mapsto> old @ [log]), sd_logSize := sd_logSize s + 1\<rparr>)"

definition GetLogs :: "('d, 't) StateDB \<Rightarrow> hash \<Rightarrow> Log list" where
  "GetLogs s h = (case sd_logs s h of Some l \<Rightarrow> l | None \<Rightarrow> [])"

definition AddRefund :: "('d, 't) StateDB \<Rightarrow> u64 \<Rightarrow> ('d, 't) StateDB" where
  "AddRefund s gas =
     (let s = appendJournal s (RefundChange (sd_refund s)) in s\<lparr>sd_refund := sd_refund s + gas\<rparr>)"

text \<open>\<open>None\<close>: the refund counter would go below zero, which panics.\<close>

definition SubRefund :: "('d, 't) StateDB \<Rightarrow> u64 \<Rightarrow> ('d, 't) StateDB option" where
  "SubRefund s gas =
     (let s = appendJournal s (RefundChange (sd_refund s)) in
      if gas > sd_refund s then None else Some (s\<lparr>sd_refund := sd_refund s - gas\<rparr>))"

definition setstateObject :: "('d, 't) StateDB \<Rightarrow> stateObject \<Rightarrow> ('d, 't) StateDB" where
  "setstateObject s obj = s\<lparr>sd_stateObjects := (sd_stateObjects s)(so_address obj \<mapsto> obj)\<rparr>"

definition getDeletedstateObject :: "('d, 't) trieOps \<Rightarrow> ('d, 't) StateDB \<Rightarrow> address \<Rightarrow> stateObject option \<times> ('d, 't) StateDB" where
  "getDeletedstateObject ops s addr =
     (case sd_stateObjects s addr of
        Some obj \<Rightarrow> (Some obj, s)
      | None \<Rightarrow>
          (case op_TryGet ops (sd_db s) (sd_trie s) addr of
             (Inl e, tr) \<Rightarrow> (None, setError (s\<lparr>sd_trie := tr\<rparr>) e)
           | (Inr enc, tr) \<Rightarrow>
               let s = s\<lparr>sd_trie := tr\<rparr> in
               (case enc of
                  None \<Rightarrow> (None, s)
                | Some e \<Rightarrow>
                    if length e = 0 then (None, s)
                    else
                      (case decAccount ops e of
                         None \<Rightarrow> (None, s)
                       | Some data \<Rightarrow>
                           let obj = newObject addr data in (Some obj, setstateObject s obj)))))"

definition getstateObject :: "('d, 't) trieOps \<Rightarrow> ('d, 't) StateDB \<Rightarrow> address \<Rightarrow> stateObject option \<times> ('d, 't) StateDB" where
  "getstateObject ops s addr =
     (case getDeletedstateObject ops s addr of
        (Some obj, s) \<Rightarrow> (if \<not> so_deleted obj then Some obj else None, s)
      | (None, s) \<Rightarrow> (None, s))"

definition Exist :: "('d, 't) trieOps \<Rightarrow> ('d, 't) StateDB \<Rightarrow> address \<Rightarrow> bool \<times> ('d, 't) StateDB" where
  "Exist ops s addr = (case getstateObject ops s addr of (o1, s) \<Rightarrow> (o1 \<noteq> None, s))"

definition Empty :: "('d, 't) trieOps \<Rightarrow> ('d, 't) StateDB \<Rightarrow> address \<Rightarrow> bool \<times> ('d, 't) StateDB" where
  "Empty ops s addr =
     (case getstateObject ops s addr of
        (None, s) \<Rightarrow> (True, s) | (Some obj, s) \<Rightarrow> (soEmpty obj, s))"

definition GetBalance :: "('d, 't) trieOps \<Rightarrow> ('d, 't) StateDB \<Rightarrow> address \<Rightarrow> u64 \<times> ('d, 't) StateDB" where
  "GetBalance ops s addr =
     (case getstateObject ops s addr of
        (Some obj, s) \<Rightarrow> (so_Balance obj, s) | (None, s) \<Rightarrow> (0, s))"

definition HasSuicided :: "('d, 't) trieOps \<Rightarrow> ('d, 't) StateDB \<Rightarrow> address \<Rightarrow> bool \<times> ('d, 't) StateDB" where
  "HasSuicided ops s addr =
     (case getstateObject ops s addr of
        (Some obj, s) \<Rightarrow> (so_suicided obj, s) | (None, s) \<Rightarrow> (False, s))"

text \<open>The new object and the live one that it replaces, if any.\<close>

definition createObject :: "('d, 't) trieOps \<Rightarrow> ('d, 't) StateDB \<Rightarrow> address \<Rightarrow> (stateObject \<times> stateObject option) \<times> ('d, 't) StateDB" where
  "createObject ops s addr =
     (case getDeletedstateObject ops s addr of
        (prev, s) \<Rightarrow>
          let newobj = newObject addr 0;
              s = (case prev of
                     None \<Rightarrow> appendJournal s (CreateObjectChange addr)
                   | Some p \<Rightarrow> appendJournal s (ResetObjectChange p False));
              s = setstateObject s newobj
          in (case prev of
                Some p \<Rightarrow> if \<not> so_deleted p then ((newobj, Some p), s) else ((newobj, None), s)
              | None \<Rightarrow> ((newobj, None), s)))"

definition GetOrNewstateObject :: "('d, 't) trieOps \<Rightarrow> ('d, 't) StateDB \<Rightarrow> address \<Rightarrow> stateObject \<times> ('d, 't) StateDB" where
  "GetOrNewstateObject ops s addr =
     (case getstateObject ops s addr of
        (Some obj, s) \<Rightarrow> (obj, s)
      | (None, s) \<Rightarrow> (case createObject ops s addr of ((newobj, _), s) \<Rightarrow> (newobj, s)))"

text \<open>Methods of an object that is held in the map: they write it back.\<close>

definition objSetBalance :: "('d, 't) StateDB \<Rightarrow> stateObject \<Rightarrow> u64 \<Rightarrow> ('d, 't) StateDB" where
  "objSetBalance s obj amount =
     setstateObject (appendJournal s (BalanceChange (so_address obj) (so_Balance obj))) (obj\<lparr>so_Balance := amount\<rparr>)"

definition objTouch :: "('d, 't) StateDB \<Rightarrow> stateObject \<Rightarrow> ('d, 't) StateDB" where
  "objTouch s obj =
     (let s = appendJournal s (TouchChange (so_address obj)) in
      if so_address obj = ripemd then s\<lparr>sd_journal := journalDirty (sd_journal s) (so_address obj)\<rparr> else s)"

definition objAddBalance :: "('d, 't) StateDB \<Rightarrow> stateObject \<Rightarrow> u64 \<Rightarrow> ('d, 't) StateDB" where
  "objAddBalance s obj amount =
     (if amount = 0 then if soEmpty obj then objTouch s obj else s
      else objSetBalance s obj (so_Balance obj + amount))"

definition objSubBalance :: "('d, 't) StateDB \<Rightarrow> stateObject \<Rightarrow> u64 \<Rightarrow> ('d, 't) StateDB" where
  "objSubBalance s obj amount =
     (if amount = 0 then s else objSetBalance s obj (so_Balance obj - amount))"

definition AddBalance :: "('d, 't) trieOps \<Rightarrow> ('d, 't) StateDB \<Rightarrow> address \<Rightarrow> u64 \<Rightarrow> ('d, 't) StateDB" where
  "AddBalance ops s addr amount =
     (case GetOrNewstateObject ops s addr of (obj, s) \<Rightarrow> objAddBalance s obj amount)"

definition SubBalance :: "('d, 't) trieOps \<Rightarrow> ('d, 't) StateDB \<Rightarrow> address \<Rightarrow> u64 \<Rightarrow> ('d, 't) StateDB" where
  "SubBalance ops s addr amount =
     (case GetOrNewstateObject ops s addr of (obj, s) \<Rightarrow> objSubBalance s obj amount)"

definition SetBalance :: "('d, 't) trieOps \<Rightarrow> ('d, 't) StateDB \<Rightarrow> address \<Rightarrow> u64 \<Rightarrow> ('d, 't) StateDB" where
  "SetBalance ops s addr amount =
     (case GetOrNewstateObject ops s addr of (obj, s) \<Rightarrow> objSetBalance s obj amount)"

definition Suicide :: "('d, 't) trieOps \<Rightarrow> ('d, 't) StateDB \<Rightarrow> address \<Rightarrow> bool \<times> ('d, 't) StateDB" where
  "Suicide ops s addr =
     (case getstateObject ops s addr of
        (None, s) \<Rightarrow> (False, s)
      | (Some obj, s) \<Rightarrow>
          (True, setstateObject (appendJournal s (SuicideChange addr (so_suicided obj) (so_Balance obj)))
                   (obj\<lparr>so_suicided := True, so_Balance := 0\<rparr>)))"

definition CreateAccount :: "('d, 't) trieOps \<Rightarrow> ('d, 't) StateDB \<Rightarrow> address \<Rightarrow> ('d, 't) StateDB" where
  "CreateAccount ops s addr =
     (case createObject ops s addr of
        ((newObj, Some prev), s) \<Rightarrow> setstateObject s (newObj\<lparr>so_Balance := so_Balance prev\<rparr>)
      | ((newObj, None), s) \<Rightarrow> s)"

definition Prepare :: "('d, 't) StateDB \<Rightarrow> hash \<Rightarrow> hash \<Rightarrow> u64 \<Rightarrow> ('d, 't) StateDB" where
  "Prepare s thash bhash ti = s\<lparr>sd_thash := thash, sd_bhash := bhash, sd_txIndex := ti\<rparr>"

section \<open>Reverting\<close>

definition deleteKey :: "address list \<Rightarrow> address \<Rightarrow> address list" where
  "deleteKey xs a = filter (\<lambda>x. x \<noteq> a) xs"

definition insertKey :: "address list \<Rightarrow> address \<Rightarrow> address list" where
  "insertKey xs a = (if a \<in> set xs then xs else xs @ [a])"

text \<open>\<open>None\<close>: a nil object is dereferenced (\<open>balanceChange\<close>), or the log slice is indexed below zero.\<close>

fun revertEntry :: "('d, 't) trieOps \<Rightarrow> ('d, 't) StateDB \<Rightarrow> journalEntry \<Rightarrow> ('d, 't) StateDB option" where
  "revertEntry ops s (CreateObjectChange a) =
     Some (s\<lparr>sd_stateObjects := (sd_stateObjects s)(a := None),
             sd_stateObjectsDirty := deleteKey (sd_stateObjectsDirty s) a\<rparr>)"
| "revertEntry ops s (ResetObjectChange p d) = Some (setstateObject s p)"
| "revertEntry ops s (SuicideChange a prev prevbalance) =
     (case getstateObject ops s a of
        (Some obj, s) \<Rightarrow> Some (setstateObject s (obj\<lparr>so_suicided := prev, so_Balance := prevbalance\<rparr>))
      | (None, s) \<Rightarrow> Some s)"
| "revertEntry ops s (BalanceChange a prev) =
     (case getstateObject ops s a of
        (Some obj, s) \<Rightarrow> Some (setstateObject s (obj\<lparr>so_Balance := prev\<rparr>))
      | (None, s) \<Rightarrow> None)"
| "revertEntry ops s (RefundChange prev) = Some (s\<lparr>sd_refund := prev\<rparr>)"
| "revertEntry ops s (AddLogChange h) =
     (let logs = (case sd_logs s h of Some l \<Rightarrow> l | None \<Rightarrow> []) in
      if length logs = 1 then Some (s\<lparr>sd_logs := (sd_logs s)(h := None), sd_logSize := sd_logSize s - 1\<rparr>)
      else if logs = [] then None
      else Some (s\<lparr>sd_logs := (sd_logs s)(h \<mapsto> butlast logs), sd_logSize := sd_logSize s - 1\<rparr>))"
| "revertEntry ops s (TouchChange a) = Some s"

text \<open>The loop of \<open>journal.revert\<close>, over the entries from the last one down.\<close>

fun revertLoop :: "('d, 't) trieOps \<Rightarrow> ('d, 't) StateDB \<Rightarrow> journalEntry list \<Rightarrow> ('d, 't) StateDB option" where
  "revertLoop ops s [] = Some s"
| "revertLoop ops s (e # es) =
     (case revertEntry ops s e of
        None \<Rightarrow> None
      | Some s \<Rightarrow> revertLoop ops (s\<lparr>sd_journal := dropDirty (sd_journal s) e\<rparr>) es)"

definition journalRevert :: "('d, 't) trieOps \<Rightarrow> ('d, 't) StateDB \<Rightarrow> nat \<Rightarrow> ('d, 't) StateDB option" where
  "journalRevert ops s snapshot =
     map_option (\<lambda>s'. s'\<lparr>sd_journal := (sd_journal s')\<lparr>j_entries := take snapshot (j_entries (sd_journal s'))\<rparr>\<rparr>)
       (revertLoop ops s (rev (drop snapshot (j_entries (sd_journal s)))))"

section \<open>Finalising and committing\<close>

definition finaliseOne :: "bool \<Rightarrow> ('d, 't) StateDB \<Rightarrow> address \<Rightarrow> ('d, 't) StateDB" where
  "finaliseOne deleteEmptyObjects s addr =
     (case sd_stateObjects s addr of
        None \<Rightarrow> s
      | Some obj \<Rightarrow>
          let s = (if so_suicided obj \<or> (deleteEmptyObjects \<and> soEmpty obj)
                   then s\<lparr>sd_stateObjects := (sd_stateObjects s)(addr \<mapsto> obj\<lparr>so_deleted := True\<rparr>)\<rparr> else s)
          in s\<lparr>sd_stateObjectsPending := insertKey (sd_stateObjectsPending s) addr,
               sd_stateObjectsDirty := insertKey (sd_stateObjectsDirty s) addr\<rparr>)"

definition Finalise :: "('d, 't) StateDB \<Rightarrow> bool \<Rightarrow> ('d, 't) StateDB" where
  "Finalise s deleteEmptyObjects =
     clearJournalAndRefund
       (foldl (finaliseOne deleteEmptyObjects) s (map fst (j_dirties (sd_journal s))))"

definition updatestateObject :: "('d, 't) trieOps \<Rightarrow> ('d, 't) StateDB \<Rightarrow> stateObject \<Rightarrow> ('d, 't) StateDB" where
  "updatestateObject ops s obj =
     (case op_TryUpdate ops (sd_db s) (sd_trie s) (so_address obj) (encAccount ops (so_Balance obj)) of
        (Inl e, tr) \<Rightarrow> setError (s\<lparr>sd_trie := tr\<rparr>) e
      | (Inr _, tr) \<Rightarrow> s\<lparr>sd_trie := tr\<rparr>)"

definition deletestateObject :: "('d, 't) trieOps \<Rightarrow> ('d, 't) StateDB \<Rightarrow> stateObject \<Rightarrow> ('d, 't) StateDB" where
  "deletestateObject ops s obj =
     (case op_TryDelete ops (sd_db s) (sd_trie s) (so_address obj) of
        (Inl e, tr) \<Rightarrow> setError (s\<lparr>sd_trie := tr\<rparr>) e
      | (Inr _, tr) \<Rightarrow> s\<lparr>sd_trie := tr\<rparr>)"

text \<open>\<open>None\<close>: a pending address without an object, a nil dereference.\<close>

fun writePending :: "('d, 't) trieOps \<Rightarrow> ('d, 't) StateDB \<Rightarrow> address list \<Rightarrow> ('d, 't) StateDB option" where
  "writePending ops s [] = Some s"
| "writePending ops s (addr # rest) =
     (case sd_stateObjects s addr of
        None \<Rightarrow> None
      | Some obj \<Rightarrow>
          writePending ops (if so_deleted obj then deletestateObject ops s obj else updatestateObject ops s obj) rest)"

definition IntermediateRoot :: "('d, 't) trieOps \<Rightarrow> ('d, 't) StateDB \<Rightarrow> bool \<Rightarrow> (hash \<times> ('d, 't) StateDB) option" where
  "IntermediateRoot ops s deleteEmptyObjects =
     (let s = Finalise s deleteEmptyObjects in
      case writePending ops s (sd_stateObjectsPending s) of
        None \<Rightarrow> None
      | Some s \<Rightarrow>
          (case op_Hash ops (sd_trie s) of
             (h, tr) \<Rightarrow> Some (h, s\<lparr>sd_stateObjectsPending := [], sd_trie := tr\<rparr>)))"

definition StateCommit :: "('d, 't) trieOps \<Rightarrow> ('d, 't) StateDB \<Rightarrow> bool \<Rightarrow> ((trieErr + hash) \<times> ('d, 't) StateDB) option" where
  "StateCommit ops s deleteEmptyObjects =
     (case sd_dbErr s of
        Some e \<Rightarrow> Some (Inl e, s)
      | None \<Rightarrow>
          (case IntermediateRoot ops s deleteEmptyObjects of
             None \<Rightarrow> None
           | Some (_, s) \<Rightarrow>
               let s = s\<lparr>sd_stateObjectsDirty := []\<rparr> in
               (case op_Commit ops (sd_db s) (sd_trie s) of
                  (r, db, tr) \<Rightarrow> Some (r, s\<lparr>sd_db := db, sd_trie := tr\<rparr>))))"

section \<open>Copying\<close>

text \<open>
  \<open>Copy\<close>: the dirty and pending objects and the logs are copied, the journal is not.
  \<open>None\<close>: a pending or dirty address without an object.
\<close>

fun copyDirties :: "('d, 't) StateDB \<Rightarrow> ('d, 't) StateDB \<Rightarrow> address list \<Rightarrow> ('d, 't) StateDB" where
  "copyDirties s st [] = st"
| "copyDirties s st (a # as) =
     (case sd_stateObjects s a of
        None \<Rightarrow> copyDirties s st as
      | Some obj \<Rightarrow>
          copyDirties s (st\<lparr>sd_stateObjects := (sd_stateObjects st)(a \<mapsto> deepCopy obj),
             sd_stateObjectsDirty := insertKey (sd_stateObjectsDirty st) a,
             sd_stateObjectsPending := insertKey (sd_stateObjectsPending st) a\<rparr>) as)"

fun copyObjects :: "('d, 't) StateDB \<Rightarrow> ('d, 't) StateDB \<Rightarrow> address list \<Rightarrow> ('d, 't) StateDB option" where
  "copyObjects s st [] = Some st"
| "copyObjects s st (a # as) =
     (case sd_stateObjects st a of
        Some _ \<Rightarrow> copyObjects s st as
      | None \<Rightarrow>
          (case sd_stateObjects s a of
             None \<Rightarrow> None
           | Some obj \<Rightarrow> copyObjects s (st\<lparr>sd_stateObjects := (sd_stateObjects st)(a \<mapsto> deepCopy obj)\<rparr>) as))"

definition StateCopy :: "('d, 't) trieOps \<Rightarrow> ('d, 't) StateDB \<Rightarrow> ('d, 't) StateDB option" where
  "StateCopy ops s =
     (let st = (emptyStateDB (sd_db s) (op_CopyTrie ops (sd_trie s)))
                 \<lparr>sd_refund := sd_refund s, sd_logSize := sd_logSize s\<rparr>;
          st = copyDirties s st (map fst (j_dirties (sd_journal s)))
      in case copyObjects s st (sd_stateObjectsPending s) of
           None \<Rightarrow> None
         | Some st \<Rightarrow>
             let st = st\<lparr>sd_stateObjectsPending := foldl insertKey (sd_stateObjectsPending st) (sd_stateObjectsPending s)\<rparr>
             in (case copyObjects s st (sd_stateObjectsDirty s) of
                   None \<Rightarrow> None
                 | Some st \<Rightarrow>
                     Some (st\<lparr>sd_stateObjectsDirty := foldl insertKey (sd_stateObjectsDirty st) (sd_stateObjectsDirty s),
                              sd_logs := sd_logs s\<rparr>)))"

section \<open>Sequences of operations\<close>

datatype stateOp = AddB address u64 | SubB address u64 | SetB address u64 | SuicideO address | CreateO address
  | GetB address | RefundO u64 | LogO Log

fun applyOp :: "('d, 't) trieOps \<Rightarrow> ('d, 't) StateDB \<Rightarrow> stateOp \<Rightarrow> ('d, 't) StateDB" where
  "applyOp ops s (AddB a x) = AddBalance ops s a x"
| "applyOp ops s (SubB a x) = SubBalance ops s a x"
| "applyOp ops s (SetB a x) = SetBalance ops s a x"
| "applyOp ops s (SuicideO a) = snd (Suicide ops s a)"
| "applyOp ops s (CreateO a) = CreateAccount ops s a"
| "applyOp ops s (GetB a) = snd (GetBalance ops s a)"
| "applyOp ops s (RefundO x) = AddRefund s x"
| "applyOp ops s (LogO l) = AddLog s l"

text \<open>The address of an operation satisfies \<open>key\<close>.\<close>

fun opOn :: "(address \<Rightarrow> bool) \<Rightarrow> stateOp \<Rightarrow> bool" where
  "opOn key (AddB a x) = key a"
| "opOn key (SubB a x) = key a"
| "opOn key (SetB a x) = key a"
| "opOn key (SuicideO a) = key a"
| "opOn key (CreateO a) = key a"
| "opOn key (GetB a) = key a"
| "opOn key (RefundO x) = True"
| "opOn key (LogO l) = True"

lemma getDeleted_journal [frame]: "sd_journal (snd (getDeletedstateObject ops s a)) = sd_journal s"
  by (simp add: getDeletedstateObject_def setError_def setstateObject_def Let_def
      split: option.splits prod.splits sum.splits)

lemma getstateObject_journal: "getstateObject ops s a = (x, s') \<Longrightarrow> sd_journal s' = sd_journal s"
  using getDeleted_journal [of ops s a]
  by (auto simp: getstateObject_def split: option.splits prod.splits)

lemma revertEntry_journal: "revertEntry ops z e = Some z' \<Longrightarrow> sd_journal z' = sd_journal z"
  by (cases e) (auto simp: setstateObject_def Let_def dest: getstateObject_journal split: option.splits prod.splits if_splits)

lemma revertLoop_entries: "revertLoop ops z es = Some z' \<Longrightarrow> j_entries (sd_journal z') = j_entries (sd_journal z)"
proof (induction es arbitrary: z)
  case (Cons e es)
  obtain z1 where z1: "revertEntry ops z e = Some z1" using Cons.prems by (auto split: option.splits)
  have "j_entries (dropDirty j e) = j_entries j" for j by (simp add: dropDirty_def Let_def split: option.splits)
  then show ?case using Cons.IH [of "z1\<lparr>sd_journal := dropDirty (sd_journal z1) e\<rparr>"] Cons.prems z1
      revertEntry_journal [OF z1] by simp
qed simp

section \<open>Finalising, address by address\<close>

definition finObj :: "bool \<Rightarrow> stateObject \<Rightarrow> stateObject" where
  "finObj del obj = (if so_suicided obj \<or> (del \<and> soEmpty obj) then obj\<lparr>so_deleted := True\<rparr> else obj)"

lemma finObj_idem [simp]: "finObj del (finObj del obj) = finObj del obj"
  by (simp add: finObj_def soEmpty_def)

lemma set_insertKey [simp]: "set (insertKey xs a) = Set.insert a (set xs)"
  by (auto simp: insertKey_def)

lemma distinct_insertKey [simp]: "distinct xs \<Longrightarrow> distinct (insertKey xs a)"
  by (simp add: insertKey_def)

lemma finaliseOne_effect:
  "sd_stateObjects (finaliseOne del s a) = (sd_stateObjects s)(a := map_option (finObj del) (sd_stateObjects s a))"
  "set (sd_stateObjectsPending (finaliseOne del s a)) =
     set (sd_stateObjectsPending s) \<union> (if sd_stateObjects s a = None then {} else {a})"
  "distinct (sd_stateObjectsPending s) \<Longrightarrow> distinct (sd_stateObjectsPending (finaliseOne del s a))"
  "sd_db (finaliseOne del s a) = sd_db s" "sd_trie (finaliseOne del s a) = sd_trie s"
  "sd_journal (finaliseOne del s a) = sd_journal s" "sd_dbErr (finaliseOne del s a) = sd_dbErr s"
  by (auto simp: finaliseOne_def finObj_def Let_def fun_eq_iff split: option.splits)

lemma finalise_fold:
  "sd_stateObjects (foldl (finaliseOne del) s as) =
     (\<lambda>a. if a \<in> set as then map_option (finObj del) (sd_stateObjects s a) else sd_stateObjects s a)"
  "set (sd_stateObjectsPending (foldl (finaliseOne del) s as)) =
     set (sd_stateObjectsPending s) \<union> {a \<in> set as. sd_stateObjects s a \<noteq> None}"
  "distinct (sd_stateObjectsPending s) \<Longrightarrow> distinct (sd_stateObjectsPending (foldl (finaliseOne del) s as))"
  "sd_db (foldl (finaliseOne del) s as) = sd_db s" "sd_trie (foldl (finaliseOne del) s as) = sd_trie s"
  "sd_journal (foldl (finaliseOne del) s as) = sd_journal s" "sd_dbErr (foldl (finaliseOne del) s as) = sd_dbErr s"
  by (induction as arbitrary: s) (auto simp: finaliseOne_effect fun_eq_iff option.map_comp comp_def split: if_splits)

lemma clear_frame [simp]:
  "sd_stateObjects (clearJournalAndRefund s) = sd_stateObjects s"
  "sd_stateObjectsPending (clearJournalAndRefund s) = sd_stateObjectsPending s"
  "sd_db (clearJournalAndRefund s) = sd_db s" "sd_trie (clearJournalAndRefund s) = sd_trie s"
  "sd_dbErr (clearJournalAndRefund s) = sd_dbErr s"
  by (simp_all add: clearJournalAndRefund_def)

text \<open>\<open>Finalise\<close>: the dirty live objects become pending; suicided and, on request, empty ones are deleted.\<close>

lemma Finalise_effect:
  "sd_stateObjects (Finalise s del) =
     (\<lambda>a. if a \<in> set (map fst (j_dirties (sd_journal s))) then map_option (finObj del) (sd_stateObjects s a)
          else sd_stateObjects s a)"
  "set (sd_stateObjectsPending (Finalise s del)) =
     set (sd_stateObjectsPending s) \<union> {a \<in> set (map fst (j_dirties (sd_journal s))). sd_stateObjects s a \<noteq> None}"
  "distinct (sd_stateObjectsPending s) \<Longrightarrow> distinct (sd_stateObjectsPending (Finalise s del))"
  "sd_db (Finalise s del) = sd_db s" "sd_trie (Finalise s del) = sd_trie s" "sd_dbErr (Finalise s del) = sd_dbErr s"
  by (simp_all add: Finalise_def finalise_fold)

section \<open>What the trie promises\<close>

text \<open>The object that an address denotes: the live one, or what the trie content holds.\<close>

definition lookObj :: "(bytes \<Rightarrow> u64 option) \<Rightarrow> (bytes \<Rightarrow> bytes option) \<Rightarrow> (address \<rightharpoonup> stateObject) \<Rightarrow>
    address \<Rightarrow> stateObject option" where
  "lookObj dec look objs a =
     (case objs a of
        Some obj \<Rightarrow> Some obj
      | None \<Rightarrow> (case look a of
           None \<Rightarrow> None
         | Some e \<Rightarrow> if e = [] then None else map_option (newObject a) (dec e)))"

definition balanceOf :: "stateObject option \<Rightarrow> u64" where
  "balanceOf x = (case x of None \<Rightarrow> 0 | Some obj \<Rightarrow> if so_deleted obj then 0 else so_Balance obj)"

text \<open>
  \<open>rep d t c\<close> says that the trie \<open>t\<close> over the database \<open>d\<close> has the content \<open>c\<close>. The operations act
  on the content as a byte store, the root hash is a function of the content, and writes to
  different keys commute.
\<close>

locale account_trie = contents: byte_store cinv key clook cset
  for cinv :: "'c \<Rightarrow> bool" and key and clook and cset +
  fixes ops :: "('d, 't) trieOps"
    and rep :: "'d \<Rightarrow> 't \<Rightarrow> 'c \<Rightarrow> bool"
    and croot :: "'c \<Rightarrow> hash"
  assumes rep_cinv: "rep d t c \<Longrightarrow> cinv c"
    and get: "rep d t c \<Longrightarrow> key k \<Longrightarrow> \<exists>t'. op_TryGet ops d t k = (Inr (clook c k), t') \<and> rep d t' c"
    and upd: "rep d t c \<Longrightarrow> key k \<Longrightarrow> v \<noteq> [] \<Longrightarrow>
      \<exists>t'. op_TryUpdate ops d t k v = (Inr (), t') \<and> rep d t' (cset c k v)"
    and del: "rep d t c \<Longrightarrow> key k \<Longrightarrow> \<exists>t'. op_TryDelete ops d t k = (Inr (), t') \<and> rep d t' (cset c k [])"
    and hash: "rep d t c \<Longrightarrow> \<exists>t'. op_Hash ops t = (croot c, t') \<and> rep d t' c"
    and cset_commute: "cinv c \<Longrightarrow> key k \<Longrightarrow> key k' \<Longrightarrow> k \<noteq> k' \<Longrightarrow>
      cset (cset c k v) k' v' = cset (cset c k' v') k v"
    and codec: "decAccount ops (encAccount ops b) = Some b" "encAccount ops b \<noteq> []"
begin

abbreviation view :: "('d, 't) StateDB \<Rightarrow> 'c \<Rightarrow> address \<Rightarrow> stateObject option" where
  "view s c \<equiv> lookObj (decAccount ops) (clook c) (sd_stateObjects s)"

definition good :: "('d, 't) StateDB \<Rightarrow> 'c \<Rightarrow> bool" where
  "good s c \<longleftrightarrow> rep (sd_db s) (sd_trie s) c \<and>
     (\<forall>a obj. sd_stateObjects s a = Some obj \<longrightarrow> so_address obj = a)"

lemma view_address: "good s c \<Longrightarrow> view s c a = Some obj \<Longrightarrow> so_address obj = a"
  by (auto simp: good_def lookObj_def newObject_def split: option.splits if_splits)

lemma view_set [simp]:
  "view (setstateObject s obj) c b = (if b = so_address obj then Some obj else view s c b)"
  by (simp add: setstateObject_def lookObj_def)

lemma good_set: "good s c \<Longrightarrow> good (setstateObject s obj) c"
  by (simp add: good_def setstateObject_def)

lemma good_cong:
  "good s c \<Longrightarrow> sd_db s' = sd_db s \<Longrightarrow> sd_trie s' = sd_trie s \<Longrightarrow> sd_stateObjects s' = sd_stateObjects s \<Longrightarrow> good s' c"
  by (simp add: good_def)

text \<open>Reading an object loads it and changes nothing that can be observed.\<close>

definition loaded :: "('d, 't) StateDB \<Rightarrow> 'c \<Rightarrow> ('d, 't) StateDB \<Rightarrow> bool" where
  "loaded s c s' \<longleftrightarrow> good s' c \<and> view s' c = view s c \<and>
     (\<exists>t objs. s' = s\<lparr>sd_trie := t, sd_stateObjects := objs\<rparr>)"

lemma loaded_refl: "good s c \<Longrightarrow> loaded s c s"
  unfolding loaded_def by (auto intro!: exI [of _ "sd_trie s"] exI [of _ "sd_stateObjects s"])

lemma loaded_frame:
  "loaded s c s' \<Longrightarrow> sd_journal s' = sd_journal s \<and> sd_refund s' = sd_refund s \<and> sd_logs s' = sd_logs s \<and>
     sd_logSize s' = sd_logSize s \<and> sd_db s' = sd_db s \<and> sd_stateObjectsPending s' = sd_stateObjectsPending s \<and>
     sd_thash s' = sd_thash s"
  by (auto simp: loaded_def)

lemma getDeleted_spec:
  assumes "good s c" "key a"
  shows "\<exists>s'. getDeletedstateObject ops s a = (view s c a, s') \<and> loaded s c s' \<and>
     sd_stateObjects s' a = view s c a"
proof (cases "sd_stateObjects s a")
  case (Some obj)
  then have "view s c a = Some obj" by (simp add: lookObj_def)
  then show ?thesis using Some assms by (auto simp: getDeletedstateObject_def loaded_refl)
next
  case None
  have rep: "rep (sd_db s) (sd_trie s) c" using assms(1) by (simp add: good_def)
  obtain t' where t': "op_TryGet ops (sd_db s) (sd_trie s) a = (Inr (clook c a), t')" "rep (sd_db s) t' c"
    using get [OF rep assms(2)] by blast
  let ?s = "s\<lparr>sd_trie := t'\<rparr>"
  have l: "loaded s c ?s" using assms(1) t'(2) unfolding loaded_def good_def
    by (auto intro!: exI [of _ t'] exI [of _ "sd_stateObjects s"])
  show ?thesis
  proof (cases "view s c a")
    case vnone: None
    then have "getDeletedstateObject ops s a = (None, ?s)"
      using None t' by (auto simp: getDeletedstateObject_def lookObj_def Let_def split: option.splits if_splits)
    then show ?thesis using vnone l None by auto
  next
    case (Some obj)
    then have g: "getDeletedstateObject ops s a = (Some obj, setstateObject ?s obj)"
      using None t' by (auto simp: getDeletedstateObject_def lookObj_def Let_def split: option.splits if_splits)
    have adr: "so_address obj = a" using view_address [OF assms(1) Some] .
    have "view (setstateObject ?s obj) c = view s c"
      using Some adr by (auto simp: fun_eq_iff)
    moreover have "good (setstateObject ?s obj) c" using l good_set by (simp add: loaded_def)
    ultimately have "loaded s c (setstateObject ?s obj)" unfolding loaded_def by (auto simp: setstateObject_def)
    then show ?thesis using g Some adr by (auto simp: setstateObject_def)
  qed
qed

definition alive :: "stateObject option \<Rightarrow> stateObject option" where
  "alive x = (case x of Some obj \<Rightarrow> if so_deleted obj then None else Some obj | None \<Rightarrow> None)"

lemma getstateObject_spec:
  assumes "good s c" "key a"
  shows "\<exists>s'. getstateObject ops s a = (alive (view s c a), s') \<and> loaded s c s' \<and>
     sd_stateObjects s' a = view s c a"
  using getDeleted_spec [OF assms] by (auto simp: getstateObject_def alive_def split: option.splits)

lemma GetBalance_spec:
  assumes "good s c" "key a"
  shows "\<exists>s'. GetBalance ops s a = (balanceOf (view s c a), s') \<and> loaded s c s'"
  using getstateObject_spec [OF assms] by (auto simp: GetBalance_def alive_def balanceOf_def split: option.splits)

subsection \<open>Undoing\<close>

definition same :: "('d, 't) StateDB \<Rightarrow> 'c \<Rightarrow> ('d, 't) StateDB \<Rightarrow> bool" where
  "same s c s' \<longleftrightarrow> good s c \<and> good s' c \<and> view s' c = view s c \<and> sd_refund s' = sd_refund s \<and>
     GetLogs s' = GetLogs s \<and> sd_logSize s' = sd_logSize s \<and>
     (\<forall>b. b \<noteq> ripemd \<longrightarrow> dirtyCount (j_dirties (sd_journal s')) b = dirtyCount (j_dirties (sd_journal s)) b)"

lemma same_trans: "same s c s' \<Longrightarrow> same s' c s'' \<Longrightarrow> same s c s''"
  by (simp add: same_def)

lemma GetLogs_eq: "sd_logs s' = sd_logs s \<Longrightarrow> GetLogs s' = GetLogs s"
  by (simp add: GetLogs_def fun_eq_iff)

lemma same_loaded: "good s c \<Longrightarrow> loaded s c s' \<Longrightarrow> same s c s'"
  using loaded_frame [of s c s'] GetLogs_eq [of s' s] by (auto simp: same_def loaded_def)

lemma revertLoop_append:
  "revertLoop ops z (xs @ ys) =
     (case revertLoop ops z xs of None \<Rightarrow> None | Some z' \<Rightarrow> revertLoop ops z' ys)"
  by (induction xs arbitrary: z) (auto split: option.splits)

text \<open>The entries that lead from \<open>s\<close> to \<open>s'\<close> undo the way, from any state that looks like \<open>s'\<close>.\<close>

definition undoable :: "('d, 't) StateDB \<Rightarrow> 'c \<Rightarrow> ('d, 't) StateDB \<Rightarrow> bool" where
  "undoable s c s' \<longleftrightarrow> good s c \<and> good s' c \<and>
     (\<exists>es. j_entries (sd_journal s') = j_entries (sd_journal s) @ es \<and>
       (\<forall>z. same s' c z \<longrightarrow> (\<exists>z'. revertLoop ops z (rev es) = Some z' \<and> same s c z')))"

lemma undoable_trans:
  assumes "undoable s c s'" "undoable s' c s''"
  shows "undoable s c s''"
proof -
  obtain es where es: "j_entries (sd_journal s') = j_entries (sd_journal s) @ es"
      "\<And>z. same s' c z \<Longrightarrow> \<exists>z'. revertLoop ops z (rev es) = Some z' \<and> same s c z'"
    using assms(1) unfolding undoable_def by blast
  obtain es' where es': "j_entries (sd_journal s'') = j_entries (sd_journal s') @ es'"
      "\<And>z. same s'' c z \<Longrightarrow> \<exists>z'. revertLoop ops z (rev es') = Some z' \<and> same s' c z'"
    using assms(2) unfolding undoable_def by blast
  have "\<exists>z'. revertLoop ops z (rev (es @ es')) = Some z' \<and> same s c z'" if "same s'' c z" for z
    using es(2) es'(2) [OF that] by (auto simp: revertLoop_append)
  then show ?thesis
    using es(1) es'(1) assms unfolding undoable_def by (intro conjI exI [of _ "es @ es'"]) auto
qed

lemma undoable_loaded: "good s c \<Longrightarrow> loaded s c s' \<Longrightarrow> undoable s c s'"
  unfolding undoable_def using same_trans [OF same_loaded] loaded_frame [of s c s']
  by (intro conjI exI [of _ "[]"]) (auto simp: loaded_def)

lemma dirtyCount_dropDirty:
  "dirtyCount (j_dirties (dropDirty j e)) b = dirtyCount (j_dirties j) b - (if dirtied e = Some b then 1 else 0)"
  by (auto simp: dropDirty_def dirtyCount_def Let_def update_conv' delete_conv' split: option.splits)

lemma dirtyCount_append:
  "dirtyCount (j_dirties (journalAppend j e)) b = dirtyCount (j_dirties j) b + (if dirtied e = Some b then 1 else 0)"
  by (auto simp: journalAppend_def journalDirty_def dirtyCount_def Let_def update_conv' split: option.splits)

lemma entries_append: "j_entries (journalAppend j e) = j_entries j @ [e]"
  by (auto simp: journalAppend_def journalDirty_def Let_def split: option.splits)

text \<open>One journalled change: it suffices to undo its entry.\<close>

lemma undoable_entry:
  assumes "good s c" "good s' c" "sd_journal s' = journalAppend (sd_journal s) e"
    and "\<And>z. same s' c z \<Longrightarrow> \<exists>z'. revertEntry ops z e = Some z' \<and> good z' c \<and> view z' c = view s c \<and>
      sd_refund z' = sd_refund s \<and> GetLogs z' = GetLogs s \<and> sd_logSize z' = sd_logSize s \<and>
      sd_journal z' = sd_journal z"
  shows "undoable s c s'"
proof -
  have "\<exists>z'. revertLoop ops z (rev [e]) = Some z' \<and> same s c z'" if z: "same s' c z" for z
  proof -
    obtain z' where z': "revertEntry ops z e = Some z'" "good z' c" "view z' c = view s c"
        "sd_refund z' = sd_refund s" "GetLogs z' = GetLogs s" "sd_logSize z' = sd_logSize s"
        "sd_journal z' = sd_journal z" using assms(4) [OF z] by blast
    let ?z = "z'\<lparr>sd_journal := dropDirty (sd_journal z') e\<rparr>"
    have "revertLoop ops z (rev [e]) = Some ?z" using z'(1) by simp
    moreover have "same s c ?z"
      using z' z assms(1,3) good_cong [OF z'(2), of ?z]
      by (auto simp: same_def dirtyCount_dropDirty dirtyCount_append GetLogs_def fun_eq_iff)
    ultimately show ?thesis by blast
  qed
  then show ?thesis using assms(1-3) unfolding undoable_def
    by (intro conjI exI [of _ "[e]"]) (auto simp: entries_append)
qed

subsection \<open>The operations\<close>

lemma appendJournal_frame [simp]:
  "sd_stateObjects (appendJournal s e) = sd_stateObjects s" "sd_db (appendJournal s e) = sd_db s"
  "sd_trie (appendJournal s e) = sd_trie s" "sd_refund (appendJournal s e) = sd_refund s"
  "sd_logs (appendJournal s e) = sd_logs s" "sd_logSize (appendJournal s e) = sd_logSize s"
  "sd_thash (appendJournal s e) = sd_thash s"
  "sd_journal (appendJournal s e) = journalAppend (sd_journal s) e"
  by (simp_all add: appendJournal_def)

lemma setstateObject_frame [simp]:
  "sd_journal (setstateObject s obj) = sd_journal s" "sd_refund (setstateObject s obj) = sd_refund s"
  "sd_logs (setstateObject s obj) = sd_logs s" "sd_logSize (setstateObject s obj) = sd_logSize s"
  "GetLogs (setstateObject s obj) = GetLogs s"
  by (simp_all add: setstateObject_def GetLogs_def fun_eq_iff)

lemma GetLogs_appendJournal [simp]: "GetLogs (appendJournal s e) = GetLogs s"
  by (simp add: GetLogs_def fun_eq_iff)

lemma good_append: "good s c \<Longrightarrow> good (appendJournal s e) c"
  by (simp add: good_def)

text \<open>Undoing a change of the object at \<open>a\<close> by putting the old one back.\<close>

lemma undoable_object:
  assumes "good s c" "key a" "view s c a = Some old" "so_address new = a"
    and "\<And>z. good z c \<Longrightarrow> view z c a = Some new \<Longrightarrow>
      \<exists>z1. loaded z c z1 \<and> revertEntry ops z e = Some (setstateObject z1 old)"
  shows "undoable s c (setstateObject (appendJournal s e) new)"
proof (rule undoable_entry)
  have adr: "so_address old = a" using view_address assms(1,3) by blast
  fix z assume z: "same (setstateObject (appendJournal s e) new) c z"
  then have zv: "good z c" "view z c = (view s c)(a \<mapsto> new)"
    using assms(4) by (auto simp: same_def fun_eq_iff)
  then obtain z1 where z1: "loaded z c z1" "revertEntry ops z e = Some (setstateObject z1 old)"
    using assms(5) by fastforce
  have "view (setstateObject z1 old) c = view s c"
    using z1(1) zv(2) adr assms(3) by (auto simp: fun_eq_iff loaded_def)
  moreover have "good (setstateObject z1 old) c" using z1(1) good_set by (simp add: loaded_def)
  ultimately show "\<exists>z'. revertEntry ops z e = Some z' \<and> good z' c \<and> view z' c = view s c \<and>
      sd_refund z' = sd_refund s \<and> GetLogs z' = GetLogs s \<and> sd_logSize z' = sd_logSize s \<and>
      sd_journal z' = sd_journal z"
    using z1(2) z loaded_frame [OF z1(1)] GetLogs_eq [of z1 z] by (auto simp: same_def)
qed (use assms(1) in \<open>simp_all add: good_set good_append\<close>)

lemma objSetBalance_spec:
  assumes "good s c" "key a" "view s c a = Some obj" "\<not> so_deleted obj"
  shows "good (objSetBalance s obj x) c"
    and "view (objSetBalance s obj x) c = (view s c)(a \<mapsto> obj\<lparr>so_Balance := x\<rparr>)"
    and "undoable s c (objSetBalance s obj x)"
proof -
  have adr: "so_address obj = a" using view_address assms(1,3) by blast
  show "good (objSetBalance s obj x) c" using assms(1) by (simp add: objSetBalance_def good_set good_append)
  show "view (objSetBalance s obj x) c = (view s c)(a \<mapsto> obj\<lparr>so_Balance := x\<rparr>)"
    using adr by (auto simp: objSetBalance_def fun_eq_iff)
  show "undoable s c (objSetBalance s obj x)"
    unfolding objSetBalance_def
  proof (rule undoable_object [OF assms(1-3)])
    fix z assume "good z c" "view z c a = Some (obj\<lparr>so_Balance := x\<rparr>)"
    then obtain z1 where "getstateObject ops z a = (Some (obj\<lparr>so_Balance := x\<rparr>), z1)" "loaded z c z1"
      using getstateObject_spec [of z c a] assms(2,4) by (auto simp: alive_def)
    then show "\<exists>z1. loaded z c z1 \<and>
        revertEntry ops z (BalanceChange (so_address obj) (so_Balance obj)) = Some (setstateObject z1 obj)"
      using adr by auto
  qed (use adr in simp)
qed

lemma lookObj_other: "b \<noteq> a \<Longrightarrow> lookObj dec look (objs(a := x)) b = lookObj dec look objs b"
  by (simp add: lookObj_def)

lemma createObject_spec:
  assumes "good s c" "key a"
  shows "\<exists>s'. createObject ops s a = ((newObject a 0, alive (view s c a)), s') \<and> good s' c \<and>
     view s' c = (view s c)(a \<mapsto> newObject a 0) \<and> undoable s c s'"
proof -
  obtain s1 where s1: "getDeletedstateObject ops s a = (view s c a, s1)" "loaded s c s1"
      "sd_stateObjects s1 a = view s c a" using getDeleted_spec [OF assms] by blast
  have g: "good s1 c" "view s1 c = view s c" using s1(2) by (simp_all add: loaded_def)
  note u0 = undoable_loaded [OF assms(1) s1(2)]
  show ?thesis
  proof (cases "view s c a")
    case None
    let ?s = "setstateObject (appendJournal s1 (CreateObjectChange a)) (newObject a 0)"
    have trie: "lookObj (decAccount ops) (clook c) (objs(a := None)) a = None" for objs
      using None s1(3) by (auto simp: lookObj_def split: option.splits if_splits)
    have "undoable s1 c ?s"
    proof (rule undoable_entry)
      fix z assume z: "same ?s c z"
      let ?z = "z\<lparr>sd_stateObjects := (sd_stateObjects z)(a := None),
             sd_stateObjectsDirty := deleteKey (sd_stateObjectsDirty z) a\<rparr>"
      have "view z c = (view s c)(a \<mapsto> newObject a 0)"
        using z g(2) by (auto simp: same_def fun_eq_iff newObject_def)
      then have zb: "view z c b = view s c b" if "b \<noteq> a" for b using that by simp
      have "view ?z c = view s1 c"
      proof
        fix b
        show "view ?z c b = view s1 c b"
          using trie None g(2) zb [of b] by (cases "b = a") (simp_all add: lookObj_other)
      qed
      moreover have "good ?z c" using z by (auto simp: same_def good_def)
      ultimately show "\<exists>z'. revertEntry ops z (CreateObjectChange a) = Some z' \<and> good z' c \<and> view z' c = view s1 c \<and>
          sd_refund z' = sd_refund s1 \<and> GetLogs z' = GetLogs s1 \<and> sd_logSize z' = sd_logSize s1 \<and>
          sd_journal z' = sd_journal z"
        using z GetLogs_eq [of ?z z] by (auto simp: same_def)
    qed (use g(1) in \<open>simp_all add: good_set good_append\<close>)
    then have "undoable s c ?s" using undoable_trans [OF u0] by blast
    then show ?thesis using s1(1) None g
      by (auto simp: createObject_def Let_def alive_def newObject_def fun_eq_iff good_set good_append)
  next
    case (Some p)
    let ?s = "setstateObject (appendJournal s1 (ResetObjectChange p False)) (newObject a 0)"
    have "undoable s1 c ?s"
    proof (rule undoable_object [OF g(1) assms(2)])
      show "view s1 c a = Some p" using Some g(2) by simp
      show "\<exists>z1. loaded z c z1 \<and> revertEntry ops z (ResetObjectChange p False) = Some (setstateObject z1 p)"
        if "good z c" for z using that loaded_refl by auto
    qed (simp add: newObject_def)
    then have "undoable s c ?s" using undoable_trans [OF u0] by blast
    then show ?thesis using s1(1) Some g
      by (auto simp: createObject_def Let_def alive_def newObject_def fun_eq_iff good_set good_append)
  qed
qed

lemma GetOrNew_spec:
  assumes "good s c" "key a"
  shows "\<exists>obj s'. GetOrNewstateObject ops s a = (obj, s') \<and> good s' c \<and> view s' c = (view s c)(a \<mapsto> obj) \<and>
     \<not> so_deleted obj \<and> so_address obj = a \<and> so_Balance obj = balanceOf (view s c a) \<and> undoable s c s'"
proof -
  obtain s1 where s1: "getstateObject ops s a = (alive (view s c a), s1)" "loaded s c s1"
    using getstateObject_spec [OF assms] by blast
  have g: "good s1 c" "view s1 c = view s c" using s1(2) by (simp_all add: loaded_def)
  note u0 = undoable_loaded [OF assms(1) s1(2)]
  show ?thesis
  proof (cases "alive (view s c a)")
    case None
    obtain s2 where s2: "createObject ops s1 a = ((newObject a 0, alive (view s1 c a)), s2)" "good s2 c"
        "view s2 c = (view s1 c)(a \<mapsto> newObject a 0)" "undoable s1 c s2"
      using createObject_spec [OF g(1) assms(2)] by blast
    have "balanceOf (view s c a) = 0" using None by (auto simp: alive_def balanceOf_def split: option.splits if_splits)
    then show ?thesis using s1(1) None s2 g(2) undoable_trans [OF u0 s2(4)]
      by (auto simp: GetOrNewstateObject_def newObject_def)
  next
    case (Some obj)
    then have v: "view s c a = Some obj" "\<not> so_deleted obj" by (auto simp: alive_def split: option.splits if_splits)
    moreover have "view s1 c = (view s c)(a \<mapsto> obj)" using v g(2) by auto
    ultimately show ?thesis using s1(1) Some g(1) u0 view_address [OF assms(1) v(1)]
      by (auto simp: GetOrNewstateObject_def balanceOf_def)
  qed
qed

lemma objTouch_spec:
  assumes "good s c"
  shows "good (objTouch s obj) c" "view (objTouch s obj) c = view s c" "undoable s c (objTouch s obj)"
proof -
  let ?s = "appendJournal s (TouchChange (so_address obj))"
  have u: "undoable s c ?s"
    by (rule undoable_entry) (use assms in \<open>auto simp: good_append same_def\<close>)
  let ?t = "?s\<lparr>sd_journal := journalDirty (sd_journal ?s) (so_address obj)\<rparr>"
  have g: "good ?t c" using good_append [OF assms] by (simp add: good_def)
  have "undoable ?s c ?t" if "so_address obj = ripemd"
    unfolding undoable_def
  proof (intro conjI exI [of _ "[]"] allI impI)
    show "j_entries (sd_journal ?t) = j_entries (sd_journal ?s) @ []" by (simp add: journalDirty_def)
    show "\<exists>z'. revertLoop ops z (rev []) = Some z' \<and> same ?s c z'" if z: "same ?t c z" for z
    proof -
      have "dirtyCount (j_dirties (journalDirty j ripemd)) b = dirtyCount (j_dirties j) b" if "b \<noteq> ripemd" for b j
        using that by (simp add: journalDirty_def dirtyCount_def update_conv')
      then have "same ?s c z" using z \<open>so_address obj = ripemd\<close> good_append [OF assms]
        by (simp add: same_def GetLogs_def fun_eq_iff)
      then show ?thesis by simp
    qed
  qed (use g good_append [OF assms] in auto)
  then show "undoable s c (objTouch s obj)"
    using u undoable_trans unfolding objTouch_def Let_def by auto
  show "good (objTouch s obj) c" using assms by (simp add: objTouch_def Let_def good_def)
  show "view (objTouch s obj) c = view s c" by (simp add: objTouch_def Let_def)
qed

text \<open>An operation that sets the balance of \<open>a\<close> to \<open>x\<close> and can be undone.\<close>

definition sets :: "('d, 't) StateDB \<Rightarrow> 'c \<Rightarrow> address \<Rightarrow> u64 \<Rightarrow> ('d, 't) StateDB \<Rightarrow> bool" where
  "sets s c a x s' \<longleftrightarrow> good s' c \<and> undoable s c s' \<and>
     (\<forall>b. balanceOf (view s' c b) = (if b = a then x else balanceOf (view s c b)))"

lemma AddBalance_spec:
  assumes "good s c" "key a"
  shows "sets s c a (balanceOf (view s c a) + x) (AddBalance ops s a x)"
proof -
  obtain obj s1 where g: "GetOrNewstateObject ops s a = (obj, s1)" "good s1 c" "view s1 c = (view s c)(a \<mapsto> obj)"
      "\<not> so_deleted obj" "so_address obj = a" "so_Balance obj = balanceOf (view s c a)" "undoable s c s1"
    using GetOrNew_spec [OF assms] by blast
  have v: "view s1 c a = Some obj" using g(3) by simp
  have "AddBalance ops s a x =
      (if x = 0 then if soEmpty obj then objTouch s1 obj else s1 else objSetBalance s1 obj (so_Balance obj + x))"
    using g(1) by (simp add: AddBalance_def objAddBalance_def)
  then show ?thesis
    using objTouch_spec [OF g(2), of obj] objSetBalance_spec [OF g(2) assms(2) v g(4), of "so_Balance obj + x"]
      undoable_trans [OF g(7)] g
    by (auto simp: sets_def balanceOf_def)
qed

lemma SubBalance_spec:
  assumes "good s c" "key a"
  shows "sets s c a (balanceOf (view s c a) - x) (SubBalance ops s a x)"
proof -
  obtain obj s1 where g: "GetOrNewstateObject ops s a = (obj, s1)" "good s1 c" "view s1 c = (view s c)(a \<mapsto> obj)"
      "\<not> so_deleted obj" "so_address obj = a" "so_Balance obj = balanceOf (view s c a)" "undoable s c s1"
    using GetOrNew_spec [OF assms] by blast
  have v: "view s1 c a = Some obj" using g(3) by simp
  have "SubBalance ops s a x = (if x = 0 then s1 else objSetBalance s1 obj (so_Balance obj - x))"
    using g(1) by (simp add: SubBalance_def objSubBalance_def)
  then show ?thesis
    using objSetBalance_spec [OF g(2) assms(2) v g(4), of "so_Balance obj - x"] undoable_trans [OF g(7)] g
    by (auto simp: sets_def balanceOf_def)
qed

lemma SetBalance_spec:
  assumes "good s c" "key a"
  shows "sets s c a x (SetBalance ops s a x)"
proof -
  obtain obj s1 where g: "GetOrNewstateObject ops s a = (obj, s1)" "good s1 c" "view s1 c = (view s c)(a \<mapsto> obj)"
      "\<not> so_deleted obj" "so_address obj = a" "so_Balance obj = balanceOf (view s c a)" "undoable s c s1"
    using GetOrNew_spec [OF assms] by blast
  have v: "view s1 c a = Some obj" using g(3) by simp
  have "SetBalance ops s a x = objSetBalance s1 obj x" using g(1) by (simp add: SetBalance_def)
  then show ?thesis
    using objSetBalance_spec [OF g(2) assms(2) v g(4), of x] undoable_trans [OF g(7)] g
    by (auto simp: sets_def balanceOf_def)
qed

lemma Suicide_spec:
  assumes "good s c" "key a"
  shows "sets s c a 0 (snd (Suicide ops s a))"
proof -
  obtain s1 where s1: "getstateObject ops s a = (alive (view s c a), s1)" "loaded s c s1"
    using getstateObject_spec [OF assms] by blast
  have g: "good s1 c" "view s1 c = view s c" using s1(2) by (simp_all add: loaded_def)
  note u0 = undoable_loaded [OF assms(1) s1(2)]
  show ?thesis
  proof (cases "alive (view s c a)")
    case None
    then have "balanceOf (view s c a) = 0" by (auto simp: alive_def balanceOf_def split: option.splits if_splits)
    then show ?thesis using None s1(1) g u0 by (simp add: Suicide_def sets_def)
  next
    case (Some obj)
    then have v: "view s1 c a = Some obj" "\<not> so_deleted obj"
      using g(2) by (auto simp: alive_def split: option.splits if_splits)
    have adr: "so_address obj = a" using view_address [OF g(1) v(1)] .
    let ?new = "obj\<lparr>so_suicided := True, so_Balance := 0\<rparr>"
    let ?s = "setstateObject (appendJournal s1 (SuicideChange a (so_suicided obj) (so_Balance obj))) ?new"
    have "undoable s1 c ?s"
    proof (rule undoable_object [OF g(1) assms(2) v(1)])
      fix z assume "good z c" "view z c a = Some ?new"
      then obtain z1 where "getstateObject ops z a = (Some ?new, z1)" "loaded z c z1"
        using getstateObject_spec [of z c a] assms(2) v(2) by (auto simp: alive_def)
      then show "\<exists>z1. loaded z c z1 \<and>
          revertEntry ops z (SuicideChange a (so_suicided obj) (so_Balance obj)) = Some (setstateObject z1 obj)"
        by auto
    qed (use adr in simp)
    then show ?thesis using Some s1(1) g undoable_trans [OF u0] adr
      by (auto simp: Suicide_def sets_def balanceOf_def good_set good_append)
  qed
qed

lemma setstateObject_twice:
  "so_address o1 = so_address o2 \<Longrightarrow> setstateObject (setstateObject s o1) o2 = setstateObject s o2"
  by (simp add: setstateObject_def)

lemma CreateAccount_spec:
  assumes "good s c" "key a"
  shows "sets s c a (balanceOf (view s c a)) (CreateAccount ops s a)"
proof (cases "alive (view s c a)")
  case None
  obtain s1 where s1: "createObject ops s a = ((newObject a 0, alive (view s c a)), s1)" "good s1 c"
      "view s1 c = (view s c)(a \<mapsto> newObject a 0)" "undoable s c s1"
    using createObject_spec [OF assms] by blast
  have "balanceOf (view s c a) = 0" using None by (auto simp: alive_def balanceOf_def split: option.splits if_splits)
  then show ?thesis using s1 None by (auto simp: CreateAccount_def sets_def balanceOf_def newObject_def)
next
  case (Some p)
  then have v: "view s c a = Some p" "\<not> so_deleted p" by (auto simp: alive_def split: option.splits if_splits)
  obtain s1 where s1: "getDeletedstateObject ops s a = (Some p, s1)" "loaded s c s1"
    using getDeleted_spec [OF assms] v(1) by auto
  have g: "good s1 c" "view s1 c = view s c" using s1(2) by (simp_all add: loaded_def)
  let ?new = "(newObject a 0)\<lparr>so_Balance := so_Balance p\<rparr>"
  let ?s = "setstateObject (appendJournal s1 (ResetObjectChange p False)) ?new"
  have eq: "CreateAccount ops s a = ?s"
    using s1(1) v(2) by (simp add: CreateAccount_def createObject_def Let_def setstateObject_twice newObject_def)
  have "undoable s1 c ?s"
  proof (rule undoable_object [OF g(1) assms(2)])
    show "view s1 c a = Some p" using v g(2) by simp
    show "\<exists>z1. loaded z c z1 \<and> revertEntry ops z (ResetObjectChange p False) = Some (setstateObject z1 p)"
      if "good z c" for z using that loaded_refl by auto
  qed (simp add: newObject_def)
  then show ?thesis unfolding eq
    using undoable_trans [OF undoable_loaded [OF assms(1) s1(2)]] g v
    by (auto simp: sets_def good_set good_append balanceOf_def newObject_def)
qed

lemma AddRefund_spec: "good s c \<Longrightarrow> good (AddRefund s x) c \<and> undoable s c (AddRefund s x)"
proof
  assume s: "good s c"
  show g: "good (AddRefund s x) c" using s by (simp add: AddRefund_def Let_def good_def)
  show "undoable s c (AddRefund s x)"
    by (rule undoable_entry [where e = "RefundChange (sd_refund s)"])
      (use s g in \<open>auto simp: AddRefund_def Let_def same_def good_def GetLogs_def fun_eq_iff\<close>)
qed

lemma AddLog_spec: "good s c \<Longrightarrow> good (AddLog s l) c \<and> undoable s c (AddLog s l)"
proof
  assume s: "good s c"
  show g: "good (AddLog s l) c" using s by (simp add: AddLog_def Let_def good_def)
  show "undoable s c (AddLog s l)"
  proof (rule undoable_entry [where e = "AddLogChange (sd_thash s)"])
    fix z assume z: "same (AddLog s l) c z"
    define h where "h = sd_thash s"
    obtain l' where new: "GetLogs (AddLog s l) = (GetLogs s)(h := GetLogs s h @ [l'])"
      by (auto simp: AddLog_def Let_def GetLogs_def h_def fun_eq_iff)
    have zl: "GetLogs z = (GetLogs s)(h := GetLogs s h @ [l'])" using z new by (simp add: same_def)
    have size: "sd_logSize z = sd_logSize s + 1" "view z c = view s c" "good z c" "sd_refund z = sd_refund s"
      using z by (simp_all add: same_def AddLog_def Let_def)
    have logs: "(case sd_logs z h of None \<Rightarrow> [] | Some l \<Rightarrow> l) = GetLogs s h @ [l']"
      using fun_cong [OF zl, of h] by (simp add: GetLogs_def split: option.splits)
    let ?z = "if GetLogs s h = [] then z\<lparr>sd_logs := (sd_logs z)(h := None), sd_logSize := sd_logSize z - 1\<rparr>
        else z\<lparr>sd_logs := (sd_logs z)(h \<mapsto> GetLogs s h), sd_logSize := sd_logSize z - 1\<rparr>"
    have "revertEntry ops z (AddLogChange h) = Some ?z" using logs by (simp add: Let_def)
    moreover have "GetLogs ?z = GetLogs s"
    proof
      fix k
      show "GetLogs ?z k = GetLogs s k"
        using fun_cong [OF zl, of k] by (cases "k = h") (auto simp: GetLogs_def)
    qed
    moreover have "good ?z c" using size(3) by (simp add: good_def)
    ultimately show "\<exists>z'. revertEntry ops z (AddLogChange (sd_thash s)) = Some z' \<and> good z' c \<and> view z' c = view s c \<and>
        sd_refund z' = sd_refund s \<and> GetLogs z' = GetLogs s \<and> sd_logSize z' = sd_logSize s \<and>
        sd_journal z' = sd_journal z"
      using size unfolding h_def by (intro exI [of _ ?z]) (auto simp: h_def)
  qed (use s g in \<open>simp_all add: AddLog_def Let_def\<close>)
qed

text \<open>Any sequence of operations can be undone.\<close>

abbreviation opKey :: "stateOp \<Rightarrow> bool" where
  "opKey \<equiv> opOn key"

lemma applyOp_undoable: "good s c \<Longrightarrow> opKey op \<Longrightarrow> undoable s c (applyOp ops s op)"
  using AddBalance_spec SubBalance_spec SetBalance_spec Suicide_spec CreateAccount_spec AddRefund_spec AddLog_spec
    undoable_loaded GetBalance_spec [of s c]
  by (cases op) (auto simp: sets_def, metis snd_conv)

lemma run_undoable: "good s c \<Longrightarrow> \<forall>op \<in> set os. opKey op \<Longrightarrow> undoable s c (foldl (applyOp ops) s os)"
proof (induction os rule: rev_induct)
  case Nil
  then show ?case using undoable_loaded loaded_refl by simp
next
  case (snoc op os)
  then have u: "undoable s c (foldl (applyOp ops) s os)" by simp
  then have "undoable (foldl (applyOp ops) s os) c (applyOp ops (foldl (applyOp ops) s os) op)"
    using applyOp_undoable snoc.prems(2) by (simp add: undoable_def)
  then show ?case using undoable_trans [OF u] by simp
qed

lemma revert_restores:
  assumes "good s c" "\<forall>op \<in> set os. opKey op"
  shows "\<exists>z. journalRevert ops (foldl (applyOp ops) s os) (journalLength (sd_journal s)) = Some z \<and>
     same s c z \<and> j_entries (sd_journal z) = j_entries (sd_journal s)"
proof -
  let ?s = "foldl (applyOp ops) s os"
  obtain es where es: "j_entries (sd_journal ?s) = j_entries (sd_journal s) @ es"
      "\<And>z. same ?s c z \<Longrightarrow> \<exists>z'. revertLoop ops z (rev es) = Some z' \<and> same s c z'" "good ?s c"
    using run_undoable [OF assms] unfolding undoable_def by blast
  have "same ?s c ?s" using es(3) by (simp add: same_def)
  then obtain z where z: "revertLoop ops ?s (rev es) = Some z" "same s c z" using es(2) by blast
  have "j_entries (sd_journal z) = j_entries (sd_journal ?s)" using revertLoop_entries z(1) by blast
  then show ?thesis using z es(1)
    by (auto simp: journalRevert_def journalLength_def same_def good_def GetLogs_def fun_eq_iff)
qed

subsection \<open>Agreement with the trie\<close>

definition trieBalance :: "'c \<Rightarrow> address \<Rightarrow> u64" where
  "trieBalance c a = balanceOf (lookObj (decAccount ops) (clook c) Map.empty a)"

definition dirtySet :: "('d, 't) StateDB \<Rightarrow> address set" where
  "dirtySet s = set (map fst (j_dirties (sd_journal s)))"

text \<open>A live object that is neither dirty nor pending has the balance that the trie has.\<close>

definition agrees :: "('d, 't) StateDB \<Rightarrow> 'c \<Rightarrow> bool" where
  "agrees s c \<longleftrightarrow> good s c \<and> distinct (sd_stateObjectsPending s) \<and>
     (\<forall>a \<in> set (sd_stateObjectsPending s). sd_stateObjects s a \<noteq> None) \<and>
     (\<forall>a obj. sd_stateObjects s a = Some obj \<longrightarrow> key a \<and>
       (a \<in> dirtySet s \<or> a \<in> set (sd_stateObjectsPending s) \<or> balanceOf (Some obj) = trieBalance c a))"

text \<open>A step that marks what it changes.\<close>

definition marks :: "('d, 't) StateDB \<Rightarrow> 'c \<Rightarrow> ('d, 't) StateDB \<Rightarrow> bool" where
  "marks s c s' \<longleftrightarrow> good s' c \<and> sd_stateObjectsPending s' = sd_stateObjectsPending s \<and> dirtySet s \<subseteq> dirtySet s' \<and>
     (\<forall>a. sd_stateObjects s a \<noteq> None \<longrightarrow> sd_stateObjects s' a \<noteq> None) \<and>
     (\<forall>a obj. sd_stateObjects s' a = Some obj \<longrightarrow>
        (sd_stateObjects s a \<noteq> None \<or> key a) \<and> (a \<in> dirtySet s' \<or> balanceOf (Some obj) = balanceOf (view s c a)))"

lemma view_live: "sd_stateObjects s a = Some obj \<Longrightarrow> view s c a = Some obj"
  by (simp add: lookObj_def)

lemma view_trie: "sd_stateObjects s a = None \<Longrightarrow> balanceOf (view s c a) = trieBalance c a"
  by (simp add: lookObj_def trieBalance_def)

lemma view_absent: "sd_stateObjects s a = None \<Longrightarrow> sd_stateObjects s' a = None \<Longrightarrow> view s' c a = view s c a"
  by (simp add: lookObj_def)

lemma agrees_marks:
  assumes "agrees s c" "marks s c s'"
  shows "agrees s' c"
proof -
  have "key a \<and> (a \<in> dirtySet s' \<or> a \<in> set (sd_stateObjectsPending s') \<or> balanceOf (Some obj) = trieBalance c a)"
    if live: "sd_stateObjects s' a = Some obj" for a obj
  proof -
    have m: "sd_stateObjects s a \<noteq> None \<or> key a" "a \<in> dirtySet s' \<or> balanceOf (Some obj) = balanceOf (view s c a)"
        "dirtySet s \<subseteq> dirtySet s'" "sd_stateObjectsPending s' = sd_stateObjectsPending s"
      using assms(2) live unfolding marks_def by blast+
    show ?thesis
    proof (cases "sd_stateObjects s a")
      case None
      then show ?thesis using m view_trie by auto
    next
      case (Some o1)
      then have "key a" "a \<in> dirtySet s \<or> a \<in> set (sd_stateObjectsPending s) \<or> balanceOf (Some o1) = trieBalance c a"
        using assms(1) unfolding agrees_def by blast+
      then show ?thesis using m view_live [OF Some] by auto
    qed
  qed
  then show ?thesis using assms unfolding agrees_def marks_def by auto
qed

lemma marks_trans:
  assumes "marks s c s'" "marks s' c s''"
  shows "marks s c s''"
proof -
  have "(sd_stateObjects s a \<noteq> None \<or> key a) \<and> (a \<in> dirtySet s'' \<or> balanceOf (Some obj) = balanceOf (view s c a))"
    if live: "sd_stateObjects s'' a = Some obj" for a obj
  proof (cases "sd_stateObjects s' a")
    case None
    then have "sd_stateObjects s a = None" using assms(1) unfolding marks_def by blast
    then show ?thesis using assms(2) live None view_absent unfolding marks_def by metis
  next
    case (Some o1)
    then have "(sd_stateObjects s a \<noteq> None \<or> key a)" "a \<in> dirtySet s' \<or> balanceOf (Some o1) = balanceOf (view s c a)"
      using assms(1) unfolding marks_def by blast+
    moreover have "a \<in> dirtySet s'' \<or> balanceOf (Some obj) = balanceOf (Some o1)" "dirtySet s' \<subseteq> dirtySet s''"
      using assms(2) live view_live [OF Some] unfolding marks_def by metis+
    ultimately show ?thesis by auto
  qed
  then show ?thesis using assms unfolding marks_def by auto
qed

text \<open>Putting an object with a dirty address, or with an unchanged balance.\<close>

lemma marks_set:
  assumes "good s c" "key (so_address obj)"
    and "sd_journal s' = sd_journal s \<or> (\<exists>e. sd_journal s' = journalAppend (sd_journal s) e)"
    and "so_address obj \<in> dirtySet s' \<or> balanceOf (Some obj) = balanceOf (view s c (so_address obj))"
    and "sd_db s' = sd_db s" "sd_trie s' = sd_trie s" "sd_stateObjectsPending s' = sd_stateObjectsPending s"
      "sd_stateObjects s' = (sd_stateObjects s)(so_address obj \<mapsto> obj)"
  shows "marks s c s'"
proof -
  have "set (map fst (j_dirties j)) \<subseteq> set (map fst (j_dirties (journalAppend j e)))" for j e
    by (auto simp: journalAppend_def journalDirty_def Let_def dom_update split: option.splits)
  then have "dirtySet s \<subseteq> dirtySet s'" using assms(3) unfolding dirtySet_def by (metis subset_refl)
  moreover have "good s' c" using assms(1,5,6,8) by (simp add: good_def)
  moreover have "a \<in> dirtySet s' \<or> balanceOf (Some o1) = balanceOf (view s c a)"
    if "sd_stateObjects s' a = Some o1" for a o1
    using that assms(4,8) view_live [of s a o1] by (auto split: if_splits)
  ultimately show ?thesis using assms(2,7,8) unfolding marks_def by auto
qed

lemma dirty_append: "dirtied e = Some a \<Longrightarrow> a \<in> set (map fst (j_dirties (journalAppend j e)))"
  by (simp add: journalAppend_def journalDirty_def Let_def dom_update)

lemma marks_same:
  assumes "good s' c" "sd_stateObjects s' = sd_stateObjects s" "sd_stateObjectsPending s' = sd_stateObjectsPending s"
    and "dirtySet s \<subseteq> dirtySet s'"
  shows "marks s c s'"
  using assms view_live [of s] unfolding marks_def by auto

lemma getDeleted_marks:
  assumes "good s c" "key a"
  shows "marks s c (snd (getDeletedstateObject ops s a))"
proof (cases "sd_stateObjects s a")
  case (Some obj)
  then show ?thesis using assms by (simp add: getDeletedstateObject_def marks_same)
next
  case None
  have rep: "rep (sd_db s) (sd_trie s) c" using assms(1) by (simp add: good_def)
  obtain t' where t': "op_TryGet ops (sd_db s) (sd_trie s) a = (Inr (clook c a), t')" "rep (sd_db s) t' c"
    using get [OF rep assms(2)] by blast
  let ?s = "s\<lparr>sd_trie := t'\<rparr>"
  have g: "good ?s c" using assms(1) t'(2) by (simp add: good_def)
  then have m: "marks s c ?s" by (rule marks_same) (simp_all add: dirtySet_def)
  show ?thesis
  proof (cases "view s c a")
    case vnone: None
    then have "snd (getDeletedstateObject ops s a) = ?s"
      using None t' by (auto simp: getDeletedstateObject_def lookObj_def Let_def split: option.splits if_splits)
    then show ?thesis using m by simp
  next
    case (Some obj)
    then have d: "snd (getDeletedstateObject ops s a) = setstateObject ?s obj"
      using None t' by (auto simp: getDeletedstateObject_def lookObj_def Let_def split: option.splits if_splits)
    have adr: "so_address obj = a" using view_address [OF assms(1) Some] .
    have "marks ?s c (setstateObject ?s obj)"
      by (rule marks_set [OF g, where obj = obj]) (use assms(2) adr Some in \<open>simp_all add: setstateObject_def\<close>)
    then show ?thesis using d marks_trans [OF m] by simp
  qed
qed

lemma getstateObject_marks: "good s c \<Longrightarrow> key a \<Longrightarrow> getstateObject ops s a = (x, s') \<Longrightarrow> marks s c s'"
  using getDeleted_marks [of s c a] by (auto simp: getstateObject_def split: prod.splits option.splits)

lemma createObject_marks:
  assumes "good s c" "key a" "createObject ops s a = (r, s')" "balanceOf (view s c a) = 0"
  shows "marks s c s'"
proof -
  obtain s1 where s1: "getDeletedstateObject ops s a = (view s c a, s1)" "loaded s c s1"
    using getDeleted_spec [OF assms(1,2)] by blast
  have g: "good s1 c" "view s1 c = view s c" using s1(2) by (simp_all add: loaded_def)
  obtain e where s': "s' = setstateObject (appendJournal s1 e) (newObject a 0)"
    using assms(3) s1(1) by (auto simp: createObject_def Let_def split: option.splits if_splits)
  have "marks s1 c s'"
    by (rule marks_set [OF g(1), where obj = "newObject a 0"])
      (use assms(2,4) g(2) s' in \<open>auto simp: newObject_def setstateObject_def balanceOf_def appendJournal_def\<close>)
  then show ?thesis using marks_trans getDeleted_marks [OF assms(1,2)] s1(1) by fastforce
qed

lemma GetOrNew_marks:
  assumes "good s c" "key a" "GetOrNewstateObject ops s a = (obj, s')"
  shows "marks s c s'"
proof -
  obtain s1 where s1: "getstateObject ops s a = (alive (view s c a), s1)" "loaded s c s1"
    using getstateObject_spec [OF assms(1,2)] by blast
  note m = getstateObject_marks [OF assms(1,2) s1(1)]
  show ?thesis
  proof (cases "alive (view s c a)")
    case None
    then have "balanceOf (view s1 c a) = 0"
      using s1(2) by (auto simp: loaded_def alive_def balanceOf_def split: option.splits if_splits)
    moreover obtain r where "createObject ops s1 a = (r, s')"
      using assms(3) s1(1) None by (auto simp: GetOrNewstateObject_def split: prod.splits)
    ultimately show ?thesis using createObject_marks [of s1 c a r s'] assms(2) s1(2) marks_trans [OF m]
      by (simp add: loaded_def)
  next
    case (Some o1)
    then show ?thesis using assms(3) s1(1) m by (simp add: GetOrNewstateObject_def)
  qed
qed

lemma objSetBalance_marks:
  assumes "good s c" "key (so_address obj)"
  shows "marks s c (objSetBalance s obj x)"
  by (rule marks_set [OF assms(1), where obj = "obj\<lparr>so_Balance := x\<rparr>"])
    (use assms(2) dirty_append in \<open>auto simp: objSetBalance_def setstateObject_def appendJournal_def dirtySet_def\<close>)

lemma objTouch_marks: "good s c \<Longrightarrow> marks s c (objTouch s obj)"
proof -
  assume g: "good s c"
  have "dirtySet s \<subseteq> dirtySet (objTouch s obj)"
    by (auto simp: dirtySet_def objTouch_def Let_def appendJournal_def journalAppend_def journalDirty_def dom_update)
  then show ?thesis using objTouch_spec(1) [OF g] by (intro marks_same) (auto simp: objTouch_def Let_def appendJournal_def)
qed

lemma AddBalance_marks: "good s c \<Longrightarrow> key a \<Longrightarrow> marks s c (AddBalance ops s a x)"
proof -
  assume s: "good s c" "key a"
  obtain obj s1 where g: "GetOrNewstateObject ops s a = (obj, s1)" "good s1 c" "so_address obj = a"
    using GetOrNew_spec [OF s] by blast
  have "marks s1 c (objAddBalance s1 obj x)"
    using objSetBalance_marks [OF g(2)] objTouch_marks [OF g(2)] marks_same [OF g(2)] g(3) s(2)
    by (simp add: objAddBalance_def)
  then show ?thesis using marks_trans [OF GetOrNew_marks [OF s g(1)]] g(1) by (simp add: AddBalance_def)
qed

lemma SubBalance_marks: "good s c \<Longrightarrow> key a \<Longrightarrow> marks s c (SubBalance ops s a x)"
proof -
  assume s: "good s c" "key a"
  obtain obj s1 where g: "GetOrNewstateObject ops s a = (obj, s1)" "good s1 c" "so_address obj = a"
    using GetOrNew_spec [OF s] by blast
  have "marks s1 c (objSubBalance s1 obj x)"
    using objSetBalance_marks [OF g(2)] marks_same [OF g(2)] g(3) s(2) by (simp add: objSubBalance_def)
  then show ?thesis using marks_trans [OF GetOrNew_marks [OF s g(1)]] g(1) by (simp add: SubBalance_def)
qed

lemma SetBalance_marks: "good s c \<Longrightarrow> key a \<Longrightarrow> marks s c (SetBalance ops s a x)"
proof -
  assume s: "good s c" "key a"
  obtain obj s1 where g: "GetOrNewstateObject ops s a = (obj, s1)" "good s1 c" "so_address obj = a"
    using GetOrNew_spec [OF s] by blast
  then show ?thesis using marks_trans [OF GetOrNew_marks [OF s g(1)]] objSetBalance_marks [OF g(2)] s(2)
    by (simp add: SetBalance_def)
qed

subsection \<open>Writing the pending objects\<close>

text \<open>What is written to the trie for an object.\<close>

definition written :: "stateObject option \<Rightarrow> bytes" where
  "written x = (case x of Some obj \<Rightarrow> if so_deleted obj then [] else encAccount ops (so_Balance obj) | None \<Rightarrow> [])"

lemma writePending_spec:
  "good s c \<Longrightarrow> (\<And>a. a \<in> set as \<Longrightarrow> key a \<and> sd_stateObjects s a \<noteq> None) \<Longrightarrow>
     \<exists>t'. writePending ops s as = Some (s\<lparr>sd_trie := t'\<rparr>) \<and>
       rep (sd_db s) t' (foldl (\<lambda>c a. cset c a (written (sd_stateObjects s a))) c as)"
proof (induction as arbitrary: s c)
  case Nil
  then show ?case by (intro exI [of _ "sd_trie s"]) (simp add: good_def)
next
  case (Cons a as)
  obtain obj where obj: "sd_stateObjects s a = Some obj" "key a" using Cons.prems(2) [of a] by auto
  have adr: "so_address obj = a" and rep: "rep (sd_db s) (sd_trie s) c"
    using Cons.prems(1) obj by (auto simp: good_def)
  obtain t1 where t1: "(if so_deleted obj then deletestateObject ops s obj else updatestateObject ops s obj) = s\<lparr>sd_trie := t1\<rparr>"
      "rep (sd_db s) t1 (cset c a (written (Some obj)))"
    using del [OF rep obj(2)] upd [OF rep obj(2) codec(2) [of "so_Balance obj"]] adr
    by (cases "so_deleted obj") (auto simp: deletestateObject_def updatestateObject_def written_def)
  have "good (s\<lparr>sd_trie := t1\<rparr>) (cset c a (written (Some obj)))"
    using t1(2) Cons.prems(1) by (simp add: good_def)
  then show ?case
    using Cons.IH [of "s\<lparr>sd_trie := t1\<rparr>"] Cons.prems(2) obj(1) t1(1) by simp
qed

lemma lookObj_written:
  "look a = (if written (Some obj) = [] then None else Some (written (Some obj))) \<Longrightarrow>
     balanceOf (lookObj (decAccount ops) look Map.empty a) = balanceOf (Some obj)"
  by (auto simp: written_def lookObj_def balanceOf_def newObject_def codec split: if_splits)

lemma foldl_assign_distinct:
  "distinct as \<Longrightarrow> foldl assign m (map (\<lambda>a. (a, f a)) as) b =
     (if b \<in> set as then if f b = [] then None else Some (f b) else m b)"
proof (induction as arbitrary: m)
  case (Cons a as)
  then show ?case by (auto simp: assign_def)
qed simp

lemma foldl_cset_look:
  assumes "cinv c" "distinct as" "\<And>a. a \<in> set as \<Longrightarrow> key a" "key b"
  shows "clook (foldl (\<lambda>c a. cset c a (f a)) c as) b =
     (if b \<in> set as then if f b = [] then None else Some (f b) else clook c b)"
proof -
  have "foldl (\<lambda>c a. cset c a (f a)) c as = foldl (\<lambda>c kv. cset c (fst kv) (snd kv)) c (map (\<lambda>a. (a, f a)) as)"
    by (induction as arbitrary: c) auto
  then show ?thesis
    using contents.run_look [of c "map (\<lambda>a. (a, f a)) as" "clook c" b] assms by (simp add: foldl_assign_distinct)
qed

text \<open>Writes to distinct addresses may come in any order: Go iterates over its maps at random.\<close>

lemma foldl_cset_inv: "cinv c \<Longrightarrow> (\<And>a. a \<in> set as \<Longrightarrow> key a) \<Longrightarrow> cinv (foldl (\<lambda>c a. cset c a (f a)) c as)"
  by (induction as arbitrary: c) (auto simp: contents.upd_inv)

lemma foldl_cset_move:
  "cinv c \<Longrightarrow> key x \<Longrightarrow> (\<And>a. a \<in> set as \<Longrightarrow> key a \<and> a \<noteq> x) \<Longrightarrow>
     foldl (\<lambda>c a. cset c a (f a)) (cset c x v) as = cset (foldl (\<lambda>c a. cset c a (f a)) c as) x v"
proof (induction as arbitrary: c)
  case (Cons a as)
  have "cset (cset c x v) a (f a) = cset (cset c a (f a)) x v"
    using Cons.prems by (intro cset_commute) auto
  then show ?case using Cons.IH [of "cset c a (f a)"] Cons.prems by (simp add: contents.upd_inv)
qed simp

lemma foldl_cset_order:
  "cinv c \<Longrightarrow> distinct as \<Longrightarrow> distinct bs \<Longrightarrow> set as = set bs \<Longrightarrow> (\<And>a. a \<in> set as \<Longrightarrow> key a) \<Longrightarrow>
     foldl (\<lambda>c a. cset c a (f a)) c as = foldl (\<lambda>c a. cset c a (f a)) c bs"
proof (induction as arbitrary: c bs)
  case Nil
  then show ?case by simp
next
  case (Cons x as)
  then have "x \<in> set bs" by auto
  then obtain b1 b2 where bs: "bs = b1 @ x # b2" by (meson split_list)
  have d: "distinct (b1 @ b2)" "x \<notin> set (b1 @ b2)" "set as = set (b1 @ b2)"
    using Cons.prems(2-4) bs by auto
  have kx: "key x" and kas: "\<And>a. a \<in> set as \<Longrightarrow> key a" using Cons.prems(5) by auto
  have "foldl (\<lambda>c a. cset c a (f a)) c (x # as) = foldl (\<lambda>c a. cset c a (f a)) (cset c x (f x)) (b1 @ b2)"
    using Cons.IH [of "cset c x (f x)" "b1 @ b2"] Cons.prems(1,2) kx kas d by (simp add: contents.upd_inv)
  also have "\<dots> = foldl (\<lambda>c a. cset c a (f a)) (cset (foldl (\<lambda>c a. cset c a (f a)) c b1) x (f x)) b2"
    using foldl_cset_move [of c x b1 f "f x"] Cons.prems(1) kx kas d by fastforce
  finally show ?case by (simp add: bs)
qed

subsection \<open>The state root\<close>

text \<open>The pending addresses after \<open>Finalise\<close>, and the content that is written.\<close>

definition flushed :: "('d, 't) StateDB \<Rightarrow> 'c \<Rightarrow> bool \<Rightarrow> 'c" where
  "flushed s c d = foldl (\<lambda>c a. cset c a (written (sd_stateObjects (Finalise s d) a))) c
     (sd_stateObjectsPending (Finalise s d))"

lemma finObj_address [simp]: "so_address (finObj d obj) = so_address obj"
  by (simp add: finObj_def)

lemma Finalise_pending:
  assumes "agrees s c"
  shows "good (Finalise s d) c" "distinct (sd_stateObjectsPending (Finalise s d))"
    and "a \<in> set (sd_stateObjectsPending (Finalise s d)) \<Longrightarrow> key a \<and> sd_stateObjects (Finalise s d) a \<noteq> None"
  using assms unfolding agrees_def good_def by (auto simp: Finalise_effect split: if_splits)

lemma IntermediateRoot_flushed:
  assumes "agrees s c"
  shows "\<exists>t'. IntermediateRoot ops s d =
       Some (croot (flushed s c d), (Finalise s d)\<lparr>sd_stateObjectsPending := [], sd_trie := t'\<rparr>) \<and>
     rep (sd_db s) t' (flushed s c d)"
proof -
  let ?s = "Finalise s d"
  obtain t1 where t1: "writePending ops ?s (sd_stateObjectsPending ?s) = Some (?s\<lparr>sd_trie := t1\<rparr>)"
      "rep (sd_db ?s) t1 (flushed s c d)"
    using writePending_spec [OF Finalise_pending(1) [OF assms, of d] Finalise_pending(3) [OF assms, of _ d]]
    unfolding flushed_def by blast
  obtain t2 where "op_Hash ops t1 = (croot (flushed s c d), t2)" "rep (sd_db ?s) t2 (flushed s c d)"
    using hash [OF t1(2)] by blast
  then show ?thesis using t1(1)
    by (intro exI [of _ t2]) (simp add: IntermediateRoot_def Let_def Finalise_effect)
qed

lemma balanceOf_finObj: "\<not> so_suicided obj \<Longrightarrow> balanceOf (Some (finObj d obj)) = balanceOf (Some obj)"
  by (auto simp: finObj_def balanceOf_def soEmpty_def)

lemma flushed_balance:
  assumes "agrees s c" "key a" "\<And>obj. sd_stateObjects s a = Some obj \<Longrightarrow> \<not> so_suicided obj"
  shows "trieBalance (flushed s c d) a = balanceOf (view s c a)"
proof -
  let ?p = "sd_stateObjectsPending (Finalise s d)"
  have inv: "cinv c" using assms(1) rep_cinv by (auto simp: agrees_def good_def)
  have look: "clook (flushed s c d) a = (if a \<in> set ?p then let w = written (sd_stateObjects (Finalise s d) a)
      in if w = [] then None else Some w else clook c a)"
    unfolding flushed_def Let_def using Finalise_pending [OF assms(1)] assms(2) inv by (intro foldl_cset_look) auto
  show ?thesis
  proof (cases "a \<in> set ?p")
    case True
    obtain obj where obj: "sd_stateObjects s a = Some obj"
      using Finalise_pending(3) [OF assms(1) True] by (auto simp: Finalise_effect split: if_splits)
    have "sd_stateObjects (Finalise s d) a = Some obj \<or> sd_stateObjects (Finalise s d) a = Some (finObj d obj)"
      using obj by (simp add: Finalise_effect)
    then obtain o1 where o1: "sd_stateObjects (Finalise s d) a = Some o1" "balanceOf (Some o1) = balanceOf (Some obj)"
      using balanceOf_finObj assms(3) [OF obj] by blast
    have "trieBalance (flushed s c d) a = balanceOf (Some o1)"
      unfolding trieBalance_def using look True o1(1) by (intro lookObj_written) (simp add: Let_def)
    then show ?thesis using o1(2) view_live [OF obj] by simp
  next
    case False
    then have "trieBalance (flushed s c d) a = trieBalance c a"
      using look by (simp add: trieBalance_def lookObj_def)
    moreover have "balanceOf (view s c a) = trieBalance c a"
    proof (cases "sd_stateObjects s a")
      case (Some obj)
      then have "a \<notin> dirtySet s" "a \<notin> set (sd_stateObjectsPending s)"
        using False by (auto simp: Finalise_effect dirtySet_def)
      then show ?thesis using assms(1) Some view_live [OF Some] unfolding agrees_def by auto
    qed (rule view_trie)
    ultimately show ?thesis by simp
  qed
qed

lemma flushed_order:
  assumes "agrees s c" "agrees s' c" "sd_stateObjects s' = sd_stateObjects s"
    and "set (sd_stateObjectsPending s') = set (sd_stateObjectsPending s)" "dirtySet s' = dirtySet s"
  shows "flushed s' c d = flushed s c d"
proof -
  have inv: "cinv c" using assms(1) rep_cinv by (auto simp: agrees_def good_def)
  have objs: "sd_stateObjects (Finalise s' d) = sd_stateObjects (Finalise s d)"
    using assms(3,5) unfolding Finalise_effect dirtySet_def by (simp cong: if_cong)
  have "set (sd_stateObjectsPending (Finalise s' d)) = set (sd_stateObjectsPending (Finalise s d))"
    using assms(3-5) by (simp add: Finalise_effect dirtySet_def)
  then show ?thesis unfolding flushed_def objs
    using Finalise_pending [OF assms(1)] Finalise_pending [OF assms(2)] inv by (intro foldl_cset_order) auto
qed

lemma IntermediateRoot_balances:
  assumes "agrees s c" "\<And>a obj. sd_stateObjects s a = Some obj \<Longrightarrow> \<not> so_suicided obj"
  shows "\<exists>s'. IntermediateRoot ops s d = Some (croot (flushed s c d), s') \<and> agrees s' (flushed s c d) \<and>
     (\<forall>a. key a \<longrightarrow> trieBalance (flushed s c d) a = balanceOf (view s c a) \<and>
        balanceOf (view s' (flushed s c d) a) = balanceOf (view s c a))"
proof -
  let ?c = "flushed s c d" and ?f = "Finalise s d"
  obtain t' where t': "IntermediateRoot ops s d = Some (croot ?c, ?f\<lparr>sd_stateObjectsPending := [], sd_trie := t'\<rparr>)"
      "rep (sd_db s) t' ?c"
    using IntermediateRoot_flushed [OF assms(1)] by blast
  let ?s = "?f\<lparr>sd_stateObjectsPending := [], sd_trie := t'\<rparr>"
  have live: "key a \<and> balanceOf (Some obj) = balanceOf (view s c a)" if objs: "sd_stateObjects ?s a = Some obj" for a obj
  proof -
    obtain o1 where o1: "sd_stateObjects s a = Some o1" "obj = o1 \<or> obj = finObj d o1"
      using objs by (auto simp: Finalise_effect split: if_splits)
    then show ?thesis using view_live [OF o1(1)] balanceOf_finObj assms(2) [OF o1(1)] assms(1) unfolding agrees_def by auto
  qed
  have tb: "trieBalance ?c a = balanceOf (view s c a)" if "key a" for a
    using flushed_balance [OF assms(1) that] assms(2) by blast
  have g: "good ?s ?c" using Finalise_pending(1) [OF assms(1), of d] t'(2) by (simp add: good_def Finalise_effect)
  have "agrees ?s ?c" unfolding agrees_def using g live tb by auto
  moreover have "balanceOf (view ?s ?c a) = balanceOf (view s c a)" if "key a" for a
    using live [of a] tb [OF that] view_live [of ?s a] view_trie [of ?s a ?c] by (cases "sd_stateObjects ?s a") auto
  ultimately show ?thesis using t'(1) tb by blast
qed

end

section \<open>Committing the state\<close>

text \<open>
  What \<open>StateDB.Commit\<close> relies on besides: the database \<open>d\<close> holds the contents in \<open>S\<close> (\<open>stored\<close>),
  and committing a trie whose content fits makes it available under its root and keeps what was available.
\<close>

locale persistent_trie = account_trie cinv key clook cset ops rep croot
  for cinv :: "'c \<Rightarrow> bool" and key and clook and cset and ops :: "('d, 't) trieOps" and rep and croot +
  fixes stored :: "'s \<Rightarrow> 'd \<Rightarrow> bool" and fits :: "'s \<Rightarrow> 'c \<Rightarrow> bool" and adding :: "'s \<Rightarrow> 'c \<Rightarrow> 's"
  assumes commit: "rep d t c \<Longrightarrow> stored S d \<Longrightarrow> fits S c \<Longrightarrow>
      \<exists>d' t' t2. op_Commit ops d t = (Inr (croot c), d', t') \<and> stored (adding S c) d' \<and> rep d' t' c \<and>
        op_OpenTrie ops d' (croot c) = Inr t2 \<and> rep d' t2 c \<and>
        (\<forall>c0 t0. op_OpenTrie ops d (croot c0) = Inr t0 \<and> rep d t0 c0 \<longrightarrow>
          (\<exists>t1. op_OpenTrie ops d' (croot c0) = Inr t1 \<and> rep d' t1 c0))"
begin

lemma StateCommit_flushed:
  assumes "agrees s c" "\<And>a obj. sd_stateObjects s a = Some obj \<Longrightarrow> \<not> so_suicided obj"
    and "sd_dbErr s = None" "stored S (sd_db s)" "fits S (flushed s c d)"
  shows "\<exists>s' s2. StateCommit ops s d = Some (Inr (croot (flushed s c d)), s') \<and> stored (adding S (flushed s c d)) (sd_db s') \<and>
     good s' (flushed s c d) \<and> StateNew ops (croot (flushed s c d)) (sd_db s') = Inr s2 \<and> agrees s2 (flushed s c d) \<and>
     (\<forall>a. key a \<longrightarrow> balanceOf (view s' (flushed s c d) a) = balanceOf (view s c a) \<and>
        balanceOf (view s2 (flushed s c d) a) = balanceOf (view s c a))"
proof -
  let ?c = "flushed s c d" and ?f = "Finalise s d"
  obtain t' where t': "IntermediateRoot ops s d = Some (croot ?c, ?f\<lparr>sd_stateObjectsPending := [], sd_trie := t'\<rparr>)"
      "rep (sd_db s) t' ?c"
    using IntermediateRoot_flushed [OF assms(1)] by blast
  obtain d' t'' t2 where d': "op_Commit ops (sd_db s) t' = (Inr (croot ?c), d', t'')" "stored (adding S ?c) d'" "rep d' t'' ?c"
      "op_OpenTrie ops d' (croot ?c) = Inr t2" "rep d' t2 ?c"
    using commit [OF t'(2) assms(4,5)] by blast
  let ?s = "?f\<lparr>sd_stateObjectsPending := [], sd_trie := t'', sd_stateObjectsDirty := [], sd_db := d'\<rparr>"
  have c: "StateCommit ops s d = Some (Inr (croot ?c), ?s)"
    using assms(3) t'(1) d'(1) by (simp add: StateCommit_def Let_def Finalise_effect)
  have g: "good ?s ?c" using Finalise_pending(1) [OF assms(1), of d] d'(3) by (simp add: good_def)
  have tb: "trieBalance ?c a = balanceOf (view s c a)" if "key a" for a
    using flushed_balance [OF assms(1) that] assms(2) by blast
  have live: "balanceOf (Some obj) = balanceOf (view s c a)" if objs: "sd_stateObjects ?s a = Some obj" for a obj
  proof -
    obtain o1 where o1: "sd_stateObjects s a = Some o1" "obj = o1 \<or> obj = finObj d o1"
      using objs by (auto simp: Finalise_effect split: if_splits)
    then show ?thesis using view_live [OF o1(1)] balanceOf_finObj assms(2) [OF o1(1)] by auto
  qed
  have b: "balanceOf (view ?s ?c a) = balanceOf (view s c a)" if "key a" for a
    using live [of a] tb [OF that] view_live [of ?s a] view_trie [of ?s a ?c] by (cases "sd_stateObjects ?s a") auto
  have n: "StateNew ops (croot ?c) d' = Inr (emptyStateDB d' t2)" using d'(4) by (simp add: StateNew_def)
  have a: "agrees (emptyStateDB d' t2) ?c" using d'(5) by (simp add: agrees_def good_def emptyStateDB_def)
  have "balanceOf (view (emptyStateDB d' t2) ?c a) = balanceOf (view s c a)" if "key a" for a
    using tb [OF that] view_trie [of "emptyStateDB d' t2" a ?c] by (simp add: emptyStateDB_def)
  then show ?thesis using c d'(2) g n a b
    by (intro exI [of _ ?s] exI [of _ "emptyStateDB d' t2"]) simp
qed

end

end
