(* ===== verification/Decode.thy ===== *)
theory Decode
  imports Hasher
begin

text \<open>
  Decoding of stored trie nodes (\<open>decodeNode\<close> and its helpers in \<open>trie/node.go\<close>). The RLP reader
  of go-ethereum is the record \<open>rlpReader\<close>; \<open>rlpOk\<close> says what its documentation promises on the
  output of the RLP writer. Decoding the encoding of a subtree yields that subtree with its
  large children replaced by their hashes (\<open>decodeNode_pitem\<close>); a malformed compact key makes
  it panic.
\<close>

section \<open>Operations\<close>

datatype rlpKind = KByte | KString | KList

record rlpReader =
  rlpSplitList :: "bytes \<Rightarrow> (bytes \<times> bytes) option"
  rlpCountValues :: "bytes \<Rightarrow> nat"
  rlpSplitString :: "bytes \<Rightarrow> (bytes \<times> bytes) option"
  rlpSplit :: "bytes \<Rightarrow> (rlpKind \<times> bytes \<times> bytes) option"

datatype decodeErr = UnexpectedEOF | SplitErr | ElemCount nat | OversizedEmbedded nat | BadStringSize nat

definition cleanFlag :: "hash option \<Rightarrow> nodeFlag" where
  "cleanFlag h = \<lparr>fl_hash = h, fl_dirty = False\<rparr>"

text \<open>The recursive call on an embedded node is the argument \<open>dn\<close>.\<close>

definition decodeRef :: "rlpReader \<Rightarrow> (bytes \<Rightarrow> (decodeErr, node) res) \<Rightarrow> bytes \<Rightarrow> (decodeErr, node \<times> bytes) res" where
  "decodeRef d dn buf =
     (case rlpSplit d buf of
        None \<Rightarrow> Err SplitErr
      | Some (kind, val, rest) \<Rightarrow>
          if kind = KList then
            let size = length buf - length rest in
            if size > 32 then Err (OversizedEmbedded size)
            else rbind (dn buf) (\<lambda>n. Ok (n, rest))
          else if kind = KString \<and> length val = 0 then Ok (NilN, rest)
          else if kind = KString \<and> length val = 32 then Ok (HashN val, rest)
          else Err (BadStringSize (length val)))"

definition decodeShort :: "rlpReader \<Rightarrow> (bytes \<Rightarrow> (decodeErr, node) res) \<Rightarrow> hash option \<Rightarrow> bytes \<Rightarrow> (decodeErr, node) res" where
  "decodeShort d dn hash elems =
     (case rlpSplitString d elems of
        None \<Rightarrow> Err SplitErr
      | Some (kbuf, rest) \<Rightarrow>
          (case compactToBinary kbuf of
             None \<Rightarrow> Panic
           | Some key \<Rightarrow>
               if hasTermBin key then
                 (case rlpSplitString d rest of
                    None \<Rightarrow> Err SplitErr
                  | Some (val, _) \<Rightarrow> Ok (ShortN key (ValueN val) (cleanFlag hash)))
               else rbind (decodeRef d dn rest) (\<lambda>(r, _). Ok (ShortN key r (cleanFlag hash)))))"

definition decodeFull :: "rlpReader \<Rightarrow> (bytes \<Rightarrow> (decodeErr, node) res) \<Rightarrow> hash option \<Rightarrow> bytes \<Rightarrow> (decodeErr, node) res" where
  "decodeFull d dn hash elems =
     rbind (decodeRef d dn elems) (\<lambda>(c0, elems).
     rbind (decodeRef d dn elems) (\<lambda>(c1, elems).
       case rlpSplitString d elems of
         None \<Rightarrow> Err SplitErr
       | Some (val, _) \<Rightarrow>
           Ok (FullN c0 c1 (if length val > 0 then ValueN val else NilN) (cleanFlag hash))))"

fun decodeNode :: "rlpReader \<Rightarrow> nat \<Rightarrow> hash option \<Rightarrow> bytes \<Rightarrow> (decodeErr, node) res" where
  "decodeNode d 0 hash buf = Hang"
| "decodeNode d (Suc fuel) hash buf =
     (if length buf = 0 then Err UnexpectedEOF
      else
        (case rlpSplitList d buf of
           None \<Rightarrow> Err SplitErr
         | Some (elems, _) \<Rightarrow>
             if rlpCountValues d elems = 2 then decodeShort d (decodeNode d fuel None) hash elems
             else if rlpCountValues d elems = 3 then decodeFull d (decodeNode d fuel None) hash elems
             else Err (ElemCount (rlpCountValues d elems))))"

text \<open>The nesting of embedded nodes is bounded by the length of the input.\<close>

definition decodeNodeOf :: "rlpReader \<Rightarrow> hash option \<Rightarrow> bytes \<Rightarrow> (decodeErr, node) res" where
  "decodeNodeOf d hash buf = decodeNode d (length buf + 1) hash buf"

definition mustDecodeNode :: "rlpReader \<Rightarrow> hash option \<Rightarrow> bytes \<Rightarrow> (decodeErr, node) res" where
  "mustDecodeNode d hash buf = (case decodeNodeOf d hash buf of Err e \<Rightarrow> Panic | r \<Rightarrow> r)"

section \<open>What RLP and Keccak promise\<close>

definition strKind :: "bytes \<Rightarrow> rlpKind" where
  "strKind s = (if length s = 1 \<and> s ! 0 < 128 then KByte else KString)"

definition rlpOk :: "crypto \<Rightarrow> rlpReader \<Rightarrow> bool" where
  "rlpOk H d \<longleftrightarrow>
     (\<forall>xs rest. rlpSplitList d (rlpEncode H (RList xs) @ rest) = Some (concat (map (rlpEncode H) xs), rest)) \<and>
     (\<forall>s rest. rlpSplitString d (rlpEncode H (RStr s) @ rest) = Some (s, rest)) \<and>
     (\<forall>s rest. rlpSplit d (rlpEncode H (RStr s) @ rest) = Some (strKind s, s, rest)) \<and>
     (\<forall>xs rest. rlpSplit d (rlpEncode H (RList xs) @ rest) = Some (KList, concat (map (rlpEncode H) xs), rest)) \<and>
     (\<forall>xs. rlpCountValues d (concat (map (rlpEncode H) xs)) = length xs) \<and>
     (\<forall>xs. length (concat (map (rlpEncode H) xs)) < length (rlpEncode H (RList xs))) \<and>
     (\<forall>data. length (keccak256 H data) = 32)"

lemma rlpOkD:
  assumes "rlpOk H d"
  shows "rlpSplitList d (rlpEncode H (RList xs) @ rest) = Some (concat (map (rlpEncode H) xs), rest)"
    and "rlpSplitString d (rlpEncode H (RStr s) @ rest) = Some (s, rest)"
    and "rlpSplit d (rlpEncode H (RStr s) @ rest) = Some (strKind s, s, rest)"
    and "rlpSplit d (rlpEncode H (RList xs) @ rest) = Some (KList, concat (map (rlpEncode H) xs), rest)"
    and "rlpCountValues d (concat (map (rlpEncode H) xs)) = length xs"
    and "length (concat (map (rlpEncode H) xs)) < length (rlpEncode H (RList xs))"
    and "length (keccak256 H data) = 32"
  using assms by (auto simp: rlpOk_def)

section \<open>Decoding what the hasher encodes\<close>

definition large :: "crypto \<Rightarrow> ptree \<Rightarrow> bool" where
  "large H p \<longleftrightarrow> pinner p \<and> \<not> length (rlpEncode H (pitem H p)) < 32"

text \<open>The node that is read back: large children are hashes, small ones embedded.\<close>

fun expanded :: "crypto \<Rightarrow> hash option \<Rightarrow> ptree \<Rightarrow> node" where
  "expanded H h PNil = NilN"
| "expanded H h (PVal v) = ValueN v"
| "expanded H h (PShort k c) =
     ShortN k (if large H c then HashN (pdigest H c) else expanded H None c) (cleanFlag h)"
| "expanded H h (PFull p0 p1 p2) =
     FullN (if large H p0 then HashN (pdigest H p0) else expanded H None p0)
       (if large H p1 then HashN (pdigest H p1) else expanded H None p1)
       (if large H p2 then HashN (pdigest H p2) else expanded H None p2) (cleanFlag h)"

definition childRef :: "crypto \<Rightarrow> ptree \<Rightarrow> node" where
  "childRef H c = (if large H c then HashN (pdigest H c) else expanded H None c)"

lemma expanded_childRef [simp]:
  "expanded H h (PShort k c) = ShortN k (childRef H c) (cleanFlag h)"
  "expanded H h (PFull p0 p1 p2) = FullN (childRef H p0) (childRef H p1) (childRef H p2) (cleanFlag h)"
  by (simp_all add: childRef_def)

declare expanded.simps(3,4) [simp del]

lemma reference_large:
  "reference H c (pitem H c) = (if large H c then RStr (pdigest H c) else pitem H c)"
  by (simp add: reference_def large_def pdigest_def)

lemma pitem_inner: "pinner p \<Longrightarrow> \<exists>xs. pitem H p = RList xs"
  by (cases p) auto

lemma decodeRef_reference:
  assumes ok: "rlpOk H d" and "pwf c"
    and rec: "\<not> large H c \<Longrightarrow> pinner c \<Longrightarrow> dn (rlpEncode H (pitem H c) @ rest) = Ok (expanded H None c)"
  shows "decodeRef d dn (rlpEncode H (reference H c (pitem H c)) @ rest) = Ok (childRef H c, rest)"
proof -
  consider (nil) "c = PNil" | (big) "large H c" | (small) "pinner c" "\<not> large H c"
    using assms(2) by (cases c) (auto simp: pwf_def)
  then show ?thesis
  proof cases
    case nil
    then show ?thesis using rlpOkD(3) [OF ok, of "[]" rest]
      by (simp add: decodeRef_def reference_def childRef_def large_def strKind_def)
  next
    case big
    then show ?thesis using rlpOkD(3) [OF ok, of "pdigest H c" rest] rlpOkD(7) [OF ok, of "rlpEncode H (pitem H c)"]
      by (auto simp: decodeRef_def reference_large childRef_def strKind_def pdigest_def)
  next
    case small
    obtain xs where xs: "pitem H c = RList xs" using pitem_inner [OF small(1)] by blast
    have len: "length (rlpEncode H (pitem H c)) < 32" using small by (simp add: large_def)
    have ref: "reference H c (pitem H c) = RList xs" using small reference_large [of H c] by (simp add: xs)
    show ?thesis unfolding ref using len small rec rlpOkD(4) [OF ok, of xs rest]
      by (simp add: decodeRef_def xs childRef_def)
  qed
qed

lemma length_item:
  assumes "rlpOk H d" "rlpEncode H x = e" "x \<in> set xs"
  shows "length e < length (rlpEncode H (RList xs))"
proof -
  have "length e \<le> length (concat (map (rlpEncode H) xs))"
    using assms(2,3) by (auto simp: length_concat member_le_sum_list)
  then show ?thesis using rlpOkD(6) [OF assms(1), of xs] by simp
qed

lemma length_child:
  assumes "rlpOk H d" "pitem H p = RList xs" "reference H c (pitem H c) \<in> set xs" "\<not> large H c"
  shows "length (rlpEncode H (pitem H c)) < length (rlpEncode H (pitem H p))"
  using length_item [OF assms(1) refl assms(3)] assms(2,4) by (simp add: reference_large)

lemma decodeNode_pitem:
  "rlpOk H d \<Longrightarrow> pwfN p \<Longrightarrow> length (rlpEncode H (pitem H p)) \<le> fuel \<Longrightarrow>
     decodeNode d fuel h (rlpEncode H (pitem H p) @ rest) = Ok (expanded H h p)"
proof (induction p arbitrary: fuel h rest)
  case (PShort k c)
  note ok = PShort.prems(1)
  let ?e = "rlpEncode H"
  obtain ck where ck: "binaryToCompact k = Some ck" using binaryToCompact_some [OF PShort.prems(2)] by blast
  have item: "pitem H (PShort k c) = RList [RStr ck, reference H c (pitem H c)]" using ck by simp
  have ne: "?e (RList xs) \<noteq> []" for xs using rlpOkD(6) [OF ok, of xs] by auto
  then obtain n where n: "fuel = Suc n" using PShort.prems(3) item by (cases fuel) auto
  have dec: "decodeNode d fuel h (?e (pitem H (PShort k c)) @ rest) =
      decodeShort d (decodeNode d n None) h (?e (RStr ck) @ ?e (reference H c (pitem H c)))"
    using rlpOkD(1,5) [OF ok, of "[RStr ck, reference H c (pitem H c)]"] ne
    by (simp add: n item del: pitem.simps)
  from PShort.prems(2) show ?case
  proof (cases rule: pwfN_short_cases)
    case (leaf v)
    then have "compactToBinary ck = Some k"
      using compact_round_trip_bits ck vkey_iff by fastforce
    moreover have "hasTermBin k" using leaf(1) by (auto simp: vkey_iff)
    ultimately show ?thesis
      unfolding dec using rlpOkD(2) [OF ok, of v "[]"] leaf rlpOkD(2) [OF ok, of ck]
      by (simp add: decodeShort_def reference_def childRef_def large_def)
  next
    case ext
    then have "compactToBinary ck = Some k" using compact_round_trip_bits [of k "[]"] ck by auto
    moreover have "\<not> hasTermBin k" using hasTermBin_bits ext(1) by blast
    moreover have "decodeRef d (decodeNode d n None) (?e (reference H c (pitem H c)) @ []) = Ok (childRef H c, [])"
    proof (rule decodeRef_reference [OF ok])
      assume "\<not> large H c" "pinner c"
      then have "length (?e (pitem H c)) < length (?e (pitem H (PShort k c)))"
        using length_child [OF ok item, of c] by (simp del: pitem.simps)
      then have "length (?e (pitem H c)) \<le> n" using PShort.prems(3) n by linarith
      then show "decodeNode d n None (?e (pitem H c) @ []) = Ok (expanded H None c)"
        using PShort.IH [OF ok ext(4)] by blast
    qed (use ext in \<open>simp add: pwf_def\<close>)
    ultimately show ?thesis unfolding dec using rlpOkD(2) [OF ok, of ck] by (simp add: decodeShort_def)
  qed
next
  case (PFull p0 p1 p2)
  note ok = PFull.prems(1)
  let ?e = "rlpEncode H" and ?r = "\<lambda>c. reference H c (pitem H c)"
  have item: "pitem H (PFull p0 p1 p2) = RList [?r p0, ?r p1, ?r p2]" by simp
  have ne: "?e (RList xs) \<noteq> []" for xs using rlpOkD(6) [OF ok, of xs] by auto
  then obtain n where n: "fuel = Suc n" using PFull.prems(3) item by (cases fuel) auto
  have dec: "decodeNode d fuel h (?e (pitem H (PFull p0 p1 p2)) @ rest) =
      decodeFull d (decodeNode d n None) h (?e (?r p0) @ ?e (?r p1) @ ?e (?r p2))"
    using rlpOkD(1,5) [OF ok, of "[?r p0, ?r p1, ?r p2]"] ne by (simp add: n item del: pitem.simps)
  note pc = pwf_child [OF PFull.prems(2)]
  have kid: "decodeRef d (decodeNode d n None) (?e (?r c) @ t) = Ok (childRef H c, t)"
    if "pwf c" "?r c \<in> set [?r p0, ?r p1, ?r p2]"
      "\<And>fuel h rest. pwfN c \<Longrightarrow> length (?e (pitem H c)) \<le> fuel \<Longrightarrow>
         decodeNode d fuel h (?e (pitem H c) @ rest) = Ok (expanded H h c)" for c t
  proof (rule decodeRef_reference [OF ok that(1)])
    assume "\<not> large H c" "pinner c"
    moreover have "pwfN c" using that(1) \<open>pinner c\<close> by (auto simp: pwf_def)
    moreover from \<open>\<not> large H c\<close> have "length (?e (pitem H c)) \<le> n"
      using length_child [OF ok item that(2)] PFull.prems(3) n by linarith
    ultimately show "decodeNode d n None (?e (pitem H c) @ t) = Ok (expanded H None c)"
      using that(3) by blast
  qed
  have k0: "decodeRef d (decodeNode d n None) (?e (?r p0) @ t) = Ok (childRef H p0, t)" for t
    by (rule kid [OF pc [THEN conjunct1]]) (use PFull.IH(1) [OF ok] in auto)
  have k1: "decodeRef d (decodeNode d n None) (?e (?r p1) @ t) = Ok (childRef H p1, t)" for t
    by (rule kid [OF pc [THEN conjunct2, THEN conjunct1]]) (use PFull.IH(2) [OF ok] in auto)
  have "\<exists>v. ?r p2 = RStr v \<and> childRef H p2 = (if length v > 0 then ValueN v else NilN)"
    using PFull.prems(2) by (cases p2) (auto simp: reference_def childRef_def large_def)
  then obtain v where "?r p2 = RStr v" "childRef H p2 = (if length v > 0 then ValueN v else NilN)" by blast
  then show ?case unfolding dec
    using k0 [of "?e (?r p1) @ ?e (?r p2)"] k1 [of "?e (?r p2)"] rlpOkD(2) [OF ok, of v "[]"] by (simp add: decodeFull_def)
qed auto

lemma decodeNodeOf_pitem:
  "rlpOk H d \<Longrightarrow> pwfN p \<Longrightarrow> decodeNodeOf d h (rlpEncode H (pitem H p)) = Ok (expanded H h p)"
  using decodeNode_pitem [of H d p "length (rlpEncode H (pitem H p)) + 1" h "[]"] by (simp add: decodeNodeOf_def)

section \<open>A codec with these laws\<close>

text \<open>
  The laws of \<open>rlpOk\<close> hold together: a codec that marks each byte of a string or list with a
  one and its end with a zero. It serves to instantiate the theorems on concrete inputs.
\<close>

definition marked :: "bytes \<Rightarrow> bytes" where
  "marked s = concat (map (\<lambda>c. [1, c]) s) @ [0]"

fun unmark :: "bytes \<Rightarrow> (bytes \<times> bytes) option" where
  "unmark (m # r) =
     (if m = 0 then Some ([], r)
      else (case r of [] \<Rightarrow> None | c # r' \<Rightarrow> map_option (\<lambda>(s, rest). (c # s, rest)) (unmark r')))"
| "unmark [] = None"

lemma unmark_marked [simp]: "unmark (marked s @ rest) = Some (s, rest)"
  by (induction s) (auto simp: marked_def)

lemma length_marked [simp]: "length (marked s) = 2 * length s + 1"
  by (induction s) (auto simp: marked_def)

fun markItem :: "rlpItem \<Rightarrow> bytes" where
  "markItem (RStr s) = 0 # marked s"
| "markItem (RList xs) = 1 # marked (concat (map markItem xs))"

definition markSplit :: "bytes \<Rightarrow> (rlpKind \<times> bytes \<times> bytes) option" where
  "markSplit buf =
     (case buf of
        [] \<Rightarrow> None
      | m # r \<Rightarrow> map_option (\<lambda>(s, rest). (if m = 0 then strKind s else KList, s, rest)) (unmark r))"

fun markCount :: "nat \<Rightarrow> bytes \<Rightarrow> nat" where
  "markCount 0 buf = 0"
| "markCount (Suc fuel) buf = (case markSplit buf of None \<Rightarrow> 0 | Some (_, _, rest) \<Rightarrow> Suc (markCount fuel rest))"

definition markCrypto :: crypto where
  "markCrypto = \<lparr>rlpEncode = markItem, keccak256 = \<lambda>data. take 32 (data @ replicate 32 0)\<rparr>"

definition markReader :: rlpReader where
  "markReader =
     \<lparr>rlpSplitList = \<lambda>buf. case markSplit buf of Some (KList, s, rest) \<Rightarrow> Some (s, rest) | _ \<Rightarrow> None,
      rlpCountValues = \<lambda>buf. markCount (length buf) buf,
      rlpSplitString = \<lambda>buf. case markSplit buf of None \<Rightarrow> None | Some (k, s, rest) \<Rightarrow> if k = KList then None else Some (s, rest),
      rlpSplit = markSplit\<rparr>"

lemma markSplit_item:
  "markSplit (markItem (RStr s) @ rest) = Some (strKind s, s, rest)"
  "markSplit (markItem (RList xs) @ rest) = Some (KList, concat (map markItem xs), rest)"
  by (simp_all add: markSplit_def)

lemma markSplit_rest: "\<exists>k s. markSplit (markItem x @ rest) = Some (k, s, rest)"
  by (cases x) (simp_all add: markSplit_def)

lemma markCount_items: "length (concat (map markItem xs)) \<le> fuel \<Longrightarrow> markCount fuel (concat (map markItem xs)) = length xs"
proof (induction xs arbitrary: fuel)
  case Nil
  then show ?case by (cases fuel) (simp_all add: markSplit_def)
next
  case (Cons x xs)
  have "length (markItem x) > 0" by (cases x) auto
  with Cons.prems obtain f where f: "fuel = Suc f" "length (concat (map markItem xs)) \<le> f"
    by (cases fuel) (auto simp del: length_greater_0_conv)
  obtain k s where "markSplit (markItem x @ concat (map markItem xs)) = Some (k, s, concat (map markItem xs))"
    using markSplit_rest by blast
  then show ?case using Cons.IH [OF f(2)] f(1) by simp
qed

lemma rlpOk_mark: "rlpOk markCrypto markReader"
proof -
  have "length (take 32 (data @ replicate 32 0)) = 32" for data :: bytes by simp
  moreover have "length (concat (map markItem xs)) < length (markItem (RList xs))" for xs by simp
  ultimately show ?thesis
    unfolding rlpOk_def markCrypto_def markReader_def
    using markCount_items by (simp add: markSplit_item strKind_def del: markItem.simps length_take)
qed

end
