(* ===== verification/Database.thy ===== *)
theory Database
  imports Decode "HOL-Library.AList"
begin

text \<open>
  The node database between the tries and the disk (\<open>trie/database.go\<close>): a map of collapsed
  nodes that are not yet on disk (\<open>dirties\<close>, with the meta root under the zero hash), the list in
  which they will be flushed, reference counts, and the preimages of hashed keys. The program
  creates every database with a cache size of zero, so the clean cache (\<open>cleans\<close>) is nil and is
  left out; \<open>common.StorageSize\<close> counts bytes and is an integer; metrics and times are left out.
  Entries are collapsed nodes: reading one back expands it (\<open>expandNode\<close>), reading from disk
  decodes it.
\<close>

section \<open>Collapsed nodes\<close>

text \<open>
  \<open>rawShortNode\<close>, \<open>rawFullNode\<close> and what they hold. Nothing in the program creates an encoded
  blob (\<open>rawNode\<close>) as a cached node. The meta root has the node nil.
\<close>

datatype rawNode =
    RawNil
  | RawShort bytes rawNode
  | RawFull rawNode rawNode rawNode
  | RawHash hash
  | RawValue bytes

type_synonym u16 = "16 word"

record cachedNode =
  cn_node :: rawNode
  cn_size :: u16
  cn_parents :: u32
  cn_children :: "(hash \<times> u16) list option"
  cn_flushPrev :: hash
  cn_flushNext :: hash

fun rawItem :: "rawNode \<Rightarrow> rlpItem" where
  "rawItem RawNil = RStr []"
| "rawItem (RawShort k v) = RList [RStr k, rawItem v]"
| "rawItem (RawFull a b c) = RList [rawItem a, rawItem b, rawItem c]"
| "rawItem (RawHash h) = RStr h"
| "rawItem (RawValue v) = RStr v"

text \<open>\<open>cachedNode.rlp\<close>; encoding the nil interface of the meta root is an error, hence a panic.\<close>

definition cachedRlp :: "crypto \<Rightarrow> cachedNode \<Rightarrow> bytes option" where
  "cachedRlp H n = (if cn_node n = RawNil then None else Some (rlpEncode H (rawItem (cn_node n))))"

text \<open>\<open>None\<close>: the panic on a nil node, or on a malformed key.\<close>

fun simplifyNode :: "node \<Rightarrow> rawNode option" where
  "simplifyNode (ShortN k c f) = map_option (RawShort k) (simplifyNode c)"
| "simplifyNode (FullN c0 c1 c2 f) =
     (let kid = (\<lambda>c r. if c = NilN then Some RawNil else r) in
      case (kid c0 (simplifyNode c0), kid c1 (simplifyNode c1), kid c2 (simplifyNode c2)) of
        (Some a, Some b, Some c) \<Rightarrow> Some (RawFull a b c)
      | _ \<Rightarrow> None)"
| "simplifyNode (ValueN v) = Some (RawValue v)"
| "simplifyNode (HashN h) = Some (RawHash h)"
| "simplifyNode NilN = None"

fun expandNode :: "hash option \<Rightarrow> rawNode \<Rightarrow> node option" where
  "expandNode hash (RawShort k v) =
     (case (compactToBinary k, expandNode None v) of
        (Some key, Some c) \<Rightarrow> Some (ShortN key c (cleanFlag hash))
      | _ \<Rightarrow> None)"
| "expandNode hash (RawFull a b c) =
     (let kid = (\<lambda>r n. if r = RawNil then Some NilN else n) in
      case (kid a (expandNode None a), kid b (expandNode None b), kid c (expandNode None c)) of
        (Some x, Some y, Some z) \<Rightarrow> Some (FullN x y z (cleanFlag hash))
      | _ \<Rightarrow> None)"
| "expandNode hash (RawValue v) = Some (ValueN v)"
| "expandNode hash (RawHash h) = Some (HashN h)"
| "expandNode hash RawNil = None"

definition cachedObj :: "cachedNode \<Rightarrow> hash \<Rightarrow> node option" where
  "cachedObj n hash = expandNode (Some hash) (cn_node n)"

fun forGatherChildren :: "rawNode \<Rightarrow> hash list" where
  "forGatherChildren (RawShort k v) = forGatherChildren v"
| "forGatherChildren (RawFull a b c) = forGatherChildren a @ forGatherChildren b"
| "forGatherChildren (RawHash h) = [h]"
| "forGatherChildren (RawValue v) = []"
| "forGatherChildren RawNil = []"

text \<open>The children on which the callback is run, the external ones first.\<close>

definition forChilds :: "cachedNode \<Rightarrow> hash list" where
  "forChilds n = (case cn_children n of None \<Rightarrow> [] | Some cs \<Rightarrow> map fst cs) @ forGatherChildren (cn_node n)"

section \<open>The database\<close>

record Database =
  db_diskdb :: "hash \<Rightarrow> bytes option"
  db_dirties :: "(hash \<times> cachedNode) list"
  db_oldest :: hash
  db_newest :: hash
  db_preimages :: "(hash \<times> bytes) list option"
  db_dirtiesSize :: int
  db_childrenSize :: int
  db_preimagesSize :: int

definition metaRoot :: cachedNode where
  "metaRoot = \<lparr>cn_node = RawNil, cn_size = 0, cn_parents = 0, cn_children = Some [],
     cn_flushPrev = zeroHash, cn_flushNext = zeroHash\<rparr>"

text \<open>
  \<open>NewDatabaseWithConfig\<close> (the configuration nil, or recording preimages or not) and
  \<open>NewDatabaseWithCache\<close>, both without a clean cache.
\<close>

definition NewDatabaseWithConfig :: "(hash \<Rightarrow> bytes option) \<Rightarrow> bool option \<Rightarrow> Database" where
  "NewDatabaseWithConfig disk config =
     \<lparr>db_diskdb = disk, db_dirties = [(zeroHash, metaRoot)], db_oldest = zeroHash, db_newest = zeroHash,
      db_preimages = (if config = None \<or> config = Some True then Some [] else None),
      db_dirtiesSize = 0, db_childrenSize = 0, db_preimagesSize = 0\<rparr>"

definition NewDatabase :: "(hash \<Rightarrow> bytes option) \<Rightarrow> Database" where
  "NewDatabase disk = NewDatabaseWithConfig disk None"

definition NewDatabaseWithCache :: "(hash \<Rightarrow> bytes option) \<Rightarrow> Database" where
  "NewDatabaseWithCache disk =
     \<lparr>db_diskdb = disk, db_dirties = [(zeroHash, metaRoot)], db_oldest = zeroHash, db_newest = zeroHash,
      db_preimages = Some [], db_dirtiesSize = 0, db_childrenSize = 0, db_preimagesSize = 0\<rparr>"

definition addParent :: "(hash \<times> cachedNode) list \<Rightarrow> hash \<Rightarrow> (hash \<times> cachedNode) list" where
  "addParent ds child =
     (case map_of ds child of
        None \<Rightarrow> ds
      | Some c \<Rightarrow> AList.update child (c\<lparr>cn_parents := cn_parents c + 1\<rparr>) ds)"

text \<open>The size that is added is a sum of 16 bits, which wraps around.\<close>

definition dbInsert :: "Database \<Rightarrow> hash \<Rightarrow> nat \<Rightarrow> node \<Rightarrow> Database option" where
  "dbInsert db hash sz n =
     (if map_of (db_dirties db) hash \<noteq> None then Some db
      else
        (case simplifyNode n of
           None \<Rightarrow> None
         | Some raw \<Rightarrow>
             let entry = \<lparr>cn_node = raw, cn_size = of_nat sz, cn_parents = 0, cn_children = None,
                   cn_flushPrev = db_newest db, cn_flushNext = zeroHash\<rparr>;
                 ds = AList.update hash entry (foldl addParent (db_dirties db) (forChilds entry));
                 total = db_dirtiesSize db + int (unat (32 + cn_size entry))
             in if db_oldest db = zeroHash
                then Some (db\<lparr>db_dirties := ds, db_oldest := hash, db_newest := hash, db_dirtiesSize := total\<rparr>)
                else
                  (case map_of ds (db_newest db) of
                     None \<Rightarrow> None
                   | Some c \<Rightarrow> Some (db\<lparr>db_dirties := AList.update (db_newest db) (c\<lparr>cn_flushNext := hash\<rparr>) ds,
                       db_newest := hash, db_dirtiesSize := total\<rparr>))))"

definition insertPreimage :: "Database \<Rightarrow> hash \<Rightarrow> bytes \<Rightarrow> Database" where
  "insertPreimage db hash preimage =
     (case db_preimages db of
        None \<Rightarrow> db
      | Some ps \<Rightarrow>
          if map_of ps hash \<noteq> None then db
          else db\<lparr>db_preimages := Some (AList.update hash preimage ps),
                 db_preimagesSize := db_preimagesSize db + 32 + int (length preimage)\<rparr>)"

text \<open>\<open>node\<close> returns nil (\<open>Ok None\<close>) for an unknown hash and panics on a corrupt entry.\<close>

definition dbNode :: "rlpReader \<Rightarrow> Database \<Rightarrow> hash \<Rightarrow> (unit, node option) res" where
  "dbNode d db hash =
     (case map_of (db_dirties db) hash of
        Some c \<Rightarrow> (case cachedObj c hash of None \<Rightarrow> Panic | Some n \<Rightarrow> Ok (Some n))
      | None \<Rightarrow>
          (case db_diskdb db hash of
             None \<Rightarrow> Ok None
           | Some enc \<Rightarrow> (case mustDecodeNode d (Some hash) enc of Ok n \<Rightarrow> Ok (Some n) | Hang \<Rightarrow> Hang | _ \<Rightarrow> Panic)))"

text \<open>The reader that the trie gets; on a database in order there is no panic.\<close>

definition nodeReader :: "rlpReader \<Rightarrow> Database \<Rightarrow> nodeDb" where
  "nodeReader d db hash = (case dbNode d db hash of Ok n \<Rightarrow> n | _ \<Rightarrow> None)"

text \<open>\<open>Node\<close>: \<open>Err ()\<close> is the error "not found". \<open>ReadTrieNode\<close> reads the disk under the hash.\<close>

definition dbNodeBlob :: "crypto \<Rightarrow> Database \<Rightarrow> hash \<Rightarrow> (unit, bytes) res" where
  "dbNodeBlob H db hash =
     (if hash = zeroHash then Err ()
      else
        (case map_of (db_dirties db) hash of
           Some c \<Rightarrow> (case cachedRlp H c of None \<Rightarrow> Panic | Some b \<Rightarrow> Ok b)
         | None \<Rightarrow>
             (case db_diskdb db hash of
                None \<Rightarrow> Err ()
              | Some enc \<Rightarrow> if length enc \<noteq> 0 then Ok enc else Err ())))"

text \<open>\<open>ReadPreimage\<close> of the disk is the argument \<open>diskPreimage\<close>.\<close>

definition dbPreimage :: "(hash \<Rightarrow> bytes option) \<Rightarrow> Database \<Rightarrow> hash \<Rightarrow> bytes option" where
  "dbPreimage diskPreimage db hash =
     (case db_preimages db of
        None \<Rightarrow> None
      | Some ps \<Rightarrow> (case map_of ps hash of Some p \<Rightarrow> Some p | None \<Rightarrow> diskPreimage hash))"

definition dbNodes :: "Database \<Rightarrow> hash list" where
  "dbNodes db = filter (\<lambda>h. h \<noteq> zeroHash) (map fst (db_dirties db))"

text \<open>\<open>reference\<close>; \<open>None\<close> is the nil dereference when the parent is not cached.\<close>

definition dbReference :: "Database \<Rightarrow> hash \<Rightarrow> hash \<Rightarrow> Database option" where
  "dbReference db child parent =
     (case map_of (db_dirties db) child of
        None \<Rightarrow> Some db
      | Some _ \<Rightarrow>
          (case map_of (db_dirties db) parent of
             None \<Rightarrow> None
           | Some p \<Rightarrow>
               let old = (case cn_children p of None \<Rightarrow> [] | Some cs \<Rightarrow> cs);
                   grown = (if cn_children p = None then 48 else 0);
                   known = map_of old child
               in if cn_children p \<noteq> None \<and> known \<noteq> None \<and> parent \<noteq> zeroHash then Some db
                  else
                    let count = (case known of None \<Rightarrow> 0 | Some n \<Rightarrow> n) + 1;
                        ds = addParent (db_dirties db) child;
                        p' = the (map_of ds parent)
                    in Some (db\<lparr>db_dirties := AList.update parent (p'\<lparr>cn_children := Some (AList.update child count old)\<rparr>) ds,
                         db_childrenSize := db_childrenSize db + grown + (if count = 1 then 34 else 0)\<rparr>)))"

definition dbSize :: "nat \<Rightarrow> Database \<Rightarrow> (int \<times> int) option" where
  "dbSize cachedNodeSize db =
     (case map_of (db_dirties db) zeroHash of
        None \<Rightarrow> None
      | Some root \<Rightarrow>
          let metadataSize = int ((length (db_dirties db) - 1) * cachedNodeSize);
              metarootRefs = int ((case cn_children root of None \<Rightarrow> 0 | Some cs \<Rightarrow> length cs) * 34)
          in Some (db_dirtiesSize db + db_childrenSize db + metadataSize - metarootRefs, db_preimagesSize db))"

section \<open>What the database holds\<close>

text \<open>The collapsed form of a subtree.\<close>

fun rawOf :: "crypto \<Rightarrow> ptree \<Rightarrow> rawNode" where
  "rawOf H PNil = RawNil"
| "rawOf H (PVal v) = RawValue v"
| "rawOf H (PShort k c) =
     RawShort (the (binaryToCompact k)) (if large H c then RawHash (pdigest H c) else rawOf H c)"
| "rawOf H (PFull p0 p1 p2) =
     RawFull (if large H p0 then RawHash (pdigest H p0) else rawOf H p0)
       (if large H p1 then RawHash (pdigest H p1) else rawOf H p1)
       (if large H p2 then RawHash (pdigest H p2) else rawOf H p2)"

lemma rawItem_rawOf: "rawItem (rawOf H q) = pitem H q"
  by (induction q) (auto simp: reference_large)

lemma compact_key: "pwfN (PShort k c) \<Longrightarrow> \<exists>ck. binaryToCompact k = Some ck \<and> compactToBinary ck = Some k"
proof (erule pwfN_short_cases)
  assume "vkey k"
  then obtain bs where "isBits bs" "k = bs @ [2]" using vkey_iff by blast
  then show ?thesis using compact_round_trip_bits [of bs "[2]"] by blast
next
  assume "isBits k"
  then show ?thesis using compact_round_trip_bits [of k "[]"] by auto
qed

lemma expandNode_rawOf: "pwfN q \<or> isValue q \<Longrightarrow> expandNode h (rawOf H q) = Some (expanded H h q)"
proof (induction q arbitrary: h)
  case (PShort k c)
  then have wf: "pwfN (PShort k c)" by simp
  then obtain ck where ck: "binaryToCompact k = Some ck" "compactToBinary ck = Some k"
    using compact_key by blast
  have "pwfN c \<or> isValue c" using wf by (auto split: if_splits)
  then show ?case using PShort.IH ck by (auto simp: childRef_def)
next
  case (PFull p0 p1 p2)
  have nil: "rawOf H p = RawNil \<longleftrightarrow> p = PNil" for p by (cases p) auto
  have kid: "(if rawOf H p = RawNil then Some NilN else expandNode None (rawOf H p)) = Some (expanded H None p)"
    if "p = PNil \<or> expandNode None (rawOf H p) = Some (expanded H None p)" for p
    using that nil [of p] by auto
  have "p0 = PNil \<or> pwfN p0" "p1 = PNil \<or> pwfN p1" "p2 = PNil \<or> isValue p2" using PFull.prems by auto
  then show ?case using PFull.IH kid [of p0] kid [of p1] kid [of p2] nil
    by (auto simp: childRef_def large_def Let_def)
qed (auto simp: pwf_def)

definition nodesOf :: "(hash \<times> cachedNode) list \<Rightarrow> hash \<Rightarrow> rawNode option" where
  "nodesOf ds h = map_option cn_node (map_of ds h)"

lemma nodesOf_none [simp]: "nodesOf ds h = None \<longleftrightarrow> map_of ds h = None"
  by (simp add: nodesOf_def)

lemma nodesOf_addParent [simp]: "nodesOf (addParent ds c) = nodesOf ds"
  by (auto simp: nodesOf_def addParent_def fun_eq_iff update_conv' split: option.splits)

lemma nodesOf_addParents [simp]: "nodesOf (foldl addParent ds cs) = nodesOf ds"
  by (induction cs arbitrary: ds) auto

lemma nodesOf_update: "nodesOf (AList.update h c ds) = (nodesOf ds)(h \<mapsto> cn_node c)"
  by (auto simp: nodesOf_def fun_eq_iff update_conv')

text \<open>
  A database in order: each entry is the collapsed form of a subtree of \<open>S\<close> under its digest, in
  memory or on disk, and the end of the flush list is cached.
\<close>

definition dbOk :: "crypto \<Rightarrow> Database \<Rightarrow> ptree set \<Rightarrow> bool" where
  "dbOk H db S \<longleftrightarrow>
     (db_oldest db = zeroHash \<or> map_of (db_dirties db) (db_newest db) \<noteq> None) \<and>
     nodesOf (db_dirties db) zeroHash = Some RawNil \<and>
     (\<forall>h raw. nodesOf (db_dirties db) h = Some raw \<longrightarrow> h \<noteq> zeroHash \<longrightarrow>
        (\<exists>q\<in>S. pwfN q \<and> h = pdigest H q \<and> raw = rawOf H q)) \<and>
     (\<forall>h enc. db_diskdb db h = Some enc \<longrightarrow> (\<exists>q\<in>S. pwfN q \<and> h = pdigest H q \<and> enc = rlpEncode H (pitem H q)))"

text \<open>No collision among the subtrees concerned, and none of them hashes to zero.\<close>

definition collisionFree :: "crypto \<Rightarrow> ptree set \<Rightarrow> bool" where
  "collisionFree H S \<longleftrightarrow> inj_on (pdigest H) S \<and> (\<forall>q\<in>S. pdigest H q \<noteq> zeroHash)"

lemma collisionFree_subset: "collisionFree H S \<Longrightarrow> T \<subseteq> S \<Longrightarrow> collisionFree H T"
  unfolding collisionFree_def by (blast intro: inj_on_subset)

lemma dbOk_new: "(\<And>h. disk h = None) \<Longrightarrow> dbOk H (NewDatabaseWithCache disk) {}"
  by (auto simp: dbOk_def NewDatabaseWithCache_def nodesOf_def metaRoot_def)

lemma dbNode_ok:
  assumes "rlpOk H d" "dbOk H db S" "h \<noteq> zeroHash"
  shows "dbNode d db h = Ok None \<or> (\<exists>q\<in>S. pwfN q \<and> h = pdigest H q \<and> dbNode d db h = Ok (Some (expanded H (Some h) q)))"
proof (cases "map_of (db_dirties db) h")
  case (Some c)
  then have "nodesOf (db_dirties db) h = Some (cn_node c)" by (simp add: nodesOf_def)
  then obtain q where "q \<in> S" "pwfN q" "h = pdigest H q" "cn_node c = rawOf H q"
    using assms(2,3) unfolding dbOk_def by blast
  then show ?thesis using Some expandNode_rawOf [of q "Some h" H] by (auto simp: dbNode_def cachedObj_def)
next
  case None
  show ?thesis
  proof (cases "db_diskdb db h")
    case (Some enc)
    then obtain q where q: "q \<in> S" "pwfN q" "h = pdigest H q" "enc = rlpEncode H (pitem H q)"
      using assms(2) unfolding dbOk_def by blast
    then show ?thesis using None Some decodeNodeOf_pitem [OF assms(1) q(2), of "Some h"]
      by (auto simp: dbNode_def mustDecodeNode_def)
  qed (simp add: dbNode_def None)
qed

lemma nodeReader_ok:
  assumes "rlpOk H d" "dbOk H db S" "nodeReader d db h = Some n"
  shows "\<exists>q\<in>S. pwfN q \<and> h = pdigest H q \<and> n = expanded H (Some h) q"
proof -
  have "h \<noteq> zeroHash"
    using assms(2,3) by (auto simp: nodeReader_def dbNode_def dbOk_def nodesOf_def cachedObj_def)
  from dbNode_ok [OF assms(1,2) this] assms(3) show ?thesis by (auto simp: nodeReader_def)
qed

text \<open>Inserting a subtree: it is readable afterwards, and so is everything that was.\<close>

definition extends :: "rlpReader \<Rightarrow> Database \<Rightarrow> Database \<Rightarrow> bool" where
  "extends d db db' \<longleftrightarrow> nodeReader d db \<subseteq>\<^sub>m nodeReader d db'"

lemma extends_refl [simp]: "extends d db db"
  by (simp add: extends_def)

lemma extends_trans [trans]: "extends d db db' \<Longrightarrow> extends d db' db'' \<Longrightarrow> extends d db db''"
  unfolding extends_def by (rule map_le_trans)

lemma dbInsert_ok:
  assumes ok: "rlpOk H d" "dbOk H db S" and q: "pwfN q" "simplifyNode n = Some (rawOf H q)"
    and free: "collisionFree H (insert q S)"
  shows "\<exists>db'. dbInsert db (pdigest H q) sz n = Some db' \<and> dbOk H db' (insert q S) \<and> extends d db db' \<and>
     nodeReader d db' (pdigest H q) = Some (expanded H (Some (pdigest H q)) q) \<and>
     (\<forall>h. h \<noteq> pdigest H q \<longrightarrow> nodeReader d db' h = nodeReader d db h)"
proof -
  let ?h = "pdigest H q"
  have hz: "?h \<noteq> zeroHash" using free by (simp add: collisionFree_def)
  show ?thesis
  proof (cases "map_of (db_dirties db) ?h")
    case (Some c)
    then have "nodesOf (db_dirties db) ?h = Some (cn_node c)" by (simp add: nodesOf_def)
    then obtain q' where q': "q' \<in> S" "?h = pdigest H q'" "cn_node c = rawOf H q'"
      using ok(2) hz unfolding dbOk_def by blast
    then have "q' = q" using free by (auto simp: collisionFree_def inj_on_def)
    then have "nodeReader d db ?h = Some (expanded H (Some ?h) q)"
      using Some q'(3) expandNode_rawOf [of q "Some ?h" H] q(1) by (simp add: nodeReader_def dbNode_def cachedObj_def)
    moreover have "insert q S = S" using q'(1) \<open>q' = q\<close> by auto
    ultimately show ?thesis using Some ok(2) by (simp add: dbInsert_def)
  next
    case None
    define entry where "entry = \<lparr>cn_node = rawOf H q, cn_size = of_nat sz, cn_parents = 0, cn_children = None,
      cn_flushPrev = db_newest db, cn_flushNext = zeroHash\<rparr>"
    define ds where "ds = AList.update ?h entry (foldl addParent (db_dirties db) (forChilds entry))"
    have nd: "nodesOf ds = (nodesOf (db_dirties db))(?h \<mapsto> rawOf H q)"
      by (simp add: ds_def nodesOf_update entry_def)
    have kept: "map_of ds h \<noteq> None" if "map_of (db_dirties db) h \<noteq> None" for h
      using that nodesOf_none [of ds h] nodesOf_none [of "db_dirties db" h] by (auto simp: nd split: if_splits)
    obtain db' where db': "dbInsert db ?h sz n = Some db'" "nodesOf (db_dirties db') = nodesOf ds"
        "db_diskdb db' = db_diskdb db" "map_of (db_dirties db') (db_newest db') \<noteq> None"
    proof (cases "db_oldest db = zeroHash")
      case True
      then have "dbInsert db ?h sz n = Some (db\<lparr>db_dirties := ds, db_oldest := ?h, db_newest := ?h,
          db_dirtiesSize := db_dirtiesSize db + int (unat (32 + cn_size entry))\<rparr>)"
        using None q(2) by (simp add: dbInsert_def Let_def entry_def ds_def)
      then show ?thesis using that nodesOf_none [of ds ?h] by (simp add: nd)
    next
      case False
      then have "map_of ds (db_newest db) \<noteq> None" using ok(2) kept by (simp add: dbOk_def)
      then obtain c where c: "map_of ds (db_newest db) = Some c" by blast
      let ?ds = "AList.update (db_newest db) (c\<lparr>cn_flushNext := ?h\<rparr>) ds"
      have "dbInsert db ?h sz n = Some (db\<lparr>db_dirties := ?ds, db_newest := ?h,
          db_dirtiesSize := db_dirtiesSize db + int (unat (32 + cn_size entry))\<rparr>)"
        using None False q(2) c by (simp add: dbInsert_def Let_def entry_def ds_def)
      moreover have "nodesOf ?ds = nodesOf ds" using c by (auto simp: nodesOf_update fun_eq_iff nodesOf_def)
      moreover have "map_of ?ds ?h \<noteq> None" using nodesOf_none [of ?ds ?h] calculation(2) by (simp add: nd)
      ultimately show ?thesis using that by simp
    qed
    have cases: "nodesOf (db_dirties db') h = (if h = ?h then Some (rawOf H q) else nodesOf (db_dirties db) h)" for h
      by (simp add: db'(2) nd)
    have ok': "dbOk H db' (insert q S)"
      using ok(2) q(1) hz db'(3,4) cases unfolding dbOk_def by (auto split: if_splits)
    have read: "nodeReader d db' h =
        (if h = ?h then Some (expanded H (Some ?h) q) else nodeReader d db h)" for h
    proof (cases "h = ?h")
      case True
      then have "map_option cn_node (map_of (db_dirties db') h) = Some (rawOf H q)"
        using cases [of h] by (simp add: nodesOf_def)
      then obtain c where "map_of (db_dirties db') h = Some c" "cn_node c = rawOf H q" by auto
      then show ?thesis using True expandNode_rawOf [of q "Some ?h" H] q(1)
        by (simp add: nodeReader_def dbNode_def cachedObj_def)
    next
      case False
      then have "map_option cn_node (map_of (db_dirties db') h) = map_option cn_node (map_of (db_dirties db) h)"
        using cases [of h] by (simp add: nodesOf_def)
      then show ?thesis using False db'(3)
        by (cases "map_of (db_dirties db') h"; cases "map_of (db_dirties db) h")
          (auto simp: nodeReader_def dbNode_def cachedObj_def)
    qed
    have "extends d db db'"
      unfolding extends_def map_le_def
    proof (intro ballI)
      fix h assume "h \<in> dom (nodeReader d db)"
      then obtain m where m: "nodeReader d db h = Some m" by blast
      show "nodeReader d db h = nodeReader d db' h"
      proof (cases "h = ?h")
        case True
        obtain q' where "q' \<in> S" "h = pdigest H q'" "m = expanded H (Some h) q'"
          using nodeReader_ok [OF ok m] by blast
        moreover from this have "q' = q" using free True by (auto simp: collisionFree_def inj_on_def)
        ultimately show ?thesis using m True by (simp add: read)
      qed (simp add: read)
    qed
    then show ?thesis using db'(1) ok' read by auto
  qed
qed

end
