(* ===== verification/Proof.thy ===== *)
theory Proof
  imports Decode
begin

text \<open>
  Merkle proofs (\<open>trie/proof.go\<close>). \<open>Prove\<close> collects the encodings of the nodes on the path to
  a key; \<open>VerifyProof\<close> follows them from a root hash. A proof database is a function from hashes
  to encodings. \<open>verifyLoop\<close> may run forever on a database with a cycle of hashes: not returning
  is \<open>None\<close>. Proofs made by \<open>Prove\<close> verify (\<open>VerifyProof_covered\<close>), and against the root hash of
  a trie no set of proof nodes, however made, verifies for another value (\<open>VerifyProof_sound\<close>).
\<close>

section \<open>Making a proof\<close>

function proveLoop :: "nodeDb \<Rightarrow> nat \<Rightarrow> node \<Rightarrow> bytes \<Rightarrow> (trieErr, node list) res" where
  "proveLoop db fuel tn key =
     (if key = [] then Ok []
      else
        (case tn of
           NilN \<Rightarrow> Ok []
         | ShortN k c f \<Rightarrow>
             (if length key < length k \<or> k \<noteq> take (length k) key then Ok [tn]
              else rmap (Cons tn) (proveLoop db fuel c (drop (length k) key)))
         | FullN c0 c1 c2 f \<Rightarrow>
             (case childAt c0 c1 c2 (hd key) of
                None \<Rightarrow> Panic
              | Some c \<Rightarrow> rmap (Cons tn) (proveLoop db fuel c (tl key)))
         | HashN h \<Rightarrow>
             (case fuel of
                0 \<Rightarrow> Hang
              | Suc fuel' \<Rightarrow> rbind (resolveHash db h []) (\<lambda>n. proveLoop db fuel' n key))
         | ValueN v \<Rightarrow> Panic))"
  by pat_completeness auto
termination
  by (relation "measures [\<lambda>(db, fuel, n, key). fuel, \<lambda>(db, fuel, n, key). size n]")
    (auto simp: size_childAt [simplified])

declare proveLoop.simps [simp del]

text \<open>The pairs that are put into the proof database, in order; \<open>None\<close> is a panic.\<close>

fun proveNodes :: "crypto \<Rightarrow> nat \<Rightarrow> nat \<Rightarrow> node list \<Rightarrow> (hash \<times> bytes) list option" where
  "proveNodes H i fromLevel [] = Some []"
| "proveNodes H i fromLevel (n # ns) =
     (if fromLevel > 0 then proveNodes H (Suc i) (fromLevel - 1) ns
      else
        (case proofHash H n of
           None \<Rightarrow> None
         | Some (n', hn) \<Rightarrow>
             let enc = rlpEncode H (nodeItem n') in
             map_option
               ((@) (case hn of HashN h \<Rightarrow> [(h, enc)] | _ \<Rightarrow> if i = 0 then [(hashData H enc, enc)] else []))
               (proveNodes H (Suc i) fromLevel ns)))"

definition Prove :: "crypto \<Rightarrow> nodeDb \<Rightarrow> Trie \<Rightarrow> bytes \<Rightarrow> nat \<Rightarrow> (trieErr, (hash \<times> bytes) list) res" where
  "Prove H db t key fromLevel =
     rbind (proveLoop db (keyFuel (keybytesToBinary key)) (tr_root t) (keybytesToBinary key)) (\<lambda>nodes.
       case proveNodes H 0 fromLevel nodes of None \<Rightarrow> Panic | Some puts \<Rightarrow> Ok puts)"

section \<open>Checking a proof\<close>

fun proofGet :: "node \<Rightarrow> bytes \<Rightarrow> bool \<Rightarrow> (bytes \<times> node) option" where
  "proofGet (ShortN k c f) key skipResolved =
     (if length key < length k \<or> k \<noteq> take (length k) key then Some ([], NilN)
      else if skipResolved then proofGet c (drop (length k) key) skipResolved
      else Some (drop (length k) key, c))"
| "proofGet (FullN c0 c1 c2 f) key skipResolved =
     (case key of
        [] \<Rightarrow> None
      | d # ks \<Rightarrow>
          if d = 0 then (if skipResolved then proofGet c0 ks skipResolved else Some (ks, c0))
          else if d = 1 then (if skipResolved then proofGet c1 ks skipResolved else Some (ks, c1))
          else if d = 2 then (if skipResolved then proofGet c2 ks skipResolved else Some (ks, c2))
          else None)"
| "proofGet (HashN h) key skipResolved = Some (key, HashN h)"
| "proofGet NilN key skipResolved = Some (key, NilN)"
| "proofGet (ValueN v) key skipResolved = Some ([], ValueN v)"

datatype verifyErr = ProofMissing nat hash | BadProofNode nat decodeErr

partial_function (option) verifyLoop ::
  "rlpReader \<Rightarrow> (hash \<Rightarrow> bytes option) \<Rightarrow> nat \<Rightarrow> hash \<Rightarrow> bytes \<Rightarrow> (verifyErr, bytes option) res option" where
  "verifyLoop d proofDb i wantHash key =
     (case proofDb wantHash of
        None \<Rightarrow> Some (Err (ProofMissing i wantHash))
      | Some buf \<Rightarrow>
          (case decodeNodeOf d (Some wantHash) buf of
             Err e \<Rightarrow> Some (Err (BadProofNode i e))
           | Panic \<Rightarrow> Some Panic
           | Hang \<Rightarrow> Some Hang
           | Ok n \<Rightarrow>
               (case proofGet n key True of
                  None \<Rightarrow> Some Panic
                | Some (keyrest, cld) \<Rightarrow>
                    (case cld of
                       NilN \<Rightarrow> Some (Ok None)
                     | HashN h \<Rightarrow> verifyLoop d proofDb (Suc i) (goCopy wantHash h) keyrest
                     | ValueN v \<Rightarrow> Some (Ok (Some v))
                     | _ \<Rightarrow> verifyLoop d proofDb (Suc i) wantHash key))))"

definition VerifyProof :: "rlpReader \<Rightarrow> hash \<Rightarrow> bytes \<Rightarrow> (hash \<Rightarrow> bytes option) \<Rightarrow> (verifyErr, bytes option) res" where
  "VerifyProof d rootHash key proofDb =
     (case verifyLoop d proofDb 0 rootHash (keybytesToBinary key) of None \<Rightarrow> Hang | Some r \<Rightarrow> r)"

section \<open>The path to a key\<close>

fun ppath :: "ptree \<Rightarrow> bytes \<Rightarrow> ptree list" where
  "ppath (PShort k c) key =
     (if key = [] then []
      else if length k \<le> length key \<and> take (length k) key = k then PShort k c # ppath c (drop (length k) key)
      else [PShort k c])"
| "ppath (PFull p0 p1 p2) key =
     (case key of
        [] \<Rightarrow> []
      | d # ks \<Rightarrow> PFull p0 p1 p2 #
          (if d = 0 then ppath p0 ks else if d = 1 then ppath p1 ks else if d = 2 then ppath p2 ks else []))"
| "ppath PNil key = []"
| "ppath (PVal v) key = []"

text \<open>What a proof must hold for a tree and a key: the root and the large nodes of the path.\<close>

fun needed :: "crypto \<Rightarrow> ptree list \<Rightarrow> ptree list" where
  "needed H [] = []"
| "needed H (q # qs) = q # filter (large H) qs"

definition entry :: "crypto \<Rightarrow> ptree \<Rightarrow> hash \<times> bytes" where
  "entry H q = (pdigest H q, rlpEncode H (pitem H q))"

definition covers :: "crypto \<Rightarrow> (hash \<Rightarrow> bytes option) \<Rightarrow> ptree list \<Rightarrow> bool" where
  "covers H proofDb qs \<longleftrightarrow> (\<forall>q\<in>set qs. proofDb (pdigest H q) = Some (rlpEncode H (pitem H q)))"


lemma ppath_empty [simp]: "ppath p [] = []"
  by (cases p) auto

lemma ppath_full [simp]: "digit d \<Longrightarrow> ppath (PFull p0 p1 p2) (d # ks) = PFull p0 p1 p2 # ppath (pchild p0 p1 p2 d) ks"
  by (auto simp: digit_def pchild_def)

declare ppath.simps(2) [simp del]

lemma ppath_pwfN: "entered p key \<Longrightarrow> q \<in> set (ppath p key) \<Longrightarrow> pwfN q"
proof (induction p arbitrary: key)
  case (PShort k c)
  have "pwfN (PShort k c)" using PShort.prems by (auto simp: entered_def pwf_def split: if_splits)
  moreover have "pwfN q" if "length k \<le> length key" "take (length k) key = k" "q \<in> set (ppath c (drop (length k) key))"
    using PShort.IH entered_short(1) [OF PShort.prems(1)] that by blast
  ultimately show ?case using PShort.prems(2) by (auto simp del: pwfN.simps split: if_splits)
next
  case (PFull p0 p1 p2)
  from PFull.prems(1) obtain d ks where d: "key = d # ks" "digit d" "entered (pchild p0 p1 p2 d) ks" "pwfN (PFull p0 p1 p2)"
    by (rule entered_full)
  then have "q = PFull p0 p1 p2 \<or> q \<in> set (ppath (pchild p0 p1 p2 d) ks)" using PFull.prems(2) by simp
  then show ?case using d PFull.IH [of ks] by (auto simp: digit_def pchild_def simp del: pwfN.simps)
qed auto

section \<open>What \<open>Prove\<close> returns\<close>

definition held :: "nodeDb \<Rightarrow> (bool \<Rightarrow> hash \<Rightarrow> ptree \<Rightarrow> bool) \<Rightarrow> node \<Rightarrow> ptree \<Rightarrow> bool" where
  "held db R m q \<longleftrightarrow> inner m \<and> (\<exists>b. loads db R b m q)"

lemma heldI: "loads db R b m q \<Longrightarrow> inner m \<Longrightarrow> held db R m q"
  unfolding held_def by blast

lemma proveLoop_refines:
  "loads db R b n p \<Longrightarrow> entered p key \<Longrightarrow> enough fuel n (length key) \<Longrightarrow>
     \<exists>ns. proveLoop db fuel n key = Ok ns \<and>
       list_all2 (held db R) ns (ppath p key)"
proof (induction arbitrary: key fuel rule: loads.induct)
  case L_nil
  then show ?case by (subst proveLoop.simps) simp
next
  case (L_val b v)
  then have "key = []" using entered_value by blast
  then show ?case by (subst proveLoop.simps) simp
next
  case (L_short c p b f k)
  have self: "held db R (ShortN k c f) (PShort k p)" by (rule heldI [of _ _ b]) (use L_short.hyps in auto)
  show ?case
  proof (cases "key = [] \<or> \<not> (length k \<le> length key \<and> take (length k) key = k)")
    case True
    then show ?thesis using self by (subst proveLoop.simps) auto
  next
    case False
    have e: "entered p (drop (length k) key)" "k \<noteq> []"
      using entered_short [OF L_short.prems(1)] False by simp_all
    have "enough fuel c (length (drop (length k) key))"
      by (rule enough_child [OF L_short.prems(2)]) (use e(2) False in simp)
    from L_short.IH [OF e(1) this] obtain ns where "proveLoop db fuel c (drop (length k) key) = Ok ns"
        "list_all2 (held db R) ns (ppath p (drop (length k) key))" by blast
    then show ?thesis using False self by (subst proveLoop.simps) auto
  qed
next
  case (L_full c0 p0 c1 p1 c2 p2 b f)
  have self: "held db R (FullN c0 c1 c2 f) (PFull p0 p1 p2)" by (rule heldI [of _ _ b]) (use L_full.hyps in auto)
  from L_full.prems(1) obtain d ks where d: "key = d # ks" "digit d" "entered (pchild p0 p1 p2 d) ks"
    by (rule entered_full)
  have en: "enough fuel c (length ks)" for c
    by (rule enough_child [OF L_full.prems(2)]) (use d in simp)
  obtain c where c: "childAt c0 c1 c2 d = Some c" "loads db R False c (pchild p0 p1 p2 d)"
    using childAt_digit d(2) L_full.hyps by metis
  have "\<exists>ns. proveLoop db fuel c ks = Ok ns \<and>
      list_all2 (held db R) ns (ppath (pchild p0 p1 p2 d) ks)"
    using L_full.IH [of ks fuel] c(1) d(2,3) en [of c0] en [of c1] en [of c2]
    by (auto simp: childAt_def pchild_def digit_def split: if_splits)
  then show ?case using self c(1) d(1,2) by (subst proveLoop.simps) auto
next
  case (L_hash h n b p)
  have "fuel \<noteq> 0" using L_hash.prems(2) by (auto simp: enough_def)
  then obtain fuel' where f: "fuel = Suc fuel'" by (cases fuel) auto
  then have "enough fuel' n (length key)"
    using L_hash.prems(2) inner_not_hash [OF L_hash.hyps(2)] by (auto simp: enough_def)
  from L_hash.IH [OF L_hash.prems(1) this] show ?case
    using L_hash.hyps(1) by (subst proveLoop.simps) (auto simp: f resolveHash_def)
qed

lemma proofHash_correct:
  assumes "held db (merkle H) n p" "pwfN p"
  shows "\<exists>n'. proofHash H n = Some (n', if large H p then HashN (pdigest H p) else n') \<and>
     nodeItem n' = pitem H p \<and> inner n'"
proof -
  obtain b where b: "loads db (merkle H) b n p" "inner n" using assms(1) unfolding held_def by blast
  have hc: "hashedAs db H False (hasherHash H c False) q"
    if "loads db (merkle H) False c q" "pwf q \<or> isValue q" "c \<noteq> NilN" for c q
    using hash_correct that by blast
  from b show ?thesis
  proof (cases rule: loads.cases)
    case (L_short c q f k)
    obtain ck hn cc where "hashShortNodeChildren H k c f = Some (ShortN ck hn f, k, cc, f)"
        "nodeItem (ShortN ck hn f) = pitem H p"
      using shortChildren_correct [OF assms(2) [unfolded L_short(2)] L_short(3) hc [OF L_short(3)], of f] L_short(2) by blast
    then show ?thesis
      using L_short by (auto simp: proofHash_def shortnodeToHash_def large_def pdigest_def hashData_def Let_def
          simp del: hashShortNodeChildren.simps pitem.simps)
  next
    case (L_full c0 p0 c1 p1 c2 p2 f)
    obtain h0 h1 d0 d1 where "hashFullNodeChildren H c0 c1 c2 f = Some (FullN h0 h1 c2 f, d0, d1, c2, f)"
        "nodeItem (FullN h0 h1 c2 f) = pitem H p"
      using fullChildren_correct [OF assms(2) [unfolded L_full(2)] L_full(3-5) hc [OF L_full(3)] hc [OF L_full(4)], of f]
        L_full(2) by blast
    then show ?thesis
      using L_full by (auto simp: proofHash_def fullnodeToHash_def large_def pdigest_def hashData_def Let_def
          simp del: hashFullNodeChildren.simps pitem.simps)
  qed auto
qed

lemma proveNodes_later:
  assumes "list_all2 (held db (merkle H)) ns qs" "\<forall>q\<in>set qs. pwfN q"
  shows "proveNodes H (Suc i) 0 ns = Some (map (entry H) (filter (large H) qs))"
  using assms
proof (induction ns qs arbitrary: i rule: list_all2_induct)
  case (Cons n ns q qs)
  from proofHash_correct [OF Cons.hyps(1), of] Cons.prems obtain n'
    where n': "proofHash H n = Some (n', if large H q then HashN (pdigest H q) else n')" "nodeItem n' = pitem H q" "inner n'"
    by auto
  then show ?case using Cons.IH [of "Suc i"] Cons.prems by (cases n') (auto simp: entry_def Let_def)
qed simp

lemma proveNodes_correct:
  assumes "list_all2 (held db (merkle H)) ns qs" "\<forall>q\<in>set qs. pwfN q"
  shows "proveNodes H 0 0 ns = Some (map (entry H) (needed H qs))"
proof (cases qs)
  case Nil
  then show ?thesis using assms by simp
next
  case (Cons q qs')
  then obtain n ns' where ns: "ns = n # ns'" "held db (merkle H) n q" "list_all2 (held db (merkle H)) ns' qs'"
    using assms(1) by (auto simp: list_all2_Cons2)
  from proofHash_correct [OF ns(2)] assms(2) Cons obtain n'
    where n': "proofHash H n = Some (n', if large H q then HashN (pdigest H q) else n')" "nodeItem n' = pitem H q" "inner n'"
    by auto
  then show ?thesis using proveNodes_later [OF ns(3), of 0] assms(2) Cons ns(1)
    by (cases n') (auto simp: entry_def Let_def pdigest_def hashData_def)
qed

text \<open>A proof of a trie is the list of the needed nodes on the path.\<close>

lemma Prove_entries:
  assumes "represents db (merkle H) t p"
  shows "Prove H db t key 0 = Ok (map (entry H) (needed H (ppath p (keybytesToBinary key))))"
proof -
  let ?k = "keybytesToBinary key"
  have r: "pwf p" "loads db (merkle H) True (tr_root t) p" using assms by (simp_all add: represents_def)
  have e: "entered p ?k" using entered_key [OF r(1)] .
  have "enough (keyFuel ?k) (tr_root t) (length ?k)" by (simp add: enough_def keyFuel_def)
  then obtain ns where ns: "proveLoop db (keyFuel ?k) (tr_root t) ?k = Ok ns" "list_all2 (held db (merkle H)) ns (ppath p ?k)"
    using proveLoop_refines [OF r(2) e] by blast
  show ?thesis using proveNodes_correct [OF ns(2)] ppath_pwfN [OF e] ns(1) by (simp add: Prove_def)
qed

section \<open>What \<open>VerifyProof\<close> accepts\<close>

text \<open>What one proof node yields: the value, its absence, or the next large node of the path.\<close>

inductive advances :: "crypto \<Rightarrow> ptree \<Rightarrow> bytes \<Rightarrow> nat \<Rightarrow> (bytes \<times> node) option \<Rightarrow> bool" for H p key len where
  absent: "plookup p key = None \<Longrightarrow> advances H p key len (Some (rest, NilN))"
| found: "plookup p key = Some v \<Longrightarrow> advances H p key len (Some (rest, ValueN v))"
| deeper: "large H q \<Longrightarrow> entered q rest \<Longrightarrow> pwfN q \<Longrightarrow> length rest < len \<Longrightarrow> plookup p key = plookup q rest \<Longrightarrow>
    q \<in> set (ppath p key) \<Longrightarrow> set (ppath q rest) \<subseteq> set (ppath p key) \<Longrightarrow>
    advances H p key len (Some (rest, HashN (pdigest H q)))"

lemma advances_weaken:
  assumes "advances H c key' len r" "plookup p key = plookup c key'" "set (ppath c key') \<subseteq> set (ppath p key)" "len \<le> len'"
  shows "advances H p key len' r"
  using assms by (cases rule: advances.cases) (auto intro!: advances.intros)

lemma large_entered: "large H q \<Longrightarrow> entered q key \<Longrightarrow> pwfN q \<and> q \<in> set (ppath q key)"
  by (cases q; cases key) (auto simp: large_def entered_def pwf_def ppath.simps simp del: pwfN.simps split: if_splits)

lemma childRef_advances:
  assumes "entered c key" "length key < len"
    and "\<And>len. length key \<le> len \<Longrightarrow> \<not> large H c \<Longrightarrow> advances H c key len (proofGet (expanded H None c) key True)"
  shows "advances H c key len (proofGet (childRef H c) key True)"
proof (cases "large H c")
  case True
  then show ?thesis using large_entered [OF True assms(1)] assms(1,2) by (auto simp: childRef_def intro!: advances.deeper)
next
  case False
  then show ?thesis using assms(2,3) by (simp add: childRef_def)
qed

lemma expanded_advances:
  "entered p key \<Longrightarrow> length key \<le> len \<Longrightarrow> advances H p key len (proofGet (expanded H h p) key True)"
proof (induction p arbitrary: key len h)
  case PNil
  then show ?case by (simp add: advances.absent)
next
  case (PVal v)
  then have "key = []" using entered_value by blast
  then show ?case by (simp add: advances.found)
next
  case (PShort k c)
  show ?case
  proof (cases "length k \<le> length key \<and> take (length k) key = k")
    case False
    then show ?thesis by (auto simp: plookup.simps(3) intro!: advances.absent)
  next
    case True
    have e: "entered c (drop (length k) key)" "k \<noteq> []"
      using entered_short [OF PShort.prems(1)] True by simp_all
    have "length (drop (length k) key) < len" using e(2) True PShort.prems(2) by (cases k) auto
    then have "advances H c (drop (length k) key) len (proofGet (childRef H c) (drop (length k) key) True)"
      by (rule childRef_advances [OF e(1)]) (rule PShort.IH [OF e(1)])
    then show ?thesis using True e(2) by (auto simp: plookup.simps(3) elim!: advances_weaken)
  qed
next
  case (PFull p0 p1 p2)
  from PFull.prems(1) obtain d ks where d: "key = d # ks" "digit d" "entered (pchild p0 p1 p2 d) ks"
    by (rule entered_full)
  have "advances H (pchild p0 p1 p2 d) ks len (proofGet (childRef H (pchild p0 p1 p2 d)) ks True)"
  proof (rule childRef_advances [OF d(3)])
    show "length ks < len" using d(1) PFull.prems(2) by simp
    show "advances H (pchild p0 p1 p2 d) ks l (proofGet (expanded H None (pchild p0 p1 p2 d)) ks True)"
      if "length ks \<le> l" for l
      using PFull.IH [of ks l] that d(2,3) by (auto simp: digit_def pchild_def)
  qed
  moreover have "proofGet (expanded H h (PFull p0 p1 p2)) key True = proofGet (childRef H (pchild p0 p1 p2 d)) ks True"
    using d(1,2) by (auto simp: digit_def pchild_def)
  ultimately show ?case using d(1,2) by (auto simp: plookup_PFull simp del: plookup.simps elim!: advances_weaken)
qed

text \<open>The proof database against the tree: each needed node is absent, or it is the node itself.\<close>

definition authentic :: "crypto \<Rightarrow> (hash \<Rightarrow> bytes option) \<Rightarrow> ptree set \<Rightarrow> bool" where
  "authentic H proofDb Q \<longleftrightarrow>
     (\<forall>q\<in>Q. \<forall>buf. proofDb (pdigest H q) = Some buf \<longrightarrow> buf = rlpEncode H (pitem H q))"

lemma length_pdigest: "rlpOk H d \<Longrightarrow> length (pdigest H q) = 32"
  by (simp add: pdigest_def rlpOkD(7))

lemma verifyLoop_step:
  assumes "rlpOk H d" "entered p key" "pwfN p" "proofDb (pdigest H p) = Some (rlpEncode H (pitem H p))"
  obtains (final) "verifyLoop d proofDb i (pdigest H p) key = Some (Ok (plookup p key))"
  | (step) q rest where "verifyLoop d proofDb i (pdigest H p) key = verifyLoop d proofDb (Suc i) (pdigest H q) rest"
      "large H q" "entered q rest" "pwfN q" "length rest < length key" "plookup p key = plookup q rest"
      "q \<in> set (ppath p key)" "set (ppath q rest) \<subseteq> set (ppath p key)"
proof -
  have dec: "decodeNodeOf d (Some (pdigest H p)) (rlpEncode H (pitem H p)) = Ok (expanded H (Some (pdigest H p)) p)"
    by (rule decodeNodeOf_pitem [OF assms(1,3)])
  note unfolded = verifyLoop.simps [of d proofDb i "pdigest H p" key] assms(4) dec
  have "advances H p key (length key) (proofGet (expanded H (Some (pdigest H p)) p) key True)"
    by (rule expanded_advances [OF assms(2)]) simp
  then show thesis
  proof (cases rule: advances.cases)
    case (absent rest)
    then show ?thesis using final by (simp add: unfolded)
  next
    case (found v rest)
    then show ?thesis using final by (simp add: unfolded)
  next
    case (deeper q rest)
    then show ?thesis using step by (simp add: unfolded length_pdigest [OF assms(1)])
  qed
qed

lemma verifyLoop_covered:
  "rlpOk H d \<Longrightarrow> entered p key \<Longrightarrow> pwfN p \<Longrightarrow> covers H proofDb (p # filter (large H) (ppath p key)) \<Longrightarrow>
     verifyLoop d proofDb i (pdigest H p) key = Some (Ok (plookup p key))"
proof (induction "length key" arbitrary: p key i rule: less_induct)
  case less
  have "proofDb (pdigest H p) = Some (rlpEncode H (pitem H p))" using less.prems(4) by (simp add: covers_def)
  with less.prems(1-3) show ?case
  proof (cases rule: verifyLoop_step [where i = i])
    case final
    then show ?thesis .
  next
    case (step q rest)
    have "covers H proofDb (q # filter (large H) (ppath q rest))"
      using less.prems(4) step(2,7,8) by (auto simp: covers_def)
    then show ?thesis using less.hyps [OF step(5) less.prems(1) step(3,4)] step(1,6) by simp
  qed
qed

lemma verifyLoop_sound:
  "rlpOk H d \<Longrightarrow> entered p key \<Longrightarrow> pwfN p \<Longrightarrow> authentic H proofDb (insert p (set (ppath p key))) \<Longrightarrow>
     verifyLoop d proofDb i (pdigest H p) key = Some (Ok (plookup p key)) \<or>
     (\<exists>j h. verifyLoop d proofDb i (pdigest H p) key = Some (Err (ProofMissing j h)))"
proof (induction "length key" arbitrary: p key i rule: less_induct)
  case less
  show ?case
  proof (cases "proofDb (pdigest H p)")
    case None
    then show ?thesis by (simp add: verifyLoop.simps [of d proofDb i "pdigest H p" key])
  next
    case (Some buf)
    then have "proofDb (pdigest H p) = Some (rlpEncode H (pitem H p))" using less.prems(4) by (auto simp: authentic_def)
    with less.prems(1-3) show ?thesis
    proof (cases rule: verifyLoop_step [where i = i])
      case final
      then show ?thesis by simp
    next
      case (step q rest)
      have "authentic H proofDb (insert q (set (ppath q rest)))"
        using less.prems(4) step(7,8) by (auto simp: authentic_def)
      then show ?thesis using less.hyps [OF step(5) less.prems(1) step(3,4), of "Suc i"] step(1,6) by simp
    qed
  qed
qed

section \<open>Proofs made of a list of encodings\<close>

text \<open>
  The receivers of a proof (\<open>core/shardstates.go\<close>, \<open>core/blockchain.go\<close>) get a list of
  encodings and file each one under its own hash.
\<close>

definition proofDbOf :: "crypto \<Rightarrow> bytes list \<Rightarrow> hash \<Rightarrow> bytes option" where
  "proofDbOf H bufs = foldl (\<lambda>db buf. db(keccak256 H buf \<mapsto> buf)) Map.empty bufs"

lemma proofDbOf_snoc [simp]: "proofDbOf H (bufs @ [b]) = (proofDbOf H bufs)(keccak256 H b \<mapsto> b)"
  by (simp add: proofDbOf_def)

lemma proofDbOf_nil [simp]: "proofDbOf H [] = Map.empty"
  by (simp add: proofDbOf_def)

lemma proofDbOf_SomeD: "proofDbOf H bufs h = Some b \<Longrightarrow> b \<in> set bufs \<and> keccak256 H b = h"
  by (induction bufs rule: rev_induct) (auto split: if_splits)

lemma proofDbOf_mem: "inj_on (keccak256 H) (set bufs) \<Longrightarrow> b \<in> set bufs \<Longrightarrow> proofDbOf H bufs (keccak256 H b) = Some b"
  by (induction bufs rule: rev_induct) (auto simp: inj_on_def)

definition pathNodes :: "crypto \<Rightarrow> ptree \<Rightarrow> bytes \<Rightarrow> bytes set" where
  "pathNodes H p key = (\<lambda>q. rlpEncode H (pitem H q)) ` set (ppath p (keybytesToBinary key))"

lemma ppath_self: "pwfN p \<Longrightarrow> p \<in> set (ppath p (keybytesToBinary key))"
  using vkey_keybytesToBinary [of key]
  by (cases p; cases "keybytesToBinary key") (auto simp: ppath.simps)

lemma needed_path: "pwfN p \<Longrightarrow>
    set (needed H (ppath p (keybytesToBinary key))) = insert p (set (filter (large H) (ppath p (keybytesToBinary key))))"
  using vkey_keybytesToBinary [of key]
  by (cases p; cases "keybytesToBinary key") (auto simp: ppath.simps)

lemma root_of_represents:
  assumes "represents db (merkle H) t p" "TrieHash H emptyRoot t = Some (root, t')" "p \<noteq> PNil"
  shows "root = pdigest H p" "pwfN p" "storeGet db t key = plookup p (keybytesToBinary key)"
  using TrieHash_represents [OF assms(1), of emptyRoot] assms storeGet_represents [OF assms(1)]
  by (auto simp: rootOf_def represents_def pwf_def)

lemma Prove_verifies:
  assumes "rlpOk H d" "represents db (merkle H) t p" "p \<noteq> PNil"
    and "TrieHash H emptyRoot t = Some (root, t')"
    and "inj_on (keccak256 H) (pathNodes H p key)"
  shows "\<exists>puts. Prove H db t key 0 = Ok puts \<and> set (map snd puts) \<subseteq> pathNodes H p key \<and>
     VerifyProof d root key (proofDbOf H (map snd puts)) = Ok (storeGet db t key)"
proof -
  let ?path = "ppath p (keybytesToBinary key)"
  let ?bufs = "map snd (map (entry H) (needed H ?path))"
  note r = root_of_represents [OF assms(2,4,3)]
  have sub: "set ?bufs \<subseteq> pathNodes H p key"
    using needed_path [OF r(2), of H key] ppath_self [OF r(2), of key] by (auto simp: pathNodes_def entry_def)
  have "covers H (proofDbOf H ?bufs) (needed H ?path)"
    using proofDbOf_mem [OF inj_on_subset [OF assms(5) sub]] by (auto simp: covers_def pdigest_def entry_def)
  then have "covers H (proofDbOf H ?bufs) (p # filter (large H) ?path)"
    using needed_path [OF r(2), of H key] by (simp add: covers_def)
  then have "verifyLoop d (proofDbOf H ?bufs) 0 root (keybytesToBinary key) = Some (Ok (storeGet db t key))"
    unfolding r(1,3) using verifyLoop_covered [OF assms(1) entered_key r(2)] r(2) by (simp add: pwf_def)
  then show ?thesis using Prove_entries [OF assms(2)] sub by (auto simp: VerifyProof_def)
qed

lemma VerifyProof_authentic:
  assumes "rlpOk H d" "represents db (merkle H) t p" "p \<noteq> PNil"
    and "TrieHash H emptyRoot t = Some (root, t')"
    and "inj_on (keccak256 H) (set bufs \<union> pathNodes H p key)"
  shows "VerifyProof d root key (proofDbOf H bufs) = Ok (storeGet db t key) \<or>
     (\<exists>i h. VerifyProof d root key (proofDbOf H bufs) = Err (ProofMissing i h))"
proof -
  let ?path = "ppath p (keybytesToBinary key)"
  note r = root_of_represents [OF assms(2,4,3)]
  have "authentic H (proofDbOf H bufs) (insert p (set ?path))"
    using assms(5) proofDbOf_SomeD [of H bufs] ppath_self [OF r(2), of key]
    by (fastforce simp: authentic_def pathNodes_def pdigest_def inj_on_def)
  from verifyLoop_sound [OF assms(1) entered_key r(2) this, of 0] r(2)
  show ?thesis unfolding r(1,3) by (auto simp: VerifyProof_def pwf_def)
qed

text \<open>
  C15: completeness of Merkle proofs. For a non-empty trie, \<open>Prove\<close> succeeds on every
  key, and the encodings it returns, each filed under its Keccak hash as the receivers do, make
  \<open>VerifyProof\<close> against the root hash of the trie return what the trie holds for the key: the
  value, or its absence. The hypotheses are the laws of the RLP library and that the hash
  function has no collision among the nodes on the path.
\<close>

theorem proof_complete:
  assumes "rlpOk H d" "represents db (merkle H) t p" "p \<noteq> PNil"
    and "TrieHash H emptyRoot t = Some (root, t')"
    and "inj_on (keccak256 H) (pathNodes H p key)"
  shows "\<exists>puts. Prove H db t key 0 = Ok puts \<and>
     VerifyProof d root key (proofDbOf H (map snd puts)) = Ok (storeGet db t key)"
  using Prove_verifies [OF assms] by blast

text \<open>
  C16: soundness of Merkle proofs. Against the root hash of a non-empty trie, whatever list
  of encodings is presented as the proof, \<open>VerifyProof\<close> returns the value that the trie holds for
  the key (or its absence), or reports a missing proof node: it never returns another value,
  never panics and never runs forever. The hypotheses are the laws of the RLP library and that
  the presented encodings do not collide with the nodes on the path.
\<close>

theorem proof_sound:
  assumes "rlpOk H d" "represents db (merkle H) t p" "p \<noteq> PNil"
    and "TrieHash H emptyRoot t = Some (root, t')"
    and "inj_on (keccak256 H) (set bufs \<union> pathNodes H p key)"
  shows "VerifyProof d root key (proofDbOf H bufs) = Ok (storeGet db t key) \<or>
     (\<exists>i h. VerifyProof d root key (proofDbOf H bufs) = Err (ProofMissing i h))"
  by (rule VerifyProof_authentic [OF assms])

definition oneLeaf :: Trie where
  "oneLeaf = \<lparr>tr_root = ShortN (keybytesToBinary [1]) (ValueN [7]) newFlag, tr_unhashed = 1\<rparr>"

definition oneLeafTree :: ptree where
  "oneLeafTree = PShort (keybytesToBinary [1]) (PVal [7])"

lemma oneLeaf_represents:
  "represents (\<lambda>_. None) (merkle H) oneLeaf oneLeafTree" "oneLeafTree \<noteq> PNil"
  using vkey_keybytesToBinary [of "[1]"] by (simp_all add: represents_def oneLeaf_def oneLeafTree_def pwf_def)

lemma oneLeaf_path: "pathNodes H oneLeafTree key = {rlpEncode H (pitem H oneLeafTree)}"
  using vkey_keybytesToBinary [of key] vkey_keybytesToBinary [of "[1]"]
  by (cases "keybytesToBinary key") (auto simp: pathNodes_def oneLeafTree_def)

theorem proof_complete_witness:
  "\<exists>root t' puts. TrieHash markCrypto [] oneLeaf = Some (root, t') \<and> Prove markCrypto (\<lambda>_. None) oneLeaf [1] 0 = Ok puts \<and>
     VerifyProof markReader root [1] (proofDbOf markCrypto (map snd puts)) = Ok (storeGet (\<lambda>_. None) oneLeaf [1])"
proof -
  obtain root t' where h: "TrieHash markCrypto [] oneLeaf = Some (root, t')"
    using TrieHash_represents [OF oneLeaf_represents(1)] by blast
  show ?thesis
    using proof_complete [OF rlpOk_mark oneLeaf_represents h, of "[1]"] h by (auto simp: oneLeaf_path)
qed

theorem proof_sound_witness:
  "\<exists>root t'. TrieHash markCrypto [] oneLeaf = Some (root, t') \<and>
     (VerifyProof markReader root [1] (proofDbOf markCrypto [[5]]) = Ok (storeGet (\<lambda>_. None) oneLeaf [1]) \<or>
      (\<exists>i h. VerifyProof markReader root [1] (proofDbOf markCrypto [[5]]) = Err (ProofMissing i h)))"
proof -
  obtain root t' where h: "TrieHash markCrypto [] oneLeaf = Some (root, t')"
    using TrieHash_represents [OF oneLeaf_represents(1)] by blast
  have "keccak256 markCrypto [5] \<noteq> keccak256 markCrypto (rlpEncode markCrypto (pitem markCrypto oneLeafTree))"
    by (simp add: markCrypto_def oneLeafTree_def)
  then have "inj_on (keccak256 markCrypto) (set [[5]] \<union> pathNodes markCrypto oneLeafTree [1])"
    by (auto simp: oneLeaf_path)
  from proof_sound [OF rlpOk_mark oneLeaf_represents h this] h show ?thesis by blast
qed

section \<open>A root hash binds the content\<close>

fun psubs :: "ptree \<Rightarrow> ptree set" where
  "psubs (PShort k c) = insert (PShort k c) (psubs c)"
| "psubs (PFull p0 p1 p2) = insert (PFull p0 p1 p2) (psubs p0 \<union> psubs p1 \<union> psubs p2)"
| "psubs p = {p}"

definition treeNodes :: "crypto \<Rightarrow> ptree \<Rightarrow> bytes set" where
  "treeNodes H p = (\<lambda>q. rlpEncode H (pitem H q)) ` psubs p"

lemma ppath_psubs: "set (ppath p key) \<subseteq> psubs p"
proof (induction p arbitrary: key)
  case (PShort k c)
  then show ?case using PShort.IH [of "drop (length k) key"] by auto
next
  case (PFull p0 p1 p2)
  then show ?case using PFull.IH [THEN subsetD] by (cases key) (auto simp: ppath.simps)
qed auto

lemma pathNodes_treeNodes: "pathNodes H p key \<subseteq> treeNodes H p"
  using ppath_psubs unfolding pathNodes_def treeNodes_def by blast

lemma self_treeNodes: "rlpEncode H (pitem H p) \<in> treeNodes H p"
  by (cases p) (auto simp: treeNodes_def)

lemma pitem_nil_iff:
  assumes "rlpOk H d" "pwf p" "rlpEncode H (pitem H p) = rlpEncode H (pitem H PNil)"
  shows "p = PNil"
proof (rule ccontr)
  assume "p \<noteq> PNil"
  then obtain xs where xs: "pitem H p = RList xs" using assms(2) by (cases p) (auto simp: pwf_def)
  have "rlpSplit d (rlpEncode H (RList xs) @ []) = rlpSplit d (rlpEncode H (RStr []) @ [])"
    using assms(3) xs by simp
  then show False using rlpOkD(4) [OF assms(1), of xs "[]"] rlpOkD(3) [OF assms(1), of "[]" "[]"] by (simp add: strKind_def)
qed

lemma root_binding:
  assumes ok: "rlpOk H d" and er: "emptyRoot = keccak256 H (rlpEncode H (RStr []))"
    and t: "represents db (merkle H) t p" and u: "represents db' (merkle H) u q"
    and r: "TrieHash H emptyRoot t = Some (root, t')" "TrieHash H emptyRoot u = Some (root, u')"
    and inj: "inj_on (keccak256 H) (treeNodes H p \<union> treeNodes H q)"
  shows "storeGet db t = storeGet db' u"
proof -
  have rootEq: "pdigest H p = pdigest H q"
    using TrieHash_represents [OF t, of emptyRoot] TrieHash_represents [OF u, of emptyRoot] r er
    by (auto simp: rootOf_def pdigest_def split: if_splits)
  then have "rlpEncode H (pitem H p) = rlpEncode H (pitem H q)"
    using inj_onD [OF inj] self_treeNodes unfolding pdigest_def by blast
  moreover have "pwf p" "pwf q" using t u by (simp_all add: represents_def)
  ultimately have nil: "p = PNil \<longleftrightarrow> q = PNil" using pitem_nil_iff [OF ok] by metis
  have "storeGet db t key = storeGet db' u key" for key
  proof (cases "p = PNil")
    case True
    then show ?thesis using nil storeGet_represents [OF t] storeGet_represents [OF u] by simp
  next
    case False
    then have ne: "p \<noteq> PNil" "q \<noteq> PNil" using nil by simp_all
    have "inj_on (keccak256 H) (pathNodes H p key)"
      using inj pathNodes_treeNodes by (blast intro: inj_on_subset)
    from Prove_verifies [OF ok t ne(1) r(1) this] obtain puts :: "(hash \<times> bytes) list" where puts:
        "set (map snd puts) \<subseteq> pathNodes H p key"
        "VerifyProof d root key (proofDbOf H (map snd puts)) = Ok (storeGet db t key)" by blast
    have "inj_on (keccak256 H) (set (map snd puts) \<union> pathNodes H q key)"
      by (rule inj_on_subset [OF inj]) (use puts(1) pathNodes_treeNodes [of H p key] pathNodes_treeNodes [of H q key] in blast)
    from VerifyProof_authentic [OF ok u ne(2) r(2) this] puts(2) show ?thesis by simp
  qed
  then show ?thesis by blast
qed

end
