(* ===== verification/Committer.thy ===== *)
theory Committer
  imports Database Proof
begin

text \<open>
  Writing a trie to the node database (\<open>trie/committer.go\<close>, \<open>Trie.Commit\<close>). Nodes are inserted
  bottom up under the hashes that the hasher has cached; a node without a hash is embedded in its
  parent. With a leaf callback the insertions go through a channel that one goroutine drains in
  order and that is awaited, so they are the same insertions in the same order; the callback that
  the state passes has no effect. Committing a trie makes it readable from the database under its
  root hash and keeps every trie that was readable before (\<open>TrieCommit_ok\<close>).
\<close>

section \<open>Operations\<close>

fun estimateSize :: "node \<Rightarrow> nat option" where
  "estimateSize (ShortN k c f) = map_option (\<lambda>s. 3 + length k + s) (estimateSize c)"
| "estimateSize (FullN c0 c1 c2 f) =
     (let kid = (\<lambda>c s. if c = NilN then Some 1 else s) in
      case (kid c0 (estimateSize c0), kid c1 (estimateSize c1), kid c2 (estimateSize c2)) of
        (Some a, Some b, Some c) \<Rightarrow> Some (3 + a + b + c)
      | _ \<Rightarrow> None)"
| "estimateSize (ValueN v) = Some (1 + length v)"
| "estimateSize (HashN h) = Some (1 + length h)"
| "estimateSize NilN = None"

text \<open>\<open>None\<close> is a panic. The result is the hash of a stored node, or the node itself.\<close>

definition storeNode :: "node \<Rightarrow> Database \<Rightarrow> (node \<times> Database) option" where
  "storeNode n db =
     (case nodeCache n of
        None \<Rightarrow> None
      | Some (None, _) \<Rightarrow> Some (n, db)
      | Some (Some hash, _) \<Rightarrow>
          (case estimateSize n of
             None \<Rightarrow> None
           | Some sz \<Rightarrow> map_option (Pair (HashN hash)) (dbInsert db hash sz n)))"

function commitNode :: "node \<Rightarrow> Database \<Rightarrow> (node \<times> Database) option" where
  "commitNode n db =
     (case nodeCache n of
        None \<Rightarrow> None
      | Some (hash, dirty) \<Rightarrow>
          if hash \<noteq> None \<and> \<not> dirty then Some (HashN (the hash), db)
          else
            (case n of
               ShortN k c f \<Rightarrow>
                 (case (case c of FullN _ _ _ _ \<Rightarrow> commitNode c db | _ \<Rightarrow> Some (c, db)) of
                    None \<Rightarrow> None
                  | Some (childV, db) \<Rightarrow>
                      (case binaryToCompact k of
                         None \<Rightarrow> None
                       | Some ck \<Rightarrow> storeNode (ShortN ck childV f) db))
             | FullN c0 c1 c2 f \<Rightarrow>
                 (case (case c0 of NilN \<Rightarrow> Some (c0, db) | HashN _ \<Rightarrow> Some (c0, db) | _ \<Rightarrow> commitNode c0 db) of
                    None \<Rightarrow> None
                  | Some (h0, db) \<Rightarrow>
                      (case (case c1 of NilN \<Rightarrow> Some (c1, db) | HashN _ \<Rightarrow> Some (c1, db) | _ \<Rightarrow> commitNode c1 db) of
                         None \<Rightarrow> None
                       | Some (h1, db) \<Rightarrow> storeNode (FullN h0 h1 c2 f) db))
             | HashN h \<Rightarrow> Some (HashN h, db)
             | _ \<Rightarrow> None))"
  by pat_completeness auto
termination
  by (relation "measure (\<lambda>(n, db). size n)") auto

declare commitNode.simps [simp del]

text \<open>\<open>committer.Commit\<close>: the type assertion panics when the root is not a hash.\<close>

definition committerCommit :: "node \<Rightarrow> Database \<Rightarrow> (hash \<times> Database) option" where
  "committerCommit n db =
     (case commitNode n db of Some (HashN h, db') \<Rightarrow> Some (h, db') | _ \<Rightarrow> None)"

definition TrieCommit :: "crypto \<Rightarrow> hash \<Rightarrow> Trie \<Rightarrow> Database \<Rightarrow> (hash \<times> Trie \<times> Database) option" where
  "TrieCommit H emptyRoot t db =
     (if tr_root t = NilN then Some (emptyRoot, t, db)
      else
        (case TrieHash H emptyRoot t of
           None \<Rightarrow> None
         | Some (rootHash, t) \<Rightarrow>
             (case nodeCache (tr_root t) of
                None \<Rightarrow> None
              | Some (_, dirty) \<Rightarrow>
                  if \<not> dirty then Some (rootHash, t, db)
                  else
                    (case committerCommit (tr_root t) db of
                       None \<Rightarrow> None
                     | Some (newRoot, db) \<Rightarrow> Some (rootHash, t\<lparr>tr_root := HashN newRoot\<rparr>, db)))))"

section \<open>Reading a committed tree\<close>

lemma flagOk_mono: "flagOk db R f p below \<Longrightarrow> db \<subseteq>\<^sub>m db' \<Longrightarrow> flagOk db' R f p below"
  by (auto simp: flagOk_def map_le_def dom_def split: option.splits)

lemma loads_mono: "loads db R b n p \<Longrightarrow> db \<subseteq>\<^sub>m db' \<Longrightarrow> loads db' R b n p"
proof (induction rule: loads.induct)
  case (L_hash h n b p)
  have "db' h = Some n" using L_hash.hyps(1) L_hash.prems by (auto simp: map_le_def dom_def)
  then show ?case using L_hash by (auto simp: loads_HashN)
qed (auto intro: flagOk_mono)

fun kids :: "ptree \<Rightarrow> ptree set" where
  "kids (PShort k c) = {c}"
| "kids (PFull p0 p1 p2) = {p0, p1, p2}"
| "kids p = {}"

text \<open>A subtree as its parent refers to it is loadable.\<close>

definition avail :: "rlpReader \<Rightarrow> crypto \<Rightarrow> Database \<Rightarrow> ptree \<Rightarrow> bool" where
  "avail d H db c \<longleftrightarrow> loads (nodeReader d db) (merkle H) False (childRef H c) c \<and> deep (merkle H) False (childRef H c) c"

definition closed :: "rlpReader \<Rightarrow> crypto \<Rightarrow> Database \<Rightarrow> ptree set \<Rightarrow> bool" where
  "closed d H db S \<longleftrightarrow> (\<forall>h n. nodeReader d db h = Some n \<longrightarrow>
     (\<exists>q\<in>S. pwfN q \<and> h = pdigest H q \<and> n = expanded H (Some h) q \<and> (\<forall>c\<in>kids q. avail d H db c)))"

lemma closed_mono: "closed d H db S \<Longrightarrow> S \<subseteq> T \<Longrightarrow> closed d H db T"
  unfolding closed_def by blast

lemma avail_mono: "avail d H db c \<Longrightarrow> extends d db db' \<Longrightarrow> avail d H db' c"
  unfolding avail_def extends_def using loads_mono by blast

lemma merkle_large: "merkle H b h p \<longleftrightarrow> h = pdigest H p \<and> (if b then pinner p else large H p)"
  by (auto simp: merkle_def large_def)

lemma expanded_loads:
  assumes "pinner p" "\<forall>c\<in>kids p. avail d H db c"
    and "case h of None \<Rightarrow> \<not> b \<and> \<not> large H p
      | Some h' \<Rightarrow> h' = pdigest H p \<and> (b \<or> large H p) \<and> nodeReader d db h' \<noteq> None"
  shows "loads (nodeReader d db) (merkle H) b (expanded H h p) p \<and> deep (merkle H) b (expanded H h p) p"
  using assms
  by (cases p) (auto simp: avail_def flagOk_def cleanFlag_def merkle_large split: option.splits)

lemma present_loads:
  assumes "pwfN p" "\<forall>c\<in>kids p. avail d H db c" "b \<or> large H p"
    and "nodeReader d db (pdigest H p) = Some (expanded H (Some (pdigest H p)) p)"
  shows "loads (nodeReader d db) (merkle H) b (HashN (pdigest H p)) p"
proof -
  have i: "pinner p" using assms(1) by (cases p) auto
  have "inner (expanded H (Some (pdigest H p)) p)" using i by (cases p) auto
  moreover have "merkle H b (pdigest H p) p" using i assms(3) by (auto simp: merkle_large)
  ultimately show ?thesis
    using expanded_loads [OF i assms(2), of b "Some (pdigest H p)"] assms(3,4) by (auto simp: loads_HashN)
qed

lemma avail_small: "pinner p \<Longrightarrow> \<not> large H p \<Longrightarrow> \<forall>c\<in>kids p. avail d H db c \<Longrightarrow> avail d H db p"
  unfolding avail_def [of d H db p] using expanded_loads [where h = None and b = False] by (simp add: childRef_def)

lemma avail_large: "large H p \<Longrightarrow> loads (nodeReader d db) (merkle H) False (HashN (pdigest H p)) p \<Longrightarrow> avail d H db p"
  by (simp add: avail_def childRef_def)

lemma avail_simps [simp]: "avail d H db PNil" "avail d H db (PVal v)"
  by (simp_all add: avail_def childRef_def large_def)

text \<open>Inner subtrees, the ones that are stored.\<close>

definition isub :: "ptree \<Rightarrow> ptree set" where
  "isub p = {q \<in> psubs p. pinner q}"

lemma isub_simps [simp]:
  "isub PNil = {}" "isub (PVal v) = {}" "isub (PShort k c) = insert (PShort k c) (isub c)"
  "isub (PFull p0 p1 p2) = insert (PFull p0 p1 p2) (isub p0 \<union> isub p1 \<union> isub p2)"
  by (auto simp: isub_def)

lemma isub_self: "pinner p \<Longrightarrow> p \<in> isub p"
  by (cases p) auto

lemma isub_pwfN: "pwfN q \<or> q = PNil \<or> isValue q \<Longrightarrow> s \<in> isub q \<Longrightarrow> pwfN s"
proof (induction q)
  case (PShort k c)
  then have "pwfN (PShort k c)" by simp
  then have "pwfN c \<or> isValue c" by (auto split: if_splits)
  then show ?case using PShort by auto
next
  case (PFull p0 p1 p2)
  then have wf: "pwfN (PFull p0 p1 p2)" by (simp del: pwfN.simps)
  have "pwfN p0 \<or> p0 = PNil" "pwfN p1 \<or> p1 = PNil" "p2 = PNil \<or> isValue p2" using pwf_child [OF wf] by (auto simp: pwf_def)
  then show ?case using PFull.IH PFull.prems(2) wf by (auto simp del: pwfN.simps)
qed auto

section \<open>Committing a subtree\<close>

text \<open>
  What committing a subtree does: the database stays in order and keeps what it had; a subtree
  with a hash is now readable under it, a small one is returned for its parent to embed.
\<close>

definition rawRef :: "crypto \<Rightarrow> ptree \<Rightarrow> rawNode" where
  "rawRef H c = (if large H c then RawHash (pdigest H c) else rawOf H c)"

definition grown :: "rlpReader \<Rightarrow> crypto \<Rightarrow> Database \<Rightarrow> Database \<Rightarrow> ptree set \<Rightarrow> bool" where
  "grown d H db db' T \<longleftrightarrow> dbOk H db' T \<and> closed d H db' T \<and> extends d db db'"

definition committed :: "rlpReader \<Rightarrow> crypto \<Rightarrow> bool \<Rightarrow> (node \<times> Database) option \<Rightarrow> Database \<Rightarrow> ptree set \<Rightarrow> ptree \<Rightarrow> bool" where
  "committed d H b res db T p \<longleftrightarrow> (\<exists>r db'. res = Some (r, db') \<and> grown d H db db' T \<and>
     (if b \<or> large H p then r = HashN (pdigest H p) \<and> loads (nodeReader d db') (merkle H) b (HashN (pdigest H p)) p
      else simplifyNode r = Some (rawOf H p) \<and> estimateSize r \<noteq> None \<and> avail d H db' p))"

text \<open>A child as its parent stores it; an empty one is nil.\<close>

definition kidDone :: "rlpReader \<Rightarrow> crypto \<Rightarrow> (node \<times> Database) option \<Rightarrow> Database \<Rightarrow> ptree set \<Rightarrow> ptree \<Rightarrow> bool" where
  "kidDone d H res db T p \<longleftrightarrow> (\<exists>r db'. res = Some (r, db') \<and> grown d H db db' T \<and> avail d H db' p \<and>
     (r = NilN \<and> p = PNil \<or> r \<noteq> NilN \<and> simplifyNode r = Some (rawRef H p) \<and> estimateSize r \<noteq> None))"

lemma dbOk_mono: "dbOk H db S \<Longrightarrow> S \<subseteq> T \<Longrightarrow> dbOk H db T"
  unfolding dbOk_def by blast

lemma grown_refl: "dbOk H db S \<Longrightarrow> closed d H db S \<Longrightarrow> S \<subseteq> T \<Longrightarrow> grown d H db db T"
  unfolding grown_def using dbOk_mono closed_mono by auto

lemma grown_trans: "grown d H db db' T \<Longrightarrow> grown d H db' db'' U \<Longrightarrow> grown d H db db'' U"
  unfolding grown_def using extends_trans by blast

lemma committed_trans: "grown d H db db' T \<Longrightarrow> committed d H b res db' U p \<Longrightarrow> committed d H b res db U p"
  unfolding committed_def using grown_trans by blast

lemma committed_kid: "committed d H False res db T p \<Longrightarrow> kidDone d H res db T p"
  unfolding committed_def kidDone_def rawRef_def
  by (auto split: if_splits intro: avail_large)

lemma insert_stored:
  assumes ok: "rlpOk H d" "dbOk H db S" "closed d H db S" and p: "pwfN p" "simplifyNode n = Some (rawOf H p)"
    and free: "collisionFree H (insert p S)" and kids: "\<forall>c\<in>kids p. avail d H db c" and large: "b \<or> large H p"
  shows "\<exists>db'. dbInsert db (pdigest H p) sz n = Some db' \<and> grown d H db db' (insert p S) \<and>
     loads (nodeReader d db') (merkle H) b (HashN (pdigest H p)) p"
proof -
  obtain db' where db': "dbInsert db (pdigest H p) sz n = Some db'" "dbOk H db' (insert p S)" "extends d db db'"
      "nodeReader d db' (pdigest H p) = Some (expanded H (Some (pdigest H p)) p)"
      "\<forall>h. h \<noteq> pdigest H p \<longrightarrow> nodeReader d db' h = nodeReader d db h"
    using dbInsert_ok [OF ok(1,2) p free] by blast
  have kids': "\<forall>c\<in>kids p. avail d H db' c" using kids avail_mono [OF _ db'(3)] by blast
  have "closed d H db' (insert p S)"
    unfolding closed_def
  proof (intro allI impI)
    fix h m assume m: "nodeReader d db' h = Some m"
    show "\<exists>q\<in>insert p S. pwfN q \<and> h = pdigest H q \<and> m = expanded H (Some h) q \<and> (\<forall>c\<in>kids q. avail d H db' c)"
    proof (cases "h = pdigest H p")
      case True
      then show ?thesis using m db'(4) p(1) kids' by auto
    next
      case False
      then have "nodeReader d db h = Some m" using m db'(5) by simp
      then obtain q where "q \<in> S" "pwfN q" "h = pdigest H q" "m = expanded H (Some h) q" "\<forall>c\<in>kids q. avail d H db c"
        using ok(3) unfolding closed_def by blast
      then show ?thesis using avail_mono [OF _ db'(3)] by blast
    qed
  qed
  then show ?thesis using db' present_loads [OF p(1) kids' large db'(4)] unfolding grown_def by blast
qed

lemma store_ok:
  assumes ok: "rlpOk H d" "dbOk H db S" "closed d H db S" and free: "collisionFree H (insert p S)"
    and p: "pwfN p" "simplifyNode n = Some (rawOf H p)" "estimateSize n \<noteq> None"
    and kids: "\<forall>c\<in>kids p. avail d H db c"
    and flag: "nodeCache n = Some (fh, dirty)" "case fh of None \<Rightarrow> \<forall>h. \<not> merkle H b h p | Some h \<Rightarrow> merkle H b h p"
  shows "committed d H b (storeNode n db) db (insert p S) p"
proof -
  have i: "pinner p" using p(1) by (cases p) auto
  show ?thesis
  proof (cases fh)
    case None
    then have "\<not> b" "\<not> large H p" using flag(2) i by (auto simp: merkle_large split: if_splits)
    then show ?thesis
      using None flag(1) p(2,3) avail_small [OF i _ kids] grown_refl [OF ok(2,3) subset_insertI]
      by (auto simp: committed_def storeNode_def)
  next
    case (Some h)
    then have h: "h = pdigest H p" "b \<or> large H p" using flag(2) by (auto simp: merkle_large split: if_splits)
    obtain sz where sz: "estimateSize n = Some sz" using p(3) by blast
    from insert_stored [OF ok p(1,2) free kids h(2), of sz] show ?thesis
      using Some flag(1) sz h by (auto simp: committed_def storeNode_def)
  qed
qed

text \<open>The children that the committer does not enter.\<close>

lemma kid_passed:
  assumes "dbOk H db S" "closed d H db S" "S \<subseteq> T" "extends d db0 db"
    and "loads (nodeReader d db0) (merkle H) False c p" "\<not> inner c"
  shows "kidDone d H (Some (c, db)) db T p"
proof -
  have l: "loads (nodeReader d db) (merkle H) False c p"
    using loads_mono assms(4,5) unfolding extends_def by blast
  have "avail d H db p \<and> (c = NilN \<and> p = PNil \<or> c \<noteq> NilN \<and> simplifyNode c = Some (rawRef H p) \<and> estimateSize c \<noteq> None)"
  proof (cases c)
    case (HashN h)
    then have "large H p" "h = pdigest H p" using l by (auto simp: loads_HashN merkle_large)
    then show ?thesis using HashN l avail_large by (auto simp: rawRef_def)
  qed (use l assms(6) in \<open>auto simp: rawRef_def large_def\<close>)
  then show ?thesis using grown_refl [OF assms(1-3)] by (auto simp: kidDone_def)
qed

lemma kid_entered:
  assumes "dbOk H db S" "closed d H db S" "S \<subseteq> T" "extends d db0 db"
    and "loads (nodeReader d db0) (merkle H) False c p" "pwf p"
    and "pwfN p \<Longrightarrow> committed d H False (commitNode c db) db T p"
  shows "kidDone d H (case c of NilN \<Rightarrow> Some (c, db) | HashN _ \<Rightarrow> Some (c, db) | _ \<Rightarrow> commitNode c db) db T p"
proof (cases "inner c")
  case True
  then have "pwfN p" using assms(5,6) loads_pinner [OF assms(5)] by (auto simp: pwf_def)
  then show ?thesis using committed_kid [OF assms(7)] True by (cases c) auto
next
  case False
  have "\<not> isValue p" using assms(6) by (cases p) (auto simp: pwf_def isValue_def)
  then show ?thesis using kid_passed [OF assms(1-5) False] False assms(5,6) by (cases c) (auto simp: pwf_def)
qed

lemma kidDone_not_nil:
  "kidDone d H res db T p \<Longrightarrow> p \<noteq> PNil \<Longrightarrow> \<exists>r db'. res = Some (r, db') \<and> grown d H db db' T \<and> avail d H db' p \<and>
     r \<noteq> NilN \<and> simplifyNode r = Some (rawRef H p) \<and> estimateSize r \<noteq> None"
  unfolding kidDone_def by blast

lemma flag_cases:
  "flagOk db (merkle H b) f p below \<Longrightarrow> fl_hash f \<noteq> None \<or> (\<forall>h. \<not> merkle H b h p) \<Longrightarrow>
     case fl_hash f of None \<Rightarrow> \<forall>h. \<not> merkle H b h p | Some h \<Rightarrow> merkle H b h p"
  by (auto simp: flagOk_def split: option.splits)

text \<open>A clean node with a hash is in the database already.\<close>

lemma commit_clean:
  assumes "dbOk H db S" "closed d H db S" "extends d db0 db" "collisionFree H (S \<union> isub p)" "pwfN p"
    and "flagOk (nodeReader d db0) (merkle H b) f p below" "fl_hash f = Some h" "\<not> fl_dirty f"
  shows "committed d H b (Some (HashN h, db)) db (S \<union> isub p) p"
proof -
  have i: "pinner p" using assms(5) by (cases p) auto
  have h: "merkle H b h p" "nodeReader d db0 h \<noteq> None" using assms(6-8) by (auto simp: flagOk_def)
  then obtain n where n: "nodeReader d db h = Some n"
    using assms(3) unfolding extends_def map_le_def by (metis domIff not_None_eq)
  then obtain q where q: "q \<in> S" "pwfN q" "h = pdigest H q" "n = expanded H (Some h) q" "\<forall>c\<in>kids q. avail d H db c"
    using assms(2) unfolding closed_def by blast
  have hp: "h = pdigest H p" "b \<or> large H p" using h(1) by (auto simp: merkle_large split: if_splits)
  have "q = p" using assms(4) q(1,3) hp(1) isub_self [OF i] by (auto simp: collisionFree_def inj_on_def)
  then have "loads (nodeReader d db) (merkle H) b (HashN (pdigest H p)) p"
    using present_loads [of p d H db b] assms(5) q(4,5) n hp by simp
  then show ?thesis using grown_refl [OF assms(1,2) Un_upper1] hp by (auto simp: committed_def)
qed

lemma isub_child: "collisionFree H (S \<union> isub p) \<Longrightarrow> c \<in> kids p \<Longrightarrow> collisionFree H (S \<union> isub c)"
  by (erule collisionFree_subset) (cases p; auto)

text \<open>The two kinds of nodes, once their children are done.\<close>

lemma commit_short:
  assumes ok: "rlpOk H d" and free: "collisionFree H (S \<union> isub (PShort k p))" and wf: "pwfN (PShort k p)"
    and f: "flagOk dbr (merkle H b) f (PShort k p) below" "fl_hash f \<noteq> None \<or> (\<forall>h. \<not> merkle H b h (PShort k p))"
    and kid: "kidDone d H res db (S \<union> isub p) p"
  shows "committed d H b (case res of None \<Rightarrow> None | Some (childV, db) \<Rightarrow>
       (case binaryToCompact k of None \<Rightarrow> None | Some ck \<Rightarrow> storeNode (ShortN ck childV f) db))
     db (S \<union> isub (PShort k p)) (PShort k p)"
proof -
  obtain ck where ck: "binaryToCompact k = Some ck" using compact_key [OF wf] by blast
  have "p \<noteq> PNil" using wf by (auto split: if_splits)
  then obtain r db' where r: "res = Some (r, db')" "grown d H db db' (S \<union> isub p)" "avail d H db' p"
      "simplifyNode r = Some (rawRef H p)" "estimateSize r \<noteq> None"
    using kidDone_not_nil [OF kid] by blast
  have g: "dbOk H db' (S \<union> isub p)" "closed d H db' (S \<union> isub p)" using r(2) by (auto simp: grown_def)
  have set: "insert (PShort k p) (S \<union> isub p) = S \<union> isub (PShort k p)" by simp
  have "committed d H b (storeNode (ShortN ck r f) db') db' (insert (PShort k p) (S \<union> isub p)) (PShort k p)"
    using r(3-5) free ck flag_cases [OF f]
    by (intro store_ok [OF ok g _ wf]) (auto simp: rawRef_def)
  from committed_trans [OF r(2) this] show ?thesis unfolding set using r(1) ck by simp
qed

lemma commit_full:
  assumes ok: "rlpOk H d" and free: "collisionFree H (S \<union> isub (PFull p0 p1 p2))" and wf: "pwfN (PFull p0 p1 p2)"
    and f: "flagOk dbr (merkle H b) f (PFull p0 p1 p2) below" "fl_hash f \<noteq> None \<or> (\<forall>h. \<not> merkle H b h (PFull p0 p1 p2))"
    and kid0: "kidDone d H (k0 db) db (S \<union> isub p0) p0"
    and kid1: "\<And>db'. grown d H db db' (S \<union> isub p0) \<Longrightarrow> kidDone d H (k1 db') db' (S \<union> isub p0 \<union> isub p1) p1"
    and c2: "loads dbr (merkle H) False c2 p2"
  shows "committed d H b (case k0 db of None \<Rightarrow> None | Some (h0, db) \<Rightarrow>
       (case k1 db of None \<Rightarrow> None | Some (h1, db) \<Rightarrow> storeNode (FullN h0 h1 c2 f) db))
     db (S \<union> isub (PFull p0 p1 p2)) (PFull p0 p1 p2)"
proof -
  obtain r0 db0 where r0: "k0 db = Some (r0, db0)" "grown d H db db0 (S \<union> isub p0)" "avail d H db0 p0"
      "r0 = NilN \<and> p0 = PNil \<or> r0 \<noteq> NilN \<and> simplifyNode r0 = Some (rawRef H p0) \<and> estimateSize r0 \<noteq> None"
    using kid0 unfolding kidDone_def by blast
  obtain r1 db1 where r1: "k1 db0 = Some (r1, db1)" "grown d H db0 db1 (S \<union> isub p0 \<union> isub p1)" "avail d H db1 p1"
      "r1 = NilN \<and> p1 = PNil \<or> r1 \<noteq> NilN \<and> simplifyNode r1 = Some (rawRef H p1) \<and> estimateSize r1 \<noteq> None"
    using kid1 [OF r0(2)] unfolding kidDone_def by blast
  have p2: "c2 = NilN \<and> p2 = PNil \<or> (\<exists>v. c2 = ValueN v \<and> p2 = PVal v)"
    using pwf_child [OF wf] c2 loads_pinner [OF c2] by (cases c2) (auto elim!: isValueE)
  have g: "dbOk H db1 (S \<union> isub p0 \<union> isub p1)" "closed d H db1 (S \<union> isub p0 \<union> isub p1)"
    using r1(2) by (auto simp: grown_def)
  have set: "insert (PFull p0 p1 p2) (S \<union> isub p0 \<union> isub p1) = S \<union> isub (PFull p0 p1 p2)" using p2 by auto
  have "avail d H db1 p0" using avail_mono [OF r0(3)] r1(2) by (simp add: grown_def)
  then have kids: "\<forall>c\<in>kids (PFull p0 p1 p2). avail d H db1 c" using r1(3) p2 by auto
  have nil: "rawRef H PNil = RawNil" by (simp add: rawRef_def large_def)
  have simp: "simplifyNode (FullN r0 r1 c2 f) = Some (rawOf H (PFull p0 p1 p2))"
    using r0(4) r1(4) p2 nil by (auto simp: Let_def rawRef_def large_def split: if_splits)
  have est: "estimateSize (FullN r0 r1 c2 f) \<noteq> None"
    using r0(4) r1(4) p2 by (auto simp: Let_def split: if_splits)
  have "committed d H b (storeNode (FullN r0 r1 c2 f) db1) db1 (S \<union> isub (PFull p0 p1 p2)) (PFull p0 p1 p2)"
    using store_ok [OF ok g _ wf simp est kids _ flag_cases [OF f]] free unfolding set by simp
  from committed_trans [OF grown_trans [OF r0(2) r1(2)] this] show ?thesis using r0(1) r1(1) by simp
qed

lemma commit_ok:
  assumes "loads (nodeReader d db0) (merkle H) b n p" "rlpOk H d" "pwfN p" "deep (merkle H) b n p"
    and "dbOk H db S" "closed d H db S" "extends d db0 db" "collisionFree H (S \<union> isub p)"
  shows "committed d H b (commitNode n db) db (S \<union> isub p) p"
  using assms
proof (induction arbitrary: db S rule: loads.induct)
  case (L_short c p b f k)
  note free = L_short.prems(7)
  show ?case
  proof (cases "fl_hash f \<noteq> None \<and> \<not> fl_dirty f")
    case True
    then show ?thesis
      using commit_clean [OF L_short.prems(4-7) L_short.prems(2) L_short.hyps(2)]
      by (auto simp: commitNode.simps [of "ShortN k c f"])
  next
    case False
    have sub: "S \<subseteq> S \<union> isub p" by simp
    have kid: "kidDone d H (case c of FullN _ _ _ _ \<Rightarrow> commitNode c db | _ \<Rightarrow> Some (c, db)) db (S \<union> isub p) p"
    proof (cases "inner c")
      case True
      then have "pwfN p" "\<exists>a b e g. c = FullN a b e g"
        using L_short.prems(2) L_short.hyps(1) by (cases c; auto split: if_splits)+
      then show ?thesis
        using committed_kid L_short.IH [OF L_short.prems(1) _ _ L_short.prems(4-6) isub_child [OF free]] L_short.prems(3) by auto
    next
      case False
      then show ?thesis using kid_passed [OF L_short.prems(4,5) sub L_short.prems(6) L_short.hyps(1)]
        by (cases c) auto
    qed
    show ?thesis
      using commit_short [OF L_short.prems(1) free L_short.prems(2) L_short.hyps(2) _ kid] L_short.prems(3) False
      by (auto simp: commitNode.simps [of "ShortN k c f"] split del: if_split)
  qed
next
  case (L_full c0 p0 c1 p1 c2 p2 b f)
  note free = L_full.prems(7)
  show ?case
  proof (cases "fl_hash f \<noteq> None \<and> \<not> fl_dirty f")
    case True
    then show ?thesis
      using commit_clean [OF L_full.prems(4-7) L_full.prems(2) L_full.hyps(4)]
      by (auto simp: commitNode.simps [of "FullN c0 c1 c2 f"])
  next
    case False
    let ?k = "\<lambda>c db. case c of NilN \<Rightarrow> Some (c, db) | HashN _ \<Rightarrow> Some (c, db) | _ \<Rightarrow> commitNode c db"
    note pc = pwf_child [OF L_full.prems(2)]
    have deep: "deep (merkle H) False c0 p0" "deep (merkle H) False c1 p1" using L_full.prems(3) by auto
    have kid0: "kidDone d H (?k c0 db) db (S \<union> isub p0) p0"
      using isub_child [OF free, of p0] pc
      by (intro kid_entered [OF L_full.prems(4,5) Un_upper1 L_full.prems(6) L_full.hyps(1)]
          L_full.IH(1) [OF L_full.prems(1) _ deep(1) L_full.prems(4-6)]) auto
    have kid1: "kidDone d H (?k c1 db') db' (S \<union> isub p0 \<union> isub p1) p1" if "grown d H db db' (S \<union> isub p0)" for db'
    proof -
      have g: "dbOk H db' (S \<union> isub p0)" "closed d H db' (S \<union> isub p0)" "extends d db0 db'"
        using that extends_trans [OF L_full.prems(6)] by (auto simp: grown_def)
      have "collisionFree H (S \<union> isub p0 \<union> isub p1)" using free by (auto elim: collisionFree_subset)
      then show ?thesis using pc
        by (intro kid_entered [OF g(1,2) Un_upper1 g(3) L_full.hyps(2)]
            L_full.IH(2) [OF L_full.prems(1) _ deep(2) g]) auto
    qed
    show ?thesis
      using commit_full [OF L_full.prems(1) free L_full.prems(2) L_full.hyps(4) _ _ _ L_full.hyps(3), of "?k c0" db "?k c1"]
        kid0 kid1 L_full.prems(3) False
      by (auto simp: commitNode.simps [of "FullN c0 c1 c2 f"] split del: if_split)
  qed
next
  case (L_hash h n b p)
  have "loads (nodeReader d db) (merkle H) b (HashN h) p"
    using loads_mono loads.L_hash [OF L_hash.hyps] L_hash.prems(6) unfolding extends_def by blast
  moreover have "h = pdigest H p" "b \<or> large H p" using L_hash.hyps(4) by (auto simp: merkle_large split: if_splits)
  ultimately show ?case using grown_refl [OF L_hash.prems(4,5) Un_upper1]
    by (auto simp: committed_def commitNode.simps)
qed auto

section \<open>Committing a trie\<close>

text \<open>A database in order, whose nodes refer to nodes that it can read, for the subtrees in \<open>S\<close>.\<close>

definition dbGood :: "rlpReader \<Rightarrow> crypto \<Rightarrow> Database \<Rightarrow> ptree set \<Rightarrow> bool" where
  "dbGood d H db S \<longleftrightarrow> dbOk H db S \<and> closed d H db S"

lemma dbGood_new: "(\<And>h. disk h = None) \<Longrightarrow> dbGood d H (NewDatabaseWithCache disk) {}"
  using dbOk_new [of disk H]
  by (auto simp: dbGood_def closed_def nodeReader_def dbNode_def NewDatabaseWithCache_def metaRoot_def cachedObj_def
      split: if_splits)

text \<open>A tree that can be added without a collision; its root is not the root of the empty trie.\<close>

definition storable :: "crypto \<Rightarrow> hash \<Rightarrow> ptree set \<Rightarrow> ptree \<Rightarrow> bool" where
  "storable H emptyRoot S p \<longleftrightarrow> collisionFree H (S \<union> isub p) \<and> pdigest H p \<noteq> emptyRoot"

text \<open>The tree \<open>p\<close> can be opened under its root.\<close>

definition opens :: "rlpReader \<Rightarrow> crypto \<Rightarrow> hash \<Rightarrow> Database \<Rightarrow> ptree \<Rightarrow> bool" where
  "opens d H emptyRoot db p \<longleftrightarrow> (\<exists>t. TrieNew (nodeReader d db) emptyRoot (rootOf H emptyRoot p) = Ok t \<and>
     represents (nodeReader d db) (merkle H) t p)"

lemma opens_empty [simp]: "opens d H emptyRoot db PNil"
  by (simp add: opens_def TrieNew_def rootOf_def represents_def pwf_def)

lemma opens_committed:
  assumes "loads (nodeReader d db) (merkle H) True (HashN (pdigest H p)) p" "pwfN p" "storable H emptyRoot S p"
  shows "opens d H emptyRoot db p"
proof -
  obtain n where "nodeReader d db (pdigest H p) = Some n" "loads (nodeReader d db) (merkle H) True n p"
    using assms(1) by (auto simp: loads_HashN)
  moreover have i: "pinner p" using assms(2) by (cases p) auto
  then have "pdigest H p \<noteq> zeroHash" "pdigest H p \<noteq> emptyRoot" "p \<noteq> PNil"
    using assms(3) isub_self by (auto simp: storable_def collisionFree_def)
  ultimately show ?thesis
    using assms(2) by (auto simp: opens_def TrieNew_def resolveHash_def rootOf_def represents_def pwf_def)
qed

text \<open>
  Everything about a commit: it does not fail, returns the root, keeps the database in order and
  what it held, and afterwards both the trie itself and a trie opened at the root are the tree.
\<close>

lemma TrieCommit_ok:
  assumes ok: "rlpOk H d" "dbGood d H db S" and rep: "represents (nodeReader d db) (merkle H) t p"
    and st: "storable H emptyRoot S p"
  shows "\<exists>t' db'. TrieCommit H emptyRoot t db = Some (rootOf H emptyRoot p, t', db') \<and>
     dbGood d H db' (S \<union> isub p) \<and> extends d db db' \<and>
     represents (nodeReader d db') (merkle H) t' p \<and> opens d H emptyRoot db' p"
proof (cases "tr_root t = NilN")
  case True
  then have "p = PNil" using rep by (simp add: represents_def)
  then show ?thesis using True rep ok(2) by (auto simp: TrieCommit_def rootOf_def)
next
  case False
  obtain t1 where t1: "TrieHash H emptyRoot t = Some (rootOf H emptyRoot p, t1)"
      "represents (nodeReader d db) (merkle H) t1 p" "deep (merkle H) True (tr_root t1) p"
    using TrieHash_deep [OF rep] by blast
  have l: "loads (nodeReader d db) (merkle H) True (tr_root t1) p" using t1(2) by (simp add: represents_def)
  have "p \<noteq> PNil" using rep False loads_not_nil [of "nodeReader d db" "merkle H" True "tr_root t" p] by (auto simp: represents_def)
  then have wf: "pwfN p" using rep by (simp add: represents_def pwf_def)
  have good: "dbOk H db S" "closed d H db S" "collisionFree H (S \<union> isub p)"
    using ok(2) st by (auto simp: dbGood_def storable_def)
  obtain fh dirty where cache: "nodeCache (tr_root t1) = Some (fh, dirty)"
    using loads_not_nil [OF l] \<open>p \<noteq> PNil\<close> by (cases "tr_root t1") auto
  have "committed d H True (commitNode (tr_root t1) db) db (S \<union> isub p) p"
    by (rule commit_ok [OF l ok(1) wf t1(3) good(1,2) extends_refl good(3)])
  then obtain db' where db': "commitNode (tr_root t1) db = Some (HashN (pdigest H p), db')"
      "grown d H db db' (S \<union> isub p)" "loads (nodeReader d db') (merkle H) True (HashN (pdigest H p)) p"
    by (auto simp: committed_def)
  show ?thesis
  proof (cases dirty)
    case True
    then have "TrieCommit H emptyRoot t db = Some (rootOf H emptyRoot p, t1\<lparr>tr_root := HashN (pdigest H p)\<rparr>, db')"
      using False t1(1) cache db'(1) by (simp add: TrieCommit_def committerCommit_def)
    then show ?thesis using db'(2,3) opens_committed [OF db'(3) wf st] wf
      by (auto simp: grown_def dbGood_def represents_def pwf_def)
  next
    case clean: False
    then have "fh \<noteq> None" using cache t1(3) l \<open>p \<noteq> PNil\<close> wf
      by (cases "tr_root t1") (auto simp: merkle_large)
    then have "db' = db" using cache clean db'(1) by (auto simp: commitNode.simps [of "tr_root t1"])
    then show ?thesis
      using False t1(1,2) cache clean db'(2,3) opens_committed [OF db'(3) wf st]
      by (auto simp: TrieCommit_def grown_def dbGood_def)
  qed
qed

text \<open>A tree that could be opened still can.\<close>

lemma opens_extends: "opens d H emptyRoot db q \<Longrightarrow> extends d db db' \<Longrightarrow> opens d H emptyRoot db' q"
proof (cases "rootOf H emptyRoot q \<noteq> zeroHash \<and> rootOf H emptyRoot q \<noteq> emptyRoot")
  case True
  assume "opens d H emptyRoot db q" and e: "extends d db db'"
  then obtain n where n: "nodeReader d db (rootOf H emptyRoot q) = Some n"
      "pwf q" "loads (nodeReader d db) (merkle H) True n q"
    using True by (auto simp: opens_def TrieNew_def resolveHash_def represents_def split: option.splits)
  moreover have "nodeReader d db' (rootOf H emptyRoot q) = Some n"
    using n(1) e by (auto simp: extends_def map_le_def dom_def)
  ultimately show ?thesis
    using True e loads_mono [OF n(3)] by (auto simp: opens_def TrieNew_def resolveHash_def represents_def extends_def)
qed (auto simp: opens_def TrieNew_def represents_def)

text \<open>
  C18: \<open>Commit\<close> makes a trie persistent. On a database in order and without a hash
  collision, \<open>Trie.Commit\<close> of a trie succeeds and returns its root hash; afterwards \<open>New\<close> with
  that root opens a trie with the same content, the committed trie itself (whose root is now a
  hash) still has that content, and every trie that could be opened before can still be opened.
\<close>

theorem commit_persists:
  assumes "rlpOk H d" "dbGood d H db S" "represents (nodeReader d db) (merkle H) t p" "storable H emptyRoot S p"
  shows "\<exists>t' db' t2. TrieCommit H emptyRoot t db = Some (rootOf H emptyRoot p, t', db') \<and>
     TrieNew (nodeReader d db') emptyRoot (rootOf H emptyRoot p) = Ok t2 \<and>
     (\<forall>key. storeGet (nodeReader d db') t2 key = storeGet (nodeReader d db) t key \<and>
        storeGet (nodeReader d db') t' key = storeGet (nodeReader d db) t key) \<and>
     (\<forall>q. opens d H emptyRoot db q \<longrightarrow> opens d H emptyRoot db' q)"
proof -
  obtain t' db' where c: "TrieCommit H emptyRoot t db = Some (rootOf H emptyRoot p, t', db')" "extends d db db'"
      "represents (nodeReader d db') (merkle H) t' p" "opens d H emptyRoot db' p"
    using TrieCommit_ok [OF assms] by blast
  then obtain t2 where "TrieNew (nodeReader d db') emptyRoot (rootOf H emptyRoot p) = Ok t2"
      "represents (nodeReader d db') (merkle H) t2 p"
    by (auto simp: opens_def)
  then show ?thesis
    using c(1,2) storeGet_represents [OF assms(3)] storeGet_represents [OF c(3)]
      storeGet_represents [of "nodeReader d db'" "merkle H" t2 p] opens_extends by auto
qed

definition freshDb :: Database where
  "freshDb = NewDatabaseWithCache (\<lambda>_. None)"

lemma freshDb_good: "dbGood d H freshDb {}"
  unfolding freshDb_def by (rule dbGood_new) simp

definition twoKeys :: Trie where
  "twoKeys =
     (let db = nodeReader markReader freshDb in
      storeUpdate db (storeUpdate db \<lparr>tr_root = NilN, tr_unhashed = 0\<rparr> [1] [7]) [2] [8])"

definition twoTree :: ptree where
  "twoTree = pupdate (pupdate PNil (keybytesToBinary [1]) [7]) (keybytesToBinary [2]) [8]"

lemma twoTree_storable: "storable markCrypto [] {} twoTree"
  unfolding storable_def collisionFree_def inj_on_def by code_simp

lemma twoKeys_represents: "represents (nodeReader markReader freshDb) R twoKeys twoTree"
  unfolding twoKeys_def twoTree_def Let_def
  by (intro storeUpdate_represents) (simp add: represents_def pwf_def)

theorem commit_persists_witness:
  "\<exists>t' db' t2. TrieCommit markCrypto [] twoKeys freshDb = Some (rootOf markCrypto [] twoTree, t', db') \<and>
     TrieNew (nodeReader markReader db') [] (rootOf markCrypto [] twoTree) = Ok t2 \<and>
     storeGet (nodeReader markReader db') t2 [2] = storeGet (nodeReader markReader freshDb) twoKeys [2]"
  using commit_persists [OF rlpOk_mark freshDb_good twoKeys_represents twoTree_storable] by blast

end
