(* ===== verification/SecureTrie.thy ===== *)
theory SecureTrie
  imports Committer StateDB
begin

text \<open>
  The secure trie (\<open>trie/secure_trie.go\<close>): a trie in which every key is first hashed with
  Keccak, with a cache of the key pre-images that a copy does not share. It is the trie behind
  the account state: \<open>secureOps\<close> packs its operations for the theory \<open>StateDB\<close>, and the
  locale \<open>address_crypto\<close> (Keccak has no collision on addresses, RLP decodes what it encodes)
  is a sublocale of the contract \<open>account_trie\<close> on these operations.
\<close>

section \<open>Operations\<close>

record SecureTrie =
  st_trie :: Trie
  st_secKeyCache :: "(bytes \<times> bytes) list"
  st_ownsCache :: bool

definition NewSecure :: "nodeDb \<Rightarrow> hash \<Rightarrow> hash \<Rightarrow> (trieErr, SecureTrie) res" where
  "NewSecure db emptyRoot root =
     rmap (\<lambda>tr. \<lparr>st_trie = tr, st_secKeyCache = [], st_ownsCache = False\<rparr>) (TrieNew db emptyRoot root)"

definition hashKey :: "crypto \<Rightarrow> bytes \<Rightarrow> bytes" where
  "hashKey H key = keccak256 H key"

text \<open>The cache belongs to the trie itself; a copy starts with a fresh one on first use.\<close>

definition getSecKeyCache :: "SecureTrie \<Rightarrow> SecureTrie" where
  "getSecKeyCache t = (if \<not> st_ownsCache t then t\<lparr>st_ownsCache := True, st_secKeyCache := []\<rparr> else t)"

definition SecTryGet :: "nodeDb \<Rightarrow> crypto \<Rightarrow> SecureTrie \<Rightarrow> bytes \<Rightarrow> (trieErr, bytes option) res \<times> SecureTrie" where
  "SecTryGet db H t key =
     (case TryGet db (st_trie t) (hashKey H key) of (r, tr) \<Rightarrow> (r, t\<lparr>st_trie := tr\<rparr>))"

definition SecGet :: "nodeDb \<Rightarrow> crypto \<Rightarrow> SecureTrie \<Rightarrow> bytes \<Rightarrow> (trieErr, bytes option) res \<times> SecureTrie" where
  "SecGet db H t key = (case SecTryGet db H t key of (Err e, t') \<Rightarrow> (Ok None, t') | r \<Rightarrow> r)"

definition SecTryGetNode :: "nodeDb \<Rightarrow> (hash \<Rightarrow> bytes option) \<Rightarrow> SecureTrie \<Rightarrow> bytes \<Rightarrow>
    (trieErr, bytes option \<times> nat) res \<times> SecureTrie" where
  "SecTryGetNode db blob t path =
     (case TryGetNode db blob (st_trie t) path of (r, tr) \<Rightarrow> (r, t\<lparr>st_trie := tr\<rparr>))"

definition SecTryUpdate :: "nodeDb \<Rightarrow> crypto \<Rightarrow> SecureTrie \<Rightarrow> bytes \<Rightarrow> bytes \<Rightarrow> (trieErr, unit) res \<times> SecureTrie" where
  "SecTryUpdate db H t key value =
     (let hk = hashKey H key in
      case TryUpdate db (st_trie t) hk value of
        (Ok _, tr) \<Rightarrow>
          let t = getSecKeyCache (t\<lparr>st_trie := tr\<rparr>)
          in (Ok (), t\<lparr>st_secKeyCache := AList.update hk key (st_secKeyCache t)\<rparr>)
      | (r, tr) \<Rightarrow> (r, t\<lparr>st_trie := tr\<rparr>))"

definition SecUpdate :: "nodeDb \<Rightarrow> crypto \<Rightarrow> SecureTrie \<Rightarrow> bytes \<Rightarrow> bytes \<Rightarrow> (trieErr, unit) res \<times> SecureTrie" where
  "SecUpdate db H t key value = (case SecTryUpdate db H t key value of (Err e, t') \<Rightarrow> (Ok (), t') | r \<Rightarrow> r)"

definition SecTryDelete :: "nodeDb \<Rightarrow> crypto \<Rightarrow> SecureTrie \<Rightarrow> bytes \<Rightarrow> (trieErr, unit) res \<times> SecureTrie" where
  "SecTryDelete db H t key =
     (let hk = hashKey H key; t = getSecKeyCache t;
          t = t\<lparr>st_secKeyCache := AList.delete hk (st_secKeyCache t)\<rparr>
      in case TryDelete db (st_trie t) hk of (r, tr) \<Rightarrow> (r, t\<lparr>st_trie := tr\<rparr>))"

definition SecDelete :: "nodeDb \<Rightarrow> crypto \<Rightarrow> SecureTrie \<Rightarrow> bytes \<Rightarrow> (trieErr, unit) res \<times> SecureTrie" where
  "SecDelete db H t key = (case SecTryDelete db H t key of (Err e, t') \<Rightarrow> (Ok (), t') | r \<Rightarrow> r)"

text \<open>\<open>preimage\<close> is \<open>Database.preimage\<close>.\<close>

definition SecGetKey :: "(hash \<Rightarrow> bytes option) \<Rightarrow> SecureTrie \<Rightarrow> bytes \<Rightarrow> bytes option \<times> SecureTrie" where
  "SecGetKey preimage t shaKey =
     (let t = getSecKeyCache t in
      case map_of (st_secKeyCache t) shaKey of Some key \<Rightarrow> (Some key, t) | None \<Rightarrow> (preimage shaKey, t))"

definition SecHash :: "crypto \<Rightarrow> hash \<Rightarrow> SecureTrie \<Rightarrow> (hash \<times> SecureTrie) option" where
  "SecHash H emptyRoot t = map_option (\<lambda>(h, tr). (h, t\<lparr>st_trie := tr\<rparr>)) (TrieHash H emptyRoot (st_trie t))"

text \<open>
  \<open>SecureTrie.Commit\<close>; the pre-images are recorded in the order of the cache, which Go leaves
  open. A hashed key has 32 bytes, so \<open>BytesToHash\<close> keeps it.
\<close>

definition SecCommit :: "crypto \<Rightarrow> hash \<Rightarrow> SecureTrie \<Rightarrow> Database \<Rightarrow> (hash \<times> SecureTrie \<times> Database) option" where
  "SecCommit H emptyRoot t db =
     (let t = getSecKeyCache t;
          (t, db) = (if length (st_secKeyCache t) > 0
                     then (t\<lparr>st_secKeyCache := []\<rparr>,
                           if db_preimages db \<noteq> None
                           then foldl (\<lambda>db (hk, key). insertPreimage db hk key) db (st_secKeyCache t) else db)
                     else (t, db))
      in map_option (\<lambda>(h, tr, db). (h, t\<lparr>st_trie := tr\<rparr>, db)) (TrieCommit H emptyRoot (st_trie t) db))"

definition SecCopy :: "SecureTrie \<Rightarrow> SecureTrie" where
  "SecCopy t = t\<lparr>st_ownsCache := False\<rparr>"

section \<open>The trie of the state database\<close>

text \<open>
  A call that returns an error gives the left summand. A panic and an endless resolution have
  no value in Go; \<open>unreached\<close> stands for them, and the interpretation below shows that they
  do not occur.
\<close>

definition unreached :: trieErr where
  "unreached = NonConsensus"

definition asSum :: "(trieErr, 'a) res \<times> 't \<Rightarrow> (trieErr + 'a) \<times> 't" where
  "asSum r = (case r of (Ok x, t) \<Rightarrow> (Inr x, t) | (Err e, t) \<Rightarrow> (Inl e, t) | (_, t) \<Rightarrow> (Inl unreached, t))"

definition secureOps :: "crypto \<Rightarrow> rlpReader \<Rightarrow> hash \<Rightarrow> (u64 \<Rightarrow> bytes) \<Rightarrow> (bytes \<Rightarrow> u64 option) \<Rightarrow>
    (Database, SecureTrie) trieOps" where
  "secureOps H d emptyRoot enc dec =
     \<lparr>op_OpenTrie = (\<lambda>db root. fst (asSum (NewSecure (nodeReader d db) emptyRoot root, ()))),
      op_TryGet = (\<lambda>db t k. asSum (SecTryGet (nodeReader d db) H t k)),
      op_TryUpdate = (\<lambda>db t k v. asSum (SecTryUpdate (nodeReader d db) H t k v)),
      op_TryDelete = (\<lambda>db t k. asSum (SecTryDelete (nodeReader d db) H t k)),
      op_Hash = (\<lambda>t. case SecHash H emptyRoot t of Some r \<Rightarrow> r | None \<Rightarrow> (zeroHash, t)),
      op_Commit = (\<lambda>db t. case SecCommit H emptyRoot t db of
        Some (h, t', db') \<Rightarrow> (Inr h, db', t') | None \<Rightarrow> (Inl unreached, db, t)),
      op_CopyTrie = SecCopy,
      encAccount = enc,
      decAccount = dec\<rparr>"

section \<open>The contract\<close>

definition isAddress :: "bytes \<Rightarrow> bool" where
  "isAddress a \<longleftrightarrow> length a = 20"

text \<open>What is relied on of Keccak and RLP: no collision on addresses, and a codec of balances.\<close>

definition cryptoOk :: "crypto \<Rightarrow> (u64 \<Rightarrow> bytes) \<Rightarrow> (bytes \<Rightarrow> u64 option) \<Rightarrow> bool" where
  "cryptoOk H enc dec \<longleftrightarrow> inj_on (keccak256 H) {a. isAddress a} \<and> (\<forall>b. dec (enc b) = Some b \<and> enc b \<noteq> [])"

definition secLook :: "crypto \<Rightarrow> ptree \<Rightarrow> bytes \<Rightarrow> bytes option" where
  "secLook H p k = plookup p (keybytesToBinary (hashKey H k))"

definition secSet :: "crypto \<Rightarrow> ptree \<Rightarrow> bytes \<Rightarrow> bytes \<Rightarrow> ptree" where
  "secSet H p k v = pupdate p (keybytesToBinary (hashKey H k)) v"

definition secRep :: "crypto \<Rightarrow> rlpReader \<Rightarrow> Database \<Rightarrow> SecureTrie \<Rightarrow> ptree \<Rightarrow> bool" where
  "secRep H d db t p \<longleftrightarrow> represents (nodeReader d db) (merkle H) (st_trie t) p"

lemma secRep_cong: "secRep H d db t p \<Longrightarrow> st_trie t' = st_trie t \<Longrightarrow> secRep H d db t' p"
  by (simp add: secRep_def)

lemma st_trie_cache [simp]: "st_trie (getSecKeyCache t) = st_trie t"
  by (simp add: getSecKeyCache_def)

lemma SecTryGet_rep:
  "secRep H d db t p \<Longrightarrow> \<exists>t'. SecTryGet (nodeReader d db) H t k = (Ok (secLook H p k), t') \<and> secRep H d db t' p"
  using TryGet_represents [of "nodeReader d db" "merkle H" "st_trie t" p "hashKey H k"]
  by (auto simp: SecTryGet_def secRep_def secLook_def)

lemma SecTryUpdate_rep:
  "secRep H d db t p \<Longrightarrow> \<exists>t'. SecTryUpdate (nodeReader d db) H t k v = (Ok (), t') \<and> secRep H d db t' (secSet H p k v)"
  using TryUpdate_represents [of "nodeReader d db" "merkle H" "st_trie t" p "hashKey H k" v]
  by (auto simp: SecTryUpdate_def secRep_def secSet_def Let_def)

lemma SecTryDelete_rep:
  "secRep H d db t p \<Longrightarrow> \<exists>t'. SecTryDelete (nodeReader d db) H t k = (Ok (), t') \<and> secRep H d db t' (secSet H p k [])"
  using TryUpdate_represents [of "nodeReader d db" "merkle H" "st_trie t" p "hashKey H k" "[]"]
  by (auto simp: SecTryDelete_def TryDelete_eq secRep_def secSet_def Let_def)

lemma SecHash_rep:
  "secRep H d db t p \<Longrightarrow> \<exists>t'. SecHash H er t = Some (rootOf H er p, t') \<and> secRep H d db t' p"
  using TrieHash_represents [of "nodeReader d db" H "st_trie t" p er] by (auto simp: SecHash_def secRep_def)

lemma hashKey_inj:
  "cryptoOk H enc dec \<Longrightarrow> isAddress k \<Longrightarrow> isAddress k' \<Longrightarrow>
     keybytesToBinary (hashKey H k) = keybytesToBinary (hashKey H k') \<longleftrightarrow> k = k'"
  using keybytesToBinary_inj by (auto simp: cryptoOk_def hashKey_def inj_on_def)

text \<open>The laws of the contract, for every choice of the cryptography that satisfies the hypotheses.\<close>

lemma secure_account_trie:
  assumes ok: "cryptoOk H enc dec"
  shows "account_trie pwf isAddress (secLook H) (secSet H) (secureOps H r er enc dec) (secRep H r) (rootOf H er)"
proof
  show "pwf (secSet H s k v)" if "pwf s" for s k v
    using that by (simp add: secSet_def pat.upd_inv)
  show "secLook H (secSet H s k v) k' = (if k' = k then if v = [] then None else Some v else secLook H s k')"
    if "pwf s" "isAddress k" "isAddress k'" for s k k' v
    using that hashKey_inj [OF ok, of k' k] by (simp add: secSet_def secLook_def pat.upd_look)
  show "pwf c" if "secRep H r d t c" for d t c
    using that by (simp add: secRep_def represents_def)
  show "\<exists>t'. op_TryGet (secureOps H r er enc dec) d t k = (Inr (secLook H c k), t') \<and> secRep H r d t' c"
    if "secRep H r d t c" for d t c k
    using SecTryGet_rep [OF that, of k] by (auto simp: secureOps_def asSum_def)
  show "\<exists>t'. op_TryUpdate (secureOps H r er enc dec) d t k v = (Inr (), t') \<and> secRep H r d t' (secSet H c k v)"
    if "secRep H r d t c" for d t c k v
    using SecTryUpdate_rep [OF that, of k v] by (auto simp: secureOps_def asSum_def)
  show "\<exists>t'. op_TryDelete (secureOps H r er enc dec) d t k = (Inr (), t') \<and> secRep H r d t' (secSet H c k [])"
    if "secRep H r d t c" for d t c k
    using SecTryDelete_rep [OF that, of k] by (auto simp: secureOps_def asSum_def)
  show "\<exists>t'. op_Hash (secureOps H r er enc dec) t = (rootOf H er c, t') \<and> secRep H r d t' c"
    if "secRep H r d t c" for d t c
    using SecHash_rep [OF that, of er] by (auto simp: secureOps_def)
  show "secSet H (secSet H c k v) k' v' = secSet H (secSet H c k' v') k v"
    if "pwf c" "isAddress k" "isAddress k'" "k \<noteq> k'" for c k k' v v'
    using that hashKey_inj [OF ok, of k k'] by (simp add: secSet_def pat.upd_commute)
  show "decAccount (secureOps H r er enc dec) (encAccount (secureOps H r er enc dec) b) = Some b"
    "encAccount (secureOps H r er enc dec) b \<noteq> []" for b
    using ok by (simp_all add: secureOps_def cryptoOk_def)
qed

locale address_crypto =
  fixes H :: crypto and r :: rlpReader and er :: hash and enc :: "u64 \<Rightarrow> bytes" and dec :: "bytes \<Rightarrow> u64 option"
  assumes ok: "cryptoOk H enc dec"

sublocale address_crypto \<subseteq> secure: account_trie pwf isAddress "secLook H" "secSet H"
    "secureOps H r er enc dec" "secRep H r" "rootOf H er"
  by (rule secure_account_trie) (rule ok)

text \<open>Committing: the recorded pre-images do not concern the nodes.\<close>

lemma insertPreimage_nodes:
  "nodeReader d (insertPreimage db h k) = nodeReader d db" "dbGood d H (insertPreimage db h k) S = dbGood d H db S"
proof -
  show r: "nodeReader d (insertPreimage db h k) = nodeReader d db"
    by (auto simp: insertPreimage_def nodeReader_def dbNode_def fun_eq_iff split: option.splits)
  have "dbOk H (insertPreimage db h k) S = dbOk H db S"
    by (auto simp: insertPreimage_def dbOk_def split: option.splits)
  then show "dbGood d H (insertPreimage db h k) S = dbGood d H db S"
    by (simp add: dbGood_def closed_def avail_def r)
qed

lemma insertPreimages_nodes:
  "nodeReader d (foldl (\<lambda>db (hk, key). insertPreimage db hk key) db ps) = nodeReader d db"
  "dbGood d H (foldl (\<lambda>db (hk, key). insertPreimage db hk key) db ps) S = dbGood d H db S"
  by (induction ps arbitrary: db) (auto simp: insertPreimage_nodes split: prod.splits)

lemma SecCommit_rep:
  assumes "rlpOk H d" "dbGood d H db S" "secRep H d db t p" "storable H er S p"
  shows "\<exists>t' db'. SecCommit H er t db = Some (rootOf H er p, t', db') \<and> dbGood d H db' (S \<union> isub p) \<and>
     secRep H d db' t' p \<and> opens d H er db' p \<and> (\<forall>q. opens d H er db q \<longrightarrow> opens d H er db' q)"
proof -
  define db1 where "db1 = (if length (st_secKeyCache (getSecKeyCache t)) > 0 \<and> db_preimages db \<noteq> None
    then foldl (\<lambda>db (hk, key). insertPreimage db hk key) db (st_secKeyCache (getSecKeyCache t)) else db)"
  have n: "nodeReader d db1 = nodeReader d db" "dbGood d H db1 S = dbGood d H db S"
    by (simp_all add: db1_def insertPreimages_nodes)
  obtain tr db' where c: "TrieCommit H er (st_trie t) db1 = Some (rootOf H er p, tr, db')"
      "dbGood d H db' (S \<union> isub p)" "represents (nodeReader d db') (merkle H) tr p" "opens d H er db' p" "extends d db1 db'"
    using TrieCommit_ok [OF assms(1) _ _ assms(4), of db1 "st_trie t"] assms(2,3) n by (auto simp: secRep_def)
  have "\<exists>t1. SecCommit H er t db = map_option (\<lambda>(h, tr, db). (h, t1\<lparr>st_trie := tr\<rparr>, db)) (TrieCommit H er (st_trie t) db1)"
    by (auto simp: SecCommit_def Let_def db1_def)
  moreover have "opens d H er db' q" if "opens d H er db q" for q
    using opens_extends [OF _ c(5), of H er q] that n(1) by (simp add: opens_def)
  ultimately show ?thesis using c by (auto simp: secRep_def)
qed

lemma opens_secure:
  "opens r H er db q \<longleftrightarrow> (\<exists>t. op_OpenTrie (secureOps H r er enc dec) db (rootOf H er q) = Inr t \<and> secRep H r db t q)"
  by (auto simp: opens_def secureOps_def NewSecure_def asSum_def secRep_def res_simps split: res.splits)

lemma secure_persistent_trie:
  assumes "cryptoOk H enc dec" and codec: "rlpOk H r"
  shows "persistent_trie pwf isAddress (secLook H) (secSet H) (secureOps H r er enc dec) (secRep H r) (rootOf H er)
     (\<lambda>S db. dbGood r H db S) (storable H er) (\<lambda>S c. S \<union> isub c)"
proof (intro persistent_trie.intro persistent_trie_axioms.intro secure_account_trie assms)
  fix d t c S
  assume "secRep H r d t c" "dbGood r H d S" "storable H er S c"
  from SecCommit_rep [OF codec this(2,1,3)] obtain t' db'
    where c: "SecCommit H er t d = Some (rootOf H er c, t', db')" "dbGood r H db' (S \<union> isub c)"
      "secRep H r db' t' c" "opens r H er db' c" "\<And>q. opens r H er d q \<Longrightarrow> opens r H er db' q" by blast
  let ?ops = "secureOps H r er enc dec"
  have old: "\<exists>t1. op_OpenTrie ?ops db' (rootOf H er c0) = Inr t1 \<and> secRep H r db' t1 c0"
    if "op_OpenTrie ?ops d (rootOf H er c0) = Inr t0" "secRep H r d t0 c0" for c0 t0
    using c(5) that opens_secure [of r H er _ c0 enc dec] by metis
  obtain tr where tr: "op_OpenTrie ?ops db' (rootOf H er c) = Inr tr" "secRep H r db' tr c"
    using c(4) opens_secure [of r H er _ c enc dec] by metis
  have "op_Commit ?ops d t = (Inr (rootOf H er c), db', t')" using c(1) by (simp add: secureOps_def)
  then show "\<exists>d' t' t2. op_Commit (secureOps H r er enc dec) d t = (Inr (rootOf H er c), d', t') \<and>
      dbGood r H d' (S \<union> isub c) \<and> secRep H r d' t' c \<and>
      op_OpenTrie (secureOps H r er enc dec) d' (rootOf H er c) = Inr t2 \<and> secRep H r d' t2 c \<and>
      (\<forall>c0 t0. op_OpenTrie ?ops d (rootOf H er c0) = Inr t0 \<and> secRep H r d t0 c0 \<longrightarrow>
        (\<exists>t1. op_OpenTrie ?ops d' (rootOf H er c0) = Inr t1 \<and> secRep H r d' t1 c0))"
    using c(2,3) tr old by blast
qed

locale storing_crypto = address_crypto +
  assumes codec: "rlpOk H r"

sublocale storing_crypto \<subseteq> persist: persistent_trie pwf isAddress "secLook H" "secSet H"
    "secureOps H r er enc dec" "secRep H r" "rootOf H er" "\<lambda>S db. dbGood r H db S" "storable H er" "\<lambda>S c. S \<union> isub c"
  by (rule secure_persistent_trie) (rule ok codec)+

text \<open>
  Functions that satisfy the hypotheses: a unary codec of balances, and the identity in the
  place of Keccak.
\<close>

definition plainEnc :: "u64 \<Rightarrow> bytes" where
  "plainEnc b = replicate (unat b + 1) 0"

definition plainDec :: "bytes \<Rightarrow> u64 option" where
  "plainDec bs = (if bs = [] then None else Some (of_nat (length bs - 1)))"

definition plainCrypto :: crypto where
  "plainCrypto = \<lparr>rlpEncode = (\<lambda>_. []), keccak256 = (\<lambda>d. d)\<rparr>"

lemma plain_ok: "cryptoOk plainCrypto plainEnc plainDec"
  by (simp add: cryptoOk_def plainCrypto_def plainEnc_def plainDec_def)

interpretation plain: address_crypto plainCrypto r er plainEnc plainDec for r er
  using plain_ok by unfold_locales

text \<open>The codec of the theory \<open>Decode\<close> also has no collision on addresses.\<close>

lemma mark_ok: "cryptoOk markCrypto plainEnc plainDec"
proof -
  have "inj_on (keccak256 markCrypto) {a. isAddress a}"
    by (auto simp: inj_on_def markCrypto_def isAddress_def)
  then show ?thesis by (simp add: cryptoOk_def plainEnc_def plainDec_def)
qed

interpretation mark: storing_crypto markCrypto markReader er plainEnc plainDec for er
  using mark_ok rlpOk_mark by unfold_locales

section \<open>Properties of the account state\<close>

text \<open>The balance that a state gives an address.\<close>

definition balance :: "('d, 't) trieOps \<Rightarrow> ('d, 't) StateDB \<Rightarrow> address \<Rightarrow> u64" where
  "balance ops s a = fst (GetBalance ops s a)"

text \<open>
  The states of the properties: the trie represents a minimal tree, every live object is
  stored under its own address, and a live object that is not marked agrees with the trie.
\<close>

definition stateOk :: "crypto \<Rightarrow> rlpReader \<Rightarrow> (bytes \<Rightarrow> u64 option) \<Rightarrow> (Database, SecureTrie) StateDB \<Rightarrow> ptree \<Rightarrow> bool" where
  "stateOk H r dec s p \<longleftrightarrow>
     secRep H r (sd_db s) (sd_trie s) p \<and> distinct (sd_stateObjectsPending s) \<and>
     (\<forall>a \<in> set (sd_stateObjectsPending s). sd_stateObjects s a \<noteq> None) \<and>
     (\<forall>a obj. sd_stateObjects s a = Some obj \<longrightarrow> so_address obj = a \<and> isAddress a \<and>
       (a \<in> set (map fst (j_dirties (sd_journal s))) \<or> a \<in> set (sd_stateObjectsPending s) \<or>
        balanceOf (Some obj) = balanceOf (lookObj dec (secLook H p) Map.empty a)))"

context address_crypto
begin

abbreviation "theOps \<equiv> secureOps H r er enc dec"

lemma decAccount_theOps: "decAccount theOps = dec"
  by (simp add: secureOps_def)

lemma stateOk_agrees: "stateOk H r dec s p \<longleftrightarrow> secure.agrees s p"
  unfolding stateOk_def secure.agrees_def secure.good_def secure.dirtySet_def secure.trieBalance_def
    decAccount_theOps by blast

lemma stateOk_good: "stateOk H r dec s p \<Longrightarrow> secure.good s p"
  by (simp add: stateOk_agrees secure.agrees_def)

lemma balance_view: "secure.good s p \<Longrightarrow> isAddress a \<Longrightarrow> balance theOps s a = balanceOf (secure.view s p a)"
  using secure.GetBalance_spec [of s p a] by (auto simp: balance_def)

lemma sets_balance:
  assumes "secure.good s p" "secure.sets s p a x s'" "isAddress b"
  shows "balance theOps s' b = (if b = a then x else balance theOps s b)"
proof -
  have "secure.good s' p" "balanceOf (secure.view s' p b) = (if b = a then x else balanceOf (secure.view s p b))"
    using assms(2) by (simp_all add: secure.sets_def)
  then show ?thesis using balance_view [OF assms(1,3)] balance_view [of s' p b] assms(3) by simp
qed

lemma balances_change:
  assumes "stateOk H r dec s p" "isAddress a"
  shows "stateOk H r dec (AddBalance theOps s a x) p" "stateOk H r dec (SubBalance theOps s a x) p"
    "stateOk H r dec (SetBalance theOps s a x) p"
    and "isAddress b \<Longrightarrow> balance theOps (AddBalance theOps s a x) b =
      (if b = a then balance theOps s a + x else balance theOps s b)"
    and "isAddress b \<Longrightarrow> balance theOps (SubBalance theOps s a x) b =
      (if b = a then balance theOps s a - x else balance theOps s b)"
    and "isAddress b \<Longrightarrow> balance theOps (SetBalance theOps s a x) b = (if b = a then x else balance theOps s b)"
proof -
  have ag: "secure.agrees s p" and g: "secure.good s p" using assms(1) stateOk_good by (simp_all add: stateOk_agrees)
  show "stateOk H r dec (AddBalance theOps s a x) p" "stateOk H r dec (SubBalance theOps s a x) p"
      "stateOk H r dec (SetBalance theOps s a x) p"
    unfolding stateOk_agrees using secure.agrees_marks [OF ag] secure.AddBalance_marks [OF g assms(2)]
      secure.SubBalance_marks [OF g assms(2)] secure.SetBalance_marks [OF g assms(2)] by blast+
  note sp = secure.AddBalance_spec [OF g assms(2), of x] secure.SubBalance_spec [OF g assms(2), of x]
    secure.SetBalance_spec [OF g assms(2), of x]
  show "isAddress b \<Longrightarrow> balance theOps (AddBalance theOps s a x) b =
      (if b = a then balance theOps s a + x else balance theOps s b)"
    "isAddress b \<Longrightarrow> balance theOps (SubBalance theOps s a x) b =
      (if b = a then balance theOps s a - x else balance theOps s b)"
    "isAddress b \<Longrightarrow> balance theOps (SetBalance theOps s a x) b = (if b = a then x else balance theOps s b)"
    using sets_balance [OF g sp(1)] sets_balance [OF g sp(2)] sets_balance [OF g sp(3)] balance_view [OF g assms(2)]
    by simp_all
qed

lemma revert_balances:
  assumes "stateOk H r dec s p" "\<forall>op \<in> set os. opOn isAddress op"
  shows "\<exists>z. journalRevert theOps (foldl (applyOp theOps) s os) (journalLength (sd_journal s)) = Some z \<and>
     (\<forall>a. isAddress a \<longrightarrow> balance theOps z a = balance theOps s a) \<and>
     sd_refund z = sd_refund s \<and> GetLogs z = GetLogs s \<and> j_entries (sd_journal z) = j_entries (sd_journal s)"
proof -
  obtain z where z: "journalRevert theOps (foldl (applyOp theOps) s os) (journalLength (sd_journal s)) = Some z"
      "secure.same s p z" "j_entries (sd_journal z) = j_entries (sd_journal s)"
    using secure.revert_restores [OF stateOk_good [OF assms(1)] assms(2)] by blast
  then show ?thesis using balance_view by (auto simp: secure.same_def)
qed

lemma root_balances:
  assumes "stateOk H r dec s p" "\<And>a obj. sd_stateObjects s a = Some obj \<Longrightarrow> \<not> so_suicided obj"
  shows "\<exists>q s'. IntermediateRoot theOps s d = Some (rootOf H er q, s') \<and> stateOk H r dec s' q \<and>
     (\<forall>a. isAddress a \<longrightarrow>
        balanceOf (lookObj dec (secLook H q) Map.empty a) = balance theOps s a \<and>
        balance theOps s' a = balance theOps s a)"
proof -
  obtain q s' where q: "IntermediateRoot theOps s d = Some (rootOf H er q, s')" "secure.agrees s' q"
      "\<And>a. isAddress a \<Longrightarrow> secure.trieBalance q a = balanceOf (secure.view s p a) \<and>
         balanceOf (secure.view s' q a) = balanceOf (secure.view s p a)"
    using secure.IntermediateRoot_balances [of s p d] assms unfolding stateOk_agrees by blast
  have "secure.good s p" "secure.good s' q" using assms(1) q(2) by (simp_all add: stateOk_agrees secure.agrees_def)
  then show ?thesis using q unfolding stateOk_agrees secure.trieBalance_def decAccount_theOps
    by (auto simp: balance_view decAccount_theOps)
qed

lemma root_tree:
  assumes "stateOk H r dec s p" "\<And>a obj. sd_stateObjects s a = Some obj \<Longrightarrow> \<not> so_suicided obj"
  shows "\<exists>s'. IntermediateRoot theOps s d = Some (rootOf H er (secure.flushed s p d), s') \<and>
     stateOk H r dec s' (secure.flushed s p d)"
  using secure.IntermediateRoot_balances [of s p d] assms unfolding stateOk_agrees by blast

lemma root_order:
  assumes "stateOk H r dec s p" "stateOk H r dec s' p" "sd_stateObjects s' = sd_stateObjects s"
    and "set (sd_stateObjectsPending s') = set (sd_stateObjectsPending s)"
    and "set (map fst (j_dirties (sd_journal s'))) = set (map fst (j_dirties (sd_journal s)))"
  shows "map_option fst (IntermediateRoot theOps s' d) = map_option fst (IntermediateRoot theOps s d)"
proof -
  have ag: "secure.agrees s p" "secure.agrees s' p" using assms(1,2) by (simp_all add: stateOk_agrees)
  have "secure.flushed s' p d = secure.flushed s p d"
    using secure.flushed_order [OF ag assms(3,4)] assms(5) by (simp add: secure.dirtySet_def)
  then show ?thesis
    using secure.IntermediateRoot_flushed [OF ag(1), of d] secure.IntermediateRoot_flushed [OF ag(2), of d] by auto
qed

end

text \<open>A node is the tree of one content only.\<close>

lemma loads_unique: "loads db R b n p \<Longrightarrow> loads db R b' n q \<Longrightarrow> p = q"
proof (induction arbitrary: b' q rule: loads.induct)
  case (L_short c p b f k)
  obtain p' where p': "q = PShort k p'" "loads db R False c p'" using L_short.prems by auto
  show ?case using L_short.IH [OF p'(2)] p'(1) by simp
next
  case (L_full c0 p0 c1 p1 c2 p2 b f)
  obtain q0 q1 q2 where q: "q = PFull q0 q1 q2" "loads db R False c0 q0" "loads db R False c1 q1" "loads db R False c2 q2"
    using L_full.prems by auto
  show ?case using L_full.IH(1) [OF q(2)] L_full.IH(2) [OF q(3)] L_full.IH(3) [OF q(4)] q(1) by simp
next
  case (L_hash h n b p)
  have "loads db R b' n q" using L_hash.prems L_hash.hyps(1) by (simp add: loads_HashN)
  then show ?case by (rule L_hash.IH)
qed simp_all

lemma stateOk_unique: "stateOk H r dec s p \<Longrightarrow> stateOk H r dec s q \<Longrightarrow> p = q"
  using loads_unique by (auto simp: stateOk_def secRep_def represents_def)

context storing_crypto
begin

lemma commit_balances:
  assumes "stateOk H r dec s p" "\<And>a obj. sd_stateObjects s a = Some obj \<Longrightarrow> \<not> so_suicided obj"
    and "sd_dbErr s = None" "dbGood r H (sd_db s) S"
    and q: "IntermediateRoot theOps s d = Some (root, s1)" "stateOk H r dec s1 q" "storable H er S q"
  shows "\<exists>s' s2. StateCommit theOps s d = Some (Inr root, s') \<and> dbGood r H (sd_db s') (S \<union> isub q) \<and>
     StateNew theOps root (sd_db s') = Inr s2 \<and> stateOk H r dec s2 q \<and>
     (\<forall>a. isAddress a \<longrightarrow> balance theOps s' a = balance theOps s a \<and> balance theOps s2 a = balance theOps s a)"
proof -
  have ag: "secure.agrees s p" and g: "secure.good s p" using assms(1) stateOk_good by (simp_all add: stateOk_agrees)
  let ?c = "secure.flushed s p d"
  obtain t' where t': "IntermediateRoot theOps s d = Some (rootOf H er ?c,
      (Finalise s d)\<lparr>sd_stateObjectsPending := [], sd_trie := t'\<rparr>)" "secRep H r (sd_db s) t' ?c"
    using secure.IntermediateRoot_flushed [OF ag] by blast
  have "sd_trie s1 = t'" "sd_db s1 = sd_db s" "root = rootOf H er ?c"
    using t'(1) q(1) by (auto simp: Finalise_effect)
  moreover from this have "?c = q"
    using t'(2) q(2) loads_unique by (auto simp: stateOk_def secRep_def represents_def)
  ultimately have eq: "?c = q" "root = rootOf H er q" by auto
  obtain s' s2 where c: "StateCommit theOps s d = Some (Inr root, s')" "dbGood r H (sd_db s') (S \<union> isub q)"
      "secure.good s' q" "StateNew theOps root (sd_db s') = Inr s2" "secure.agrees s2 q"
      "\<And>a. isAddress a \<Longrightarrow> balanceOf (secure.view s' q a) = balanceOf (secure.view s p a) \<and>
        balanceOf (secure.view s2 q a) = balanceOf (secure.view s p a)"
    using persist.StateCommit_flushed [OF ag _ assms(3,4), where d = d] assms(2) q(3) unfolding eq by blast
  have "secure.good s2 q" using c(5) by (simp add: secure.agrees_def)
  then show ?thesis using c g by (auto simp: stateOk_agrees balance_view)
qed

end

text \<open>
  C11: the balances of the state. On a state in order, \<open>AddBalance\<close> and \<open>SubBalance\<close> change the
  balance of the given address by the amount, in 64-bit arithmetic, \<open>SetBalance\<close> sets it, no
  other balance changes, and the state stays in order, whether the account was live, in the
  trie only, deleted or absent.
\<close>

theorem state_balances:
  assumes "cryptoOk H enc dec" "stateOk H r dec s p" "isAddress a"
    and "ops = secureOps H r er enc dec"
  shows "stateOk H r dec (AddBalance ops s a x) p \<and> stateOk H r dec (SubBalance ops s a x) p \<and>
     stateOk H r dec (SetBalance ops s a x) p \<and>
     (\<forall>b. isAddress b \<longrightarrow>
        balance ops (AddBalance ops s a x) b = (if b = a then balance ops s a + x else balance ops s b) \<and>
        balance ops (SubBalance ops s a x) b = (if b = a then balance ops s a - x else balance ops s b) \<and>
        balance ops (SetBalance ops s a x) b = (if b = a then x else balance ops s b))"
proof -
  have "address_crypto H enc dec" using assms(1) by (simp add: address_crypto_def)
  from address_crypto.balances_change [OF this assms(2,3), where er = er and x = x] show ?thesis
    unfolding assms(4) by blast
qed

text \<open>An empty state over an empty database, for the witnesses.\<close>

definition freshState :: "(Database, SecureTrie) StateDB" where
  "freshState = emptyStateDB freshDb
     \<lparr>st_trie = \<lparr>tr_root = NilN, tr_unhashed = 0\<rparr>, st_secKeyCache = [], st_ownsCache = False\<rparr>"

lemma freshState_ok: "stateOk plainCrypto markReader plainDec freshState PNil"
  by (simp add: stateOk_def freshState_def emptyStateDB_def secRep_def represents_def pwf_def)

definition freshOps :: "(Database, SecureTrie) trieOps" where
  "freshOps = secureOps plainCrypto markReader zeroHash plainEnc plainDec"

theorem state_balances_witness:
  "stateOk plainCrypto markReader plainDec (AddBalance freshOps freshState ripemd 5) PNil \<and>
   balance freshOps (AddBalance freshOps freshState ripemd 5) ripemd = balance freshOps freshState ripemd + 5"
proof -
  have "isAddress ripemd" by (simp add: isAddress_def ripemd_def)
  then show ?thesis using state_balances [OF plain_ok freshState_ok _ freshOps_def, of ripemd 5] by simp
qed

text \<open>
  C12: the journal undoes everything. After any sequence of balance changes, account
  creations, suicides, refunds and logs on a state in order, \<open>journal.revert\<close> to the length the
  journal had before returns (it never panics), and every balance, the refund counter, the
  logs and the journal entries are what they were.
\<close>

theorem journal_revert_restores:
  assumes "cryptoOk H enc dec" "stateOk H r dec s p" "\<forall>op \<in> set os. opOn isAddress op"
    and "ops = secureOps H r er enc dec"
  shows "\<exists>z. journalRevert ops (foldl (applyOp ops) s os) (journalLength (sd_journal s)) = Some z \<and>
     (\<forall>a. isAddress a \<longrightarrow> balance ops z a = balance ops s a) \<and>
     sd_refund z = sd_refund s \<and> GetLogs z = GetLogs s \<and> j_entries (sd_journal z) = j_entries (sd_journal s)"
proof -
  have "address_crypto H enc dec" using assms(1) by (simp add: address_crypto_def)
  from address_crypto.revert_balances [OF this assms(2,3), where er = er] show ?thesis unfolding assms(4) .
qed

theorem journal_revert_restores_witness:
  "\<exists>z. journalRevert freshOps (foldl (applyOp freshOps) freshState [AddB ripemd 5, SuicideO ripemd, SubB ripemd 1])
       (journalLength (sd_journal freshState)) = Some z \<and>
     (\<forall>a. isAddress a \<longrightarrow> balance freshOps z a = balance freshOps freshState a) \<and>
     sd_refund z = sd_refund freshState \<and> GetLogs z = GetLogs freshState \<and>
     j_entries (sd_journal z) = j_entries (sd_journal freshState)"
  by (rule journal_revert_restores [OF plain_ok freshState_ok _ freshOps_def]) (simp add: isAddress_def ripemd_def)

text \<open>
  C13: the state root commits to the balances. On a state in order without suicided
  objects, \<open>IntermediateRoot\<close> returns the Merkle root of a tree in which every address has
  exactly the balance that the state gave it, and leaves every balance as it was.
\<close>

theorem intermediate_root_commits:
  assumes "cryptoOk H enc dec" "stateOk H r dec s p"
    and "\<And>a obj. sd_stateObjects s a = Some obj \<Longrightarrow> \<not> so_suicided obj"
    and "ops = secureOps H r er enc dec"
  shows "\<exists>q s'. IntermediateRoot ops s d = Some (rootOf H er q, s') \<and> stateOk H r dec s' q \<and>
     (\<forall>a. isAddress a \<longrightarrow>
        balanceOf (lookObj dec (secLook H q) Map.empty a) = balance ops s a \<and>
        balance ops s' a = balance ops s a)"
proof -
  have "address_crypto H enc dec" using assms(1) by (simp add: address_crypto_def)
  from address_crypto.root_balances [OF this assms(2), where er = er and d = d] assms(3) show ?thesis
    unfolding assms(4) by blast
qed

theorem intermediate_root_commits_witness:
  "\<exists>q s'. IntermediateRoot freshOps freshState False = Some (rootOf plainCrypto zeroHash q, s') \<and>
     stateOk plainCrypto markReader plainDec s' q \<and>
     (\<forall>a. isAddress a \<longrightarrow>
        balanceOf (lookObj plainDec (secLook plainCrypto q) Map.empty a) = balance freshOps freshState a \<and>
        balance freshOps s' a = balance freshOps freshState a)"
  by (rule intermediate_root_commits [OF plain_ok freshState_ok _ freshOps_def])
    (simp add: freshState_def emptyStateDB_def)

text \<open>
  C14: the state root is deterministic. Go iterates over the maps of dirty and of pending
  addresses in a random order; two states that differ only in the order of these addresses
  have the same \<open>IntermediateRoot\<close>.
\<close>

theorem intermediate_root_order:
  assumes "cryptoOk H enc dec" "stateOk H r dec s p" "stateOk H r dec s' p" "sd_stateObjects s' = sd_stateObjects s"
    and "set (sd_stateObjectsPending s') = set (sd_stateObjectsPending s)"
    and "set (map fst (j_dirties (sd_journal s'))) = set (map fst (j_dirties (sd_journal s)))"
    and "ops = secureOps H r er enc dec"
  shows "map_option fst (IntermediateRoot ops s' d) = map_option fst (IntermediateRoot ops s d)"
proof -
  have "address_crypto H enc dec" using assms(1) by (simp add: address_crypto_def)
  from address_crypto.root_order [OF this assms(2-6)] show ?thesis unfolding assms(7) .
qed

definition twoPending :: "address list \<Rightarrow> (Database, SecureTrie) StateDB" where
  "twoPending as = freshState\<lparr>sd_stateObjects :=
       [ripemd \<mapsto> newObject ripemd 5, zeroAddr \<mapsto> newObject zeroAddr 7], sd_stateObjectsPending := as\<rparr>"

lemma twoPending_ok:
  "distinct as \<Longrightarrow> set as = {ripemd, zeroAddr} \<Longrightarrow> stateOk plainCrypto markReader plainDec (twoPending as) PNil"
  using freshState_ok
  by (auto simp: stateOk_def twoPending_def isAddress_def ripemd_def zeroAddr_def newObject_def split: if_splits)

theorem intermediate_root_order_witness:
  "map_option fst (IntermediateRoot freshOps (twoPending [ripemd, zeroAddr]) False) =
   map_option fst (IntermediateRoot freshOps (twoPending [zeroAddr, ripemd]) False)"
proof (rule intermediate_root_order [OF plain_ok _ _ _ _ _ freshOps_def])
  have "last ripemd \<noteq> last zeroAddr" by (simp add: ripemd_def zeroAddr_def)
  then have d: "ripemd \<noteq> zeroAddr" by auto
  show "stateOk plainCrypto markReader plainDec (twoPending [zeroAddr, ripemd]) PNil"
    "stateOk plainCrypto markReader plainDec (twoPending [ripemd, zeroAddr]) PNil"
    using twoPending_ok [of "[zeroAddr, ripemd]"] twoPending_ok [of "[ripemd, zeroAddr]"] d by auto
qed (auto simp: twoPending_def)

text \<open>
  C19: committing the state makes it persistent. On a state in order without suicided objects
  and without a database error, over a database in order and without a hash collision in the new
  tree, \<open>StateDB.Commit\<close> returns the root that \<open>IntermediateRoot\<close> computes, no balance changes, the
  database stays in order, and \<open>state.New\<close> with that root opens a state in which every address
  has the same balance.
\<close>

theorem state_commit_persists:
  assumes "cryptoOk H enc dec" "rlpOk H r" "stateOk H r dec s p"
    and "\<And>a obj. sd_stateObjects s a = Some obj \<Longrightarrow> \<not> so_suicided obj"
    and "sd_dbErr s = None" "dbGood r H (sd_db s) S"
    and "IntermediateRoot ops s d = Some (root, s1)" "stateOk H r dec s1 q" "storable H er S q"
    and "ops = secureOps H r er enc dec"
  shows "\<exists>s' s2. StateCommit ops s d = Some (Inr root, s') \<and> dbGood r H (sd_db s') (S \<union> isub q) \<and>
     StateNew ops root (sd_db s') = Inr s2 \<and> stateOk H r dec s2 q \<and>
     (\<forall>a. isAddress a \<longrightarrow> balance ops s' a = balance ops s a \<and> balance ops s2 a = balance ops s a)"
proof -
  have "storing_crypto H r enc dec"
    using assms(1,2) by (simp add: storing_crypto_def storing_crypto_axioms_def address_crypto_def)
  from storing_crypto.commit_balances [OF this assms(3) _ assms(5,6), where er = er and q = q] assms(4,7-9) show ?thesis
    unfolding assms(10) by blast
qed

text \<open>One account with a balance, not yet written to the trie.\<close>

definition onePending :: "(Database, SecureTrie) StateDB" where
  "onePending = freshState\<lparr>sd_stateObjects := [ripemd \<mapsto> newObject ripemd 5], sd_stateObjectsPending := [ripemd]\<rparr>"

definition markOps :: "(Database, SecureTrie) trieOps" where
  "markOps = secureOps markCrypto markReader [] plainEnc plainDec"

definition oneTree :: ptree where
  "oneTree = secSet markCrypto PNil ripemd (plainEnc 5)"

lemma onePending_ok: "stateOk markCrypto markReader plainDec onePending PNil"
  by (auto simp: stateOk_def onePending_def freshState_def emptyStateDB_def secRep_def represents_def pwf_def
      isAddress_def ripemd_def newObject_def split: if_splits)

lemma oneTree_storable: "storable markCrypto [] {} oneTree"
  unfolding storable_def collisionFree_def inj_on_def by code_simp

theorem state_commit_persists_witness:
  "\<exists>root s' s2. StateCommit markOps onePending False = Some (Inr root, s') \<and>
     StateNew markOps root (sd_db s') = Inr s2 \<and> balance markOps s2 ripemd = balance markOps onePending ripemd"
proof -
  have alive: "\<not> so_suicided obj" if "sd_stateObjects onePending a = Some obj" for a obj
    using that by (auto simp: onePending_def newObject_def split: if_splits)
  have fin: "Finalise onePending False = onePending"
    by (simp add: Finalise_def onePending_def freshState_def emptyStateDB_def newJournal_def clearJournalAndRefund_def)
  have "mark.secure.flushed [] onePending PNil False = oneTree"
    unfolding mark.secure.flushed_def fin mark.secure.written_def
    by (simp add: onePending_def oneTree_def newObject_def secureOps_def)
  then obtain root s1 where q: "IntermediateRoot markOps onePending False = Some (root, s1)"
      "stateOk markCrypto markReader plainDec s1 oneTree"
    using mark.root_tree [OF onePending_ok, where er = "[]" and d = False] alive unfolding markOps_def by metis
  have err: "sd_dbErr onePending = None" and good: "dbGood markReader markCrypto (sd_db onePending) {}"
    using freshDb_good by (simp_all add: onePending_def freshState_def emptyStateDB_def)
  have adr: "isAddress ripemd" by (simp add: isAddress_def ripemd_def)
  show ?thesis
    using state_commit_persists [OF mark_ok rlpOk_mark onePending_ok _ err good q oneTree_storable markOps_def] alive adr
    by metis
qed

end
