(* ===== verification/ChunkRoot.thy ===== *)
theory ChunkRoot
  imports Proof
begin

text \<open>
  The roots that a block header and a cross-shard chunk commit to (\<open>types/derive_sha.go\<close>,
  \<open>OutboundChunk.Root\<close>). The hashes of the transactions of a chunk, and then the roots of the
  chunks of a block, are written into a trie under their RLP-encoded position. The Go interface
  \<open>Hasher\<close> is the record \<open>hasherOps\<close>; every caller passes a \<open>trie.Trie\<close> (\<open>trieHasher\<close>). Equal
  roots mean equal lists of hashes, as long as the hash function has no collision among the
  nodes involved (\<open>keyed_binding\<close>).
\<close>

section \<open>Operations\<close>

record 't hasherOps =
  hr_Reset :: "'t \<Rightarrow> 't"
  hr_Update :: "'t \<Rightarrow> bytes \<Rightarrow> bytes \<Rightarrow> 't option"
  hr_Hash :: "'t \<Rightarrow> (hash \<times> 't) option"

text \<open>RLP writes an unsigned integer as its big-endian bytes without leading zeros.\<close>

fun bigEndian :: "nat \<Rightarrow> bytes" where
  "bigEndian n = (if n = 0 then [] else bigEndian (n div 256) @ [of_nat (n mod 256)])"

declare bigEndian.simps [simp del]

definition uintKey :: "crypto \<Rightarrow> nat \<Rightarrow> bytes" where
  "uintKey H n = rlpEncode H (RStr (bigEndian n))"

fun updateFrom :: "'t hasherOps \<Rightarrow> crypto \<Rightarrow> nat \<Rightarrow> hash option list \<Rightarrow> 't \<Rightarrow> 't option" where
  "updateFrom ops H i [] t = Some t"
| "updateFrom ops H i (None # vs) t = None"
| "updateFrom ops H i (Some v # vs) t =
     (case hr_Update ops t (uintKey H i) v of None \<Rightarrow> None | Some t' \<Rightarrow> updateFrom ops H (Suc i) vs t')"

definition GetChunkRoot :: "'t hasherOps \<Rightarrow> crypto \<Rightarrow> Transaction list \<Rightarrow> 't \<Rightarrow> (hash \<times> 't) option" where
  "GetChunkRoot ops H txs t =
     Option.bind (updateFrom ops H 1 (map (\<lambda>tx. Some (TxGetHash tx)) txs) (hr_Reset ops t)) (hr_Hash ops)"

text \<open>The trie as a hasher; \<open>None\<close> is a panic. \<open>new(trie.Trie)\<close> has no database.\<close>

definition noDb :: nodeDb where "noDb = (\<lambda>_. None)"

definition newTrie :: Trie where "newTrie = \<lparr>tr_root = NilN, tr_unhashed = 0\<rparr>"

definition trieHasher :: "crypto \<Rightarrow> hash \<Rightarrow> Trie hasherOps" where
  "trieHasher H emptyRoot =
     \<lparr>hr_Reset = TrieReset,
      hr_Update = \<lambda>t k v. (case TrieUpdate noDb t k v of (Ok _, t') \<Rightarrow> Some t' | _ \<Rightarrow> None),
      hr_Hash = TrieHash H emptyRoot\<rparr>"

definition Root :: "crypto \<Rightarrow> hash \<Rightarrow> OutboundChunk \<Rightarrow> hash option" where
  "Root H emptyRoot c = map_option fst (GetChunkRoot (trieHasher H emptyRoot) H (Txs c) newTrie)"

definition GetBlockTxRoot ::
  "'t hasherOps \<Rightarrow> crypto \<Rightarrow> hash \<Rightarrow> OutboundChunk list \<Rightarrow> 't \<Rightarrow> (hash \<times> 't) option" where
  "GetBlockTxRoot ops H emptyRoot chunks t =
     Option.bind (updateFrom ops H 1001 (map (Root H emptyRoot) chunks) (hr_Reset ops t)) (hr_Hash ops)"

section \<open>Positions as keys\<close>

lemma unat_byte_mod [simp]: "unat (of_nat (n mod 256) :: byte) = n mod 256"
  by (simp add: unat_of_nat)

lemma bigEndian_inj: "bigEndian m = bigEndian n \<Longrightarrow> m = n"
proof (induction m arbitrary: n rule: bigEndian.induct)
  case (1 m)
  show ?case
  proof (cases "m = 0 \<or> n = 0")
    case True
    then show ?thesis using "1.prems" by (auto simp: bigEndian.simps [of m] bigEndian.simps [of n] split: if_splits)
  next
    case False
    then have "bigEndian (m div 256) = bigEndian (n div 256)" "(of_nat (m mod 256) :: byte) = of_nat (n mod 256)"
      using "1.prems" by (simp_all add: bigEndian.simps [of m] bigEndian.simps [of n])
    moreover from this(2) have "m mod 256 = n mod 256" by (metis unat_byte_mod)
    ultimately show ?thesis using "1.IH" False by (metis div_mult_mod_eq)
  qed
qed

lemma uintKey_inj:
  assumes "rlpOk H d" "uintKey H m = uintKey H n"
  shows "m = n"
proof -
  have k: "rlpSplitString d (uintKey H j @ []) = Some (bigEndian j, [])" for j
    unfolding uintKey_def by (rule rlpOkD(2) [OF assms(1)])
  have "Some (bigEndian m, [] :: bytes) = Some (bigEndian n, [])" by (metis k assms(2))
  then show ?thesis using bigEndian_inj by simp
qed

section \<open>The trie that the loop builds\<close>

definition keyed :: "crypto \<Rightarrow> nat \<Rightarrow> hash list \<Rightarrow> (bytes \<times> bytes) list" where
  "keyed H i vs = map (\<lambda>(j, v). (uintKey H (i + j), v)) (enumerate 0 vs)"

lemma keyed_simps [simp]:
  "keyed H i [] = []" "keyed H i (v # vs) = (uintKey H i, v) # keyed H (Suc i) vs"
proof -
  have "enumerate (Suc 0) vs = map (\<lambda>(j, v). (Suc j, v)) (enumerate 0 vs)"
    by (simp add: enumerate_eq_zip map_Suc_upt [symmetric] zip_map1 del: upt_Suc)
  then show "keyed H i (v # vs) = (uintKey H i, v) # keyed H (Suc i) vs"
    by (simp add: keyed_def split_beta comp_def)
qed (simp add: keyed_def)

lemma updateFrom_trie:
  "trieInv noDb R t \<Longrightarrow>
     updateFrom (trieHasher H er) H i (map Some vs) t = Some (foldl (\<lambda>t kv. storeUpdate noDb t (fst kv) (snd kv)) t (keyed H i vs))"
proof (induction vs arbitrary: i t)
  case (Cons v vs)
  obtain p where p: "represents noDb R t p" using Cons.prems by (auto simp: trieInv_def)
  obtain t' where t': "TryUpdate noDb t (uintKey H i) v = (Ok (), t')" using TryUpdate_represents [OF p] by blast
  then have "t' = storeUpdate noDb t (uintKey H i) v" by (simp add: storeUpdate_def TrieUpdate_def)
  moreover from this have "trieInv noDb R t'" using goTrie.upd_inv [OF Cons.prems] by simp
  ultimately show ?case using Cons.IH [of t' "Suc i"] t' by (simp add: trieHasher_def TrieUpdate_def)
qed simp

definition keyedTrie :: "crypto \<Rightarrow> nat \<Rightarrow> hash list \<Rightarrow> Trie" where
  "keyedTrie H i vs = foldl (\<lambda>t kv. storeUpdate noDb t (fst kv) (snd kv)) newTrie (keyed H i vs)"

lemma newTrie_represents: "represents noDb R newTrie PNil"
  by (simp add: represents_def newTrie_def pwf_def)

lemma TrieReset_new [simp]: "TrieReset t = newTrie"
  by (cases t) (simp add: TrieReset_def newTrie_def)

lemma updateFrom_new:
  "updateFrom (trieHasher H er) H i (map Some vs) (hr_Reset (trieHasher H er) t) = Some (keyedTrie H i vs)"
proof -
  have inv: "trieInv noDb (merkle H) newTrie" using newTrie_represents unfolding trieInv_def by blast
  have "hr_Reset (trieHasher H er) t = newTrie" by (simp add: trieHasher_def)
  then show ?thesis using updateFrom_trie [OF inv] by (simp add: keyedTrie_def)
qed

lemma keyedTrie_inv: "trieInv noDb R (keyedTrie H i vs)"
  unfolding keyedTrie_def by (rule goTrie.run_inv) (auto simp: trieInv_def intro: newTrie_represents)

lemma keyed_other:
  "(\<And>j. j < length vs \<Longrightarrow> k \<noteq> uintKey H (i + j)) \<Longrightarrow> foldl assign m (keyed H i vs) k = m k"
proof (induction vs arbitrary: i m)
  case (Cons v vs)
  have "k \<noteq> uintKey H i" using Cons.prems [of 0] by simp
  moreover have "k \<noteq> uintKey H (Suc i + j)" if "j < length vs" for j using Cons.prems [of "Suc j"] that by simp
  ultimately show ?case using Cons.IH [of "Suc i"] by (simp add: assign_def)
qed simp

lemma keyed_at:
  "rlpOk H d \<Longrightarrow> \<forall>v\<in>set vs. v \<noteq> [] \<Longrightarrow> j < length vs \<Longrightarrow>
     foldl assign m (keyed H i vs) (uintKey H (i + j)) = Some (vs ! j)"
proof (induction vs arbitrary: i m j)
  case (Cons v vs)
  show ?case
  proof (cases j)
    case 0
    have "uintKey H i \<noteq> uintKey H (Suc i + l)" for l using uintKey_inj [OF Cons.prems(1), of i "Suc i + l"] by auto
    then have "foldl assign (assign m (uintKey H i, v)) (keyed H (Suc i) vs) (uintKey H i) = Some v"
      using keyed_other [of vs "uintKey H i" H "Suc i"] Cons.prems(2) by (simp add: assign_def)
    then show ?thesis using 0 by simp
  next
    case (Suc l)
    then show ?thesis using Cons.IH [OF Cons.prems(1), of l "assign m (uintKey H i, v)" "Suc i"] Cons.prems(2,3) by simp
  qed
qed simp

lemma keyedTrie_get:
  assumes "rlpOk H d" "\<forall>v\<in>set vs. v \<noteq> []"
  shows "storeGet noDb (keyedTrie H i vs) (uintKey H (i + j)) = (if j < length vs then Some (vs ! j) else None)"
proof -
  have inv: "trieInv noDb (merkle H) newTrie" using newTrie_represents unfolding trieInv_def by blast
  have get: "storeGet noDb newTrie = (\<lambda>_. None)"
    using storeGet_represents [OF newTrie_represents] by (simp add: fun_eq_iff)
  have "storeGet noDb (keyedTrie H i vs) k = foldl assign (\<lambda>_. None) (keyed H i vs) k" for k
    unfolding keyedTrie_def by (rule goTrie.run_look [OF inv]) (simp_all add: get)
  moreover have "uintKey H (i + j) \<noteq> uintKey H (i + l)" if "l < length vs" "\<not> j < length vs" for l
    using uintKey_inj [OF assms(1), of "i + j" "i + l"] that by auto
  ultimately show ?thesis
    using keyed_at [OF assms, of j] keyed_other [of vs "uintKey H (i + j)" H i "\<lambda>_. None"] by auto
qed

lemma keyedTrie_lookup:
  assumes "rlpOk H d" "\<forall>v\<in>set vs. v \<noteq> []"
  shows "storeGet noDb (keyedTrie H i vs) (uintKey H m) = (if i \<le> m \<and> m < i + length vs then Some (vs ! (m - i)) else None)"
proof (cases "i \<le> m")
  case True
  then show ?thesis using keyedTrie_get [OF assms, of i "m - i"] by auto
next
  case False
  have inv: "trieInv noDb (merkle H) newTrie" using newTrie_represents unfolding trieInv_def by blast
  have get: "storeGet noDb newTrie = (\<lambda>_. None)"
    using storeGet_represents [OF newTrie_represents] by (simp add: fun_eq_iff)
  have "storeGet noDb (keyedTrie H i vs) (uintKey H m) = foldl assign (\<lambda>_. None) (keyed H i vs) (uintKey H m)"
    unfolding keyedTrie_def by (rule goTrie.run_look [OF inv]) (simp_all add: get)
  moreover have "uintKey H m \<noteq> uintKey H (i + j)" for j using uintKey_inj [OF assms(1), of m "i + j"] False by auto
  ultimately show ?thesis using False keyed_other [of vs "uintKey H m" H i] by simp
qed

section \<open>What the roots commit to\<close>

definition keyedTree :: "crypto \<Rightarrow> nat \<Rightarrow> hash list \<Rightarrow> ptree" where
  "keyedTree H i vs =
     foldl (\<lambda>p kv. pupdate p (fst kv) (snd kv)) PNil (map (\<lambda>kv. (keybytesToBinary (fst kv), snd kv)) (keyed H i vs))"

lemma keyedTrie_represents: "represents noDb R (keyedTrie H i vs) (keyedTree H i vs)"
  unfolding keyedTrie_def keyedTree_def by (rule run_represents [OF newTrie_represents])

definition keyedRoot :: "crypto \<Rightarrow> hash \<Rightarrow> nat \<Rightarrow> hash list \<Rightarrow> hash" where
  "keyedRoot H emptyRoot i vs = rootOf H emptyRoot (keyedTree H i vs)"

lemma TrieHash_keyed:
  obtains t' where "TrieHash H er (keyedTrie H i vs) = Some (keyedRoot H er i vs, t')"
  using TrieHash_represents [OF keyedTrie_represents] unfolding keyedRoot_def by blast

definition chunkHashes :: "OutboundChunk \<Rightarrow> hash list" where
  "chunkHashes c = map TxHash (Txs c)"

definition chunkTree :: "crypto \<Rightarrow> OutboundChunk \<Rightarrow> ptree" where
  "chunkTree H c = keyedTree H 1 (chunkHashes c)"

definition blockTree :: "crypto \<Rightarrow> hash \<Rightarrow> OutboundChunk list \<Rightarrow> ptree" where
  "blockTree H er cs = keyedTree H 1001 (map (\<lambda>c. keyedRoot H er 1 (chunkHashes c)) cs)"

lemma GetChunkRoot_trie:
  "GetChunkRoot (trieHasher H er) H txs t = TrieHash H er (keyedTrie H 1 (map TxHash txs))"
  using updateFrom_new [of H er 1 "map TxHash txs" t]
  by (simp add: GetChunkRoot_def TxGetHash_def comp_def) (simp add: trieHasher_def)

lemma Root_eq: "Root H er c = Some (keyedRoot H er 1 (chunkHashes c))"
  unfolding Root_def GetChunkRoot_trie by (rule TrieHash_keyed [of H er 1 "chunkHashes c"]) (simp add: chunkHashes_def)

lemma GetBlockTxRoot_trie:
  "GetBlockTxRoot (trieHasher H er) H er chunks t =
     TrieHash H er (keyedTrie H 1001 (map (\<lambda>c. keyedRoot H er 1 (chunkHashes c)) chunks))"
proof -
  have "map (Root H er) chunks = map Some (map (\<lambda>c. keyedRoot H er 1 (chunkHashes c)) chunks)"
    by (simp add: Root_eq)
  then show ?thesis unfolding GetBlockTxRoot_def by (simp only: updateFrom_new) (simp add: trieHasher_def)
qed

lemma map_eq_transfer:
  "map f xs = map f ys \<Longrightarrow> (\<And>x y. x \<in> set xs \<Longrightarrow> y \<in> set ys \<Longrightarrow> f x = f y \<Longrightarrow> g x = g y) \<Longrightarrow> map g xs = map g ys"
proof (induction xs arbitrary: ys)
  case (Cons x xs)
  then obtain y ys' where ys: "ys = y # ys'" by (cases ys) auto
  have "map g xs = map g ys'" by (rule Cons.IH) (use Cons.prems ys in auto)
  then show ?case using Cons.prems ys by auto
qed simp

lemma keyed_ext:
  assumes "rlpOk H d" "\<forall>v\<in>set vs. v \<noteq> []" "\<forall>v\<in>set ws. v \<noteq> []"
    and "storeGet noDb (keyedTrie H i vs) = storeGet noDb (keyedTrie H i ws)"
  shows "vs = ws"
proof -
  have at: "(if j < length vs then Some (vs ! j) else None) = (if j < length ws then Some (ws ! j) else None)" for j
    using keyedTrie_get [OF assms(1,2), of i j] keyedTrie_get [OF assms(1,3), of i j] assms(4) by simp
  have "length vs = length ws"
    using at [of "length vs"] at [of "length ws"] by (auto simp: not_less split: if_splits)
  moreover from this have "vs ! j = ws ! j" if "j < length vs" for j using at [of j] that by simp
  ultimately show ?thesis by (rule nth_equalityI)
qed

lemma keyed_binding:
  assumes "rlpOk H d" "er = keccak256 H (rlpEncode H (RStr []))"
    and "\<forall>v\<in>set vs. v \<noteq> []" "\<forall>v\<in>set ws. v \<noteq> []"
    and "keyedRoot H er i vs = keyedRoot H er i ws"
    and "inj_on (keccak256 H) (treeNodes H (keyedTree H i vs) \<union> treeNodes H (keyedTree H i ws))"
  shows "vs = ws"
proof -
  obtain t' where t: "TrieHash H er (keyedTrie H i vs) = Some (keyedRoot H er i vs, t')" by (rule TrieHash_keyed)
  obtain u' where u: "TrieHash H er (keyedTrie H i ws) = Some (keyedRoot H er i vs, u')"
    unfolding assms(5) by (rule TrieHash_keyed)
  show ?thesis
    by (rule keyed_ext [OF assms(1,3,4)])
      (rule root_binding [OF assms(1,2) keyedTrie_represents keyedTrie_represents t u assms(6)])
qed

lemma keyedRoot_ne: "rlpOk H d \<Longrightarrow> er \<noteq> [] \<Longrightarrow> keyedRoot H er i vs \<noteq> []"
  using length_pdigest [of H d "keyedTree H i vs"] by (auto simp: keyedRoot_def rootOf_def)

lemma keyedTree_nil_iff:
  assumes "rlpOk H d" "\<forall>v\<in>set vs. v \<noteq> []"
  shows "keyedTree H i vs = PNil \<longleftrightarrow> vs = []"
proof
  assume nil: "keyedTree H i vs = PNil"
  have "storeGet noDb (keyedTrie H i vs) (uintKey H (i + 0)) = None"
    using storeGet_represents [OF keyedTrie_represents] by (simp add: nil)
  then show "vs = []" using keyedTrie_get [OF assms, of i 0] by (auto split: if_splits)
qed (simp add: keyedTree_def)

text \<open>
  C17: the transaction root of a block binds the hashes of its transactions. If two lists of
  outbound chunks have the same \<open>GetBlockTxRoot\<close>, then they are equally many chunks with the same
  lists of transaction hashes at the same positions. The hypotheses are the laws of RLP, that the
  root of the empty trie is the hash of the empty string, that transaction hashes are not empty
  byte strings, and that Keccak has no collision among the nodes of the tries concerned.
\<close>

theorem block_tx_root_binding:
  assumes "rlpOk H d" "er = keccak256 H (rlpEncode H (RStr []))"
    and "\<forall>c\<in>set cs \<union> set cs'. \<forall>tx\<in>set (Txs c). TxHash tx \<noteq> []"
    and "GetBlockTxRoot (trieHasher H er) H er cs t = Some (root, t1)"
    and "GetBlockTxRoot (trieHasher H er) H er cs' t' = Some (root, t2)"
    and "inj_on (keccak256 H)
      (treeNodes H (blockTree H er cs) \<union>
       treeNodes H (blockTree H er cs') \<union>
       (\<Union>c\<in>set cs \<union> set cs'. treeNodes H (chunkTree H c)))"
  shows "map chunkHashes cs = map chunkHashes cs'"
proof -
  let ?r = "\<lambda>c. keyedRoot H er 1 (chunkHashes c)"
  have er: "er \<noteq> []" using rlpOkD(7) [OF assms(1), of "rlpEncode H (RStr [])"] assms(2) by auto
  have roots: "keyedRoot H er 1001 (map ?r cs) = keyedRoot H er 1001 (map ?r cs')"
  proof -
    obtain u where "TrieHash H er (keyedTrie H 1001 (map ?r cs)) = Some (keyedRoot H er 1001 (map ?r cs), u)"
      by (rule TrieHash_keyed)
    moreover obtain u' where "TrieHash H er (keyedTrie H 1001 (map ?r cs')) = Some (keyedRoot H er 1001 (map ?r cs'), u')"
      by (rule TrieHash_keyed)
    ultimately show ?thesis using assms(4,5) unfolding GetBlockTxRoot_trie by simp
  qed
  have "map ?r cs = map ?r cs'"
    by (rule keyed_binding [OF assms(1,2) _ _ roots])
      (use keyedRoot_ne [OF assms(1) er] in \<open>auto simp: blockTree_def intro: inj_on_subset [OF assms(6)]\<close>)
  moreover have "chunkHashes c = chunkHashes c'" if "c \<in> set cs" "c' \<in> set cs'" "?r c = ?r c'" for c c'
    by (rule keyed_binding [OF assms(1,2) _ _ that(3)])
      (use that(1,2) assms(3) in \<open>auto simp: chunkTree_def chunkHashes_def intro: inj_on_subset [OF assms(6)]\<close>)
  ultimately show ?thesis by (rule map_eq_transfer)
qed

definition chunkA :: OutboundChunk where
  "chunkA = \<lparr>BlockHash = zeroHash, Txs = [\<lparr>FromShard = 1001, FromAddr = zeroAddr, ToShard = 1001,
     ToAddr = zeroAddr, Value = 3, DataBytes = [], TxHash = 9 # replicate 31 0\<rparr>], ChunkProof = []\<rparr>"

definition chunkB :: OutboundChunk where
  "chunkB = \<lparr>BlockHash = zeroHash, Txs = [\<lparr>FromShard = 1001, FromAddr = zeroAddr, ToShard = 1001,
     ToAddr = zeroAddr, Value = 999, DataBytes = [], TxHash = 9 # replicate 31 0\<rparr>], ChunkProof = []\<rparr>"

definition markEmpty :: hash where
  "markEmpty = keccak256 markCrypto (rlpEncode markCrypto (RStr []))"

lemma mark_collision_free:
  "inj_on (keccak256 markCrypto)
     (treeNodes markCrypto (blockTree markCrypto markEmpty [chunkA]) \<union> treeNodes markCrypto (blockTree markCrypto markEmpty [chunkB]) \<union>
      (\<Union>c\<in>set [chunkA] \<union> set [chunkB]. treeNodes markCrypto (chunkTree markCrypto c)))"
  unfolding inj_on_def by code_simp

theorem block_tx_root_binding_witness:
  "\<exists>root t1 t2. GetBlockTxRoot (trieHasher markCrypto markEmpty) markCrypto markEmpty [chunkA] newTrie = Some (root, t1) \<and>
     GetBlockTxRoot (trieHasher markCrypto markEmpty) markCrypto markEmpty [chunkB] newTrie = Some (root, t2) \<and>
     map chunkHashes [chunkA] = map chunkHashes [chunkB]"
proof -
  have same: "chunkHashes chunkA = chunkHashes chunkB" by (simp add: chunkHashes_def chunkA_def chunkB_def)
  obtain root t1 where r: "GetBlockTxRoot (trieHasher markCrypto markEmpty) markCrypto markEmpty [chunkA] newTrie = Some (root, t1)"
    unfolding GetBlockTxRoot_trie by (rule TrieHash_keyed)
  then have r': "GetBlockTxRoot (trieHasher markCrypto markEmpty) markCrypto markEmpty [chunkB] newTrie = Some (root, t1)"
    by (simp add: GetBlockTxRoot_trie same)
  have "\<forall>c\<in>set [chunkA] \<union> set [chunkB]. \<forall>tx\<in>set (Txs c). TxHash tx \<noteq> []" by (simp add: chunkA_def chunkB_def)
  from block_tx_root_binding [OF rlpOk_mark markEmpty_def this r r' mark_collision_free] r r' show ?thesis by blast
qed

end
