(* ===== verification/StackTrie.thy ===== *)
theory StackTrie
  imports Committer
begin

text \<open>
  The stack trie (\<open>trie/stacktrie.go\<close>): a trie that is written in key order and hashes a subtree as soon as
  the order says that it is complete. Its root hash is that of the Patricia tree of
  the same content (\<open>stack_trie_root\<close>), hence that of the trie of \<open>trie/trie.go\<close>, and what it writes to its database
  opens as that trie.

  A node is a constructor per node type with the fields that type uses (the key offset, the key chunk, the value, the two
  children). All nodes of a stack trie share one database, so the writes of the nodes are returned in order and applied
  at the top. The pool of nodes only recycles memory. Slices are values here: in the code a leaf keeps the
  caller's value slice, and hashing a leaf overwrites it.
\<close>

section \<open>Operations\<close>

text \<open>
  \<open>rlp.Encode\<close> of a list in which embedded nodes are raw bytes (\<open>rawNode.EncodeRLP\<close>): \<open>frame\<close> is the RLP library's
  list header and payload, given the encodings of the elements.
\<close>

record stackEnv =
  se_crypto :: crypto
  se_frame :: "bytes list \<Rightarrow> bytes"
  se_emptyRoot :: hash

type_synonym puts = "(hash \<times> bytes) list"

datatype stackNode =
    STEmpty nat
  | STBranch nat "stackNode option" "stackNode option"
  | STExt nat bytes stackNode
  | STLeaf nat bytes bytes
  | STHashed bytes

text \<open>The end of \<open>hash\<close>: a short encoding is kept, a long one is hashed and written.\<close>

definition stFinish :: "stackEnv \<Rightarrow> bytes \<Rightarrow> bytes \<times> puts" where
  "stFinish E tmp =
     (if length tmp < 32 then (tmp, [])
      else let h = keccak256 (se_crypto E) tmp in (h, [(h, tmp)]))"

text \<open>A child in the encoding of its parent: \<open>rawNode(val)\<close> or \<open>hashNode(val)\<close>.\<close>

definition stChildRlp :: "stackEnv \<Rightarrow> bytes \<Rightarrow> bytes" where
  "stChildRlp E val = (if length val < 32 then val else rlpEncode (se_crypto E) (RStr val))"

text \<open>\<open>hash\<close>: the value of the hashed node and the writes. \<open>None\<close> is a panic.\<close>

fun stHash :: "stackEnv \<Rightarrow> stackNode \<Rightarrow> (bytes \<times> puts) option" where
  "stHash E (STHashed val) = Some (val, [])"
| "stHash E (STBranch ko c0 c1) =
     (case (case c0 of None \<Rightarrow> Some (rlpEncode (se_crypto E) (RStr []), [])
            | Some c \<Rightarrow> map_option (\<lambda>(val, ps). (stChildRlp E val, ps)) (stHash E c)) of
        None \<Rightarrow> None
      | Some (e0, ps0) \<Rightarrow>
          (case (case c1 of None \<Rightarrow> Some (rlpEncode (se_crypto E) (RStr []), [])
                 | Some c \<Rightarrow> map_option (\<lambda>(val, ps). (stChildRlp E val, ps)) (stHash E c)) of
             None \<Rightarrow> None
           | Some (e1, ps1) \<Rightarrow>
               (case stFinish E (se_frame E [e0, e1, rlpEncode (se_crypto E) (RStr [])]) of
                  (val, ps) \<Rightarrow> Some (val, ps0 @ ps1 @ ps))))"
| "stHash E (STExt ko key c) =
     (case stHash E c of
        None \<Rightarrow> None
      | Some (val, ps) \<Rightarrow>
          (case binaryToCompact key of
             None \<Rightarrow> None
           | Some k \<Rightarrow>
               (case stFinish E (se_frame E [rlpEncode (se_crypto E) (RStr k), stChildRlp E val]) of
                  (val, ps') \<Rightarrow> Some (val, ps @ ps'))))"
| "stHash E (STLeaf ko key val) =
     (case binaryToCompactInPlace (key @ [2]) of
        None \<Rightarrow> None
      | Some (sz, buf) \<Rightarrow> Some (stFinish E (rlpEncode (se_crypto E) (RList [RStr (take sz buf), RStr val]))))"
| "stHash E (STEmpty ko) = Some (se_emptyRoot E, [])"

text \<open>\<open>None\<close>: the index of the full key is out of range.\<close>

fun getDiffIndex :: "bytes \<Rightarrow> nat \<Rightarrow> bytes \<Rightarrow> nat option" where
  "getDiffIndex [] ko key = Some 0"
| "getDiffIndex (x # xs) ko key =
     (if ko < length key then if x = key ! ko then map_option Suc (getDiffIndex xs (Suc ko) key) else Some 0
      else None)"

definition newLeaf :: "nat \<Rightarrow> bytes \<Rightarrow> bytes \<Rightarrow> stackNode" where
  "newLeaf ko key val = STLeaf ko (drop ko key) val"

definition newExt :: "nat \<Rightarrow> bytes \<Rightarrow> stackNode \<Rightarrow> stackNode" where
  "newExt ko key child = STExt ko (drop ko key) child"

text \<open>A branch with the child \<open>n\<close> and then the child \<open>o\<close> put in place; an index keysBefore 1 is out of range.\<close>

definition stBranch :: "nat \<Rightarrow> byte \<Rightarrow> stackNode \<Rightarrow> byte \<Rightarrow> stackNode \<Rightarrow> stackNode option" where
  "stBranch ko i n j m =
     (if i > 1 \<or> j > 1 then None
      else Some (STBranch ko (if j = 0 then Some m else if i = 0 then Some n else None)
                   (if j = 1 then Some m else if i = 1 then Some n else None)))"

text \<open>The split of an extension or a leaf at \<open>diffidx\<close>; \<open>n\<close> is the hashed rest of the old node.\<close>

definition stSplit :: "nat \<Rightarrow> bytes \<Rightarrow> nat \<Rightarrow> stackNode \<Rightarrow> bytes \<Rightarrow> bytes \<Rightarrow> stackNode option" where
  "stSplit ko k diffidx n key value =
     (if ko + diffidx < length key
      then map_option (\<lambda>b. if diffidx = 0 then b else STExt ko (take diffidx k) b)
             (stBranch (ko + diffidx) (k ! diffidx) n (key ! (diffidx + ko)) (newLeaf (ko + diffidx + 1) key value))
      else None)"

fun stInsert :: "stackEnv \<Rightarrow> bytes \<Rightarrow> bytes \<Rightarrow> stackNode \<Rightarrow> (stackNode \<times> puts) option" where
  "stInsert E key value (STBranch ko c0 c1) =
     (if ko \<ge> length key then None
      else if key ! ko = 0 then
        map_option (\<lambda>(c, ps). (STBranch ko (Some c) c1, ps))
          (case c0 of None \<Rightarrow> Some (STLeaf (ko + 1) (drop (ko + 1) key) value, []) | Some c \<Rightarrow> stInsert E key value c)
      else if key ! ko = 1 then
        (case (case c0 of None \<Rightarrow> Some (None, []) | Some c \<Rightarrow> map_option (\<lambda>(val, ps). (Some (STHashed val), ps)) (stHash E c)) of
           None \<Rightarrow> None
         | Some (h, ps0) \<Rightarrow>
             map_option (\<lambda>(c, ps). (STBranch ko h (Some c), ps0 @ ps))
               (case c1 of None \<Rightarrow> Some (STLeaf (ko + 1) (drop (ko + 1) key) value, []) | Some c \<Rightarrow> stInsert E key value c))
      else None)"
| "stInsert E key value (STExt ko k c) =
     (case getDiffIndex k ko key of
        None \<Rightarrow> None
      | Some diffidx \<Rightarrow>
          if diffidx = length k then map_option (\<lambda>(c, ps). (STExt ko k c, ps)) (stInsert E key value c)
          else
            (case stHash E (if diffidx < length k - 1 then newExt (diffidx + 1) k c else c) of
               None \<Rightarrow> None
             | Some (val, ps) \<Rightarrow> map_option (\<lambda>s. (s, ps)) (stSplit ko k diffidx (STHashed val) key value)))"
| "stInsert E key value (STLeaf ko k v) =
     (case getDiffIndex k ko key of
        None \<Rightarrow> None
      | Some diffidx \<Rightarrow>
          if diffidx \<ge> length k then None
          else
            (case stHash E (newLeaf (diffidx + 1) k v) of
               None \<Rightarrow> None
             | Some (val, ps) \<Rightarrow> map_option (\<lambda>s. (s, ps)) (stSplit ko k diffidx (STHashed val) key value)))"
| "stInsert E key value (STEmpty ko) = (if ko \<le> length key then Some (STLeaf ko (drop ko key) value, []) else None)"
| "stInsert E key value (STHashed v) = None"

text \<open>A stack trie: the root node and the database, if any, as the sequence of writes to it.\<close>

record StackTrie =
  st_node :: stackNode
  st_db :: "puts option"

definition NewStackTrie :: "puts option \<Rightarrow> StackTrie" where
  "NewStackTrie db = \<lparr>st_node = STEmpty 0, st_db = db\<rparr>"

definition StackReset :: "StackTrie \<Rightarrow> StackTrie" where
  "StackReset st = \<lparr>st_node = STEmpty 0, st_db = None\<rparr>"

definition stWrite :: "StackTrie \<Rightarrow> stackNode \<Rightarrow> puts \<Rightarrow> StackTrie" where
  "stWrite st n ps = \<lparr>st_node = n, st_db = map_option (\<lambda>db. db @ ps) (st_db st)\<rparr>"

text \<open>\<open>TryUpdate\<close>; \<open>None\<close> is a panic, as for the empty value.\<close>

definition StackTryUpdate :: "stackEnv \<Rightarrow> StackTrie \<Rightarrow> bytes \<Rightarrow> bytes \<Rightarrow> StackTrie option" where
  "StackTryUpdate E st key value =
     (if length value = 0 then None
      else map_option (\<lambda>(n, ps). stWrite st n ps) (stInsert E (butlast (keybytesToBinary key)) value (st_node st)))"

definition StackHash :: "stackEnv \<Rightarrow> StackTrie \<Rightarrow> (hash \<times> StackTrie) option" where
  "StackHash E st =
     map_option (\<lambda>(val, ps). (if length val \<noteq> 32 then keccak256 (se_crypto E) val else val, stWrite st (STHashed val) ps))
       (stHash E (st_node st))"

text \<open>\<open>Err ()\<close> is \<open>ErrCommitDisabled\<close>.\<close>

definition StackCommit :: "stackEnv \<Rightarrow> StackTrie \<Rightarrow> (unit, hash \<times> StackTrie) res" where
  "StackCommit E st =
     (if st_db st = None then Err ()
      else
        (case stHash E (st_node st) of
           None \<Rightarrow> Panic
         | Some (val, ps) \<Rightarrow>
             if length val \<noteq> 32
             then let ret = keccak256 (se_crypto E) val in Ok (ret, stWrite st (STHashed val) (ps @ [(ret, val)]))
             else Ok (val, stWrite st (STHashed val) ps)))"

fun stackRun :: "stackEnv \<Rightarrow> StackTrie \<Rightarrow> (bytes \<times> bytes) list \<Rightarrow> StackTrie option" where
  "stackRun E st [] = Some st"
| "stackRun E st ((k, v) # kvs) = (case StackTryUpdate E st k v of None \<Rightarrow> None | Some st \<Rightarrow> stackRun E st kvs)"

section \<open>Hashing a subtree\<close>

text \<open>The laws of the library: RLP frames the encodings of the elements, and Keccak returns 32 bytes.\<close>

definition stackOk :: "stackEnv \<Rightarrow> bool" where
  "stackOk E \<longleftrightarrow>
     (\<forall>xs. rlpEncode (se_crypto E) (RList xs) = se_frame E (map (rlpEncode (se_crypto E)) xs)) \<and>
     (\<forall>data. length (keccak256 (se_crypto E) data) = 32) \<and> length (se_emptyRoot E) = 32"

definition refBytes :: "crypto \<Rightarrow> ptree \<Rightarrow> bytes" where
  "refBytes H q = (let e = rlpEncode H (pitem H q) in if length e < 32 then e else keccak256 H e)"

text \<open>What is written for a set of subtrees.\<close>

definition putsOf :: "crypto \<Rightarrow> ptree set \<Rightarrow> (hash \<times> bytes) set" where
  "putsOf H S = (\<lambda>s. (pdigest H s, rlpEncode H (pitem H s))) ` {s \<in> S. large H s}"

lemma putsOf_simps [simp]:
  "putsOf H {} = {}" "putsOf H (S \<union> T) = putsOf H S \<union> putsOf H T"
  "putsOf H (insert s S) = (if large H s then insert (pdigest H s, rlpEncode H (pitem H s)) (putsOf H S) else putsOf H S)"
  by (auto simp: putsOf_def)

lemma stFinish_eq:
  "pwfN q \<Longrightarrow> \<exists>ps. stFinish E (rlpEncode (se_crypto E) (pitem (se_crypto E) q)) = (refBytes (se_crypto E) q, ps) \<and>
     set ps = putsOf (se_crypto E) {q}"
  by (cases q) (auto simp: stFinish_def refBytes_def putsOf_def large_def pdigest_def Let_def)

lemma stChildRlp_ref:
  assumes "stackOk E" "pwfN q"
  shows "stChildRlp E (refBytes (se_crypto E) q) = rlpEncode (se_crypto E) (reference (se_crypto E) q (pitem (se_crypto E) q))"
  using assms by (cases q) (auto simp: stChildRlp_def refBytes_def stackOk_def reference_def pdigest_def Let_def)

text \<open>
  The open nodes, on the path to the last key: node \<open>st\<close> at offset \<open>off\<close> stands for \<open>q\<close>, of which the subtrees in \<open>W\<close>
  are complete and hashed. Of a branch, the left child is complete.
\<close>

inductive stands :: "stackEnv \<Rightarrow> nat \<Rightarrow> stackNode \<Rightarrow> ptree \<Rightarrow> ptree set \<Rightarrow> bool" for E where
  stands_leaf: "isBits k \<Longrightarrow> v \<noteq> [] \<Longrightarrow> stands E off (STLeaf off k v) (PShort (k @ [2]) (PVal v)) {}"
| stands_ext: "k \<noteq> [] \<Longrightarrow> isBits k \<Longrightarrow> isFull q \<Longrightarrow> stands E (off + length k) c q W \<Longrightarrow> stands E off (STExt off k c) (PShort k q) W"
| stands_branch: "pwfN q0 \<Longrightarrow> stands E (Suc off) c q1 W \<Longrightarrow>
    stands E off (STBranch off (Some (STHashed (refBytes (se_crypto E) q0))) (Some c)) (PFull q0 q1 PNil) (isub q0 \<union> W)"

lemma stands_pwfN: "stands E off st q W \<Longrightarrow> pwfN q"
  by (induction rule: stands.induct) (auto simp: vkey_iff vkey_not_bits)

lemma stHash_leaf:
  assumes "isBits k" "v \<noteq> []"
  shows "\<exists>ps. stHash E (STLeaf ko k v) = Some (refBytes (se_crypto E) (PShort (k @ [2]) (PVal v)), ps) \<and>
     set ps = putsOf (se_crypto E) {PShort (k @ [2]) (PVal v)}"
proof -
  let ?q = "PShort (k @ [2]) (PVal v)"
  obtain sz buf where b: "binaryToCompactInPlace (k @ [2]) = Some (sz, buf)" "binaryToCompact (k @ [2]) = Some (take sz buf)"
    using binaryToCompact_inPlace [of "k @ [2]"] by auto
  have "pwfN ?q" using assms by (auto simp: vkey_iff)
  then show ?thesis using stFinish_eq [of ?q E] b by (auto simp: reference_def)
qed

lemma stHash_ext:
  assumes "stackOk E" "pwfN (PShort k q)" "isFull q" "stHash E c = Some (refBytes (se_crypto E) q, ps0)"
  shows "\<exists>ps. stHash E (STExt ko k c) = Some (refBytes (se_crypto E) (PShort k q), ps) \<and>
     set ps = set ps0 \<union> putsOf (se_crypto E) {PShort k q}"
proof -
  let ?H = "se_crypto E"
  have q: "pwfN q" using assms(2,3) by (auto split: if_splits elim: isValueE)
  obtain ck where ck: "binaryToCompact k = Some ck" using binaryToCompact_some [OF assms(2)] by blast
  have "rlpEncode ?H (pitem ?H (PShort k q)) = se_frame E [rlpEncode ?H (RStr ck), stChildRlp E (refBytes ?H q)]"
    using assms(1) ck stChildRlp_ref [OF assms(1) q] by (simp add: stackOk_def)
  then show ?thesis using stFinish_eq [OF assms(2), of E] assms(4) ck by (auto simp del: pitem.simps)
qed

lemma stHash_branch:
  assumes "stackOk E" "pwfN q0" "pwfN q1" "stHash E c0 = Some (refBytes (se_crypto E) q0, ps0)" "stHash E c1 = Some (refBytes (se_crypto E) q1, ps1)"
  shows "\<exists>ps. stHash E (STBranch ko (Some c0) (Some c1)) = Some (refBytes (se_crypto E) (PFull q0 q1 PNil), ps) \<and>
     set ps = set ps0 \<union> set ps1 \<union> putsOf (se_crypto E) {PFull q0 q1 PNil}"
proof -
  let ?H = "se_crypto E" and ?q = "PFull q0 q1 PNil"
  have q: "pwfN ?q" using assms(2,3) by auto
  have "rlpEncode ?H (pitem ?H ?q) =
      se_frame E [stChildRlp E (refBytes ?H q0), stChildRlp E (refBytes ?H q1), rlpEncode ?H (RStr [])]"
    using assms(1) stChildRlp_ref [OF assms(1,2)] stChildRlp_ref [OF assms(1,3)] by (simp add: stackOk_def reference_def)
  then show ?thesis using stFinish_eq [OF q, of E] assms(4,5) by (auto simp del: pitem.simps)
qed

lemma stands_hash:
  assumes "stands E off st q W" "stackOk E"
  shows "\<exists>ps. stHash E st = Some (refBytes (se_crypto E) q, ps) \<and> putsOf (se_crypto E) W \<union> set ps = putsOf (se_crypto E) (isub q)"
  using assms(1)
proof (induction rule: stands.induct)
  case (stands_leaf k v off)
  then show ?case using stHash_leaf [of k v E off] by (auto simp del: stHash.simps)
next
  case (stands_ext k q off c W)
  have wf: "pwfN (PShort k q)" using stands_pwfN [OF stands.stands_ext [OF stands_ext(1-4)]] .
  obtain ps0 where ps0: "stHash E c = Some (refBytes (se_crypto E) q, ps0)" "putsOf (se_crypto E) W \<union> set ps0 = putsOf (se_crypto E) (isub q)"
    using stands_ext.IH by blast
  show ?case using stHash_ext [OF assms(2) wf stands_ext(3) ps0(1), of off] ps0(2) by (auto simp del: stHash.simps)
next
  case (stands_branch q0 off c q1 W)
  have wf: "pwfN q1" using stands_pwfN [OF stands_branch(2)] .
  obtain ps1 where ps1: "stHash E c = Some (refBytes (se_crypto E) q1, ps1)" "putsOf (se_crypto E) W \<union> set ps1 = putsOf (se_crypto E) (isub q1)"
    using stands_branch.IH by blast
  have h: "stHash E (STHashed (refBytes (se_crypto E) q0)) = Some (refBytes (se_crypto E) q0, [])" by simp
  show ?case using stHash_branch [OF assms(2) stands_branch(1) wf h ps1(1), of off] ps1(2) by (auto simp del: stHash.simps)
qed

section \<open>Inserting in order\<close>

text \<open>Bit strings in order, none a prefix of the other; all keys of a tree before a given one.\<close>

definition before :: "bytes \<Rightarrow> bytes \<Rightarrow> bool" where
  "before a b \<longleftrightarrow> (\<exists>pre x y. a = pre @ 0 # x \<and> b = pre @ 1 # y)"

definition keysBefore :: "ptree \<Rightarrow> bytes \<Rightarrow> bool" where
  "keysBefore q k \<longleftrightarrow> (\<forall>r w. isBits r \<longrightarrow> plookup q (r @ [2]) = Some w \<longrightarrow> before r k)"

lemma keysBeforeD: "keysBefore q k \<Longrightarrow> isBits r \<Longrightarrow> plookup q (r @ [2]) = Some w \<Longrightarrow> before r k"
  by (auto simp: keysBefore_def)

lemma before_append [simp]: "before (xs @ a) (xs @ b) \<longleftrightarrow> before a b"
proof (induction xs)
  case (Cons x xs)
  have "before (x # a) (x # b) \<longleftrightarrow> before a b" for a b
  proof
    assume "before (x # a) (x # b)"
    then obtain pre u v where p: "x # a = pre @ 0 # u" "x # b = pre @ 1 # v" by (auto simp: before_def)
    then show "before a b" by (cases pre) (auto simp: before_def)
  next
    assume "before a b"
    then obtain pre u v where "a = pre @ 0 # u" "b = pre @ 1 # v" by (auto simp: before_def)
    then have "x # a = (x # pre) @ 0 # u" "x # b = (x # pre) @ 1 # v" by simp_all
    then show "before (x # a) (x # b)" unfolding before_def by blast
  qed
  then show ?case using Cons.IH by simp
qed simp

lemma before_extend: "before a b \<Longrightarrow> before (a @ u) (b @ v)"
proof -
  assume "before a b"
  then obtain pre x y where "a @ u = pre @ 0 # (x @ u)" "b @ v = pre @ 1 # (y @ v)" by (auto simp: before_def)
  then show ?thesis unfolding before_def by blast
qed

lemma pwfN_bit_key:
  assumes "pwfN q"
  obtains r w where "isBits r" "plookup q (r @ [2]) = Some w"
  using pwfN_has_key [OF assms] by (auto simp: vkey_iff)

lemma getDiff_differ: "a \<noteq> b \<Longrightarrow> getDiffIndex (pre @ a # x) (length p) (p @ pre @ b # y) = Some (length pre)"
proof (induction pre arbitrary: p)
  case (Cons c pre)
  then show ?case using Cons.IH [of "p @ [c]"] by (simp add: nth_append)
qed (simp add: nth_append)

lemma getDiff_prefix: "getDiffIndex k (length p) (p @ k @ r) = Some (length k)"
proof (induction k arbitrary: p)
  case (Cons c k)
  then show ?case using Cons.IH [of "p @ [c]"] by (simp add: nth_append)
qed simp

lemma stSplit_stands:
  assumes "pwfN qn" "isBits (pre @ 1 # y)" "v \<noteq> []"
  shows "\<exists>st. stSplit (length p) (pre @ 0 # x) (length pre) (STHashed (refBytes (se_crypto E) qn)) (p @ pre @ 1 # y) v = Some st \<and>
     stands E (length p) st (pextend pre (PFull qn (PShort (y @ [2]) (PVal v)) PNil)) (isub qn)"
proof -
  let ?b = "STBranch (length p + length pre) (Some (STHashed (refBytes (se_crypto E) qn))) (Some (STLeaf (Suc (length p + length pre)) y v))"
  have bits: "isBits pre" "isBits y" using assms(2) by simp_all
  have run: "stSplit (length p) (pre @ 0 # x) (length pre) (STHashed (refBytes (se_crypto E) qn)) (p @ pre @ 1 # y) v =
      Some (if pre = [] then ?b else STExt (length p) pre ?b)"
    by (simp add: stSplit_def stBranch_def newLeaf_def nth_append)
  have b: "stands E (length p + length pre) ?b (PFull qn (PShort (y @ [2]) (PVal v)) PNil) (isub qn \<union> {})"
    by (intro stands_branch stands_leaf assms(1,3) bits(2))
  then have "stands E (length p) (if pre = [] then ?b else STExt (length p) pre ?b)
      (pextend pre (PFull qn (PShort (y @ [2]) (PVal v)) PNil)) (isub qn)"
    using stands_ext [OF _ bits(1) _ b] by (auto simp: pextend_def)
  then show ?thesis using run by blast
qed

text \<open>The tree after an insertion that splits a short node.\<close>

lemma pinsert_short_split:
  "pinsert (PShort (pre @ 0 # x) c) (pre @ 1 # y) v = pextend pre (PFull (pextend x c) (pextend y (PVal v)) PNil)"
proof -
  have "prefixLen (pre @ 1 # y) (pre @ 0 # x) = length pre" by (simp del: append.simps)
  then show ?thesis by (subst pinsert_PShort) (simp_all add: Let_def pbranch_def nth_append)
qed

lemma pinsert_short_prefix: "r \<noteq> [] \<Longrightarrow> pinsert (PShort k c) (k @ r) v = PShort k (pinsert c r v)"
proof -
  assume r: "r \<noteq> []"
  have "prefixLen (k @ r) (k @ []) = length k" by (subst prefixLen_append) (cases r; simp)
  then show ?thesis using r by (subst pinsert_PShort) simp_all
qed

lemma stInsert_stands:
  assumes "stands E off st q W" "stackOk E" "off = length p" "isBits k" "keysBefore q k" "v \<noteq> []"
  shows "\<exists>st' ps W'. stInsert E (p @ k) v st = Some (st', ps) \<and> stands E off st' (pinsert q (k @ [2]) v) W' \<and>
     putsOf (se_crypto E) W \<union> set ps = putsOf (se_crypto E) W'"
  using assms(1,3-5)
proof (induction arbitrary: p k rule: stands.induct)
  case (stands_leaf k0 w off)
  have "plookup (PShort (k0 @ [2]) (PVal w)) (k0 @ [2]) = Some w" by (simp add: plookup_PShort plookup_pextend_value)
  then obtain pre x y where s: "k0 = pre @ 0 # x" "k = pre @ 1 # y"
    using keysBeforeD [OF stands_leaf.prems(3) stands_leaf.hyps(1)] by (auto simp: before_def)
  have bits: "isBits x" "isBits (pre @ 1 # y)" using stands_leaf s by simp_all
  let ?n = "PShort (x @ [2]) (PVal w)"
  obtain ps where ps: "stHash E (newLeaf (length pre + 1) k0 w) = Some (refBytes (se_crypto E) ?n, ps)"
      "set ps = putsOf (se_crypto E) {?n}"
    using stHash_leaf [OF bits(1) stands_leaf.hyps(2), of E "length pre + 1"] s(1) by (auto simp: newLeaf_def simp del: stHash.simps)
  have "pwfN ?n" using bits(1) stands_leaf.hyps(2) by (auto simp: vkey_iff)
  then obtain st' where st': "stSplit off k0 (length pre) (STHashed (refBytes (se_crypto E) ?n)) (p @ k) v = Some st'"
      "stands E off st' (pextend pre (PFull ?n (PShort (y @ [2]) (PVal v)) PNil)) (isub ?n)"
    using stSplit_stands [OF _ bits(2) assms(6)] s stands_leaf.prems(1) by blast
  have "pinsert (PShort (k0 @ [2]) (PVal w)) (k @ [2]) v = pextend pre (PFull ?n (PShort (y @ [2]) (PVal v)) PNil)"
    using pinsert_short_split [of pre "x @ [2]" "PVal w" "y @ [2]" v] s by (simp add: pextend_def)
  then show ?case
    using getDiff_differ [of 0 1 pre x p y] ps st' s stands_leaf.prems(1) by (auto simp del: stHash.simps)
next
  case (stands_ext k0 q off c W)
  have wf: "pwfN (PShort k0 q)" "pwfN q"
    using stands_pwfN [OF stands.stands_ext [OF stands_ext.hyps(1-4)]] stands_pwfN [OF stands_ext.hyps(4)] by simp_all
  have lk: "plookup (PShort k0 q) (k0 @ r @ [2]) = plookup q (r @ [2])" for r
    using plookup_pextend_append [of k0 q "r @ [2]"] by (simp add: plookup_PShort)
  obtain r w where r: "isBits r" "plookup q (r @ [2]) = Some w" by (rule pwfN_bit_key [OF wf(2)])
  have bef: "before (k0 @ r') k" if "isBits r'" "plookup q (r' @ [2]) = Some w'" for r' w'
    using keysBeforeD [OF stands_ext.prems(3), of "k0 @ r'" w'] that stands_ext.hyps(2) lk [of r'] by simp
  obtain pre x y where s: "k0 @ r = pre @ 0 # x" "k = pre @ 1 # y" using bef [OF r] by (auto simp: before_def)
  show ?case
  proof (cases "length k0 \<le> length pre")
    case True
    then obtain pre' where pre': "pre = k0 @ pre'" using s(1) by (auto simp: append_eq_append_conv2)
    let ?k = "pre' @ 1 # y"
    have k: "k = k0 @ ?k" using s(2) pre' by simp
    have "keysBefore q ?k" unfolding keysBefore_def using bef k by fastforce
    moreover have "isBits ?k" using stands_ext.prems(2) k by simp
    moreover have "off + length k0 = length (p @ k0)" using stands_ext.prems(1) by simp
    ultimately obtain st' ps W' where ih: "stInsert E ((p @ k0) @ ?k) v c = Some (st', ps)"
        "stands E (off + length k0) st' (pinsert q (?k @ [2]) v) W'" "putsOf (se_crypto E) W \<union> set ps = putsOf (se_crypto E) W'"
      using stands_ext.IH by blast
    have "isFull (pinsert q (?k @ [2]) v)"
      using stands_ext.hyps(3) by (cases q; cases "?k @ [2]") auto
    then have "stands E off (STExt off k0 st') (PShort k0 (pinsert q (?k @ [2]) v)) W'"
      using stands.stands_ext [OF stands_ext.hyps(1,2)] ih(2) by blast
    moreover have "pinsert (PShort k0 q) (k @ [2]) v = PShort k0 (pinsert q (?k @ [2]) v)"
      using pinsert_short_prefix [of "?k @ [2]" k0 q v] k by simp
    ultimately show ?thesis using getDiff_prefix [of k0 p ?k] ih(1,3) k stands_ext.prems(1) by auto
  next
    case False
    then obtain x' where s': "k0 = pre @ 0 # x'" using s(1) by (auto simp: append_eq_append_conv2 neq_Nil_conv)
    have bits: "isBits x'" "isBits (pre @ 1 # y)" using stands_ext.hyps(2) stands_ext.prems(2) s' s(2) by simp_all
    let ?n = "pextend x' q" and ?node = "if length pre < length k0 - 1 then newExt (length pre + 1) k0 c else c"
    have wn: "pwfN ?n" by (rule pwfN_pextend [OF bits(1) stands_ext.hyps(3) wf(2)])
    obtain ps0 where ps0: "stHash E c = Some (refBytes (se_crypto E) q, ps0)" "putsOf (se_crypto E) W \<union> set ps0 = putsOf (se_crypto E) (isub q)"
      using stands_hash [OF stands_ext.hyps(4) assms(2)] by blast
    obtain ps where ps: "stHash E ?node = Some (refBytes (se_crypto E) ?n, ps)"
        "putsOf (se_crypto E) W \<union> set ps = putsOf (se_crypto E) (isub ?n)"
    proof (cases "x' = []")
      case True
      then show ?thesis using that ps0 s' by simp
    next
      case False
      then have "pwfN (PShort x' q)" using wn by (simp add: pextend_def)
      from stHash_ext [OF assms(2) this stands_ext.hyps(3) ps0(1), of "length pre + 1"] False show ?thesis
        using that ps0(2) s' by (auto simp: newExt_def pextend_def simp del: stHash.simps)
    qed
    obtain st' where st': "stSplit off k0 (length pre) (STHashed (refBytes (se_crypto E) ?n)) (p @ k) v = Some st'"
        "stands E off st' (pextend pre (PFull ?n (PShort (y @ [2]) (PVal v)) PNil)) (isub ?n)"
      using stSplit_stands [OF wn bits(2) assms(6)] s' s(2) stands_ext.prems(1) by blast
    have "pinsert (PShort k0 q) (k @ [2]) v = pextend pre (PFull ?n (PShort (y @ [2]) (PVal v)) PNil)"
      using pinsert_short_split [of pre x' q "y @ [2]" v] s' s(2) by (simp add: pextend_def)
    then show ?thesis
      using getDiff_differ [of 0 1 pre x' p y] ps st' s' s(2) stands_ext.prems(1) by (auto simp del: stHash.simps)
  qed
next
  case (stands_branch q0 off c q1 W)
  obtain r w where r: "isBits r" "plookup q1 (r @ [2]) = Some w" by (rule pwfN_bit_key [OF stands_pwfN [OF stands_branch.hyps(2)]])
  have bef: "before (1 # r') k" if "isBits r'" "plookup q1 (r' @ [2]) = Some w'" for r' w'
    using keysBeforeD [OF stands_branch.prems(3), of "1 # r'" w'] that by simp
  obtain k1 where k: "k = 1 # k1" using bef [OF r] by (auto simp: before_def Cons_eq_append_conv)
  have "keysBefore q1 k1" unfolding keysBefore_def using bef before_append [of "[1]"] by (fastforce simp: k)
  moreover have "isBits k1" using stands_branch.prems(2) k by simp
  moreover have "Suc off = length (p @ [1])" using stands_branch.prems(1) by simp
  ultimately obtain st' ps W' where ih: "stInsert E ((p @ [1]) @ k1) v c = Some (st', ps)"
      "stands E (Suc off) st' (pinsert q1 (k1 @ [2]) v) W'" "putsOf (se_crypto E) W \<union> set ps = putsOf (se_crypto E) W'"
    using stands_branch.IH by blast
  have "stands E off (STBranch off (Some (STHashed (refBytes (se_crypto E) q0))) (Some st')) (PFull q0 (pinsert q1 (k1 @ [2]) v) PNil) (isub q0 \<union> W')"
    by (rule stands.stands_branch [OF stands_branch.hyps(1) ih(2)])
  moreover have "stInsert E (p @ k) v (STBranch off (Some (STHashed (refBytes (se_crypto E) q0))) (Some c)) =
      Some (STBranch off (Some (STHashed (refBytes (se_crypto E) q0))) (Some st'), ps)"
    using ih(1) k stands_branch.prems(1) by (simp add: nth_append)
  moreover have "pinsert (PFull q0 q1 PNil) (k @ [2]) v = PFull q0 (pinsert q1 (k1 @ [2]) v) PNil" using k by simp
  moreover have "putsOf (se_crypto E) (isub q0 \<union> W) \<union> set ps = putsOf (se_crypto E) (isub q0 \<union> W')" using ih(3) by auto
  ultimately show ?case by (metis (no_types))
qed

section \<open>Keys in order\<close>

text \<open>The byte order of keys of which none is a prefix of another; the digits of the keys are then in order too.\<close>

fun keyBefore :: "bytes \<Rightarrow> bytes \<Rightarrow> bool" where
  "keyBefore (a # as) (b # bs) = (if a = b then keyBefore as bs else a < b)"
| "keyBefore _ _ = False"

definition keyBits :: "bytes \<Rightarrow> bytes" where
  "keyBits k = concat (map byteDigits k)"

lemma keybytes_keyBits: "keybytesToBinary k = keyBits k @ [2]"
  by (simp add: keybytesToBinary_def keyBits_def)

lemma isBits_keyBits [simp]: "isBits (keyBits k)"
  by (induction k) (simp_all add: keyBits_def)

fun bitsVal :: "bytes \<Rightarrow> nat" where
  "bitsVal [] = 0"
| "bitsVal (x # xs) = unat x * 2 ^ length xs + bitsVal xs"

lemma bitsVal_less: "isBits xs \<Longrightarrow> bitsVal xs < 2 ^ length xs"
proof (induction xs)
  case (Cons x xs)
  have "x = 0 \<or> x = 1" "isBits xs" using Cons.prems by simp_all
  moreover have "bitsVal xs < 2 ^ length xs" using Cons.IH calculation(2) by simp
  ultimately show ?case by auto
qed simp

lemma bitsVal_before: "isBits xs \<Longrightarrow> isBits ys \<Longrightarrow> length xs = length ys \<Longrightarrow> bitsVal xs < bitsVal ys \<Longrightarrow> before xs ys"
proof (induction xs ys rule: list_induct2')
  case (4 x xs y ys)
  have d: "x = 0 \<or> x = 1" "y = 0 \<or> y = 1" "isBits xs" "isBits ys" "length xs = length ys" using 4(2-4) by simp_all
  have l: "bitsVal xs < 2 ^ length ys" "bitsVal ys < 2 ^ length ys" using bitsVal_less [OF d(3)] bitsVal_less [OF d(4)] d(5) by simp_all
  show ?case
  proof (cases "x = y")
    case True
    then have "before xs ys" using 4(1) 4(5) d(3-5) by simp
    then show ?thesis using before_append [of "[y]" xs ys] True by simp
  next
    case False
    then have "x = 0 \<and> y = 1" using d(1,2,5) 4(5) l by auto
    then have "x # xs = [] @ 0 # xs" "y # ys = [] @ 1 # ys" by simp_all
    then show ?thesis unfolding before_def by blast
  qed
qed simp_all

lemma bitsVal_byteDigits: "bitsVal (byteDigits b) = unat b"
proof -
  have "take_bit 8 (unat b) = unat b" by (simp add: take_bit_nat_eq_self unsigned_less [of b, simplified])
  then have h: "unat b = horner_sum of_bool 2 (map (bit (unat b)) [0..<8])" by (simp add: horner_sum_bit_eq_take_bit)
  have "bit (unat b) = bit b" by (simp add: fun_eq_iff bit_unsigned_iff)
  moreover have "[0..<8] = [0, 1, 2, 3, 4, 5, 6, 7]" by (simp add: upt_rec)
  ultimately have "unat b = horner_sum of_bool 2 (map (bit b) [0, 1, 2, 3, 4, 5, 6, 7])" using h by metis
  moreover have "unat (of_bool c :: byte) = of_bool c" for c by simp
  ultimately show ?thesis by (simp add: byteDigits_bits)
qed

lemma keyBits_before: "keyBefore a b \<Longrightarrow> before (keyBits a) (keyBits b)"
proof (induction a b rule: keyBefore.induct)
  case (1 a as b bs)
  show ?case
  proof (cases "a = b")
    case True
    then show ?thesis using 1 by (simp add: keyBits_def)
  next
    case False
    then have "before (byteDigits a) (byteDigits b)"
      using 1(2) by (intro bitsVal_before) (simp_all add: bitsVal_byteDigits word_less_nat_alt)
    then show ?thesis using before_extend by (simp add: keyBits_def)
  qed
qed simp_all

section \<open>A run of updates\<close>

definition treeOf :: "(bytes \<times> bytes) list \<Rightarrow> ptree" where
  "treeOf kvs = foldl (\<lambda>p kv. pupdate p (fst kv) (snd kv)) PNil (map (\<lambda>kv. (keybytesToBinary (fst kv), snd kv)) kvs)"

definition runInv :: "stackEnv \<Rightarrow> StackTrie \<Rightarrow> ptree \<Rightarrow> bool" where
  "runInv E st p \<longleftrightarrow>
     (p = PNil \<and> st_node st = STEmpty 0 \<and> (\<forall>ps. st_db st = Some ps \<longrightarrow> ps = [])) \<or>
     (\<exists>W. stands E 0 (st_node st) p W \<and> (\<forall>ps. st_db st = Some ps \<longrightarrow> set ps = putsOf (se_crypto E) W))"

lemma runInv_pwf: "runInv E st p \<Longrightarrow> pwf p"
  by (auto simp: runInv_def pwf_def dest: stands_pwfN)

lemma StackTryUpdate_run:
  assumes "runInv E st p" "stackOk E" "keysBefore p (keyBits k)" "v \<noteq> []"
  shows "\<exists>st'. StackTryUpdate E st k v = Some st' \<and> runInv E st' (pinsert p (keyBits k @ [2]) v) \<and> (st_db st' = None \<longleftrightarrow> st_db st = None)"
proof -
  have k: "butlast (keybytesToBinary k) = keyBits k" by (simp add: keybytes_keyBits)
  show ?thesis
  proof (cases "p = PNil")
    case True
    then have st: "st_node st = STEmpty 0" "\<forall>ps. st_db st = Some ps \<longrightarrow> ps = []"
      using assms(1) stands_pwfN by (fastforce simp: runInv_def)+
    have ins: "pinsert PNil (keyBits k @ [2]) v = PShort (keyBits k @ [2]) (PVal v)" by (cases "keyBits k @ [2]") auto
    have "stands E 0 (STLeaf 0 (keyBits k) v) (PShort (keyBits k @ [2]) (PVal v)) {}" by (intro stands_leaf assms(4)) simp
    then have "runInv E (stWrite st (STLeaf 0 (keyBits k) v) []) (pinsert PNil (keyBits k @ [2]) v)"
      using st(2) unfolding runInv_def ins by (auto simp: stWrite_def intro!: exI [of _ "{}"])
    then show ?thesis using True st(1) assms(4) k by (simp add: StackTryUpdate_def stWrite_def)
  next
    case False
    then obtain W where W: "stands E 0 (st_node st) p W" "\<forall>ps. st_db st = Some ps \<longrightarrow> set ps = putsOf (se_crypto E) W"
      using assms(1) by (auto simp: runInv_def)
    obtain n ps W' where n: "stInsert E (keyBits k) v (st_node st) = Some (n, ps)" "stands E 0 n (pinsert p (keyBits k @ [2]) v) W'"
        "putsOf (se_crypto E) W \<union> set ps = putsOf (se_crypto E) W'"
      using stInsert_stands [OF W(1) assms(2) _ isBits_keyBits assms(3,4), of "[]"] by auto
    then have "runInv E (stWrite st n ps) (pinsert p (keyBits k @ [2]) v)"
      using W(2) by (auto simp: runInv_def stWrite_def)
    then show ?thesis using n(1) assms(4) k by (simp add: StackTryUpdate_def stWrite_def)
  qed
qed

lemma keysBefore_pinsert:
  assumes "keysBefore p k'" "before k k'" "pwf p" "isBits k" "v \<noteq> []"
  shows "keysBefore (pinsert p (k @ [2]) v) k'"
  unfolding keysBefore_def
proof (intro allI impI)
  fix r w assume r: "isBits r" "plookup (pinsert p (k @ [2]) v) (r @ [2]) = Some w"
  have "vkey (k @ [2])" "vkey (r @ [2])" using assms(4) r(1) vkey_iff by blast+
  then have "plookup (pinsert p (k @ [2]) v) (r @ [2]) = (if r = k then Some v else plookup p (r @ [2]))"
    using pinsert_correct [of "k @ [2]" v p] assms(3,5) by simp
  then show "before r k'" using r assms(2) keysBeforeD [OF assms(1) r(1), of w] by (auto split: if_splits)
qed

lemma stackRun_inv:
  assumes "runInv E st p" "stackOk E" "sorted_wrt keyBefore (map fst kvs)" "\<forall>kv\<in>set kvs. snd kv \<noteq> [] \<and> keysBefore p (keyBits (fst kv))"
  shows "\<exists>st'. stackRun E st kvs = Some st' \<and> (st_db st' = None \<longleftrightarrow> st_db st = None) \<and>
     runInv E st' (foldl (\<lambda>p kv. pupdate p (fst kv) (snd kv)) p (map (\<lambda>kv. (keybytesToBinary (fst kv), snd kv)) kvs))"
  using assms(1,3,4)
proof (induction kvs arbitrary: st p)
  case (Cons kv kvs)
  obtain k v where kv: "kv = (k, v)" by (cases kv)
  have c: "v \<noteq> []" "keysBefore p (keyBits k)" using Cons.prems(3) kv by simp_all
  obtain st1 where st1: "StackTryUpdate E st k v = Some st1" "runInv E st1 (pinsert p (keyBits k @ [2]) v)"
      "st_db st1 = None \<longleftrightarrow> st_db st = None"
    using StackTryUpdate_run [OF Cons.prems(1) assms(2) c(2,1)] by (elim exE conjE) (rule that)
  have "keysBefore (pinsert p (keyBits k @ [2]) v) (keyBits (fst x))" if "x \<in> set kvs" for x
    using keysBefore_pinsert [OF _ keyBits_before runInv_pwf [OF Cons.prems(1)] isBits_keyBits c(1), of "fst x"] Cons.prems(2,3) kv that by simp
  then have rest: "\<forall>kv\<in>set kvs. snd kv \<noteq> [] \<and> keysBefore (pinsert p (keyBits k @ [2]) v) (keyBits (fst kv))"
    using Cons.prems(3) by simp
  have srt: "sorted_wrt keyBefore (map fst kvs)" using Cons.prems(2) by simp
  obtain st' where "stackRun E st1 kvs = Some st'" "st_db st' = None \<longleftrightarrow> st_db st1 = None"
      "runInv E st' (foldl (\<lambda>p kv. pupdate p (fst kv) (snd kv)) (pinsert p (keyBits k @ [2]) v) (map (\<lambda>kv. (keybytesToBinary (fst kv), snd kv)) kvs))"
    using Cons.IH [OF st1(2) srt rest] by (elim exE conjE) (rule that)
  then show ?case using st1(1,3) kv c(1) by (simp add: pupdate_def keybytes_keyBits)
qed simp

lemma stackRun_new:
  assumes "stackOk E" "sorted_wrt keyBefore (map fst kvs)" "\<forall>kv\<in>set kvs. snd kv \<noteq> []" "db = None \<or> db = Some []"
  shows "\<exists>st. stackRun E (NewStackTrie db) kvs = Some st \<and> (st_db st = None \<longleftrightarrow> db = None) \<and> runInv E st (treeOf kvs)"
  using stackRun_inv [of E "NewStackTrie db" PNil kvs] assms by (auto simp: runInv_def NewStackTrie_def keysBefore_def treeOf_def)

lemma runInv_hash:
  assumes "runInv E st p" "stackOk E"
  shows "\<exists>ps. stHash E (st_node st) = Some (if p = PNil then se_emptyRoot E else refBytes (se_crypto E) p, ps) \<and>
     (\<forall>db. st_db st = Some db \<longrightarrow> set (db @ ps) = putsOf (se_crypto E) (isub p))"
proof (cases "p = PNil")
  case True
  then have "st_node st = STEmpty 0" "\<forall>ps. st_db st = Some ps \<longrightarrow> ps = []"
    using assms(1) stands_pwfN by (fastforce simp: runInv_def)+
  then show ?thesis using True by simp
next
  case False
  then obtain W where "stands E 0 (st_node st) p W" "\<forall>ps. st_db st = Some ps \<longrightarrow> set ps = putsOf (se_crypto E) W"
    using assms(1) by (auto simp: runInv_def)
  then show ?thesis using stands_hash [OF _ assms(2)] False by fastforce
qed

lemma refBytes_root:
  "stackOk E \<Longrightarrow> (if length (refBytes (se_crypto E) q) \<noteq> 32 then keccak256 (se_crypto E) (refBytes (se_crypto E) q) else refBytes (se_crypto E) q) =
     pdigest (se_crypto E) q"
  by (auto simp: refBytes_def Let_def pdigest_def stackOk_def)

lemma StackHash_run:
  assumes "runInv E st p" "stackOk E"
  shows "\<exists>st'. StackHash E st = Some (rootOf (se_crypto E) (se_emptyRoot E) p, st')"
proof -
  have "length (se_emptyRoot E) = 32" using assms(2) by (simp add: stackOk_def)
  then show ?thesis using runInv_hash [OF assms] refBytes_root [OF assms(2), of p]
    by (auto simp: StackHash_def rootOf_def)
qed

text \<open>
  C20: the stack trie computes the root hash of the trie. For keys in order of which none is a prefix of another
  and values that are not empty, no update of a stack trie panics, and its \<open>Hash\<close> is what \<open>Trie.Hash\<close> returns after
  the same updates of an empty trie, although the stack trie has hashed and dropped every complete subtree on the way.
\<close>

theorem stack_trie_root:
  assumes "stackOk E" "sorted_wrt keyBefore (map fst kvs)" "\<forall>kv\<in>set kvs. snd kv \<noteq> []" "db = None \<or> db = Some []"
  shows "\<exists>st h st' t. stackRun E (NewStackTrie db) kvs = Some st \<and> StackHash E st = Some (h, st') \<and>
     TrieHash (se_crypto E) (se_emptyRoot E)
       (foldl (\<lambda>t kv. storeUpdate nodes t (fst kv) (snd kv)) \<lparr>tr_root = NilN, tr_unhashed = 0\<rparr> kvs) = Some (h, t)"
proof -
  obtain st where st: "stackRun E (NewStackTrie db) kvs = Some st" "runInv E st (treeOf kvs)"
    using stackRun_new [OF assms] by blast
  have "represents nodes (merkle (se_crypto E)) \<lparr>tr_root = NilN, tr_unhashed = 0\<rparr> PNil" by (simp add: represents_def pwf_def)
  from TrieHash_represents [OF run_represents [OF this, of kvs], folded treeOf_def]
  show ?thesis using st StackHash_run [OF st(2) assms(1)] by blast
qed

section \<open>What a stack trie writes\<close>

text \<open>A database over the disk that the writes leave, the last one of a key counting.\<close>

definition writtenDb :: "puts \<Rightarrow> Database" where
  "writtenDb ps = NewDatabaseWithCache (map_of (rev ps))"

lemma written_ok:
  assumes "set ps \<subseteq> (\<lambda>s. (pdigest H s, rlpEncode H (pitem H s))) ` isub q" "pwfN q"
  shows "dbOk H (writtenDb ps) (isub q)"
proof -
  have "\<exists>s\<in>isub q. pwfN s \<and> h = pdigest H s \<and> enc = rlpEncode H (pitem H s)" if "map_of (rev ps) h = Some enc" for h enc
  proof -
    have "(h, enc) \<in> set ps" using map_of_SomeD [OF that] by simp
    then obtain s where "s \<in> isub q" "(h, enc) = (pdigest H s, rlpEncode H (pitem H s))" using assms(1) by blast
    then show ?thesis using isub_pwfN [of q s] assms(2) by blast
  qed
  then show ?thesis by (auto simp: dbOk_def writtenDb_def NewDatabaseWithCache_def nodesOf_def metaRoot_def)
qed

lemma written_read:
  assumes "rlpOk H d" "collisionFree H (isub q)" "pwfN q"
    and "set ps \<subseteq> (\<lambda>s. (pdigest H s, rlpEncode H (pitem H s))) ` isub q"
    and "s \<in> isub q" "(pdigest H s, rlpEncode H (pitem H s)) \<in> set ps"
  shows "nodeReader d (writtenDb ps) (pdigest H s) = Some (expanded H (Some (pdigest H s)) s)"
proof -
  have z: "pdigest H s \<noteq> zeroHash" using assms(2,5) by (auto simp: collisionFree_def)
  have "pdigest H s \<in> fst ` set (rev ps)" using assms(6) by (auto intro: rev_image_eqI)
  then have "map_of (rev ps) (pdigest H s) \<noteq> None" by (simp only: map_of_eq_None_iff not_not)
  then have "dbNode d (writtenDb ps) (pdigest H s) \<noteq> Ok None"
    using z by (auto simp: dbNode_def writtenDb_def NewDatabaseWithCache_def split: res.splits)
  then obtain s' where "s' \<in> isub q" "pdigest H s = pdigest H s'"
      "dbNode d (writtenDb ps) (pdigest H s) = Ok (Some (expanded H (Some (pdigest H s)) s'))"
    using dbNode_ok [OF assms(1) written_ok [OF assms(4,3)] z] by blast
  moreover from this have "s' = s" using assms(2,5) by (auto simp: collisionFree_def inj_on_def)
  ultimately show ?thesis by (simp add: nodeReader_def)
qed

lemma stored_avail:
  assumes "\<forall>s\<in>isub q. large H s \<longrightarrow> nodeReader d db (pdigest H s) = Some (expanded H (Some (pdigest H s)) s)"
    and "pwfN q \<or> q = PNil \<or> isValue q"
  shows "avail d H db q" and "\<forall>c\<in>kids q. avail d H db c"
proof -
  have "avail d H db q \<and> (\<forall>c\<in>kids q. avail d H db c)" using assms
  proof (induction q)
    case (PShort k c)
    then have wf: "pwfN (PShort k c)" by simp
    then have "pwfN c \<or> c = PNil \<or> isValue c" by (auto split: if_splits)
    then have c: "\<forall>c\<in>kids (PShort k c). avail d H db c" using PShort.IH PShort.prems(1) by simp
    have i: "pinner (PShort k c)" by simp
    show ?case
      using c avail_small [OF i _ c] avail_large present_loads [OF wf c, of False] PShort.prems(1) by auto
  next
    case (PFull p0 p1 p2)
    then have wf: "pwfN (PFull p0 p1 p2)" by (simp del: pwfN.simps)
    have "pwfN p0 \<or> p0 = PNil" "pwfN p1 \<or> p1 = PNil" "p2 = PNil \<or> isValue p2" using pwf_child [OF wf] by (auto simp: pwf_def)
    then have c: "\<forall>c\<in>kids (PFull p0 p1 p2). avail d H db c"
      using PFull.IH PFull.prems(1) by (auto simp del: pwfN.simps)
    have i: "pinner (PFull p0 p1 p2)" by simp
    show ?case
      using c avail_small [OF i _ c] avail_large present_loads [OF wf c, of False] PFull.prems(1) by (auto simp del: pwfN.simps)
  qed auto
  then show "avail d H db q" "\<forall>c\<in>kids q. avail d H db c" by blast+
qed

lemma StackCommit_run:
  assumes "runInv E st q" "stackOk E" "pwfN q" "st_db st \<noteq> None"
  shows "\<exists>st' ps. StackCommit E st = Ok (pdigest (se_crypto E) q, st') \<and> st_db st' = Some ps \<and>
     set ps = putsOf (se_crypto E) (isub q) \<union> {(pdigest (se_crypto E) q, rlpEncode (se_crypto E) (pitem (se_crypto E) q))}"
proof -
  let ?H = "se_crypto E"
  obtain db where db: "st_db st = Some db" using assms(4) by blast
  obtain ps where ps: "stHash E (st_node st) = Some (refBytes ?H q, ps)" "set (db @ ps) = putsOf ?H (isub q)"
    using runInv_hash [OF assms(1,2)] assms(3) db by auto
  have i: "pinner q" using assms(3) by (cases q) auto
  show ?thesis
  proof (cases "length (rlpEncode ?H (pitem ?H q)) < 32")
    case True
    then show ?thesis using ps db by (auto simp: StackCommit_def stWrite_def refBytes_def Let_def pdigest_def)
  next
    case False
    then have "large ?H q" "q \<in> isub q" using i isub_self by (simp_all add: large_def)
    then have "(pdigest ?H q, rlpEncode ?H (pitem ?H q)) \<in> putsOf ?H (isub q)" by (auto simp: putsOf_def)
    then show ?thesis using ps db False assms(2) by (auto simp: StackCommit_def stWrite_def refBytes_def Let_def pdigest_def stackOk_def)
  qed
qed

lemma treeOf_lookup:
  assumes "distinct (map fst kvs)" "\<forall>kv\<in>set kvs. snd kv \<noteq> []"
  shows "pwf (treeOf kvs) \<and> (kvs \<noteq> [] \<longrightarrow> pwfN (treeOf kvs)) \<and> (\<forall>k. plookup (treeOf kvs) (keybytesToBinary k) = map_of kvs k)"
  using assms
proof (induction kvs rule: rev_induct)
  case Nil
  then show ?case by (simp add: treeOf_def pwf_def)
next
  case (snoc kv kvs)
  obtain k v where kv: "kv = (k, v)" by (cases kv)
  have ih: "pwf (treeOf kvs)" "\<forall>k. plookup (treeOf kvs) (keybytesToBinary k) = map_of kvs k" using snoc by auto
  have t: "treeOf (kvs @ [kv]) = pinsert (treeOf kvs) (keybytesToBinary k) v" using snoc.prems(2) kv by (simp add: treeOf_def pupdate_def)
  note ins = pinsert_correct [of "keybytesToBinary k" v "treeOf kvs", OF vkey_keybytesToBinary _ ih(1)]
  have "map_of (kvs @ [kv]) k' = (if k' = k then Some v else map_of kvs k')" for k'
  proof (cases "k' = k")
    case True
    then have "map_of kvs k' = None" using snoc.prems(1) kv by (simp add: map_of_eq_None_iff)
    then show ?thesis using True kv by (simp add: map_add_def)
  next
    case False
    then show ?thesis using kv by (cases "map_of kvs k'") (simp_all add: map_add_def)
  qed
  moreover have "keybytesToBinary k' = keybytesToBinary k \<longleftrightarrow> k' = k" for k' using inj_keybytesToBinary by (auto simp: inj_def)
  moreover have v: "v \<noteq> []" using snoc.prems(2) kv by simp
  ultimately have "plookup (treeOf (kvs @ [kv])) (keybytesToBinary k') = map_of (kvs @ [kv]) k'" for k'
    using ins ih(2) unfolding t by simp
  then show ?case using ins v unfolding t by (simp add: pwf_def)
qed

lemma keyBefore_irrefl: "\<not> keyBefore a a"
  by (induction a) auto

lemma sorted_keyBefore_distinct: "sorted_wrt keyBefore ks \<Longrightarrow> distinct ks"
  by (induction ks) (auto simp: keyBefore_irrefl)

text \<open>
  C21: what a stack trie writes is a database of the trie. After updates in key order, \<open>Commit\<close> of a stack trie with an
  empty database succeeds, and on a node database over what it has written \<open>New\<close> opens under the returned hash a
  trie that holds exactly the given pairs, if the subtrees concerned do not collide.
\<close>

theorem stack_trie_commits:
  assumes "stackOk E" "rlpOk (se_crypto E) d" "sorted_wrt keyBefore (map fst kvs)" "\<forall>kv\<in>set kvs. snd kv \<noteq> []" "kvs \<noteq> []"
    and "storable (se_crypto E) (se_emptyRoot E) {} (treeOf kvs)"
  shows "\<exists>st h st' ps t. stackRun E (NewStackTrie (Some [])) kvs = Some st \<and> StackCommit E st = Ok (h, st') \<and> st_db st' = Some ps \<and>
     TrieNew (nodeReader d (writtenDb ps)) (se_emptyRoot E) h = Ok t \<and>
     (\<forall>key. storeGet (nodeReader d (writtenDb ps)) t key = map_of kvs key)"
proof -
  let ?H = "se_crypto E" and ?q = "treeOf kvs"
  have q: "pwfN ?q" "\<forall>k. plookup ?q (keybytesToBinary k) = map_of kvs k"
    using treeOf_lookup [OF sorted_keyBefore_distinct [OF assms(3)] assms(4)] assms(5) by auto
  obtain st where st: "stackRun E (NewStackTrie (Some [])) kvs = Some st" "st_db st \<noteq> None" "runInv E st ?q"
    using stackRun_new [OF assms(1,3,4), of "Some []"] by auto
  obtain st' ps where c: "StackCommit E st = Ok (pdigest ?H ?q, st')" "st_db st' = Some ps"
      "set ps = putsOf ?H (isub ?q) \<union> {(pdigest ?H ?q, rlpEncode ?H (pitem ?H ?q))}"
    using StackCommit_run [OF st(3) assms(1) q(1) st(2)] by blast
  have self: "?q \<in> isub ?q" using q(1) by (intro isub_self) (cases ?q; simp)
  have sub: "set ps \<subseteq> (\<lambda>s. (pdigest ?H s, rlpEncode ?H (pitem ?H s))) ` isub ?q" using c(3) self by (auto simp: putsOf_def)
  have free: "collisionFree ?H (isub ?q)" using assms(6) by (simp add: storable_def)
  have "nodeReader d (writtenDb ps) (pdigest ?H s) = Some (expanded ?H (Some (pdigest ?H s)) s)" if "s \<in> isub ?q" "large ?H s \<or> s = ?q" for s
    using written_read [OF assms(2) free q(1) sub that(1)] that c(3) by (auto simp: putsOf_def)
  then have "loads (nodeReader d (writtenDb ps)) (merkle ?H) True (HashN (pdigest ?H ?q)) ?q"
    using present_loads [OF q(1) stored_avail(2), of ?H d "writtenDb ps" True] q(1) self by blast
  then obtain t where t: "TrieNew (nodeReader d (writtenDb ps)) (se_emptyRoot E) (pdigest ?H ?q) = Ok t"
      "represents (nodeReader d (writtenDb ps)) (merkle ?H) t ?q"
    using opens_committed [OF _ q(1) assms(6)] q(1) by (auto simp: opens_def rootOf_def)
  then show ?thesis using st(1) c(1,2) storeGet_represents [OF t(2)] q(2) by auto
qed

section \<open>Witnesses\<close>

definition markStack :: stackEnv where
  "markStack = \<lparr>se_crypto = markCrypto, se_frame = \<lambda>es. 1 # marked (concat es), se_emptyRoot = replicate 32 255\<rparr>"

definition threePairs :: "(bytes \<times> bytes) list" where
  "threePairs = [([1], [7]), ([2], [8]), ([130], [9])]"

lemma markStack_ok: "stackOk markStack"
  using rlpOkD(7) [OF rlpOk_mark] by (simp add: stackOk_def markStack_def) (simp add: markCrypto_def)

lemma threePairs_ok: "sorted_wrt keyBefore (map fst threePairs)" "\<forall>kv\<in>set threePairs. snd kv \<noteq> []"
  by (simp_all add: threePairs_def)

lemma threePairs_storable: "storable markCrypto (replicate 32 255) {} (treeOf threePairs)"
  unfolding storable_def collisionFree_def inj_on_def by code_simp

theorem stack_trie_root_witness:
  "\<exists>st h st' t. stackRun markStack (NewStackTrie None) threePairs = Some st \<and> StackHash markStack st = Some (h, st') \<and>
     TrieHash markCrypto (replicate 32 255)
       (foldl (\<lambda>t kv. storeUpdate (\<lambda>_. None) t (fst kv) (snd kv)) \<lparr>tr_root = NilN, tr_unhashed = 0\<rparr> threePairs) = Some (h, t)"
  using stack_trie_root [OF markStack_ok threePairs_ok, of None "\<lambda>_. None"] by (simp add: markStack_def)

theorem stack_trie_commits_witness:
  "\<exists>st h st' ps t. stackRun markStack (NewStackTrie (Some [])) threePairs = Some st \<and> StackCommit markStack st = Ok (h, st') \<and>
     st_db st' = Some ps \<and> TrieNew (nodeReader markReader (writtenDb ps)) (replicate 32 255) h = Ok t \<and>
     storeGet (nodeReader markReader (writtenDb ps)) t [130] = Some [9]"
proof -
  have e: "se_crypto markStack = markCrypto" "se_emptyRoot markStack = replicate 32 255" by (simp_all add: markStack_def)
  have "map_of threePairs [130] = Some [9]" "threePairs \<noteq> []" by (simp_all add: threePairs_def)
  then show ?thesis
    using stack_trie_commits [of markStack markReader threePairs, unfolded e, OF markStack_ok rlpOk_mark threePairs_ok _ threePairs_storable]
    by metis
qed

end
