(* ===== verification/Iterator.thy ===== *)
theory Iterator
  imports SecureTrie
begin

text \<open>
  Iterators (\<open>trie/iterator.go\<close>). \<open>nodeIterator\<close> walks the nodes of a trie in pre-order with an explicit stack and loads
  the nodes it meets from the database; \<open>Iterator\<close> stops at the leaves. Loops that go on until the iterator
  arrives somewhere may not end on a database with a cycle of hashes: not returning is \<open>None\<close>. On a trie they end, and
  the iteration from a start key yields exactly the pairs from that key on, in order (\<open>iterator_enumerates\<close>).

  The stack is a list with its top first. The database, RLP and Keccak, and the root of the empty trie are the fields of
  \<open>iterEnv\<close>. An iterator holds its own copy of the trie, where the code holds a pointer: reading a trie that is
  updated during the iteration is outside the model. Hashes have 32 bytes, so \<open>BytesToHash\<close> of a nil hash is the zero hash and of
  another hash is the hash itself.
\<close>

section \<open>The node iterator\<close>

record iterEnv =
  ie_db :: nodeDb
  ie_crypto :: crypto
  ie_emptyRoot :: hash

definition emptyState :: "iterEnv \<Rightarrow> hash" where
  "emptyState E = keccak256 (ie_crypto E) []"

text \<open>\<open>nodeIteratorState\<close>: the zero hash is the hash of a node that has none.\<close>

record iterState =
  is_hash :: hash
  is_node :: node
  is_parent :: hash
  is_index :: int
  is_pathlen :: nat

datatype iterErr = IterEnd | SeekErr bytes trieErr | IterErr trieErr

text \<open>\<open>ni_trie\<close> is nil in the iterator \<open>new(nodeIterator)\<close>.\<close>

record nodeIterator =
  ni_trie :: "Trie option"
  ni_stack :: "iterState list"
  ni_path :: bytes
  ni_err :: "iterErr option"

definition niHash :: "nodeIterator \<Rightarrow> hash" where
  "niHash it = (case ni_stack it of [] \<Rightarrow> zeroHash | st # _ \<Rightarrow> is_hash st)"

definition niParent :: "nodeIterator \<Rightarrow> hash" where
  "niParent it = (case ni_stack it of [] \<Rightarrow> zeroHash | st # _ \<Rightarrow> is_parent st)"

definition niLeaf :: "nodeIterator \<Rightarrow> bool" where
  "niLeaf it = hasTermBin (ni_path it)"

text \<open>\<open>None\<close> is the panic \<open>not at leaf\<close>.\<close>

definition niLeafKey :: "nodeIterator \<Rightarrow> bytes option" where
  "niLeafKey it =
     (case ni_stack it of
        [] \<Rightarrow> None
      | st # _ \<Rightarrow> (case is_node st of ValueN v \<Rightarrow> binaryToKeybytes (ni_path it) | _ \<Rightarrow> None))"

definition niLeafBlob :: "nodeIterator \<Rightarrow> bytes option" where
  "niLeafBlob it =
     (case ni_stack it of [] \<Rightarrow> None | st # _ \<Rightarrow> (case is_node st of ValueN v \<Rightarrow> Some v | _ \<Rightarrow> None))"

text \<open>The proof of a leaf from the nodes above it, the root first (number 0).\<close>

fun leafProof :: "crypto \<Rightarrow> nat \<Rightarrow> node list \<Rightarrow> bytes list option" where
  "leafProof H i [] = Some []"
| "leafProof H i (n # ns) =
     (case proofHash H n of
        None \<Rightarrow> None
      | Some (nd, hashed) \<Rightarrow>
          map_option (\<lambda>proofs. if isHash hashed \<or> i = 0 then rlpEncode H (nodeItem nd) # proofs else proofs)
            (leafProof H (Suc i) ns))"

definition niLeafProof :: "iterEnv \<Rightarrow> nodeIterator \<Rightarrow> bytes list option" where
  "niLeafProof E it =
     (case ni_stack it of
        [] \<Rightarrow> None
      | st # stack \<Rightarrow>
          (case is_node st of ValueN v \<Rightarrow> leafProof (ie_crypto E) 0 (map is_node (rev stack)) | _ \<Rightarrow> None))"

definition niError :: "nodeIterator \<Rightarrow> trieErr option" where
  "niError it =
     (case ni_err it of None \<Rightarrow> None | Some IterEnd \<Rightarrow> None | Some (SeekErr key e) \<Rightarrow> Some e | Some (IterErr e) \<Rightarrow> Some e)"

definition resolveState :: "nodeDb \<Rightarrow> iterState \<Rightarrow> bytes \<Rightarrow> (trieErr, iterState) res" where
  "resolveState db st path =
     (case is_node st of
        HashN h \<Rightarrow> rbind (resolveHash db h path) (\<lambda>resolved. Ok (st\<lparr>is_node := resolved, is_hash := h\<rparr>))
      | _ \<Rightarrow> Ok st)"

text \<open>The state of a child; the method call \<open>cache\<close> on a nil child panics.\<close>

definition childState :: "hash \<Rightarrow> bytes \<Rightarrow> node \<Rightarrow> iterState option" where
  "childState ancestor path child =
     map_option (\<lambda>(h, _). \<lparr>is_hash = (case h of None \<Rightarrow> zeroHash | Some h \<Rightarrow> h), is_node = child, is_parent = ancestor,
         is_index = -1, is_pathlen = length path\<rparr>) (nodeCache child)"

text \<open>
  \<open>nextChild\<close>: the state and the path of the next child and the parent with its new index, \<open>Some None\<close> when there
  is no other child.
\<close>

definition nextChild :: "iterState \<Rightarrow> hash \<Rightarrow> bytes \<Rightarrow> (iterState \<times> bytes \<times> iterState) option option" where
  "nextChild parent ancestor path =
     (case is_node parent of
        FullN c0 c1 c2 f \<Rightarrow>
          (case List.find (\<lambda>i. [c0, c1, c2] ! i \<noteq> NilN) [nat (is_index parent + 1)..<3] of
             None \<Rightarrow> Some None
           | Some i \<Rightarrow> map_option (\<lambda>st. Some (st, path @ [of_nat i], parent\<lparr>is_index := int i - 1\<rparr>))
                         (childState ancestor path ([c0, c1, c2] ! i)))
      | ShortN k c f \<Rightarrow>
          if is_index parent < 0 then map_option (\<lambda>st. Some (st, path @ k, parent)) (childState ancestor path c)
          else Some None
      | _ \<Rightarrow> Some None)"

text \<open>
  The loop of \<open>peek\<close>, with the stack and the path it leaves. Going back up (\<open>pop\<close>) cuts the path to the length that
  the popped state remembers.
\<close>

fun peekLoop :: "nodeDb \<Rightarrow> iterState list \<Rightarrow> bytes \<Rightarrow> (iterErr, iterState \<times> bytes) res \<times> iterState list \<times> bytes" where
  "peekLoop db [] path = (Err IterEnd, [], path)"
| "peekLoop db (parent # stack) path =
     (case nextChild parent (if is_hash parent = zeroHash then is_parent parent else is_hash parent) path of
        None \<Rightarrow> (Panic, parent # stack, path)
      | Some None \<Rightarrow> peekLoop db stack (take (is_pathlen parent) path)
      | Some (Some (st, path', parent')) \<Rightarrow>
          (case resolveState db st path' of
             Ok st' \<Rightarrow> (Ok (st', path'), parent' # stack, path)
           | Err e \<Rightarrow> (Err (IterErr e), parent' # stack, path)
           | Panic \<Rightarrow> (Panic, parent' # stack, path)
           | Hang \<Rightarrow> (Hang, parent' # stack, path)))"

definition niPop :: "nodeIterator \<Rightarrow> nodeIterator" where
  "niPop it = (case ni_stack it of [] \<Rightarrow> it | st # stack \<Rightarrow> it\<lparr>ni_stack := stack, ni_path := take (is_pathlen st) (ni_path it)\<rparr>)"

text \<open>\<open>peek\<close>: the next state, whether it has a parent, and its path.\<close>

definition peek :: "iterEnv \<Rightarrow> bool \<Rightarrow> nodeIterator \<Rightarrow> (iterErr, iterState \<times> bool \<times> bytes) res \<times> nodeIterator" where
  "peek E descend it =
     (if ni_stack it = [] then
        (case ni_trie it of
           None \<Rightarrow> (Panic, it)
         | Some t \<Rightarrow>
             (case TrieHash (ie_crypto E) (ie_emptyRoot E) t of
                None \<Rightarrow> (Panic, it)
              | Some (root, t') \<Rightarrow>
                  let st = \<lparr>is_hash = (if root \<noteq> ie_emptyRoot E then root else zeroHash), is_node = tr_root t',
                        is_parent = zeroHash, is_index = -1, is_pathlen = 0\<rparr>
                  in (case resolveState (ie_db E) st [] of
                        Ok st' \<Rightarrow> Ok (st', False, []) | Err e \<Rightarrow> Err (IterErr e) | Panic \<Rightarrow> Panic | Hang \<Rightarrow> Hang,
                      it\<lparr>ni_trie := Some t'\<rparr>)))
      else
        let it = (if descend then it else niPop it)
        in (case peekLoop (ie_db E) (ni_stack it) (ni_path it) of
              (r, stack, path) \<Rightarrow> (rmap (\<lambda>(st, p). (st, True, p)) r, it\<lparr>ni_stack := stack, ni_path := path\<rparr>)))"

text \<open>\<open>push\<close>: the new top of the stack; the index of its parent, the old top, is counted up.\<close>

definition niPush :: "iterState \<Rightarrow> bool \<Rightarrow> bytes \<Rightarrow> nodeIterator \<Rightarrow> nodeIterator" where
  "niPush st hasParent path it =
     it\<lparr>ni_path := path,
        ni_stack := st # (if hasParent
          then (case ni_stack it of [] \<Rightarrow> [] | p # stack \<Rightarrow> p\<lparr>is_index := is_index p + 1\<rparr> # stack) else ni_stack it)\<rparr>"

text \<open>\<open>bytes.Compare\<close>.\<close>

fun bytesCompare :: "bytes \<Rightarrow> bytes \<Rightarrow> int" where
  "bytesCompare [] [] = 0"
| "bytesCompare [] (y # ys) = -1"
| "bytesCompare (x # xs) [] = 1"
| "bytesCompare (x # xs) (y # ys) = (if x < y then -1 else if y < x then 1 else bytesCompare xs ys)"

partial_function (option) seekLoop ::
  "iterEnv \<Rightarrow> bytes \<Rightarrow> bytes \<Rightarrow> nodeIterator \<Rightarrow> (unit, iterErr option \<times> nodeIterator) res option" where
  "seekLoop E start key it =
     (case peek E (prefix (ni_path it) key) it of
        (Ok (st, hasParent, path), it') \<Rightarrow>
          if bytesCompare path key \<ge> 0 then Some (Ok (None, it')) else seekLoop E start key (niPush st hasParent path it')
      | (Err IterEnd, it') \<Rightarrow> Some (Ok (Some IterEnd, it'))
      | (Err (IterErr e), it') \<Rightarrow> Some (Ok (Some (SeekErr start e), it'))
      | (Err (SeekErr k e), it') \<Rightarrow> Some (Ok (Some (SeekErr start e), it'))
      | (Panic, it') \<Rightarrow> Some Panic
      | (Hang, it') \<Rightarrow> Some Hang)"

definition seek :: "iterEnv \<Rightarrow> bytes \<Rightarrow> nodeIterator \<Rightarrow> (unit, iterErr option \<times> nodeIterator) res option" where
  "seek E start it = (let key = keybytesToBinary start in seekLoop E start (take (length key - 1) key) it)"

definition newNodeIterator :: "iterEnv \<Rightarrow> Trie \<Rightarrow> bytes \<Rightarrow> (unit, nodeIterator) res option" where
  "newNodeIterator E t start =
     (case TrieHash (ie_crypto E) (ie_emptyRoot E) t of
        None \<Rightarrow> Some Panic
      | Some (root, t') \<Rightarrow>
          if root = emptyState E then Some (Ok \<lparr>ni_trie = None, ni_stack = [], ni_path = [], ni_err = None\<rparr>)
          else
            map_option (rmap (\<lambda>(err, it). it\<lparr>ni_err := err\<rparr>))
              (seek E start \<lparr>ni_trie = Some t', ni_stack = [], ni_path = [], ni_err = None\<rparr>))"

definition NodeIterator :: "iterEnv \<Rightarrow> Trie \<Rightarrow> bytes \<Rightarrow> (unit, nodeIterator) res option" where
  "NodeIterator E t start = newNodeIterator E t start"

definition SecNodeIterator :: "iterEnv \<Rightarrow> SecureTrie \<Rightarrow> bytes \<Rightarrow> (unit, nodeIterator) res option" where
  "SecNodeIterator E t start = NodeIterator E (st_trie t) start"

text \<open>\<open>Next\<close>: first the seek that has failed before, if any, then one step.\<close>

definition niStep :: "iterEnv \<Rightarrow> bool \<Rightarrow> nodeIterator \<Rightarrow> (unit, bool \<times> nodeIterator) res" where
  "niStep E descend it =
     (case peek E descend it of
        (Ok (st, hasParent, path), it') \<Rightarrow> Ok (True, niPush st hasParent path (it'\<lparr>ni_err := None\<rparr>))
      | (Err e, it') \<Rightarrow> Ok (False, it'\<lparr>ni_err := Some e\<rparr>)
      | (Panic, it') \<Rightarrow> Panic
      | (Hang, it') \<Rightarrow> Hang)"

definition niNext :: "iterEnv \<Rightarrow> bool \<Rightarrow> nodeIterator \<Rightarrow> (unit, bool \<times> nodeIterator) res option" where
  "niNext E descend it =
     (case ni_err it of
        Some IterEnd \<Rightarrow> Some (Ok (False, it))
      | Some (SeekErr start e) \<Rightarrow>
          map_option (\<lambda>r. rbind r (\<lambda>(err, it').
            if err \<noteq> None then Ok (False, it'\<lparr>ni_err := err\<rparr>) else niStep E descend (it'\<lparr>ni_err := None\<rparr>)))
            (seek E start it)
      | _ \<Rightarrow> Some (niStep E descend it))"

section \<open>The key-value iterator\<close>

record Iterator =
  it_nodeIt :: nodeIterator
  it_Key :: bytes
  it_Value :: bytes
  it_Err :: "trieErr option"

definition NewIterator :: "nodeIterator \<Rightarrow> Iterator" where
  "NewIterator ni = \<lparr>it_nodeIt = ni, it_Key = [], it_Value = [], it_Err = None\<rparr>"

partial_function (option) IteratorNext :: "iterEnv \<Rightarrow> Iterator \<Rightarrow> (unit, bool \<times> Iterator) res option" where
  "IteratorNext E it =
     (case niNext E True (it_nodeIt it) of
        None \<Rightarrow> None
      | Some (Ok (ok, ni)) \<Rightarrow>
          if \<not> ok then Some (Ok (False, it\<lparr>it_nodeIt := ni, it_Key := [], it_Value := [], it_Err := niError ni\<rparr>))
          else if niLeaf ni then
            (case (niLeafKey ni, niLeafBlob ni) of
               (Some k, Some v) \<Rightarrow> Some (Ok (True, it\<lparr>it_nodeIt := ni, it_Key := k, it_Value := v\<rparr>))
             | _ \<Rightarrow> Some Panic)
          else IteratorNext E (it\<lparr>it_nodeIt := ni\<rparr>)
      | Some (Err e) \<Rightarrow> Some (Err e)
      | Some Panic \<Rightarrow> Some Panic
      | Some Hang \<Rightarrow> Some Hang)"

definition IteratorProve :: "iterEnv \<Rightarrow> Iterator \<Rightarrow> bytes list option" where
  "IteratorProve E it = niLeafProof E (it_nodeIt it)"

text \<open>A loop \<open>for it.Next() { ... }\<close>: the pairs it sees, and the iterator at the end.\<close>

partial_function (option) iterPairs :: "iterEnv \<Rightarrow> Iterator \<Rightarrow> (unit, (bytes \<times> bytes) list \<times> Iterator) res option" where
  "iterPairs E it =
     (case IteratorNext E it of
        None \<Rightarrow> None
      | Some (Ok (ok, it')) \<Rightarrow>
          if ok then
            Option.bind (iterPairs E it') (\<lambda>r. Some (rmap (\<lambda>(kvs, i). ((it_Key it', it_Value it') # kvs, i)) r))
          else Some (Ok ([], it'))
      | Some (Err e) \<Rightarrow> Some (Err e)
      | Some Panic \<Rightarrow> Some Panic
      | Some Hang \<Rightarrow> Some Hang)"

section \<open>What is left to visit\<close>

text \<open>The nodes of a tree in pre-order with their paths, and the children of a node after the child number \<open>j\<close>.\<close>

fun preorder :: "bytes \<Rightarrow> ptree \<Rightarrow> (bytes \<times> ptree) list" where
  "preorder path PNil = [(path, PNil)]"
| "preorder path (PVal v) = [(path, PVal v)]"
| "preorder path (PShort k c) = (path, PShort k c) # preorder (path @ k) c"
| "preorder path (PFull p0 p1 p2) = (path, PFull p0 p1 p2) #
     (if p0 = PNil then [] else preorder (path @ [0]) p0) @ (if p1 = PNil then [] else preorder (path @ [1]) p1) @
     (if p2 = PNil then [] else preorder (path @ [2]) p2)"

fun pkids :: "ptree \<Rightarrow> int \<Rightarrow> (bytes \<times> ptree) list" where
  "pkids (PShort k c) j = (if j < 0 then [(k, c)] else [])"
| "pkids (PFull p0 p1 p2) j =
     (if j < 0 \<and> p0 \<noteq> PNil then [([0], p0)] else []) @ (if j < 1 \<and> p1 \<noteq> PNil then [([1], p1)] else []) @
     (if j < 2 \<and> p2 \<noteq> PNil then [([2], p2)] else [])"
| "pkids p j = []"

definition kidsOrder :: "bytes \<Rightarrow> (bytes \<times> ptree) list \<Rightarrow> (bytes \<times> ptree) list" where
  "kidsOrder path ks = concat (map (\<lambda>(q, c). preorder (path @ q) c) ks)"

lemma kidsOrder_simps [simp]:
  "kidsOrder path [] = []" "kidsOrder path ((q, c) # ks) = preorder (path @ q) c @ kidsOrder path ks"
  by (simp_all add: kidsOrder_def)

lemma preorder_kids: "preorder path p = (path, p) # kidsOrder path (pkids p (-1))"
  by (cases p) auto

definition sound :: "ptree \<Rightarrow> bool" where
  "sound p \<longleftrightarrow> p = PNil \<or> isValue p \<or> pwfN p"

lemma sound_pkids: "sound p \<Longrightarrow> (q, c) \<in> set (pkids p j) \<Longrightarrow> sound c \<and> c \<noteq> PNil \<and> q \<noteq> []"
  by (cases p) (auto simp: sound_def split: if_splits elim: isValueE)

text \<open>\<open>walks db R stack path S\<close>: the nodes below the stack that are still to come are those of \<open>S\<close>.\<close>

inductive walks :: "nodeDb \<Rightarrow> (bool \<Rightarrow> hash \<Rightarrow> ptree \<Rightarrow> bool) \<Rightarrow> iterState list \<Rightarrow> bytes \<Rightarrow> (bytes \<times> ptree) list \<Rightarrow> bool" for db R where
  walks_nil: "walks db R [] path []"
| walks_cons: "loads db R b (is_node st) p \<Longrightarrow> \<not> isHash (is_node st) \<Longrightarrow> sound p \<Longrightarrow> is_index st \<ge> -1 \<Longrightarrow>
     walks db R stack (take (is_pathlen st) path) rest \<Longrightarrow>
     walks db R (st # stack) path (kidsOrder path (pkids p (is_index st)) @ rest)"

inductive_cases walks_ConsE: "walks db R (st # stack) path S"

lemma resolveState_loads:
  assumes "loads db R b (is_node st) p"
  shows "\<exists>st'. resolveState db st path = Ok st' \<and> loads db R b (is_node st') p \<and> \<not> isHash (is_node st') \<and>
     is_index st' = is_index st \<and> is_pathlen st' = is_pathlen st"
proof (cases "is_node st")
  case (HashN h)
  then show ?thesis using assms inner_not_hash by (force simp: loads_HashN resolveState_def resolveHash_def)
qed (use assms in \<open>auto simp: resolveState_def\<close>)

lemma childState_some:
  assumes "loads db R b n c" "c \<noteq> PNil"
  shows "\<exists>st. childState ancestor path n = Some st \<and> is_node st = n \<and> is_index st = -1 \<and> is_pathlen st = length path"
  using assms loads_not_nil [OF assms(1)] by (cases n) (auto simp: childState_def)

lemma upt_three: "[0..<3] = [0, 1, 2]" "[1..<3] = [1, 2]" "[Suc 0..<3] = [1, 2]" "[2..<3] = [2 :: nat]"
  by (simp_all add: upt_rec)

text \<open>The next child of a node is the first of its children that are left.\<close>

definition stepsTo :: "nodeDb \<Rightarrow> (bool \<Rightarrow> hash \<Rightarrow> ptree \<Rightarrow> bool) \<Rightarrow> iterState \<Rightarrow> bytes \<Rightarrow> ptree \<Rightarrow>
    (iterState \<times> bytes \<times> iterState) option option \<Rightarrow> bytes \<Rightarrow> ptree \<Rightarrow> (bytes \<times> ptree) list \<Rightarrow> bool" where
  "stepsTo db R parent path p r q c ks \<longleftrightarrow>
     (\<exists>st j. r = Some (Some (st, path @ q, parent\<lparr>is_index := j\<rparr>)) \<and> j \<ge> -1 \<and>
        loads db R False (is_node st) c \<and> is_index st = -1 \<and> is_pathlen st = length path \<and>
        pkids p j = (q, c) # ks \<and> pkids p (j + 1) = ks)"

lemma stepsToI:
  assumes "r = map_option (\<lambda>st. Some (st, path @ q, parent\<lparr>is_index := j\<rparr>)) (childState ancestor path n)"
    and "loads db R False n c" "c \<noteq> PNil" "j \<ge> -1" "pkids p j = (q, c) # ks" "pkids p (j + 1) = ks"
  shows "stepsTo db R parent path p r q c ks"
  using childState_some [OF assms(2,3), of ancestor path] assms unfolding stepsTo_def by auto

lemma find_child:
  "i \<ge> -1 \<Longrightarrow> List.find (\<lambda>i. [c0, c1, c2] ! i \<noteq> NilN) [nat (i + 1)..<3] =
     (if i < 0 \<and> c0 \<noteq> NilN then Some 0 else if i < 1 \<and> c1 \<noteq> NilN then Some 1 else if i < 2 \<and> c2 \<noteq> NilN then Some 2 else None)"
proof -
  assume "i \<ge> -1"
  then consider "i = -1" | "i = 0" | "i = 1" | "i \<ge> 2" by linarith
  then show ?thesis by cases (simp_all add: upt_three)
qed

lemma nextChild_full:
  assumes "is_node parent = FullN c0 c1 c2 f" "loads db R b (FullN c0 c1 c2 f) (PFull p0 p1 p2)" "is_index parent \<ge> -1"
  shows "case pkids (PFull p0 p1 p2) (is_index parent) of
      [] \<Rightarrow> nextChild parent ancestor path = Some None
    | (q, c) # ks \<Rightarrow> stepsTo db R parent path (PFull p0 p1 p2) (nextChild parent ancestor path) q c ks"
proof -
  let ?i = "is_index parent"
  have l: "loads db R False c0 p0" "loads db R False c1 p1" "loads db R False c2 p2" using assms(2) by auto
  have nil: "c0 = NilN \<longleftrightarrow> p0 = PNil" "c1 = NilN \<longleftrightarrow> p1 = PNil" "c2 = NilN \<longleftrightarrow> p2 = PNil" using l loads_not_nil by blast+
  have nc: "nextChild parent ancestor path =
      (case (if ?i < 0 \<and> p0 \<noteq> PNil then Some 0 else if ?i < 1 \<and> p1 \<noteq> PNil then Some 1 else if ?i < 2 \<and> p2 \<noteq> PNil then Some 2 else None) of
         None \<Rightarrow> Some None
       | Some i \<Rightarrow> map_option (\<lambda>st. Some (st, path @ [of_nat i], parent\<lparr>is_index := int i - 1\<rparr>))
                         (childState ancestor path ([c0, c1, c2] ! i)))"
    by (simp only: nextChild_def assms(1) node.case find_child [OF assms(3)] nil)
  consider (zero) "?i < 0" "p0 \<noteq> PNil" | (one) "\<not> (?i < 0 \<and> p0 \<noteq> PNil)" "?i < 1" "p1 \<noteq> PNil"
    | (two) "\<not> (?i < 0 \<and> p0 \<noteq> PNil)" "\<not> (?i < 1 \<and> p1 \<noteq> PNil)" "?i < 2" "p2 \<noteq> PNil"
    | (none) "\<not> (?i < 0 \<and> p0 \<noteq> PNil)" "\<not> (?i < 1 \<and> p1 \<noteq> PNil)" "\<not> (?i < 2 \<and> p2 \<noteq> PNil)" by blast
  then show ?thesis
  proof cases
    case zero
    have "nextChild parent ancestor path =
        map_option (\<lambda>st. Some (st, path @ [0], parent\<lparr>is_index := -1\<rparr>)) (childState ancestor path c0)"
      using zero by (simp add: nc)
    from stepsToI [OF this l(1) zero(2), of "PFull p0 p1 p2" "pkids (PFull p0 p1 p2) 0"] zero show ?thesis by simp
  next
    case one
    have "nextChild parent ancestor path =
        map_option (\<lambda>st. Some (st, path @ [1], parent\<lparr>is_index := 0\<rparr>)) (childState ancestor path c1)"
      using one by (auto simp: nc)
    from stepsToI [OF this l(2) one(3), of "PFull p0 p1 p2" "pkids (PFull p0 p1 p2) 1"] one show ?thesis by auto
  next
    case two
    have "nextChild parent ancestor path =
        map_option (\<lambda>st. Some (st, path @ [2], parent\<lparr>is_index := 1\<rparr>)) (childState ancestor path c2)"
      using two by (auto simp: nc)
    from stepsToI [OF this l(3) two(4), of "PFull p0 p1 p2" "[]"] two show ?thesis by auto
  next
    case none
    then show ?thesis by (auto simp: nc)
  qed
qed

lemma nextChild_kids:
  assumes "loads db R b (is_node parent) p" "\<not> isHash (is_node parent)" "sound p" "is_index parent \<ge> -1"
  shows "case pkids p (is_index parent) of
      [] \<Rightarrow> nextChild parent ancestor path = Some None
    | (q, c) # ks \<Rightarrow> stepsTo db R parent path p (nextChild parent ancestor path) q c ks"
proof (cases "is_node parent")
  case (FullN c0 c1 c2 f)
  then show ?thesis using nextChild_full [OF FullN _ assms(4)] assms(1) by (auto simp del: pkids.simps)
next
  case (ShortN k n f)
  then obtain c where c: "p = PShort k c" "loads db R False n c" using assms(1) by auto
  have "c \<noteq> PNil" using sound_pkids [OF assms(3), of k c "-1"] c(1) by simp
  then obtain st where "childState ancestor path n = Some st" "is_node st = n" "is_index st = -1" "is_pathlen st = length path"
    using childState_some [OF c(2)] by blast
  then show ?thesis using ShortN c assms(4)
    by (auto simp: nextChild_def stepsTo_def intro!: exI [of _ "-1"] iterState.equality)
qed (use assms in \<open>auto simp: nextChild_def\<close>)

definition bump :: "iterState list \<Rightarrow> iterState list" where
  "bump stack = (case stack of [] \<Rightarrow> [] | p # stack \<Rightarrow> p\<lparr>is_index := is_index p + 1\<rparr> # stack)"

lemma peekLoop_walks:
  "walks db R stack path S \<Longrightarrow>
     (case S of
        [] \<Rightarrow> \<exists>path'. peekLoop db stack path = (Err IterEnd, [], path')
      | (q, c) # S' \<Rightarrow> \<exists>st stack' path' b. peekLoop db stack path = (Ok (st, q), stack', path') \<and> stack' \<noteq> [] \<and>
          walks db R stack' path' S \<and> walks db R (st # bump stack') q S' \<and> loads db R b (is_node st) c \<and> \<not> isHash (is_node st))"
proof (induction rule: walks.induct)
  case (walks_nil path)
  then show ?case by simp
next
  case (walks_cons b st p stack path rest)
  let ?anc = "if is_hash st = zeroHash then is_parent st else is_hash st"
  note next_child = nextChild_kids [OF walks_cons.hyps(1-4), of ?anc path]
  show ?case
  proof (cases "pkids p (is_index st)")
    case Nil
    then have "peekLoop db (st # stack) path = peekLoop db stack (take (is_pathlen st) path)" using next_child by simp
    then show ?thesis using walks_cons.IH Nil
      by (auto split: list.splits simp del: peekLoop.simps)
  next
    case (Cons kid ks)
    obtain q c where kid: "kid = (q, c)" by (cases kid)
    obtain ch j where ch: "nextChild st ?anc path = Some (Some (ch, path @ q, st\<lparr>is_index := j\<rparr>))" "j \<ge> -1"
        "loads db R False (is_node ch) c" "is_index ch = -1" "is_pathlen ch = length path"
        "pkids p j = (q, c) # ks" "pkids p (j + 1) = ks"
      using next_child Cons kid by (auto simp: stepsTo_def)
    obtain ch' where ch': "resolveState db ch (path @ q) = Ok ch'" "loads db R False (is_node ch') c" "\<not> isHash (is_node ch')"
        "is_index ch' = -1" "is_pathlen ch' = length path"
      using resolveState_loads [OF ch(3)] ch(4,5) by metis
    let ?st = "st\<lparr>is_index := j\<rparr>"
    have snd: "sound c" using sound_pkids [OF walks_cons.hyps(3), of q c j] ch(6) by simp
    have w1: "walks db R (?st # stack) path (kidsOrder path (pkids p j) @ rest)"
      using walks.walks_cons [of db R b ?st p stack path rest] walks_cons.hyps ch(2) by simp
    have w2: "walks db R (bump (?st # stack)) path (kidsOrder path ks @ rest)"
      using walks.walks_cons [of db R b "st\<lparr>is_index := j + 1\<rparr>" p stack path rest] walks_cons.hyps ch(2,7) by (simp add: bump_def)
    have "walks db R (ch' # bump (?st # stack)) (path @ q) (kidsOrder (path @ q) (pkids c (is_index ch')) @ kidsOrder path ks @ rest)"
      by (rule walks.walks_cons [OF ch'(2,3) snd]) (use ch'(4,5) w2 in simp_all)
    moreover have "peekLoop db (st # stack) path = (Ok (ch', path @ q), ?st # stack, path)" using ch(1) ch'(1) by simp
    ultimately show ?thesis using w1 ch'(2,3,4) Cons kid ch(6) preorder_kids [of "path @ q" c]
      by (simp del: peekLoop.simps)
  qed
qed

section \<open>The order of the nodes\<close>

lemma bytesCompare_append [simp]: "bytesCompare (p @ a) (p @ b) = bytesCompare a b"
  by (induction p) auto

lemma bytesCompare_prefix [simp]: "r \<noteq> [] \<Longrightarrow> bytesCompare p (p @ r) = -1"
  by (induction p) (cases r; simp)+

lemma bytesCompare_extend: "bytesCompare a b < 0 \<Longrightarrow> \<not> prefix a b \<Longrightarrow> bytesCompare (a @ r) b < 0"
  by (induction a b rule: bytesCompare.induct) (auto split: if_splits)

lemma bytesCompare_nil [simp]: "bytesCompare a [] = (if a = [] then 0 else 1)"
  by (cases a) auto

lemma bytesCompare_trans: "bytesCompare a b < 0 \<Longrightarrow> bytesCompare b c < 0 \<Longrightarrow> bytesCompare a c < 0"
proof (induction a c arbitrary: b rule: bytesCompare.induct)
  case (4 x xs z zs)
  then show ?case by (cases b) (auto split: if_splits)
qed (auto split: if_splits)

lemma preorder_path: "(q, c) \<in> set (preorder path p) \<Longrightarrow> \<exists>r. q = path @ r"
  by (induction path p rule: preorder.induct) (auto split: if_splits)

lemma preorder_sorted:
  "sound p \<Longrightarrow> sorted_wrt (\<lambda>a b. bytesCompare (fst a) (fst b) < 0) (preorder path p)"
proof (induction path p rule: preorder.induct)
  case (3 path k c)
  have k: "k \<noteq> []" "sound c" using sound_pkids [OF 3(2), of k c "-1"] by auto
  have "bytesCompare path (fst x) < 0" if "x \<in> set (preorder (path @ k) c)" for x
    using that preorder_path [of "fst x" "snd x" "path @ k" c] k(1) by auto
  then show ?case using 3(1) [OF k(2)] by auto
next
  case (4 path p0 p1 p2)
  have snd: "sound p0" "sound p1" "sound p2" using 4(4) by (auto simp: sound_def elim: isValueE)
  have "bytesCompare path (fst x) < 0" if "x \<in> set (preorder (path @ [d]) c)" for x d c
    using that preorder_path [of "fst x" "snd x" "path @ [d]" c] by auto
  moreover have "bytesCompare (fst x) (fst y) < 0"
    if x: "x \<in> set (preorder (path @ [d]) c)" and y: "y \<in> set (preorder (path @ [e]) c')" and d: "d < e" for x y d e c c'
  proof -
    obtain r r' where "fst x = path @ d # r" "fst y = path @ e # r'"
      using preorder_path [of "fst x" "snd x" "path @ [d]" c] x preorder_path [of "fst y" "snd y" "path @ [e]" c'] y by auto
    then show ?thesis using d by simp
  qed
  ultimately show ?case using 4(1-3) snd by (auto simp: sorted_wrt_append)
qed simp_all

text \<open>A sorted list from a bound on is its part from the bound on.\<close>

lemma dropWhile_sorted:
  assumes "sorted_wrt (\<lambda>a b. bytesCompare (fst a) (fst b) < 0) xs"
  shows "dropWhile (\<lambda>x. bytesCompare (fst x) key < 0) xs = filter (\<lambda>x. \<not> bytesCompare (fst x) key < 0) xs"
  using assms
proof (induction xs)
  case (Cons x xs)
  have "\<not> bytesCompare (fst y) key < 0" if "\<not> bytesCompare (fst x) key < 0" "y \<in> set xs" for y
    using that Cons.prems bytesCompare_trans [of "fst x" "fst y" key] by auto
  then show ?case using Cons by (auto simp: filter_id_conv)
qed simp

lemma preorder_lookup: "sound p \<Longrightarrow> (path @ q, PVal v) \<in> set (preorder path p) \<longleftrightarrow> plookup p q = Some v"
proof (induction path p arbitrary: q rule: preorder.induct)
  case (3 path k c)
  have k: "k \<noteq> []" "sound c" using sound_pkids [OF 3(2), of k c "-1"] by auto
  show ?case
  proof (cases "prefix k q")
    case True
    then obtain r where r: "q = k @ r" by (auto simp: prefix_def)
    then show ?thesis using 3(1) [OF k(2), of r] by (simp add: plookup_PShort plookup_pextend_append)
  next
    case False
    then have "plookup (PShort k c) q = None" using plookup_PShort_Some [of k c q] by (cases "plookup (PShort k c) q") (auto simp: prefix_def)
    then show ?thesis using False preorder_path [of "path @ q" "PVal v" "path @ k" c] by (auto simp: prefix_def)
  qed
next
  case (4 path p0 p1 p2)
  have snd: "sound p0" "sound p1" "sound p2" using 4(4) by (auto simp: sound_def elim: isValueE)
  show ?case
  proof (cases q)
    case (Cons d r)
    have other: "(path @ d # r, PVal v) \<notin> set (preorder (path @ [e]) c)" if "e \<noteq> d" for e c
      using that preorder_path [of "path @ d # r" "PVal v" "path @ [e]" c] by auto
    show ?thesis using 4(1) [OF _ snd(1), of r] 4(2) [OF _ snd(2), of r] 4(3) [OF _ snd(3), of r] other Cons by auto
  next
    case Nil
    have "(path, PVal v) \<notin> set (preorder (path @ [e]) c)" for e c
      using preorder_path [of path "PVal v" "path @ [e]" c] by auto
    then show ?thesis using Nil by auto
  qed
qed auto

lemma preorder_kind:
  "pwf p \<Longrightarrow> isBits path \<Longrightarrow> (q, c) \<in> set (preorder path p) \<Longrightarrow>
     (\<exists>v. c = PVal v) \<and> hasTermBin q \<or> (\<forall>v. c \<noteq> PVal v) \<and> isBits q"
proof (induction path p rule: preorder.induct)
  case (3 path k d)
  then have wf: "pwfN (PShort k d)" by (simp add: pwf_def)
  show ?case
  proof (cases rule: pwfN_short_cases [OF wf])
    case (1 v)
    then show ?thesis using 3(3,4) by (auto simp: vkey_iff simp flip: append_assoc)
  next
    case 2
    then show ?thesis using 3 by (auto simp: pwf_def)
  qed
next
  case (4 path p0 p1 p2)
  then have wf: "pwf p0" "pwf p1" "p2 = PNil \<or> isValue p2" by (auto simp: pwf_def)
  then show ?case using 4(1,2,5,6) by (auto split: if_splits elim: isValueE)
qed (auto simp: pwf_def)

section \<open>One step\<close>

definition remains :: "iterEnv \<Rightarrow> nodeIterator \<Rightarrow> (bytes \<times> ptree) list \<Rightarrow> bool" where
  "remains E it S \<longleftrightarrow>
     (if ni_stack it = []
      then ni_path it = [] \<and> (\<exists>t p. ni_trie it = Some t \<and> represents (ie_db E) (merkle (ie_crypto E)) t p \<and> S = preorder [] p)
      else walks (ie_db E) (merkle (ie_crypto E)) (ni_stack it) (ni_path it) S)"

text \<open>The result of \<open>peek\<close> when the nodes of \<open>S\<close> are to come.\<close>

definition peeks :: "iterEnv \<Rightarrow> iterErr option \<Rightarrow> (iterErr, iterState \<times> bool \<times> bytes) res \<times> nodeIterator \<Rightarrow> (bytes \<times> ptree) list \<Rightarrow> bool" where
  "peeks E err r S \<longleftrightarrow>
     (case S of
        [] \<Rightarrow> \<exists>it'. r = (Err IterEnd, it') \<and> ni_err it' = err
      | (q, c) # S' \<Rightarrow> \<exists>st hasParent it' b. r = (Ok (st, hasParent, q), it') \<and> ni_err it' = err \<and> remains E it' S \<and>
          remains E (niPush st hasParent q it') S' \<and> loads (ie_db E) (merkle (ie_crypto E)) b (is_node st) c \<and> \<not> isHash (is_node st))"

lemma peeks_ConsI:
  "r = (Ok (st, hp, q), it') \<Longrightarrow> ni_err it' = err \<Longrightarrow> remains E it' ((q, c) # S) \<Longrightarrow> remains E (niPush st hp q it') S \<Longrightarrow>
     loads (ie_db E) (merkle (ie_crypto E)) b (is_node st) c \<Longrightarrow> \<not> isHash (is_node st) \<Longrightarrow> peeks E err r ((q, c) # S)"
  unfolding peeks_def list.case prod.case by blast

lemma peeks_ConsE:
  assumes "peeks E err r ((q, c) # S)"
  obtains st hp it' b where "r = (Ok (st, hp, q), it')" "ni_err it' = err" "remains E it' ((q, c) # S)" "remains E (niPush st hp q it') S"
    "loads (ie_db E) (merkle (ie_crypto E)) b (is_node st) c" "\<not> isHash (is_node st)"
  using assms unfolding peeks_def list.case prod.case by blast

lemma niPush_simps [simp]:
  "ni_path (niPush st hp q it) = q" "ni_err (niPush st hp q it) = ni_err it"
  "ni_stack (niPush st True q it) = st # bump (ni_stack it)" "ni_stack (niPush st False q it) = st # ni_stack it"
  by (simp_all add: niPush_def bump_def)

lemma hd_niPush: "\<exists>stack. ni_stack (niPush st hp q it) = st # stack"
  by (simp add: niPush_def)

lemma peekLoop_peeks:
  assumes "walks (ie_db E) (merkle (ie_crypto E)) stack path S"
  shows "peeks E (ni_err it) (case peekLoop (ie_db E) stack path of
      (r, stack, path) \<Rightarrow> (rmap (\<lambda>(st, p). (st, True, p)) r, it\<lparr>ni_stack := stack, ni_path := path\<rparr>)) S"
proof (cases S)
  case Nil
  then show ?thesis using peekLoop_walks [OF assms] by (auto simp: peeks_def)
next
  case (Cons x S')
  obtain q c where x: "x = (q, c)" by (cases x)
  obtain st stack' path' b where w: "peekLoop (ie_db E) stack path = (Ok (st, q), stack', path')" "stack' \<noteq> []"
      "walks (ie_db E) (merkle (ie_crypto E)) stack' path' ((q, c) # S')"
      "walks (ie_db E) (merkle (ie_crypto E)) (st # bump stack') q S'"
      "loads (ie_db E) (merkle (ie_crypto E)) b (is_node st) c" "\<not> isHash (is_node st)"
    using peekLoop_walks [OF assms] unfolding Cons x by auto
  let ?it = "it\<lparr>ni_stack := stack', ni_path := path'\<rparr>"
  have "remains E ?it ((q, c) # S')" "remains E (niPush st True q ?it) S'" using w(2-4) by (simp_all add: remains_def)
  then show ?thesis unfolding Cons x by (intro peeks_ConsI [OF _ _ _ _ w(5,6)]) (simp_all add: w(1))
qed

lemma peek_root:
  assumes "represents (ie_db E) (merkle (ie_crypto E)) t p" "ni_stack it = []" "ni_path it = []" "ni_trie it = Some t"
  shows "peeks E (ni_err it) (peek E descend it) (preorder [] p)"
proof -
  let ?R = "merkle (ie_crypto E)"
  obtain t' where t': "TrieHash (ie_crypto E) (ie_emptyRoot E) t = Some (rootOf (ie_crypto E) (ie_emptyRoot E) p, t')"
      "represents (ie_db E) ?R t' p"
    using TrieHash_represents [OF assms(1)] by blast
  let ?st = "\<lparr>is_hash = (if rootOf (ie_crypto E) (ie_emptyRoot E) p \<noteq> ie_emptyRoot E then rootOf (ie_crypto E) (ie_emptyRoot E) p else zeroHash),
      is_node = tr_root t', is_parent = zeroHash, is_index = -1, is_pathlen = 0\<rparr>"
  have l: "loads (ie_db E) ?R True (is_node ?st) p" and snd: "sound p" using t'(2) by (auto simp: represents_def sound_def pwf_def)
  obtain st where st: "resolveState (ie_db E) ?st [] = Ok st" "loads (ie_db E) ?R True (is_node st) p" "\<not> isHash (is_node st)"
      "is_index st = -1" "is_pathlen st = 0"
    using resolveState_loads [OF l, of "[]"] by auto
  have "walks (ie_db E) ?R [st] [] (kidsOrder [] (pkids p (is_index st)) @ [])"
    by (rule walks_cons [OF st(2,3) snd]) (use st(4) in \<open>simp_all add: walks_nil\<close>)
  then have w: "walks (ie_db E) ?R [st] [] (kidsOrder [] (pkids p (-1)))" using st(4) by simp
  have run: "peek E descend it = (Ok (st, False, []), it\<lparr>ni_trie := Some t'\<rparr>)"
    using assms(2,4) t'(1) st(1) by (simp add: peek_def Let_def)
  have r: "remains E (it\<lparr>ni_trie := Some t'\<rparr>) (preorder [] p)" using assms(2,3) t'(2) by (auto simp: remains_def)
  show ?thesis unfolding preorder_kids [of "[]" p]
    by (rule peeks_ConsI [OF run _ r [unfolded preorder_kids [of "[]" p]] _ st(2,3)]) (use assms(2) w in \<open>simp_all add: remains_def\<close>)
qed

lemma peek_remains: "remains E it S \<Longrightarrow> peeks E (ni_err it) (peek E True it) S"
proof (cases "ni_stack it = []")
  case True
  assume "remains E it S"
  then show ?thesis using True peek_root [of E _ _ it True] unfolding remains_def by auto
next
  case False
  assume "remains E it S"
  then show ?thesis using False peekLoop_peeks [of E "ni_stack it" "ni_path it" S it] unfolding remains_def peek_def by simp
qed

text \<open>Without descending, the nodes below the current one are left out.\<close>

lemma peek_skip:
  assumes "remains E it S" "ni_stack it \<noteq> []"
  obtains D S' where "S = D @ S'" "peeks E (ni_err it) (peek E False it) S'" "\<forall>x\<in>set D. \<exists>r. fst x = ni_path it @ r"
proof -
  obtain st stack where s: "ni_stack it = st # stack" using assms(2) by (cases "ni_stack it") auto
  have "walks (ie_db E) (merkle (ie_crypto E)) (st # stack) (ni_path it) S" using assms s by (simp add: remains_def)
  then obtain p rest where p: "S = kidsOrder (ni_path it) (pkids p (is_index st)) @ rest"
      "walks (ie_db E) (merkle (ie_crypto E)) stack (take (is_pathlen st) (ni_path it)) rest"
    by (rule walks_ConsE) blast
  have e: "peek E False it = (case peekLoop (ie_db E) stack (take (is_pathlen st) (ni_path it)) of
      (r, stack, path) \<Rightarrow> (rmap (\<lambda>(st, p). (st, True, p)) r, niPop it\<lparr>ni_stack := stack, ni_path := path\<rparr>))"
    using s by (simp add: peek_def niPop_def)
  have err: "ni_err (niPop it) = ni_err it" using s by (simp add: niPop_def)
  have "peeks E (ni_err it) (peek E False it) rest" unfolding e by (rule peekLoop_peeks [OF p(2), of "niPop it", unfolded err])
  moreover have "\<exists>r. fst x = ni_path it @ r" if x: "x \<in> set (kidsOrder (ni_path it) ks)" for x ks
  proof -
    obtain q c where "x \<in> set (preorder (ni_path it @ q) c)" using x by (auto simp: kidsOrder_def)
    then show ?thesis using preorder_path [of "fst x" "snd x" "ni_path it @ q" c] by auto
  qed
  ultimately show thesis using that p(1) by blast
qed

section \<open>Seeking and stepping\<close>

definition positioned :: "iterEnv \<Rightarrow> nodeIterator \<Rightarrow> (bytes \<times> ptree) list \<Rightarrow> bool" where
  "positioned E it S \<longleftrightarrow> (ni_err it = None \<and> remains E it S) \<or> (ni_err it = Some IterEnd \<and> S = [])"

lemma remains_err [simp]: "remains E (it\<lparr>ni_err := e\<rparr>) S = remains E it S"
  by (simp add: remains_def)

lemma seekLoop_remains:
  assumes "remains E it S" "ni_path it = [] \<or> bytesCompare (ni_path it) key < 0"
  shows "\<exists>err it'. seekLoop E start key it = Some (Ok (err, it')) \<and>
     positioned E (it'\<lparr>ni_err := err\<rparr>) (dropWhile (\<lambda>x. bytesCompare (fst x) key < 0) S)"
  using assms
proof (induction "length S" arbitrary: S it rule: less_induct)
  case less
  have "\<exists>D S'. S = D @ S' \<and> peeks E (ni_err it) (peek E (prefix (ni_path it) key) it) S' \<and> (\<forall>x\<in>set D. bytesCompare (fst x) key < 0)"
  proof (cases "prefix (ni_path it) key")
    case True
    then show ?thesis using peek_remains [OF less.prems(1)] by force
  next
    case False
    then have ne: "ni_path it \<noteq> []" "bytesCompare (ni_path it) key < 0" using less.prems(2) by auto
    then have "ni_stack it \<noteq> []" using less.prems(1) by (auto simp: remains_def split: if_splits)
    then obtain D S' where d: "S = D @ S'" "peeks E (ni_err it) (peek E False it) S'" "\<forall>x\<in>set D. \<exists>r. fst x = ni_path it @ r"
      using peek_skip [OF less.prems(1)] by blast
    have "bytesCompare (fst x) key < 0" if "x \<in> set D" for x
      using that d(3) bytesCompare_extend [OF ne(2) False] by metis
    moreover have "peeks E (ni_err it) (peek E (prefix (ni_path it) key) it) S'" using False d(2) by simp
    ultimately show ?thesis using d(1) by blast
  qed
  then obtain D S' where d: "S = D @ S'" "peeks E (ni_err it) (peek E (prefix (ni_path it) key) it) S'"
      "\<forall>x\<in>set D. bytesCompare (fst x) key < 0" by blast
  have drop: "dropWhile (\<lambda>x. bytesCompare (fst x) key < 0) S = dropWhile (\<lambda>x. bytesCompare (fst x) key < 0) S'"
    using d(1,3) by (simp add: dropWhile_append2)
  show ?case
  proof (cases S')
    case Nil
    then obtain it' where "peek E (prefix (ni_path it) key) it = (Err IterEnd, it')" using d(2) by (auto simp: peeks_def)
    then show ?thesis unfolding drop by (subst seekLoop.simps) (simp add: Nil positioned_def)
  next
    case (Cons x S'')
    obtain q c where x: "x = (q, c)" by (cases x)
    obtain st hp it' where p: "peek E (prefix (ni_path it) key) it = (Ok (st, hp, q), it')" "remains E it' S'"
        "remains E (niPush st hp q it') S''"
      using d(2) unfolding Cons x by (auto simp: peeks_def)
    show ?thesis
    proof (cases "bytesCompare q key < 0")
      case False
      then have "seekLoop E start key it = Some (Ok (None, it'))" using p(1) by (subst seekLoop.simps) simp
      then show ?thesis unfolding drop using False p(2) by (auto simp: Cons x positioned_def)
    next
      case True
      then have "seekLoop E start key it = seekLoop E start key (niPush st hp q it')" using p(1) by (subst seekLoop.simps) simp
      then show ?thesis using less.hyps [OF _ p(3)] True unfolding drop by (simp add: d(1) Cons x)
    qed
  qed
qed

lemma newNodeIterator_positioned:
  assumes "represents (ie_db E) (merkle (ie_crypto E)) t p" "rootOf (ie_crypto E) (ie_emptyRoot E) p \<noteq> emptyState E"
  shows "\<exists>ni. newNodeIterator E t start = Some (Ok ni) \<and>
     positioned E ni (dropWhile (\<lambda>x. bytesCompare (fst x) (butlast (keybytesToBinary start)) < 0) (preorder [] p))"
proof -
  obtain t' where t': "TrieHash (ie_crypto E) (ie_emptyRoot E) t = Some (rootOf (ie_crypto E) (ie_emptyRoot E) p, t')"
      "represents (ie_db E) (merkle (ie_crypto E)) t' p"
    using TrieHash_represents [OF assms(1)] by blast
  let ?it = "\<lparr>ni_trie = Some t', ni_stack = [], ni_path = [], ni_err = None\<rparr>"
  have "remains E ?it (preorder [] p)" using t'(2) by (auto simp: remains_def)
  from seekLoop_remains [OF this, of "butlast (keybytesToBinary start)" start] show ?thesis
    using t'(1) assms(2) by (auto simp: newNodeIterator_def seek_def Let_def butlast_conv_take)
qed

lemma niNext_positioned:
  assumes "positioned E it S"
  shows "case S of
      [] \<Rightarrow> \<exists>it'. niNext E True it = Some (Ok (False, it')) \<and> niError it' = None
    | (q, c) # S' \<Rightarrow> \<exists>it' st stack b. niNext E True it = Some (Ok (True, it')) \<and> positioned E it' S' \<and> ni_path it' = q \<and>
        ni_stack it' = st # stack \<and> loads (ie_db E) (merkle (ie_crypto E)) b (is_node st) c \<and> \<not> isHash (is_node st)"
proof (cases "ni_err it")
  case None
  then have p: "peeks E None (peek E True it) S" using assms peek_remains [of E it S] by (auto simp: positioned_def)
  show ?thesis
  proof (cases S)
    case Nil
    then show ?thesis using p None by (auto simp: peeks_def niNext_def niStep_def niError_def)
  next
    case (Cons x S')
    obtain q c where x: "x = (q, c)" by (cases x)
    obtain st hp it' b where r: "peek E True it = (Ok (st, hp, q), it')" "remains E (niPush st hp q it') S'"
        "loads (ie_db E) (merkle (ie_crypto E)) b (is_node st) c" "\<not> isHash (is_node st)"
      using p unfolding Cons x by (rule peeks_ConsE) blast
    let ?it = "niPush st hp q (it'\<lparr>ni_err := None\<rparr>)"
    have "?it = (niPush st hp q it')\<lparr>ni_err := None\<rparr>" by (simp add: niPush_def)
    then have "positioned E ?it S'" using r(2) by (simp add: positioned_def)
    moreover have "niNext E True it = Some (Ok (True, ?it))" using None r(1) by (simp add: niNext_def niStep_def)
    moreover have "ni_path ?it = q" by simp
    ultimately show ?thesis using r(3,4) hd_niPush [of st hp q "it'\<lparr>ni_err := None\<rparr>"]
      unfolding Cons x list.case prod.case by blast
  qed
next
  case (Some e)
  then show ?thesis using assms by (auto simp: positioned_def niNext_def niError_def)
qed

section \<open>The pairs of a trie\<close>

text \<open>The pairs among the nodes of a list.\<close>

fun leaves :: "(bytes \<times> ptree) list \<Rightarrow> (bytes \<times> bytes) list" where
  "leaves [] = []"
| "leaves ((q, c) # S) = (case c of PVal v \<Rightarrow> (the (binaryToKeybytes q), v) # leaves S | _ \<Rightarrow> leaves S)"

text \<open>Exactly the values end with the terminator, and their paths are whole keys.\<close>

definition bytewise :: "(bytes \<times> ptree) list \<Rightarrow> bool" where
  "bytewise S \<longleftrightarrow> (\<forall>(q, c)\<in>set S. (hasTermBin q \<longleftrightarrow> (\<exists>v. c = PVal v)) \<and> (hasTermBin q \<longrightarrow> q \<in> range keybytesToBinary))"

lemma iterPairs_positioned:
  "positioned E (it_nodeIt it) S \<Longrightarrow> bytewise S \<Longrightarrow> \<exists>it'. iterPairs E it = Some (Ok (leaves S, it')) \<and> it_Err it' = None"
proof (induction S arbitrary: it)
  case Nil
  then obtain ni where ni: "niNext E True (it_nodeIt it) = Some (Ok (False, ni))" "niError ni = None"
    using niNext_positioned [OF Nil.prems(1)] by auto
  then show ?case by (subst iterPairs.simps, subst IteratorNext.simps) simp
next
  case (Cons x S)
  obtain q c where x: "x = (q, c)" by (cases x)
  obtain ni st stack b where ni: "niNext E True (it_nodeIt it) = Some (Ok (True, ni))" "positioned E ni S" "ni_path ni = q"
      "ni_stack ni = st # stack" "loads (ie_db E) (merkle (ie_crypto E)) b (is_node st) c" "\<not> isHash (is_node st)"
    using niNext_positioned [OF Cons.prems(1)] unfolding x list.case prod.case by blast
  have S: "bytewise S" and q: "hasTermBin q \<longleftrightarrow> (\<exists>v. c = PVal v)" "hasTermBin q \<longrightarrow> q \<in> range keybytesToBinary"
    using Cons.prems(2) unfolding x bytewise_def by auto
  show ?case
  proof (cases "hasTermBin q")
    case False
    then have "IteratorNext E it = IteratorNext E (it\<lparr>it_nodeIt := ni\<rparr>)"
      using ni(1,3) by (subst IteratorNext.simps) (simp add: niLeaf_def)
    then have "iterPairs E it = iterPairs E (it\<lparr>it_nodeIt := ni\<rparr>)" by (subst (1 2) iterPairs.simps) simp
    moreover have "leaves (x # S) = leaves S" using q(1) False x by (cases c) auto
    ultimately show ?thesis using Cons.IH [of "it\<lparr>it_nodeIt := ni\<rparr>"] ni(2) S by simp
  next
    case True
    then obtain v k where v: "c = PVal v" and k: "q = keybytesToBinary k" using q by blast
    have "is_node st = ValueN v" using ni(5,6) unfolding v by (cases "is_node st") auto
    then have "niLeafBlob ni = Some v" "niLeafKey ni = Some k"
      using ni(3,4) by (simp_all add: niLeafBlob_def niLeafKey_def k binaryToKeybytes_keybytesToBinary)
    then have "IteratorNext E it = Some (Ok (True, it\<lparr>it_nodeIt := ni, it_Key := k, it_Value := v\<rparr>))"
      using ni(1,3) True by (subst IteratorNext.simps) (simp add: niLeaf_def)
    moreover obtain it' where "iterPairs E (it\<lparr>it_nodeIt := ni, it_Key := k, it_Value := v\<rparr>) = Some (Ok (leaves S, it'))" "it_Err it' = None"
      using Cons.IH [of "it\<lparr>it_nodeIt := ni, it_Key := k, it_Value := v\<rparr>"] ni(2) S by auto
    ultimately show ?thesis by (subst iterPairs.simps) (simp add: x v k binaryToKeybytes_keybytesToBinary)
  qed
qed

lemma leaves_set: "(k, v) \<in> set (leaves S) \<longleftrightarrow> (\<exists>q. (q, PVal v) \<in> set S \<and> k = the (binaryToKeybytes q))"
  by (induction S rule: leaves.induct) (auto split: ptree.splits)

lemma bytewise_leaf:
  assumes "bytewise S" "(q, PVal v) \<in> set S"
  shows "q = keybytesToBinary (the (binaryToKeybytes q))"
proof -
  have "q \<in> range keybytesToBinary" using assms unfolding bytewise_def by blast
  then show ?thesis by (auto simp: binaryToKeybytes_keybytesToBinary)
qed

lemma leaves_sorted:
  "sorted_wrt (\<lambda>a b. bytesCompare (fst a) (fst b) < 0) S \<Longrightarrow> bytewise S \<Longrightarrow>
     sorted_wrt (\<lambda>a b. bytesCompare (keybytesToBinary (fst a)) (keybytesToBinary (fst b)) < 0) (leaves S)"
proof (induction S)
  case (Cons x S)
  obtain q c where x: "x = (q, c)" by (cases x)
  have S: "bytewise S" using Cons.prems(2) by (simp add: bytewise_def)
  show ?case
  proof (cases c)
    case (PVal v)
    have "bytesCompare q (keybytesToBinary k) < 0" if kw: "(k, w) \<in> set (leaves S)" for k w
    proof -
      obtain r where r: "(r, PVal w) \<in> set S" "k = the (binaryToKeybytes r)" using kw by (auto simp: leaves_set)
      then show ?thesis using bytewise_leaf [OF S r(1)] Cons.prems(1) x by fastforce
    qed
    moreover have "q = keybytesToBinary (the (binaryToKeybytes q))" by (rule bytewise_leaf [OF Cons.prems(2), of q v]) (simp add: x PVal)
    ultimately show ?thesis using Cons S x PVal by auto
  qed (use Cons S x in auto)
qed simp

text \<open>The whole keys that a trie of byte strings can have.\<close>

definition byteKeys :: "ptree \<Rightarrow> bool" where
  "byteKeys p \<longleftrightarrow> (\<forall>q v. plookup p q = Some v \<longrightarrow> q \<in> range keybytesToBinary)"

lemma bytewise_preorder: "pwf p \<Longrightarrow> byteKeys p \<Longrightarrow> bytewise (preorder [] p)"
  using preorder_kind [of p "[]"] preorder_lookup [of p "[]"] hasTermBin_bits
  unfolding bytewise_def byteKeys_def sound_def pwf_def by fastforce

text \<open>
  C27: iterating over a trie ends and yields its pairs in order. On a trie of byte strings over its database, a
  key-value iterator from any start key returns after finitely many steps, without an error, the pairs whose keys are not before the
  start, each once and in the order of the binary keys, however much of the trie has to be loaded on the way.
\<close>

theorem iterator_enumerates:
  assumes "represents (ie_db E) (merkle (ie_crypto E)) t p" "byteKeys p" "rootOf (ie_crypto E) (ie_emptyRoot E) p \<noteq> emptyState E"
  shows "\<exists>ni kvs it. newNodeIterator E t start = Some (Ok ni) \<and> iterPairs E (NewIterator ni) = Some (Ok (kvs, it)) \<and> it_Err it = None \<and>
     sorted_wrt (\<lambda>a b. bytesCompare (keybytesToBinary (fst a)) (keybytesToBinary (fst b)) < 0) kvs \<and>
     (\<forall>k v. (k, v) \<in> set kvs \<longleftrightarrow> storeGet (ie_db E) t k = Some v \<and>
        \<not> bytesCompare (keybytesToBinary k) (butlast (keybytesToBinary start)) < 0)"
proof -
  let ?key = "butlast (keybytesToBinary start)"
  have wf: "pwf p" "sound p" using assms(1) by (auto simp: represents_def sound_def pwf_def)
  note sorted = preorder_sorted [OF wf(2), of "[]"]
  define S where "S = filter (\<lambda>x. \<not> bytesCompare (fst x) ?key < 0) (preorder [] p)"
  have S: "bytewise S" using bytewise_preorder [OF wf(1) assms(2)] by (auto simp: S_def bytewise_def)
  obtain ni where ni: "newNodeIterator E t start = Some (Ok ni)" "positioned E ni S"
    using newNodeIterator_positioned [OF assms(1,3), of start] unfolding dropWhile_sorted [OF sorted] S_def by blast
  obtain it where it: "iterPairs E (NewIterator ni) = Some (Ok (leaves S, it))" "it_Err it = None"
    using iterPairs_positioned [of E "NewIterator ni" S] ni(2) S by (auto simp: NewIterator_def)
  have "(k, v) \<in> set (leaves S) \<longleftrightarrow> storeGet (ie_db E) t k = Some v \<and> \<not> bytesCompare (keybytesToBinary k) ?key < 0" for k v
  proof -
    have "(k, v) \<in> set (leaves S) \<longleftrightarrow> (keybytesToBinary k, PVal v) \<in> set S"
      using bytewise_leaf [OF S] by (metis leaves_set binaryToKeybytes_keybytesToBinary option.sel)
    then show ?thesis
      using preorder_lookup [OF wf(2), of "[]"] storeGet_represents [OF assms(1)] by (auto simp: S_def)
  qed
  moreover have "sorted_wrt (\<lambda>a b. bytesCompare (keybytesToBinary (fst a)) (keybytesToBinary (fst b)) < 0) (leaves S)"
    by (rule leaves_sorted [OF _ S]) (use sorted in \<open>simp add: S_def sorted_wrt_filter\<close>)
  ultimately show ?thesis using ni(1) it by blast
qed

lemma twoTree_byteKeys: "byteKeys twoTree"
proof -
  have "preorder [] twoTree = [([], twoTree), ([0, 0, 0, 0, 0, 0], PFull (PShort [1, 2] (PVal [7])) (PShort [0, 2] (PVal [8])) PNil),
      ([0, 0, 0, 0, 0, 0, 0], PShort [1, 2] (PVal [7])), ([0, 0, 0, 0, 0, 0, 0, 1, 2], PVal [7]),
      ([0, 0, 0, 0, 0, 0, 1], PShort [0, 2] (PVal [8])), ([0, 0, 0, 0, 0, 0, 1, 0, 2], PVal [8])]"
    by code_simp
  moreover have "sound twoTree" using twoKeys_represents [of "\<lambda>_ _ _. True"] by (auto simp: represents_def sound_def pwf_def)
  moreover have "[0, 0, 0, 0, 0, 0, 0, 1, 2] = keybytesToBinary [1]" "[0, 0, 0, 0, 0, 0, 1, 0, 2] = keybytesToBinary [2]"
    by code_simp+
  moreover have "PVal v \<noteq> twoTree" for v
    using twoKeys_represents [of "\<lambda>_ _ _. True"] by (metis represents_def pwf_def ptree.distinct(1) pwfN.simps(2))
  ultimately have "q = keybytesToBinary [1] \<or> q = keybytesToBinary [2]" if "plookup twoTree q = Some v" for q v
    using that preorder_lookup [of twoTree "[]" q v] by auto
  then show ?thesis unfolding byteKeys_def by blast
qed

theorem iterator_enumerates_witness:
  "\<exists>ni kvs it. newNodeIterator \<lparr>ie_db = nodeReader markReader freshDb, ie_crypto = markCrypto, ie_emptyRoot = []\<rparr> twoKeys [2] = Some (Ok ni) \<and>
     iterPairs \<lparr>ie_db = nodeReader markReader freshDb, ie_crypto = markCrypto, ie_emptyRoot = []\<rparr> (NewIterator ni) = Some (Ok (kvs, it)) \<and>
     (\<forall>k v. (k, v) \<in> set kvs \<longleftrightarrow> storeGet (nodeReader markReader freshDb) twoKeys k = Some v \<and>
        \<not> bytesCompare (keybytesToBinary k) (butlast (keybytesToBinary [2])) < 0)"
proof -
  let ?E = "\<lparr>ie_db = nodeReader markReader freshDb, ie_crypto = markCrypto, ie_emptyRoot = []\<rparr>"
  have "rootOf (ie_crypto ?E) (ie_emptyRoot ?E) twoTree \<noteq> emptyState ?E" unfolding rootOf_def emptyState_def by code_simp
  with twoKeys_represents twoTree_byteKeys show ?thesis
    using iterator_enumerates [of ?E twoKeys twoTree "[2]"] by auto
qed

end
