(* ===== verification/PathProof.thy ===== *)
theory PathProof
  imports SecureTrie ChunkRoot
begin

text \<open>
  Path proofs (\<open>trie/proof.go\<close>, \<open>SecureTrie.TryUpdatePathProof\<close>, \<open>StateDB.GetProofs\<close> and \<open>InsertProofs\<close>): one proof for
  several keys. \<open>Proves\<close> collects the Merkle proofs of the keys and prunes them to a frontier: for the path of every leaf of the proofs
  its encoding, and for the path of every subtree beside them its hash. \<open>VerifyProofs\<close> builds a trie from the
  entries of a frontier and compares its root hash.

  On a trie in which no node is embedded and no key is a prefix of another, a path proof of any keys verifies, in
  whatever order the entries are inserted, and the rebuilt trie answers every proved key (\<open>path_proofs_verify\<close>).
\<close>

section \<open>Making a path proof\<close>

text \<open>A key-value store that is written to: the entry under the compact encoding of the path.\<close>

definition putPath :: "bytes \<Rightarrow> bytes \<Rightarrow> (unit, (bytes \<times> bytes) list) res" where
  "putPath key buf = (case binaryToCompact key of None \<Rightarrow> Panic | Some k \<Rightarrow> Ok [(k, buf)])"

text \<open>
  \<open>PruneProofs\<close>: what it puts into the path proof, in order. A node that cannot be decoded is nil, which panics; the array
  \<open>wantHash\<close> is overwritten in place. The hashes of an adversary's proofs may form a cycle: not returning is \<open>None\<close>.
\<close>

partial_function (option) PruneProofs ::
  "rlpReader \<Rightarrow> hash \<Rightarrow> bytes \<Rightarrow> (hash \<Rightarrow> bytes option) \<Rightarrow> (unit, (bytes \<times> bytes) list) res option" where
  "PruneProofs d wantHash key proofDb =
     (case proofDb wantHash of
        None \<Rightarrow> Some (putPath key wantHash)
      | Some buf \<Rightarrow>
          (case decodeNodeOf d (Some wantHash) buf of
             Err e \<Rightarrow> Some Panic
           | Panic \<Rightarrow> Some Panic
           | Hang \<Rightarrow> Some Hang
           | Ok n \<Rightarrow>
               (case n of
                  ShortN k c f \<Rightarrow>
                    (case c of
                       HashN h \<Rightarrow> PruneProofs d (goCopy wantHash h) (key @ k) proofDb
                     | _ \<Rightarrow> Some (putPath key buf))
                | FullN c0 c1 c2 f \<Rightarrow>
                    Option.bind
                      (case c0 of
                         HashN h \<Rightarrow> PruneProofs d (goCopy wantHash h) (key @ [0]) proofDb
                       | _ \<Rightarrow> Some (putPath key buf))
                      (\<lambda>l. case l of
                         Ok ps \<Rightarrow>
                           Option.bind
                             (case c1 of
                                HashN h \<Rightarrow>
                                  PruneProofs d (goCopy (case c0 of HashN h0 \<Rightarrow> goCopy wantHash h0 | _ \<Rightarrow> wantHash) h) (key @ [1]) proofDb
                              | _ \<Rightarrow> Some (putPath key buf))
                             (\<lambda>r. Some (rmap ((@) ps) r))
                       | _ \<Rightarrow> Some l)
                | HashN h \<Rightarrow> Some (putPath key buf)
                | _ \<Rightarrow> Some Panic)))"

text \<open>The loop of \<open>Proves\<close>: an error of \<open>Prove\<close> is ignored, and comes before anything is put.\<close>

fun proveAll :: "crypto \<Rightarrow> nodeDb \<Rightarrow> Trie \<Rightarrow> nat \<Rightarrow> bytes list \<Rightarrow> (hash \<Rightarrow> bytes option) \<Rightarrow> (unit, hash \<Rightarrow> bytes option) res" where
  "proveAll H db t fromLevel [] proof = Ok proof"
| "proveAll H db t fromLevel (key # ks) proof =
     (case Prove H db t key fromLevel of
        Ok puts \<Rightarrow> proveAll H db t fromLevel ks (foldl (\<lambda>m (h, enc). m(h \<mapsto> enc)) proof puts)
      | Err e \<Rightarrow> proveAll H db t fromLevel ks proof
      | Panic \<Rightarrow> Panic
      | Hang \<Rightarrow> Hang)"

definition Proves :: "crypto \<Rightarrow> hash \<Rightarrow> rlpReader \<Rightarrow> nodeDb \<Rightarrow> Trie \<Rightarrow> bytes list \<Rightarrow> nat \<Rightarrow> (unit, (bytes \<times> bytes) list \<times> Trie) res" where
  "Proves H emptyRoot d db t ks fromLevel =
     rbind (proveAll H db t fromLevel ks (\<lambda>_. None)) (\<lambda>proof.
       case TrieHash H emptyRoot t of
         None \<Rightarrow> Panic
       | Some (root, t') \<Rightarrow>
           (case PruneProofs d root [] proof of None \<Rightarrow> Hang | Some r \<Rightarrow> rmap (\<lambda>puts. (puts, t')) r))"

section \<open>Using a path proof\<close>




section \<open>The secure trie and the state\<close>

definition SecProve :: "crypto \<Rightarrow> nodeDb \<Rightarrow> SecureTrie \<Rightarrow> bytes \<Rightarrow> nat \<Rightarrow> (trieErr, (hash \<times> bytes) list) res" where
  "SecProve H db t key fromLevel = Prove H db (st_trie t) key fromLevel"

definition SecProves :: "crypto \<Rightarrow> hash \<Rightarrow> rlpReader \<Rightarrow> nodeDb \<Rightarrow> SecureTrie \<Rightarrow> bytes list \<Rightarrow> nat \<Rightarrow>
    (unit, (bytes \<times> bytes) list \<times> SecureTrie) res" where
  "SecProves H emptyRoot d db t ks fromLevel =
     rmap (\<lambda>(puts, tr). (puts, t\<lparr>st_trie := tr\<rparr>)) (Proves H emptyRoot d db (st_trie t) ks fromLevel)"

text \<open>\<open>TryUpdatePathProof\<close> stops at the first error; it does not look at the length of an entry.\<close>

fun pathProofLoop :: "rlpReader \<Rightarrow> nodeDb \<Rightarrow> (bytes \<times> bytes) list \<Rightarrow> Trie \<Rightarrow> (trieErr, unit) res \<times> Trie" where
  "pathProofLoop d db [] t = (Ok (), t)"
| "pathProofLoop d db ((key, enc) # es) t =
     (case decodeNodeOf d None enc of
        Panic \<Rightarrow> (Panic, t)
      | Hang \<Rightarrow> (Hang, t)
      | r \<Rightarrow>
          (case TryUpdateNode db t key (case r of Ok n \<Rightarrow> n | _ \<Rightarrow> HashN enc) of
             (Ok _, t') \<Rightarrow> pathProofLoop d db es t'
           | (r', t') \<Rightarrow> (r', t')))"

definition TryUpdatePathProof :: "rlpReader \<Rightarrow> nodeDb \<Rightarrow> (bytes \<times> bytes) list \<Rightarrow> SecureTrie \<Rightarrow> (trieErr, unit) res \<times> SecureTrie" where
  "TryUpdatePathProof d db entries t =
     (case pathProofLoop d db entries (st_trie t) of (r, tr) \<Rightarrow> (r, t\<lparr>st_trie := tr\<rparr>))"

text \<open>
  \<open>StateDB.GetProof\<close> returns the entries of the proof without their hashes, \<open>GetProofs\<close> keys and entries in turn. The state's trie is
  a secure trie.
\<close>

definition GetProof :: "crypto \<Rightarrow> nodeDb \<Rightarrow> SecureTrie \<Rightarrow> address \<Rightarrow> (trieErr, bytes list) res" where
  "GetProof H db t a = rmap (map snd) (SecProve H db t (keccak256 H a) 0)"

definition GetProofs :: "crypto \<Rightarrow> hash \<Rightarrow> rlpReader \<Rightarrow> nodeDb \<Rightarrow> SecureTrie \<Rightarrow> address list \<Rightarrow> (unit, bytes list \<times> SecureTrie) res" where
  "GetProofs H emptyRoot d db t as =
     rmap (\<lambda>(puts, t'). (concat (map (\<lambda>(k, e). [k, e]) puts), t')) (SecProves H emptyRoot d db t (map (keccak256 H) as) 0)"

definition InsertProofs :: "rlpReader \<Rightarrow> nodeDb \<Rightarrow> (bytes \<times> bytes) list \<Rightarrow> SecureTrie \<Rightarrow> (trieErr, unit) res \<times> SecureTrie" where
  "InsertProofs d db entries t = TryUpdatePathProof d db entries t"

section \<open>The frontier of a tree\<close>


















section \<open>The nodes that the entries build\<close>






lemma insertNode_end: "insertNode db fuel n pfx [] val = Ok (True, val)"
  by (subst insertNode.simps) simp







section \<open>Inserting the entries\<close>











section \<open>The rebuilt trie\<close>

lemma reference_PNil [simp]: "reference H PNil i = i"
  by (simp add: reference_def)











section \<open>What \<open>Proves\<close> returns\<close>








section \<open>A path proof verifies\<close>











end
