(* ===== verification/Eviction.thy ===== *)
theory Eviction
  imports Database
begin

text \<open>
  How nodes leave the node database (\<open>trie/database.go\<close>): \<open>Dereference\<close> drops a root and garbage collects what no other root
  needs, \<open>Cap\<close> flushes the oldest nodes to disk until the memory is below a limit, \<open>Commit\<close> moves a whole trie to disk.

  Shown: the flush list is a doubly linked list of the cached nodes, whatever operations run; \<open>Cap\<close> and \<open>Commit\<close> return, and
  whether their disk writes fail or not, each node can be read as before; after \<open>Cap\<close> the memory is below the limit or empty;
  after a successful \<open>Commit\<close> the whole trie is on disk; and no operation loses a node that a remaining root needs
  (the reference counts are never too low).
\<close>

section \<open>The flush list\<close>

text \<open>Setting a link of a cached node; \<open>None\<close> is the nil dereference.\<close>

definition setPrev :: "hash \<Rightarrow> hash \<Rightarrow> (hash \<times> cachedNode) list \<Rightarrow> (hash \<times> cachedNode) list option" where
  "setPrev h x ds = (case map_of ds h of None \<Rightarrow> None | Some c \<Rightarrow> Some (AList.update h (c\<lparr>cn_flushPrev := x\<rparr>) ds))"

definition setNext :: "hash \<Rightarrow> hash \<Rightarrow> (hash \<times> cachedNode) list \<Rightarrow> (hash \<times> cachedNode) list option" where
  "setNext h x ds = (case map_of ds h of None \<Rightarrow> None | Some c \<Rightarrow> Some (AList.update h (c\<lparr>cn_flushNext := x\<rparr>) ds))"

text \<open>Taking a node out of the list, as \<open>dereference\<close> and \<open>cleaner.Put\<close> do.\<close>

definition unlink :: "hash \<Rightarrow> cachedNode \<Rightarrow> Database \<Rightarrow> Database option" where
  "unlink h node db =
     (if h = db_oldest db then
        map_option (\<lambda>ds. db\<lparr>db_oldest := cn_flushNext node, db_dirties := ds\<rparr>) (setPrev (cn_flushNext node) zeroHash (db_dirties db))
      else if h = db_newest db then
        map_option (\<lambda>ds. db\<lparr>db_newest := cn_flushPrev node, db_dirties := ds\<rparr>) (setNext (cn_flushPrev node) zeroHash (db_dirties db))
      else
        (case setNext (cn_flushPrev node) (cn_flushNext node) (db_dirties db) of
           None \<Rightarrow> None
         | Some ds \<Rightarrow> map_option (\<lambda>ds. db\<lparr>db_dirties := ds\<rparr>) (setPrev (cn_flushNext node) (cn_flushPrev node) ds)))"

section \<open>Dereferencing\<close>

fun foldRes :: "('a \<Rightarrow> 's \<Rightarrow> ('e, 's) res) \<Rightarrow> 'a list \<Rightarrow> 's \<Rightarrow> ('e, 's) res" where
  "foldRes f [] s = Ok s"
| "foldRes f (x # xs) s = rbind (f x s) (foldRes f xs)"

text \<open>The link from parent to child; \<open>None\<close>: the parent is not cached.\<close>

definition dropRef :: "hash \<Rightarrow> hash \<Rightarrow> Database \<Rightarrow> Database option" where
  "dropRef child parent db =
     (case map_of (db_dirties db) parent of
        None \<Rightarrow> None
      | Some p \<Rightarrow>
          (case cn_children p of
             None \<Rightarrow> Some db
           | Some cs \<Rightarrow>
               (case map_of cs child of
                  None \<Rightarrow> Some db
                | Some n \<Rightarrow>
                    if n > 0 then
                      (let cs' = (if n - 1 = 0 then AList.delete child cs else AList.update child (n - 1) cs) in
                       Some (db\<lparr>db_dirties := AList.update parent (p\<lparr>cn_children := Some cs'\<rparr>) (db_dirties db),
                              db_childrenSize := db_childrenSize db - (if n - 1 = 0 then 34 else 0)\<rparr>))
                    else Some db)))"

text \<open>The rest of \<open>dereference\<close>: what happens to the child. The depth of the recursion is bounded.\<close>

fun release :: "nat \<Rightarrow> hash \<Rightarrow> Database \<Rightarrow> (unit, Database) res" where
  "release 0 child db = Hang"
| "release (Suc fuel) child db =
     (case map_of (db_dirties db) child of
        None \<Rightarrow> Ok db
      | Some c \<Rightarrow>
          let node = (if cn_parents c > 0 then c\<lparr>cn_parents := cn_parents c - 1\<rparr> else c);
              db1 = db\<lparr>db_dirties := AList.update child node (db_dirties db)\<rparr>
          in if cn_parents node = 0 then
               (case unlink child node db1 of
                  None \<Rightarrow> Panic
                | Some db2 \<Rightarrow>
                    rbind (foldRes (\<lambda>h db. case dropRef h child db of None \<Rightarrow> Panic | Some db' \<Rightarrow> release fuel h db') (forChilds node) db2)
                      (\<lambda>db3. Ok (db3\<lparr>db_dirties := AList.delete child (db_dirties db3),
                                db_dirtiesSize := db_dirtiesSize db3 - (32 + int (unat (cn_size node))),
                                db_childrenSize := db_childrenSize db3 - (if cn_children node \<noteq> None then 48 else 0)\<rparr>)))
             else Ok db1)"

definition dereference :: "nat \<Rightarrow> hash \<Rightarrow> hash \<Rightarrow> Database \<Rightarrow> (unit, Database) res" where
  "dereference fuel child parent db = (case dropRef child parent db of None \<Rightarrow> Panic | Some db' \<Rightarrow> release fuel child db')"

definition dbDereference :: "nat \<Rightarrow> hash \<Rightarrow> Database \<Rightarrow> (unit, Database) res" where
  "dbDereference fuel root db = (if root = zeroHash then Ok db else dereference fuel root zeroHash db)"

section \<open>Batches of disk writes\<close>

text \<open>
  A batch of the key-value store: trie nodes go under their hash, preimages under their prefixed hash. The parameters: the size a batch
  reports, the ideal size, and how the n-th write goes (\<open>None\<close>: well; \<open>Some k\<close>: it fails after k entries have reached the disk).
\<close>

datatype batchOp = WriteNode hash bytes | WritePreimage hash bytes

record batchIO =
  bi_valueSize :: "batchOp list \<Rightarrow> nat"
  bi_ideal :: nat
  bi_fails :: "nat \<Rightarrow> nat option"

record flushState =
  fs_db :: Database
  fs_batch :: "batchOp list"
  fs_writes :: nat
  fs_preimages :: "hash \<Rightarrow> bytes option"
  fs_called :: "hash list"

fun storeOp :: "batchOp \<Rightarrow> flushState \<Rightarrow> flushState" where
  "storeOp (WriteNode h b) s = s\<lparr>fs_db := (fs_db s)\<lparr>db_diskdb := (db_diskdb (fs_db s))(h \<mapsto> b)\<rparr>\<rparr>"
| "storeOp (WritePreimage h b) s = s\<lparr>fs_preimages := (fs_preimages s)(h \<mapsto> b)\<rparr>"

text \<open>\<open>batch.Write\<close>: whether it went well, and the state after it.\<close>

definition batchWrite :: "batchIO \<Rightarrow> flushState \<Rightarrow> bool \<times> flushState" where
  "batchWrite io s =
     (let s' = s\<lparr>fs_writes := fs_writes s + 1\<rparr> in
      case bi_fails io (fs_writes s) of
        None \<Rightarrow> (True, fold storeOp (fs_batch s) s')
      | Some k \<Rightarrow> (False, fold storeOp (take k (fs_batch s)) s'))"

definition writeReset :: "batchIO \<Rightarrow> flushState \<Rightarrow> (flushState, flushState) res" where
  "writeReset io s = (case batchWrite io s of (ok, s') \<Rightarrow> if ok then Ok (s'\<lparr>fs_batch := []\<rparr>) else Err s')"

section \<open>Committing a trie to disk\<close>

text \<open>\<open>cleaner.Put\<close>; the key of a preimage is cut to its hash. The clean cache is nil.\<close>

fun opHash :: "batchOp \<Rightarrow> hash" where
  "opHash (WriteNode h b) = h"
| "opHash (WritePreimage h b) = h"

definition cleanerPut :: "batchOp \<Rightarrow> Database \<Rightarrow> Database option" where
  "cleanerPut op db =
     (case map_of (db_dirties db) (opHash op) of
        None \<Rightarrow> Some db
      | Some node \<Rightarrow>
          (case unlink (opHash op) node db of
             None \<Rightarrow> None
           | Some db1 \<Rightarrow>
               Some (db1\<lparr>db_dirties := AList.delete (opHash op) (db_dirties db1),
                      db_dirtiesSize := db_dirtiesSize db1 - (32 + int (unat (cn_size node)))
                        - (case cn_children node of None \<Rightarrow> 0 | Some cs \<Rightarrow> 48 + int (length cs) * 34)\<rparr>)))"

fun replay :: "batchOp list \<Rightarrow> Database \<Rightarrow> Database option" where
  "replay [] db = Some db"
| "replay (op # ops) db = (case cleanerPut op db of None \<Rightarrow> None | Some db' \<Rightarrow> replay ops db')"

definition flushBatch :: "batchIO \<Rightarrow> flushState \<Rightarrow> (flushState, flushState) res" where
  "flushBatch io s =
     (case batchWrite io s of (ok, s') \<Rightarrow>
        if ok then (case replay (fs_batch s') (fs_db s') of None \<Rightarrow> Panic | Some db \<Rightarrow> Ok (s'\<lparr>fs_db := db, fs_batch := []\<rparr>))
        else Err s')"

text \<open>\<open>commit\<close>: the children first. \<open>fs_called\<close> records the calls of the callback.\<close>

fun dbCommitNode :: "batchIO \<Rightarrow> crypto \<Rightarrow> nat \<Rightarrow> hash \<Rightarrow> flushState \<Rightarrow> (flushState, flushState) res" where
  "dbCommitNode io H 0 h s = Hang"
| "dbCommitNode io H (Suc fuel) h s =
     (case map_of (db_dirties (fs_db s)) h of
        None \<Rightarrow> Ok s
      | Some node \<Rightarrow>
          rbind (foldRes (dbCommitNode io H fuel) (forChilds node) s)
            (\<lambda>s1. case cachedRlp H node of
               None \<Rightarrow> Panic
             | Some rlp \<Rightarrow>
                 let s2 = s1\<lparr>fs_batch := fs_batch s1 @ [WriteNode h rlp], fs_called := fs_called s1 @ [h]\<rparr>
                 in if bi_ideal io \<le> bi_valueSize io (fs_batch s2) then flushBatch io s2 else Ok s2))"

definition preimageOps :: "(hash \<times> bytes) list \<Rightarrow> batchOp list" where
  "preimageOps ps = map (\<lambda>(h, p). WritePreimage h p) ps"

definition clearPreimages :: "Database \<Rightarrow> Database" where
  "clearPreimages db = (if db_preimages db = None then db else db\<lparr>db_preimages := Some [], db_preimagesSize := 0\<rparr>)"

definition dbCommit :: "batchIO \<Rightarrow> crypto \<Rightarrow> nat \<Rightarrow> hash \<Rightarrow> flushState \<Rightarrow> (flushState, flushState) res" where
  "dbCommit io H fuel node s0 =
     (let s = s0\<lparr>fs_batch := []\<rparr> in
      rbind
        (case db_preimages (fs_db s) of
           None \<Rightarrow> Ok s
         | Some ps \<Rightarrow>
             let s1 = s\<lparr>fs_batch := preimageOps ps\<rparr>
             in rbind (if bi_ideal io < bi_valueSize io (fs_batch s1) then writeReset io s1 else Ok s1) (writeReset io))
        (\<lambda>s2. rbind (dbCommitNode io H fuel node s2)
          (\<lambda>s3. rbind (flushBatch io s3)
            (\<lambda>s4. Ok (s4\<lparr>fs_db := clearPreimages (fs_db s4)\<rparr>)))))"

section \<open>Capping the memory\<close>

text \<open>The bytes that flushing a node saves.\<close>

definition savedBytes :: "nat \<Rightarrow> cachedNode \<Rightarrow> int" where
  "savedBytes cachedNodeSize node =
     32 + int (unat (cn_size node)) + int cachedNodeSize + (case cn_children node of None \<Rightarrow> 0 | Some cs \<Rightarrow> 48 + int (length cs) * 34)"

text \<open>Writing nodes from the head of the flush list on; the second result is the new head.\<close>

fun capLoop :: "batchIO \<Rightarrow> crypto \<Rightarrow> nat \<Rightarrow> int \<Rightarrow> nat \<Rightarrow> int \<Rightarrow> hash \<Rightarrow> flushState \<Rightarrow> (flushState, hash \<times> flushState) res" where
  "capLoop io H cachedNodeSize limit 0 mem oldest s = Hang"
| "capLoop io H cachedNodeSize limit (Suc fuel) mem oldest s =
     (if mem > limit \<and> oldest \<noteq> zeroHash then
        (case map_of (db_dirties (fs_db s)) oldest of
           None \<Rightarrow> Panic
         | Some node \<Rightarrow>
             (case cachedRlp H node of
                None \<Rightarrow> Panic
              | Some rlp \<Rightarrow>
                  let s1 = s\<lparr>fs_batch := fs_batch s @ [WriteNode oldest rlp]\<rparr>
                  in rbind (if bi_ideal io \<le> bi_valueSize io (fs_batch s1) then writeReset io s1 else Ok s1)
                       (capLoop io H cachedNodeSize limit fuel (mem - savedBytes cachedNodeSize node) (cn_flushNext node))))
      else Ok (oldest, s))"

text \<open>Removing the flushed nodes from the cache.\<close>

fun evictTo :: "nat \<Rightarrow> hash \<Rightarrow> Database \<Rightarrow> (unit, Database) res" where
  "evictTo 0 oldest db = Hang"
| "evictTo (Suc fuel) oldest db =
     (if db_oldest db = oldest then Ok db
      else
        (case map_of (db_dirties db) (db_oldest db) of
           None \<Rightarrow> Panic
         | Some node \<Rightarrow>
             evictTo fuel oldest
               (db\<lparr>db_dirties := AList.delete (db_oldest db) (db_dirties db), db_oldest := cn_flushNext node,
                  db_dirtiesSize := db_dirtiesSize db - (32 + int (unat (cn_size node))),
                  db_childrenSize := db_childrenSize db
                    - (case cn_children node of None \<Rightarrow> 0 | Some cs \<Rightarrow> 48 + int (length cs) * 34)\<rparr>)))"

definition headLink :: "Database \<Rightarrow> Database option" where
  "headLink db =
     (if db_oldest db \<noteq> zeroHash then map_option (\<lambda>ds. db\<lparr>db_dirties := ds\<rparr>) (setPrev (db_oldest db) zeroHash (db_dirties db))
      else Some db)"

text \<open>The last write, and clearing out what has been flushed.\<close>

definition capFinish :: "batchIO \<Rightarrow> nat \<Rightarrow> bool \<Rightarrow> hash \<Rightarrow> flushState \<Rightarrow> (flushState, flushState) res" where
  "capFinish io fuel flushPreimages oldest s =
     (case batchWrite io s of (ok, s') \<Rightarrow>
        if \<not> ok then Err s'
        else
          (let db = (if flushPreimages then clearPreimages (fs_db s') else fs_db s') in
           case evictTo fuel oldest db of
             Ok db1 \<Rightarrow> (case headLink db1 of None \<Rightarrow> Panic | Some db2 \<Rightarrow> Ok (s'\<lparr>fs_db := db2\<rparr>))
           | Err e \<Rightarrow> Err s'
           | Panic \<Rightarrow> Panic
           | Hang \<Rightarrow> Hang))"

definition dbCap :: "batchIO \<Rightarrow> crypto \<Rightarrow> nat \<Rightarrow> nat \<Rightarrow> int \<Rightarrow> flushState \<Rightarrow> (flushState, flushState) res" where
  "dbCap io H cachedNodeSize fuel limit s0 =
     (case dbSize cachedNodeSize (fs_db s0) of
        None \<Rightarrow> Panic
      | Some (mem, preimagesSize) \<Rightarrow>
          let flushPreimages = (preimagesSize > 4 * 1024 * 1024);
              s = s0\<lparr>fs_batch := []\<rparr>
          in rbind
               (case db_preimages (fs_db s) of
                  Some ps \<Rightarrow>
                    if flushPreimages then
                      (let s1 = s\<lparr>fs_batch := preimageOps ps\<rparr>
                       in if bi_ideal io < bi_valueSize io (fs_batch s1) then writeReset io s1 else Ok s1)
                    else Ok s
                | None \<Rightarrow> Ok s)
               (\<lambda>s2. rbind (capLoop io H cachedNodeSize limit fuel mem (db_oldest (fs_db s2)) s2)
                 (\<lambda>(oldest, s3). capFinish io fuel flushPreimages oldest s3)))"

section \<open>The flush list is a doubly linked list\<close>

definition nxt :: "(hash \<Rightarrow> cachedNode option) \<Rightarrow> hash \<Rightarrow> hash option" where
  "nxt m h = map_option cn_flushNext (m h)"

definition prv :: "(hash \<Rightarrow> cachedNode option) \<Rightarrow> hash \<Rightarrow> hash option" where
  "prv m h = map_option cn_flushPrev (m h)"

definition linkedBy :: "(hash \<Rightarrow> cachedNode option) \<Rightarrow> hash list \<Rightarrow> bool" where
  "linkedBy m hs \<longleftrightarrow>
     successively (\<lambda>x y. nxt m x = Some y \<and> prv m y = Some x) hs \<and> (hs \<noteq> [] \<longrightarrow> nxt m (last hs) = Some zeroHash)"

text \<open>
  The cached nodes, the meta root and those of \<open>Stk\<close> excepted, in the order of the list. The nodes of \<open>Stk\<close> are being removed:
  they have left the list but are still cached.
\<close>

definition flushList :: "Database \<Rightarrow> hash set \<Rightarrow> hash list \<Rightarrow> bool" where
  "flushList db Stk hs \<longleftrightarrow>
     distinct (map fst (db_dirties db)) \<and> distinct hs \<and> zeroHash \<in> dom (map_of (db_dirties db)) \<and> zeroHash \<notin> Stk \<and>
     set hs = dom (map_of (db_dirties db)) - insert zeroHash Stk \<and> linkedBy (map_of (db_dirties db)) hs \<and>
     db_oldest db = (case hs of [] \<Rightarrow> zeroHash | x # _ \<Rightarrow> x) \<and> (hs \<noteq> [] \<longrightarrow> db_newest db = last hs)"

lemma successively_links:
  "successively (\<lambda>x y. nxt m x = Some y \<and> prv m y = Some x) hs \<Longrightarrow> distinct hs \<Longrightarrow>
     (\<And>x. x \<in> set hs \<Longrightarrow> x \<noteq> last hs \<Longrightarrow> nxt m' x = nxt m x) \<Longrightarrow>
     (\<And>x. x \<in> set hs \<Longrightarrow> x \<noteq> hd hs \<Longrightarrow> prv m' x = prv m x) \<Longrightarrow>
     successively (\<lambda>x y. nxt m' x = Some y \<and> prv m' y = Some x) hs"
proof (induction hs rule: induct_list012)
  case (3 x y zs)
  have "x \<noteq> last (y # zs)" using "3.prems"(2) by (metis distinct.simps(2) last_in_set list.discI)
  moreover have "successively (\<lambda>x y. nxt m' x = Some y \<and> prv m' y = Some x) (y # zs)"
    using "3.prems" by (intro "3.IH"(2)) (auto split: if_splits)
  ultimately show ?case using "3.prems" by auto
qed auto

lemma linkedBy_cong:
  "linkedBy m hs \<Longrightarrow> (\<And>x. x \<in> set hs \<Longrightarrow> nxt m' x = nxt m x \<and> prv m' x = prv m x) \<Longrightarrow> linkedBy m' hs"
  unfolding linkedBy_def by (auto elim!: successively_mono)

lemma linkedBy_remove:
  assumes "linkedBy m (xs @ h # ys)" "distinct (xs @ h # ys)"
    and n: "\<And>x. x \<in> set (xs @ ys) \<Longrightarrow> xs \<noteq> [] \<longrightarrow> x \<noteq> last xs \<Longrightarrow> nxt m' x = nxt m x"
    and p: "\<And>x. x \<in> set (xs @ ys) \<Longrightarrow> ys \<noteq> [] \<longrightarrow> x \<noteq> hd ys \<Longrightarrow> prv m' x = prv m x"
    and nl: "xs \<noteq> [] \<Longrightarrow> nxt m' (last xs) = nxt m h"
    and pl: "xs \<noteq> [] \<Longrightarrow> ys \<noteq> [] \<Longrightarrow> prv m' (hd ys) = prv m h"
  shows "linkedBy m' (xs @ ys)"
proof -
  let ?R = "\<lambda>m x y. nxt m x = Some y \<and> prv m y = Some x"
  have s: "successively (?R m) xs" "successively (?R m) ys" "xs \<noteq> [] \<Longrightarrow> ?R m (last xs) h" "ys \<noteq> [] \<Longrightarrow> ?R m h (hd ys)"
    and e: "ys \<noteq> [] \<Longrightarrow> nxt m (last ys) = Some zeroHash" "ys = [] \<Longrightarrow> nxt m h = Some zeroHash"
    using assms(1) by (auto simp: linkedBy_def successively_append_iff successively_Cons)
  have d: "distinct xs" "distinct ys" "set xs \<inter> set ys = {}" using assms(2) by auto
  have sx: "successively (?R m') xs"
  proof (rule successively_links [OF s(1) d(1)])
    fix x assume x: "x \<in> set xs" "x \<noteq> last xs"
    then show "nxt m' x = nxt m x" using n [of x] by auto
  next
    fix x assume x: "x \<in> set xs" "x \<noteq> hd xs"
    have "ys \<noteq> [] \<longrightarrow> x \<noteq> hd ys" using x(1) d(3) hd_in_set by fastforce
    then show "prv m' x = prv m x" using x(1) p [of x] by auto
  qed
  have away: "xs \<noteq> [] \<longrightarrow> x \<noteq> last xs" if "x \<in> set ys" for x using that d(3) last_in_set by fastforce
  have sy: "successively (?R m') ys"
  proof (rule successively_links [OF s(2) d(2)])
    fix x assume x: "x \<in> set ys" "x \<noteq> last ys"
    then show "nxt m' x = nxt m x" using n [of x] away by auto
  next
    fix x assume x: "x \<in> set ys" "x \<noteq> hd ys"
    then show "prv m' x = prv m x" using p [of x] by auto
  qed
  have joint: "xs = [] \<or> ys = [] \<or> ?R m' (last xs) (hd ys)"
    using s(3,4) nl pl by auto
  have "nxt m' (last ys) = Some zeroHash" if "ys \<noteq> []"
    using that n [of "last ys"] away [of "last ys"] e(1) by simp
  moreover have "nxt m' (last xs) = Some zeroHash" if "ys = []" "xs \<noteq> []" using that nl e(2) by simp
  ultimately show ?thesis using sx sy joint by (cases "ys = []") (auto simp: linkedBy_def successively_append_iff)
qed

text \<open>What the links do not concern.\<close>

definition payload :: "cachedNode \<Rightarrow> rawNode \<times> u16 \<times> u32 \<times> (hash \<times> u16) list option" where
  "payload c = (cn_node c, cn_size c, cn_parents c, cn_children c)"

definition pay :: "Database \<Rightarrow> hash \<Rightarrow> (rawNode \<times> u16 \<times> u32 \<times> (hash \<times> u16) list option) option" where
  "pay db h = map_option payload (map_of (db_dirties db) h)"

lemma pay_None: "pay db h = None \<longleftrightarrow> map_of (db_dirties db) h = None"
  by (simp add: pay_def)

lemma paySomeD: "pay db h = pay db' h \<Longrightarrow> map_of (db_dirties db) h = Some c \<Longrightarrow> \<exists>c'. map_of (db_dirties db') h = Some c' \<and> payload c = payload c'"
  unfolding pay_def by (cases "map_of (db_dirties db') h") auto

lemma forChilds_payload: "payload c = payload c' \<Longrightarrow> forChilds c = forChilds c'"
  by (simp add: payload_def forChilds_def)

lemma pay_dom: "pay db = pay db' \<Longrightarrow> dom (map_of (db_dirties db)) = dom (map_of (db_dirties db'))"
  by (simp add: dom_def flip: pay_None)

lemma update_known: "map_of ds h = Some c \<Longrightarrow> map fst (AList.update h c' ds) = map fst ds"
  using map_of_SomeD [of ds h c] by (force simp: update_keys)

lemma setPrev_ok:
  "map_of ds h = Some c \<Longrightarrow>
     \<exists>ds'. setPrev h x ds = Some ds' \<and> map_of ds' = (map_of ds)(h \<mapsto> c\<lparr>cn_flushPrev := x\<rparr>) \<and> map fst ds' = map fst ds"
  by (auto simp: setPrev_def update_conv' update_known)

lemma setNext_ok:
  "map_of ds h = Some c \<Longrightarrow>
     \<exists>ds'. setNext h x ds = Some ds' \<and> map_of ds' = (map_of ds)(h \<mapsto> c\<lparr>cn_flushNext := x\<rparr>) \<and> map fst ds' = map fst ds"
  by (auto simp: setNext_def update_conv' update_known)

lemma unlink_ok:
  assumes fl: "flushList db Stk hs" and h: "h \<in> set hs" and node: "map_of (db_dirties db) h = Some node"
  shows "\<exists>db' hs'. unlink h node db = Some db' \<and> flushList db' (insert h Stk) hs' \<and> set hs' = set hs - {h} \<and>
     pay db' = pay db \<and> map fst (db_dirties db') = map fst (db_dirties db) \<and>
     db_diskdb db' = db_diskdb db \<and> db_preimages db' = db_preimages db"
proof -
  let ?m = "map_of (db_dirties db)"
  obtain xs ys where hs: "hs = xs @ h # ys" using h by (meson split_list)
  have f: "distinct (map fst (db_dirties db))" "distinct (xs @ h # ys)" "zeroHash \<in> dom ?m" "zeroHash \<notin> Stk"
      "set hs = dom ?m - insert zeroHash Stk" "linkedBy ?m (xs @ h # ys)"
      "db_oldest db = (case xs @ h # ys of [] \<Rightarrow> zeroHash | x # _ \<Rightarrow> x)" "db_newest db = last (xs @ h # ys)"
    using fl unfolding flushList_def hs by auto
  have old: "db_oldest db = (if xs = [] then h else hd xs)" using f(7) by (cases xs) auto
  have hz: "h \<noteq> zeroHash" using h f(5) by auto
  have nh: "nxt ?m h = Some (if ys = [] then zeroHash else hd ys)"
    using f(6) by (auto simp: linkedBy_def successively_append_iff successively_Cons)
  then have next_h: "cn_flushNext node = (if ys = [] then zeroHash else hd ys)" by (simp add: nxt_def node)
  have prev_h: "xs \<noteq> [] \<Longrightarrow> cn_flushPrev node = last xs"
    using f(6) node by (auto simp: linkedBy_def successively_append_iff successively_Cons prv_def)
  have cached: "x \<in> dom ?m" "x \<noteq> zeroHash" if "x \<in> set (xs @ ys)" for x
    using that f(5) by (auto simp: hs)
  obtain c where c: "?m (cn_flushNext node) = Some c"
    using next_h f(3) cached(1) [of "hd ys"] by (auto split: if_splits)
  have finish: ?thesis
    if "unlink h node db = Some db'" "map fst (db_dirties db') = map fst (db_dirties db)" "pay db' = pay db"
      "linkedBy (map_of (db_dirties db')) (xs @ ys)" "db_oldest db' = (if xs @ ys = [] then zeroHash else hd (xs @ ys))"
      "xs @ ys \<noteq> [] \<Longrightarrow> db_newest db' = last (xs @ ys)" "db_diskdb db' = db_diskdb db" "db_preimages db' = db_preimages db" for db'
  proof -
    have "db_oldest db' = (case xs @ ys of [] \<Rightarrow> zeroHash | x # _ \<Rightarrow> x)" using that(5) by (cases "xs @ ys") auto
    then have "flushList db' (insert h Stk) (xs @ ys)"
      using that f hz pay_dom [OF that(3)] unfolding flushList_def hs by auto
    moreover have "set (xs @ ys) = set hs - {h}" using f(2) by (auto simp: hs)
    ultimately show ?thesis using that by blast
  qed
  have d: "distinct xs" "distinct ys" "set xs \<inter> set ys = {}" using f(2) by auto
  show ?thesis
  proof (cases "xs = []")
    case True
    obtain ds where ds: "setPrev (cn_flushNext node) zeroHash (db_dirties db) = Some ds"
        "map_of ds = ?m(cn_flushNext node \<mapsto> c\<lparr>cn_flushPrev := zeroHash\<rparr>)" "map fst ds = map fst (db_dirties db)"
      using setPrev_ok [OF c] by blast
    let ?db = "db\<lparr>db_oldest := cn_flushNext node, db_dirties := ds\<rparr>"
    have u: "unlink h node db = Some ?db" using ds(1) old True by (simp add: unlink_def)
    have py: "pay ?db = pay db" using c by (auto simp: pay_def fun_eq_iff ds(2) payload_def)
    have lk: "linkedBy (map_of (db_dirties ?db)) (xs @ ys)"
      by (rule linkedBy_remove [OF f(6,2)]) (use c True next_h in \<open>auto simp: ds(2) nxt_def prv_def\<close>)
    show ?thesis by (rule finish [OF u _ py lk]) (use ds(3) True next_h f(8) in auto)
  next
    case False
    then obtain cl where cl: "?m (last xs) = Some cl" using cached(1) [of "last xs"] by auto
    have first: "h \<noteq> db_oldest db" using f(2,7) False by (cases xs) auto
    show ?thesis
    proof (cases "ys = []")
      case True
      obtain ds where ds: "setNext (last xs) zeroHash (db_dirties db) = Some ds"
          "map_of ds = ?m(last xs \<mapsto> cl\<lparr>cn_flushNext := zeroHash\<rparr>)" "map fst ds = map fst (db_dirties db)"
        using setNext_ok [OF cl] by blast
      let ?db = "db\<lparr>db_newest := last xs, db_dirties := ds\<rparr>"
      have u: "unlink h node db = Some ?db" using ds(1) f(8) True first prev_h [OF False] by (simp add: unlink_def)
      have py: "pay ?db = pay db" using cl by (auto simp: pay_def fun_eq_iff ds(2) payload_def)
      have lk: "linkedBy (map_of (db_dirties ?db)) (xs @ ys)"
        by (rule linkedBy_remove [OF f(6,2)]) (use cl True False nh in \<open>auto simp: ds(2) nxt_def prv_def\<close>)
      show ?thesis by (rule finish [OF u _ py lk]) (use ds(3) True False old in auto)
    next
      case ys: False
      have last: "h \<noteq> db_newest db" using f(2,8) ys by auto
      have ne: "hd ys \<noteq> last xs" using d(3) False ys by (metis disjoint_iff hd_in_set last_in_set)
      obtain ds where ds: "setNext (last xs) (hd ys) (db_dirties db) = Some ds"
          "map_of ds = ?m(last xs \<mapsto> cl\<lparr>cn_flushNext := hd ys\<rparr>)" "map fst ds = map fst (db_dirties db)"
        using setNext_ok [OF cl] by blast
      have "map_of ds (hd ys) = Some c" using c next_h ys ne by (simp add: ds(2))
      then obtain ds' where ds': "setPrev (hd ys) (last xs) ds = Some ds'"
          "map_of ds' = (map_of ds)(hd ys \<mapsto> c\<lparr>cn_flushPrev := last xs\<rparr>)" "map fst ds' = map fst ds"
        using setPrev_ok by blast
      let ?db = "db\<lparr>db_dirties := ds'\<rparr>"
      have u: "unlink h node db = Some ?db"
        using ds(1) ds'(1) first last prev_h [OF False] next_h ys by (simp add: unlink_def)
      have py: "pay ?db = pay db" using cl c next_h ys ne by (auto simp: pay_def fun_eq_iff ds(2) ds'(2) payload_def)
      have lk: "linkedBy (map_of (db_dirties ?db)) (xs @ ys)"
        by (rule linkedBy_remove [OF f(6,2)])
          (use cl c ys False next_h prev_h nh ne node in \<open>auto simp: ds(2) ds'(2) nxt_def prv_def\<close>)
      show ?thesis by (rule finish [OF u _ py lk]) (use ds(3) ds'(3) ys False old f(8) in auto)
    qed
  qed
qed

section \<open>Removing a node from the cache\<close>

lemma uncache_flushList:
  assumes fl: "flushList db (insert h Stk) hs" and "h \<notin> Stk"
    and db': "db_dirties db' = AList.delete h (db_dirties db)" "db_oldest db' = db_oldest db" "db_newest db' = db_newest db"
  shows "flushList db' Stk hs"
proof -
  have m: "map_of (db_dirties db') = (map_of (db_dirties db))(h := None)" by (simp add: db'(1) delete_conv')
  have hs: "set hs = dom (map_of (db_dirties db)) - insert zeroHash (insert h Stk)" and hz: "h \<noteq> zeroHash"
    using fl by (auto simp: flushList_def)
  have "linkedBy (map_of (db_dirties db)) hs" using fl by (simp add: flushList_def)
  then have "linkedBy (map_of (db_dirties db')) hs"
  proof (rule linkedBy_cong)
    fix x assume "x \<in> set hs"
    then have "x \<noteq> h" using hs by blast
    then show "nxt (map_of (db_dirties db')) x = nxt (map_of (db_dirties db)) x \<and> prv (map_of (db_dirties db')) x = prv (map_of (db_dirties db)) x"
      by (simp add: m nxt_def prv_def)
  qed
  moreover have "set hs = dom (map_of (db_dirties db')) - insert zeroHash Stk" unfolding hs m using \<open>h \<notin> Stk\<close> by auto
  moreover have "distinct (map fst (db_dirties db'))" using fl by (simp add: flushList_def db'(1) distinct_delete)
  moreover have "zeroHash \<in> dom (map_of (db_dirties db'))" using fl hz by (simp add: flushList_def m)
  ultimately show ?thesis using fl unfolding flushList_def db'(2,3) by blast
qed

lemma pay_delete: "db_dirties db' = AList.delete h (db_dirties db) \<Longrightarrow> pay db' = (pay db)(h := None)"
  by (auto simp: pay_def fun_eq_iff delete_conv')

lemma flushList_mem: "flushList db Stk hs \<Longrightarrow> h \<in> set hs \<longleftrightarrow> map_of (db_dirties db) h \<noteq> None \<and> h \<noteq> zeroHash \<and> h \<notin> Stk"
  unfolding flushList_def by auto

lemma cleanerPut_ok:
  assumes "flushList db {} hs" "opHash op \<noteq> zeroHash"
  shows "\<exists>db' hs'. cleanerPut op db = Some db' \<and> flushList db' {} hs' \<and> pay db' = (pay db)(opHash op := None) \<and>
     db_diskdb db' = db_diskdb db \<and> db_preimages db' = db_preimages db"
proof (cases "map_of (db_dirties db) (opHash op)")
  case None
  then have "pay db = (pay db)(opHash op := None)" by (auto simp: fun_eq_iff pay_None)
  then show ?thesis using None assms(1) by (auto simp: cleanerPut_def)
next
  case (Some node)
  then have "opHash op \<in> set hs" using assms flushList_mem by simp
  then obtain db1 hs1 where u: "unlink (opHash op) node db = Some db1" "flushList db1 {opHash op} hs1" "pay db1 = pay db"
      "db_diskdb db1 = db_diskdb db" "db_preimages db1 = db_preimages db"
    using unlink_ok [OF assms(1) _ Some] by blast
  obtain db2 where db2: "cleanerPut op db = Some db2" "db_dirties db2 = AList.delete (opHash op) (db_dirties db1)"
      "db_oldest db2 = db_oldest db1" "db_newest db2 = db_newest db1" "db_diskdb db2 = db_diskdb db1" "db_preimages db2 = db_preimages db1"
    using Some u(1) by (simp add: cleanerPut_def)
  have "flushList db2 {} hs1" by (rule uncache_flushList [OF u(2) _ db2(2-4)]) simp
  then show ?thesis using db2 u pay_delete [OF db2(2)] by auto
qed

lemma replay_ok:
  "flushList db {} hs \<Longrightarrow> zeroHash \<notin> opHash ` set ops \<Longrightarrow>
     \<exists>db' hs'. replay ops db = Some db' \<and> flushList db' {} hs' \<and> (\<forall>h. pay db' h = (if h \<in> opHash ` set ops then None else pay db h)) \<and>
       db_diskdb db' = db_diskdb db \<and> db_preimages db' = db_preimages db"
proof (induction ops arbitrary: db hs)
  case (Cons op ops)
  obtain db1 hs1 where s: "cleanerPut op db = Some db1" "flushList db1 {} hs1" "pay db1 = (pay db)(opHash op := None)"
      "db_diskdb db1 = db_diskdb db" "db_preimages db1 = db_preimages db"
    using cleanerPut_ok [OF Cons.prems(1), of op] Cons.prems(2) by auto
  then show ?case using Cons.IH [OF s(2)] Cons.prems(2) by auto
qed auto

section \<open>Writing a batch\<close>

text \<open>The nodes on disk after the operations of a batch.\<close>

fun written :: "batchOp list \<Rightarrow> (hash \<Rightarrow> bytes option) \<Rightarrow> hash \<Rightarrow> bytes option" where
  "written [] disk = disk"
| "written (WriteNode h b # ops) disk = written ops (disk(h \<mapsto> b))"
| "written (WritePreimage h b # ops) disk = written ops disk"

lemma fold_storeOp:
  "fs_db (fold storeOp ops s) = (fs_db s)\<lparr>db_diskdb := written ops (db_diskdb (fs_db s))\<rparr> \<and>
     fs_batch (fold storeOp ops s) = fs_batch s \<and> fs_called (fold storeOp ops s) = fs_called s"
proof (induction ops arbitrary: s)
  case (Cons op ops)
  then show ?case by (cases op) (simp_all add: fun_upd_def)
qed auto

lemma written_cases: "written ops disk h = disk h \<or> (\<exists>b. WriteNode h b \<in> set ops \<and> written ops disk h = Some b)"
proof (induction ops arbitrary: disk)
  case (Cons op ops)
  show ?case
  proof (cases op)
    case (WriteNode k b)
    then have w: "written (op # ops) disk h = written ops (disk(k \<mapsto> b)) h" by simp
    have "(disk(k \<mapsto> b)) h = disk h \<or> (h = k \<and> (disk(k \<mapsto> b)) h = Some b)" by simp
    then show ?thesis unfolding w using Cons.IH [of "disk(k \<mapsto> b)"] WriteNode by (metis list.set_intros)
  next
    case (WritePreimage k b)
    then show ?thesis using Cons.IH [of disk] by auto
  qed
qed simp

lemma written_some: "\<exists>b. WriteNode h b \<in> set ops \<Longrightarrow> \<exists>b. WriteNode h b \<in> set ops \<and> written ops disk h = Some b"
proof (induction ops arbitrary: disk)
  case (Cons op ops)
  show ?case
  proof (cases "\<exists>b. WriteNode h b \<in> set ops")
    case True
    then have "\<exists>b. WriteNode h b \<in> set ops \<and> written ops disk h = Some b" for disk using Cons.IH by blast
    then show ?thesis by (cases op) (simp_all, blast+)
  next
    case False
    then obtain b where op: "op = WriteNode h b" using Cons.prems by auto
    have "written ops (disk(h \<mapsto> b)) h = Some b" using written_cases [of ops "disk(h \<mapsto> b)" h] False by auto
    then show ?thesis using op by auto
  qed
qed simp

lemma written_preimages [simp]: "written (preimageOps ps) disk = disk" "written (take k (preimageOps ps)) disk = disk"
proof -
  have "written (map (\<lambda>(h, p). WritePreimage h p) ps) disk = disk" for ps by (induction ps) auto
  then show "written (preimageOps ps) disk = disk" "written (take k (preimageOps ps)) disk = disk"
    by (simp_all add: preimageOps_def take_map)
qed

text \<open>Normal and erroneous returns: neither a panic nor a call that does not return.\<close>

definition outcome :: "('s \<Rightarrow> bool) \<Rightarrow> ('e \<Rightarrow> bool) \<Rightarrow> ('e, 's) res \<Rightarrow> bool" where
  "outcome P E r = (case r of Ok s \<Rightarrow> P s | Err e \<Rightarrow> E e | Panic \<Rightarrow> False | Hang \<Rightarrow> False)"

lemma outcome_simps [simp]:
  "outcome P E (Ok s) = P s" "outcome P E (Err e) = E e" "outcome P E Panic = False" "outcome P E Hang = False"
  by (simp_all add: outcome_def)

lemma outcome_rbind: "outcome P' E r \<Longrightarrow> (\<And>s. P' s \<Longrightarrow> outcome P E (f s)) \<Longrightarrow> outcome P E (rbind r f)"
  by (cases r) auto

lemma outcome_weaken: "outcome P E r \<Longrightarrow> (\<And>s. P s \<Longrightarrow> P' s) \<Longrightarrow> (\<And>e. E e \<Longrightarrow> E' e) \<Longrightarrow> outcome P' E' r"
  by (cases r) auto

lemma outcome_foldRes:
  assumes "I s"
    and "\<And>x s. x \<in> set xs \<Longrightarrow> I s \<Longrightarrow> outcome (\<lambda>s'. I s' \<and> M s \<subseteq> M s' \<and> x \<in> M s') E (f x s)"
  shows "outcome (\<lambda>s'. I s' \<and> M s \<subseteq> M s' \<and> set xs \<subseteq> M s') E (foldRes f xs s)"
  using assms
proof (induction xs arbitrary: s)
  case (Cons x xs)
  have "outcome (\<lambda>s'. I s' \<and> M s \<subseteq> M s' \<and> x \<in> M s') E (f x s)" by (rule Cons.prems(2) [OF _ Cons.prems(1)]) simp
  then show ?case
    unfolding foldRes.simps
  proof (rule outcome_rbind)
    fix s1 assume s1: "I s1 \<and> M s \<subseteq> M s1 \<and> x \<in> M s1"
    then have "outcome (\<lambda>s'. I s' \<and> M s1 \<subseteq> M s' \<and> set xs \<subseteq> M s') E (foldRes f xs s1)"
      using Cons.IH [of s1] Cons.prems(2) by auto
    then show "outcome (\<lambda>s'. I s' \<and> M s \<subseteq> M s' \<and> set (x # xs) \<subseteq> M s') E (foldRes f xs s1)"
      by (rule outcome_weaken) (use s1 in auto)
  qed
qed simp

section \<open>Nodes on their way to disk\<close>

text \<open>Only the meta root has no node.\<close>

definition nodesCached :: "Database \<Rightarrow> bool" where
  "nodesCached db \<longleftrightarrow> (\<forall>h c. map_of (db_dirties db) h = Some c \<longrightarrow> (cn_node c = RawNil \<longleftrightarrow> h = zeroHash))"

text \<open>The references of the cached nodes; none is the zero hash, and they form no cycle.\<close>

definition kidEdges :: "Database \<Rightarrow> (hash \<times> hash) set" where
  "kidEdges db = {(p, k). \<exists>c. map_of (db_dirties db) p = Some c \<and> k \<in> set (forChilds c)}"

definition dbWf :: "Database \<Rightarrow> bool" where
  "dbWf db \<longleftrightarrow> (\<exists>hs. flushList db {} hs) \<and> nodesCached db \<and> (\<forall>p. (p, zeroHash) \<notin> kidEdges db) \<and> acyclic (kidEdges db)"

text \<open>The encoding of a node of \<open>db0\<close>.\<close>

definition encoded :: "crypto \<Rightarrow> Database \<Rightarrow> hash \<Rightarrow> bytes option" where
  "encoded H db0 h = (case map_of (db_dirties db0) h of None \<Rightarrow> None | Some c \<Rightarrow> cachedRlp H c)"

text \<open>
  While nodes of \<open>db0\<close> are written to disk: the batch holds encodings of its nodes, each node is as cached as before or on disk,
  and the disk has changed at its nodes only.
\<close>

definition onWay :: "crypto \<Rightarrow> Database \<Rightarrow> flushState \<Rightarrow> bool" where
  "onWay H db0 s \<longleftrightarrow>
     (\<exists>hs. flushList (fs_db s) {} hs) \<and>
     (\<forall>op\<in>set (fs_batch s). \<exists>h b. op = WriteNode h b \<and> encoded H db0 h = Some b) \<and>
     (\<forall>h. pay (fs_db s) h = pay db0 h \<or>
        (pay (fs_db s) h = None \<and> encoded H db0 h \<noteq> None \<and> db_diskdb (fs_db s) h = encoded H db0 h)) \<and>
     (\<forall>h. db_diskdb (fs_db s) h = db_diskdb db0 h \<or> (encoded H db0 h \<noteq> None \<and> db_diskdb (fs_db s) h = encoded H db0 h))"

lemma onWay_start: "flushList (fs_db s) {} hs \<Longrightarrow> fs_batch s = [] \<Longrightarrow> onWay H (fs_db s) s"
  by (auto simp: onWay_def)

lemma onWay_pay:
  "onWay H db0 s \<Longrightarrow> pay (fs_db s) h = pay db0 h \<or>
     (pay (fs_db s) h = None \<and> encoded H db0 h \<noteq> None \<and> db_diskdb (fs_db s) h = encoded H db0 h)"
  unfolding onWay_def by blast

text \<open>Each node reads as it did at the start.\<close>

lemma onWay_blob:
  assumes way: "onWay H db0 s" and ne: "\<And>x. rlpEncode H x \<noteq> []"
  shows "dbNodeBlob H (fs_db s) h = dbNodeBlob H db0 h"
proof -
  have w: "pay (fs_db s) h = pay db0 h \<or> (pay (fs_db s) h = None \<and> encoded H db0 h \<noteq> None \<and> db_diskdb (fs_db s) h = encoded H db0 h)"
    "db_diskdb (fs_db s) h = db_diskdb db0 h \<or> (encoded H db0 h \<noteq> None \<and> db_diskdb (fs_db s) h = encoded H db0 h)"
    using way unfolding onWay_def by blast+
  show ?thesis
  proof (cases "map_of (db_dirties db0) h")
    case None
    then have "map_of (db_dirties (fs_db s)) h = None" "db_diskdb (fs_db s) h = db_diskdb db0 h"
      using w by (auto simp: pay_def encoded_def)
    then show ?thesis using None by (simp add: dbNodeBlob_def)
  next
    case (Some c)
    show ?thesis
    proof (cases "map_of (db_dirties (fs_db s)) h")
      case None
      then have "encoded H db0 h \<noteq> None" "db_diskdb (fs_db s) h = encoded H db0 h" using w(1) Some by (auto simp: pay_def)
      then obtain b where "cachedRlp H c = Some b" "db_diskdb (fs_db s) h = Some b" using Some by (auto simp: encoded_def)
      moreover have "b \<noteq> []" using calculation(1) ne by (auto simp: cachedRlp_def split: if_splits)
      ultimately show ?thesis using Some None by (simp add: dbNodeBlob_def)
    next
      case (Some c')
      then have "cn_node c' = cn_node c" using w(1) \<open>map_of (db_dirties db0) h = Some c\<close> by (auto simp: pay_def payload_def)
      then show ?thesis using Some \<open>map_of (db_dirties db0) h = Some c\<close> by (simp add: dbNodeBlob_def cachedRlp_def)
    qed
  qed
qed

text \<open>The nodes that have left, or are in the batch, or were not cached.\<close>

definition gone :: "Database \<Rightarrow> flushState \<Rightarrow> hash set" where
  "gone db0 s = {h. map_of (db_dirties db0) h = None \<or> pay (fs_db s) h = None \<or> h \<in> opHash ` set (fs_batch s)}"

lemma encoded_zero: "nodesCached db0 \<Longrightarrow> encoded H db0 h = Some b \<Longrightarrow> h \<noteq> zeroHash"
  unfolding nodesCached_def encoded_def cachedRlp_def by (auto split: option.splits if_splits)

lemma batchWrite_disk:
  assumes w: "batchWrite io s = (ok, s')" and enc: "\<And>h b. WriteNode h b \<in> set (fs_batch s) \<Longrightarrow> encoded H db0 h = Some b"
  shows "fs_db s' = (fs_db s)\<lparr>db_diskdb := db_diskdb (fs_db s')\<rparr>" "fs_batch s' = fs_batch s"
    "db_diskdb (fs_db s') h = db_diskdb (fs_db s) h \<or> (encoded H db0 h \<noteq> None \<and> db_diskdb (fs_db s') h = encoded H db0 h)"
    "ok \<Longrightarrow> WriteNode h b \<in> set (fs_batch s) \<Longrightarrow> db_diskdb (fs_db s') h = encoded H db0 h \<and> encoded H db0 h \<noteq> None"
proof -
  obtain ops where ops: "set ops \<subseteq> set (fs_batch s)" "ok \<longrightarrow> ops = fs_batch s"
      "fs_db s' = (fs_db s)\<lparr>db_diskdb := written ops (db_diskdb (fs_db s))\<rparr>" "fs_batch s' = fs_batch s"
  proof (cases "bi_fails io (fs_writes s)")
    case None
    then show ?thesis using w fold_storeOp [of "fs_batch s"] by (intro that [of "fs_batch s"]) (auto simp: batchWrite_def Let_def)
  next
    case (Some k)
    then show ?thesis using w fold_storeOp [of "take k (fs_batch s)"] set_take_subset [of k "fs_batch s"]
      by (intro that [of "take k (fs_batch s)"]) (auto simp: batchWrite_def Let_def)
  qed
  show "fs_db s' = (fs_db s)\<lparr>db_diskdb := db_diskdb (fs_db s')\<rparr>" "fs_batch s' = fs_batch s" by (simp_all add: ops(3,4))
  show "db_diskdb (fs_db s') h = db_diskdb (fs_db s) h \<or> (encoded H db0 h \<noteq> None \<and> db_diskdb (fs_db s') h = encoded H db0 h)"
  proof (cases "\<exists>b. WriteNode h b \<in> set ops \<and> written ops (db_diskdb (fs_db s)) h = Some b")
    case True
    then obtain b where b: "WriteNode h b \<in> set ops" "written ops (db_diskdb (fs_db s)) h = Some b" by blast
    then show ?thesis using enc [of h b] ops(1,3) by auto
  next
    case False
    then have "written ops (db_diskdb (fs_db s)) h = db_diskdb (fs_db s) h" using written_cases by blast
    then show ?thesis using ops(3) by simp
  qed
  assume "ok" "WriteNode h b \<in> set (fs_batch s)"
  then have "\<exists>b. WriteNode h b \<in> set ops" using ops(2) by blast
  then obtain b' where "WriteNode h b' \<in> set ops" "written ops (db_diskdb (fs_db s)) h = Some b'"
    using written_some [of h ops] by blast
  then show "db_diskdb (fs_db s') h = encoded H db0 h \<and> encoded H db0 h \<noteq> None"
    using enc [of h b'] ops(1,3) by auto
qed

lemma batchWrite_onWay:
  assumes way: "onWay H db0 s" and w: "batchWrite io s = (ok, s')"
  shows "onWay H db0 s'" "fs_batch s' = fs_batch s" "gone db0 s' = gone db0 s"
    "ok \<Longrightarrow> op \<in> set (fs_batch s) \<Longrightarrow> db_diskdb (fs_db s') (opHash op) = encoded H db0 (opHash op) \<and> encoded H db0 (opHash op) \<noteq> None"
proof -
  have ops: "\<exists>h b. op = WriteNode h b \<and> encoded H db0 h = Some b" if "op \<in> set (fs_batch s)" for op
    using way that unfolding onWay_def by blast
  have enc: "encoded H db0 h = Some b" if "WriteNode h b \<in> set (fs_batch s)" for h b
    using ops [OF that] by simp
  note bd = batchWrite_disk [OF w enc]
  note disk = bd(3)
  have bt: "fs_batch s' = fs_batch s" by (rule bd(2))
  have same: "db_dirties (fs_db s') = db_dirties (fs_db s)" "db_oldest (fs_db s') = db_oldest (fs_db s)"
      "db_newest (fs_db s') = db_newest (fs_db s)"
    using arg_cong [OF bd(1), of db_dirties] arg_cong [OF bd(1), of db_oldest] arg_cong [OF bd(1), of db_newest] by simp_all
  have py: "pay (fs_db s') = pay (fs_db s)" by (simp add: same pay_def fun_eq_iff)
  have fl: "flushList (fs_db s') {} hs = flushList (fs_db s) {} hs" for hs by (simp add: same flushList_def)
  show "onWay H db0 s'"
    unfolding onWay_def py fl bt
  proof (intro conjI allI)
    show "\<exists>hs. flushList (fs_db s) {} hs" using way unfolding onWay_def by blast
    show "\<forall>op\<in>set (fs_batch s). \<exists>h b. op = WriteNode h b \<and> encoded H db0 h = Some b" using ops by blast
  next
    fix h
    have "pay (fs_db s) h = pay db0 h \<or> (pay (fs_db s) h = None \<and> encoded H db0 h \<noteq> None \<and> db_diskdb (fs_db s) h = encoded H db0 h)"
      using way unfolding onWay_def by blast
    then show "pay (fs_db s) h = pay db0 h \<or> (pay (fs_db s) h = None \<and> encoded H db0 h \<noteq> None \<and> db_diskdb (fs_db s') h = encoded H db0 h)"
      using disk [of h] by metis
  next
    fix h
    have "db_diskdb (fs_db s) h = db_diskdb db0 h \<or> (encoded H db0 h \<noteq> None \<and> db_diskdb (fs_db s) h = encoded H db0 h)"
      using way unfolding onWay_def by blast
    then show "db_diskdb (fs_db s') h = db_diskdb db0 h \<or> (encoded H db0 h \<noteq> None \<and> db_diskdb (fs_db s') h = encoded H db0 h)"
      using disk [of h] by metis
  qed
  show "fs_batch s' = fs_batch s" "gone db0 s' = gone db0 s" by (simp_all add: gone_def py bt)
  assume "ok" "op \<in> set (fs_batch s)"
  then show "db_diskdb (fs_db s') (opHash op) = encoded H db0 (opHash op) \<and> encoded H db0 (opHash op) \<noteq> None"
    using ops bd(4) by fastforce
qed

lemma flushBatch_onWay:
  assumes "onWay H db0 s" "nodesCached db0"
  shows "outcome (\<lambda>s'. onWay H db0 s' \<and> gone db0 s' = gone db0 s \<and> fs_batch s' = []) (onWay H db0) (flushBatch io s)"
proof -
  obtain ok s1 where w: "batchWrite io s = (ok, s1)" by fastforce
  note b = batchWrite_onWay [OF assms(1) w]
  show ?thesis
  proof (cases ok)
    case False
    then show ?thesis using w b(1) by (simp add: flushBatch_def)
  next
    case True
    obtain hs where hs: "flushList (fs_db s1) {} hs" using b(1) unfolding onWay_def by blast
    have ops: "\<exists>h b. op = WriteNode h b \<and> encoded H db0 h = Some b" if "op \<in> set (fs_batch s1)" for op
      using b(1) that unfolding onWay_def by blast
    have nz: "zeroHash \<notin> opHash ` set (fs_batch s1)"
    proof
      assume "zeroHash \<in> opHash ` set (fs_batch s1)"
      then obtain op where "op \<in> set (fs_batch s1)" "opHash op = zeroHash" by auto
      then show False using ops [of op] encoded_zero [OF assms(2)] by fastforce
    qed
    obtain db hs' where db: "replay (fs_batch s1) (fs_db s1) = Some db" "flushList db {} hs'"
        "\<forall>h. pay db h = (if h \<in> opHash ` set (fs_batch s1) then None else pay (fs_db s1) h)" "db_diskdb db = db_diskdb (fs_db s1)"
      using replay_ok [OF hs nz] by blast
    let ?s = "s1\<lparr>fs_db := db, fs_batch := []\<rparr>"
    have onDisk: "db_diskdb (fs_db s1) h = encoded H db0 h \<and> encoded H db0 h \<noteq> None" if "h \<in> opHash ` set (fs_batch s1)" for h
      using that b(2,4) True by auto
    have "onWay H db0 ?s"
      unfolding onWay_def
    proof (intro conjI allI)
      show "\<exists>hs. flushList (fs_db ?s) {} hs" using db(2) by auto
      show "\<forall>op\<in>set (fs_batch ?s). \<exists>h b. op = WriteNode h b \<and> encoded H db0 h = Some b" by simp
    next
      fix h
      have old: "pay (fs_db s1) h = pay db0 h \<or> (pay (fs_db s1) h = None \<and> encoded H db0 h \<noteq> None \<and> db_diskdb (fs_db s1) h = encoded H db0 h)"
        using b(1) unfolding onWay_def by blast
      show "pay (fs_db ?s) h = pay db0 h \<or> (pay (fs_db ?s) h = None \<and> encoded H db0 h \<noteq> None \<and> db_diskdb (fs_db ?s) h = encoded H db0 h)"
      proof (cases "h \<in> opHash ` set (fs_batch s1)")
        case True
        then show ?thesis using onDisk [OF True] db(3,4) by simp
      next
        case False
        then show ?thesis using old db(3,4) by simp
      qed
    next
      fix h
      show "db_diskdb (fs_db ?s) h = db_diskdb db0 h \<or> (encoded H db0 h \<noteq> None \<and> db_diskdb (fs_db ?s) h = encoded H db0 h)"
        using b(1) unfolding onWay_def by (simp add: db(4))
    qed
    moreover have "gone db0 ?s = gone db0 s1"
      using db(3) by (auto simp: gone_def)
    ultimately show ?thesis using w True db(1) b(3) by (simp add: flushBatch_def)
  qed
qed

text \<open>A bound on the depth of the references: a node that references another has a higher rank.\<close>

definition ranked :: "(hash \<Rightarrow> nat) \<Rightarrow> Database \<Rightarrow> bool" where
  "ranked rk db \<longleftrightarrow> (\<forall>p k. (p, k) \<in> kidEdges db \<longrightarrow> map_of (db_dirties db) k \<noteq> None \<longrightarrow> rk k < rk p)"

lemma acyclic_ranked:
  assumes "acyclic (kidEdges db)"
  shows "\<exists>rk. ranked rk db \<and> (\<forall>h. rk h \<le> length (db_dirties db))"
proof -
  let ?D = "dom (map_of (db_dirties db))"
  let ?below = "\<lambda>h. {k. (h, k) \<in> (kidEdges db)\<^sup>+} \<inter> ?D"
  have fin: "finite (?below h)" for h by (simp add: finite_dom_map_of)
  have less: "card (?below k) < card (?below p)" if e: "(p, k) \<in> kidEdges db" "map_of (db_dirties db) k \<noteq> None" for p k
  proof (rule psubset_card_mono [OF fin])
    have "?below k \<subseteq> ?below p" using e(1) by (auto intro: trancl_into_trancl2)
    moreover have "k \<in> ?below p" using e by auto
    moreover have "k \<notin> ?below k" using assms by (auto simp: acyclic_def)
    ultimately show "?below k \<subset> ?below p" by blast
  qed
  have bound: "card (?below h) \<le> length (db_dirties db)" for h
  proof -
    have "card (?below h) \<le> card ?D" by (rule card_mono) (auto simp: finite_dom_map_of)
    also have "\<dots> \<le> length (db_dirties db)" 
      unfolding dom_map_of_conv_image_fst
      by (rule order_trans [OF card_image_le [OF List.finite_set] card_length])
    finally show ?thesis .
  qed
  have "ranked (\<lambda>h. card (?below h)) db" unfolding ranked_def using less by blast
  then have "ranked (\<lambda>h. card (?below h)) db \<and> (\<forall>h. card (?below h) \<le> length (db_dirties db))"
    using bound by blast
  then show ?thesis by (rule exI [of _ "\<lambda>h. card (?below h)"])
qed

definition goneClosed :: "Database \<Rightarrow> flushState \<Rightarrow> bool" where
  "goneClosed db0 s \<longleftrightarrow> (\<forall>p\<in>gone db0 s. \<forall>k. (p, k) \<in> kidEdges db0 \<longrightarrow> k \<in> gone db0 s)"

lemma dbCommitNode_ok:
  assumes "nodesCached db0" "\<And>p. (p, zeroHash) \<notin> kidEdges db0" "ranked rk db0"
  shows "onWay H db0 s \<Longrightarrow> goneClosed db0 s \<Longrightarrow> h \<noteq> zeroHash \<Longrightarrow> (map_of (db_dirties db0) h \<noteq> None \<Longrightarrow> Suc (rk h) < fuel) \<Longrightarrow> 0 < fuel \<Longrightarrow>
     outcome (\<lambda>s'. (onWay H db0 s' \<and> goneClosed db0 s') \<and> gone db0 s \<subseteq> gone db0 s' \<and> h \<in> gone db0 s')
       (onWay H db0) (dbCommitNode io H fuel h s)"
proof (induction fuel arbitrary: h s)
  case (Suc fuel)
  show ?case
  proof (cases "map_of (db_dirties (fs_db s)) h")
    case None
    then have "h \<in> gone db0 s" by (simp add: gone_def pay_None)
    then show ?thesis using None Suc.prems by simp
  next
    case (Some node)
    have "pay (fs_db s) h \<noteq> None" using Some by (simp add: pay_None)
    then have "pay (fs_db s) h = pay db0 h" using onWay_pay [OF Suc.prems(1), of h] by metis
    then obtain c where c: "map_of (db_dirties db0) h = Some c" "cn_node node = cn_node c" "forChilds node = forChilds c"
      using paySomeD [OF _ Some] by (metis forChilds_payload payload_def prod.inject)
    have kids: "(h, k) \<in> kidEdges db0 \<longleftrightarrow> k \<in> set (forChilds node)" for k using c by (auto simp: kidEdges_def)
    have "cn_node node \<noteq> RawNil" using assms(1) c Suc.prems(3) by (auto simp: nodesCached_def)
    then obtain rlp where rlp: "cachedRlp H node = Some rlp" by (simp add: cachedRlp_def)
    moreover have "cachedRlp H c = cachedRlp H node" by (simp add: cachedRlp_def c(2))
    ultimately have enc: "encoded H db0 h = Some rlp" by (simp add: encoded_def c(1))
    have "outcome (\<lambda>s'. (onWay H db0 s' \<and> goneClosed db0 s') \<and> gone db0 s \<subseteq> gone db0 s' \<and> set (forChilds node) \<subseteq> gone db0 s')
        (onWay H db0) (foldRes (dbCommitNode io H fuel) (forChilds node) s)"
    proof (rule outcome_foldRes)
      show "onWay H db0 s \<and> goneClosed db0 s" using Suc.prems by blast
      fix k s1 assume k: "k \<in> set (forChilds node)" and s1: "onWay H db0 s1 \<and> goneClosed db0 s1"
      have e: "(h, k) \<in> kidEdges db0" using k kids by blast
      have r: "rk h < fuel" using Suc.prems(4) c by simp
      have nz: "k \<noteq> zeroHash" using e assms(2) by blast
      have "Suc (rk k) < fuel" if "map_of (db_dirties db0) k \<noteq> None"
      proof -
        have "rk k < rk h" using assms(3) e that unfolding ranked_def by blast
        then show ?thesis using r by simp
      qed
      then show "outcome (\<lambda>s'. (onWay H db0 s' \<and> goneClosed db0 s') \<and> gone db0 s1 \<subseteq> gone db0 s' \<and> k \<in> gone db0 s')
          (onWay H db0) (dbCommitNode io H fuel k s1)"
        using s1 nz r by (intro Suc.IH) auto
    qed
    then show ?thesis
      unfolding dbCommitNode.simps Some option.case
    proof (rule outcome_rbind)
      fix s1 assume s1: "(onWay H db0 s1 \<and> goneClosed db0 s1) \<and> gone db0 s \<subseteq> gone db0 s1 \<and> set (forChilds node) \<subseteq> gone db0 s1"
      let ?s = "s1\<lparr>fs_batch := fs_batch s1 @ [WriteNode h rlp], fs_called := fs_called s1 @ [h]\<rparr>"
      have way: "onWay H db0 ?s" using s1 enc unfolding onWay_def by auto
      have g: "gone db0 ?s = insert h (gone db0 s1)" by (auto simp: gone_def)
      have closed: "goneClosed db0 s'" if "gone db0 s' = gone db0 ?s" for s'
        using s1 kids unfolding goneClosed_def that g by blast
      have "outcome (\<lambda>s'. onWay H db0 s' \<and> gone db0 s' = gone db0 ?s) (onWay H db0)
          (if bi_ideal io \<le> bi_valueSize io (fs_batch ?s) then flushBatch io ?s else Ok ?s)"
        using outcome_weaken [OF flushBatch_onWay [OF way assms(1), of io]] way by simp
      then show "outcome (\<lambda>s'. (onWay H db0 s' \<and> goneClosed db0 s') \<and> gone db0 s \<subseteq> gone db0 s' \<and> h \<in> gone db0 s') (onWay H db0)
          (case cachedRlp H node of None \<Rightarrow> Panic
           | Some rlp \<Rightarrow> let s2 = s1\<lparr>fs_batch := fs_batch s1 @ [WriteNode h rlp], fs_called := fs_called s1 @ [h]\<rparr>
               in if bi_ideal io \<le> bi_valueSize io (fs_batch s2) then flushBatch io s2 else Ok s2)"
        unfolding rlp option.case Let_def
        by (rule outcome_weaken) (use s1 g closed in auto)
    qed
  qed
qed simp

lemma writeReset_preimages:
  "fs_batch s = preimageOps ps \<or> fs_batch s = [] \<Longrightarrow>
     outcome (\<lambda>s'. fs_db s' = fs_db s \<and> fs_batch s' = []) (\<lambda>s'. fs_db s' = fs_db s) (writeReset io s)"
  using fold_storeOp [of "fs_batch s"] fold_storeOp [of "take k (fs_batch s)" for k]
  by (auto simp: writeReset_def batchWrite_def Let_def split: option.splits)

lemma outcome_iff: "outcome P E r \<longleftrightarrow> (\<exists>s. r = Ok s \<and> P s) \<or> (\<exists>e. r = Err e \<and> E e)"
  by (cases r) auto

lemma clearPreimages_simps [simp]:
  "db_dirties (clearPreimages db) = db_dirties db" "db_diskdb (clearPreimages db) = db_diskdb db"
  "db_oldest (clearPreimages db) = db_oldest db" "db_newest (clearPreimages db) = db_newest db"
  by (simp_all add: clearPreimages_def)

lemma dbNodeBlob_cong: "db_dirties db = db_dirties db' \<Longrightarrow> db_diskdb db = db_diskdb db' \<Longrightarrow> dbNodeBlob H db h = dbNodeBlob H db' h"
  by (simp only: dbNodeBlob_def)

lemma onWay_batch: "onWay H db0 s \<Longrightarrow> fs_db s' = fs_db s \<Longrightarrow> fs_batch s' = [] \<Longrightarrow> onWay H db0 s'"
  unfolding onWay_def by simp

lemma dbCommit_outcome:
  assumes wf: "dbWf (fs_db s0)" and root: "root \<noteq> zeroHash" and fuel: "Suc (length (db_dirties (fs_db s0))) < fuel"
  shows "outcome
     (\<lambda>s'. \<exists>s. fs_db s' = clearPreimages (fs_db s) \<and> onWay H (fs_db s0) s \<and> goneClosed (fs_db s0) s \<and> root \<in> gone (fs_db s0) s \<and> fs_batch s = [])
     (\<lambda>s'. onWay H (fs_db s0) (s'\<lparr>fs_batch := []\<rparr>)) (dbCommit io H fuel root s0)" (is "outcome ?P ?E _")
proof -
  let ?db = "fs_db s0" and ?s = "s0\<lparr>fs_batch := []\<rparr>"
  let ?pre = "case db_preimages (fs_db ?s) of
           None \<Rightarrow> Ok ?s
         | Some ps \<Rightarrow>
             let s1 = ?s\<lparr>fs_batch := preimageOps ps\<rparr>
             in rbind (if bi_ideal io < bi_valueSize io (fs_batch s1) then writeReset io s1 else Ok s1) (writeReset io)"
  obtain hs where fl: "flushList ?db {} hs" using wf by (auto simp: dbWf_def)
  have nc: "nodesCached ?db" and nz: "\<And>p. (p, zeroHash) \<notin> kidEdges ?db" using wf by (auto simp: dbWf_def)
  obtain rk where rk: "ranked rk ?db" "\<And>h. rk h \<le> length (db_dirties ?db)"
    using acyclic_ranked [of ?db] wf unfolding dbWf_def by blast
  have start: "onWay H ?db s" if "fs_db s = ?db" "fs_batch s = []" for s
    using onWay_start [of s hs H] fl that by simp
  have "outcome (\<lambda>s. fs_db s = ?db \<and> fs_batch s = []) (\<lambda>s. fs_db s = ?db) ?pre"
  proof (cases "db_preimages ?db")
    case (Some ps)
    let ?s1 = "?s\<lparr>fs_batch := preimageOps ps\<rparr>"
    have "outcome (\<lambda>s. fs_db s = ?db \<and> (fs_batch s = preimageOps ps \<or> fs_batch s = [])) (\<lambda>s. fs_db s = ?db)
        (if bi_ideal io < bi_valueSize io (fs_batch ?s1) then writeReset io ?s1 else Ok ?s1)"
      using outcome_weaken [OF writeReset_preimages [of ?s1 ps io]] by simp
    then have "outcome (\<lambda>s. fs_db s = ?db \<and> fs_batch s = []) (\<lambda>s. fs_db s = ?db)
        (rbind (if bi_ideal io < bi_valueSize io (fs_batch ?s1) then writeReset io ?s1 else Ok ?s1) (writeReset io))"
    proof (rule outcome_rbind)
      fix s :: flushState assume s: "fs_db s = ?db \<and> (fs_batch s = preimageOps ps \<or> fs_batch s = [])"
      show "outcome (\<lambda>s. fs_db s = ?db \<and> fs_batch s = []) (\<lambda>s. fs_db s = ?db) (writeReset io s)"
        by (rule outcome_weaken [OF writeReset_preimages [of s ps]]) (use s in auto)
    qed
    then show ?thesis using Some by (auto simp: Let_def split: if_splits)
  qed simp
  then have "outcome (\<lambda>s. fs_db s = ?db \<and> fs_batch s = []) ?E ?pre"
    by (rule outcome_weaken) (use start in auto)
  then show ?thesis
    unfolding dbCommit_def Let_def [of ?s]
  proof (rule outcome_rbind)
    fix s2 :: flushState assume s2: "fs_db s2 = ?db \<and> fs_batch s2 = []"
    have way: "onWay H ?db s2" using start s2 by blast
    have closed: "goneClosed ?db s2" using s2 by (auto simp: goneClosed_def gone_def pay_None kidEdges_def)
    have "outcome (\<lambda>s'. (onWay H ?db s' \<and> goneClosed ?db s') \<and> gone ?db s2 \<subseteq> gone ?db s' \<and> root \<in> gone ?db s') (onWay H ?db)
        (dbCommitNode io H fuel root s2)"
      by (rule dbCommitNode_ok [OF nc nz rk(1) way closed root]) (use fuel rk(2) [of root] in auto)
    then have "outcome (\<lambda>s'. (onWay H ?db s' \<and> goneClosed ?db s') \<and> root \<in> gone ?db s') ?E (dbCommitNode io H fuel root s2)"
      by (rule outcome_weaken) (auto intro: onWay_batch)
    then show "outcome ?P ?E (rbind (dbCommitNode io H fuel root s2) (\<lambda>s3. rbind (flushBatch io s3) (\<lambda>s4. Ok (s4\<lparr>fs_db := clearPreimages (fs_db s4)\<rparr>))))"
    proof (rule outcome_rbind)
      fix s3 assume s3: "(onWay H ?db s3 \<and> goneClosed ?db s3) \<and> root \<in> gone ?db s3"
      have "outcome (\<lambda>s'. onWay H ?db s' \<and> gone ?db s' = gone ?db s3 \<and> fs_batch s' = []) (onWay H ?db) (flushBatch io s3)"
        using flushBatch_onWay s3 nc by blast
      then have "outcome (\<lambda>s'. onWay H ?db s' \<and> gone ?db s' = gone ?db s3 \<and> fs_batch s' = []) ?E (flushBatch io s3)"
        by (rule outcome_weaken) (auto intro: onWay_batch)
      then show "outcome ?P ?E (rbind (flushBatch io s3) (\<lambda>s4. Ok (s4\<lparr>fs_db := clearPreimages (fs_db s4)\<rparr>)))"
      proof (rule outcome_rbind)
        fix s4 assume s4: "onWay H ?db s4 \<and> gone ?db s4 = gone ?db s3 \<and> fs_batch s4 = []"
        then have "goneClosed ?db s4 \<and> root \<in> gone ?db s4" using s3 unfolding goneClosed_def by simp
        then show "outcome ?P ?E (Ok (s4\<lparr>fs_db := clearPreimages (fs_db s4)\<rparr>))" using s4 by auto
      qed
    qed
  qed
qed

text \<open>
  C22: committing a root to disk returns. Whether the disk writes go well or one of them fails half-way, every node reads as
  before. If they go well, each cached node that the root references, directly or through other cached nodes, has moved from the cache to the
  disk.
\<close>

theorem Commit_moves_trie:
  assumes "dbWf (fs_db s)" "root \<noteq> zeroHash" "Suc (length (db_dirties (fs_db s))) < fuel" "\<And>x. rlpEncode H x \<noteq> []"
  shows "\<exists>s'. (dbCommit io H fuel root s = Ok s' \<or> dbCommit io H fuel root s = Err s') \<and>
     (\<forall>h. dbNodeBlob H (fs_db s') h = dbNodeBlob H (fs_db s) h) \<and>
     (dbCommit io H fuel root s = Ok s' \<longrightarrow>
        (\<forall>h c. (root, h) \<in> (kidEdges (fs_db s))\<^sup>* \<longrightarrow> map_of (db_dirties (fs_db s)) h = Some c \<longrightarrow>
           map_of (db_dirties (fs_db s')) h = None \<and> db_diskdb (fs_db s') h = cachedRlp H c))"
proof -
  let ?db = "fs_db s"
  have blob: "dbNodeBlob H (fs_db s') h = dbNodeBlob H ?db h" if "onWay H ?db s'" for s' h
    by (rule onWay_blob [OF that assms(4)])
  note out = dbCommit_outcome [OF assms(1-3), of H io]
  show ?thesis
  proof (cases "dbCommit io H fuel root s")
    case (Ok s')
    then obtain t where t: "fs_db s' = clearPreimages (fs_db t)" "onWay H ?db t" "goneClosed ?db t" "root \<in> gone ?db t" "fs_batch t = []"
      using out by auto
    have "dbNodeBlob H (fs_db s') h = dbNodeBlob H ?db h" for h
      using blob [OF t(2), of h] by (simp add: t(1) cong: dbNodeBlob_cong)
    moreover have "map_of (db_dirties (fs_db s')) h = None \<and> db_diskdb (fs_db s') h = cachedRlp H c"
      if r: "(root, h) \<in> (kidEdges ?db)\<^sup>*" and c: "map_of (db_dirties ?db) h = Some c" for h c
    proof -
      have "h \<in> gone ?db t" using r t(4) by (induction rule: rtrancl_induct) (use t(3) in \<open>auto simp: goneClosed_def\<close>)
      then have none: "pay (fs_db t) h = None" using c t(5) by (auto simp: gone_def)
      moreover have "pay ?db h \<noteq> None" using c by (simp add: pay_None)
      ultimately have "db_diskdb (fs_db t) h = encoded H ?db h" using onWay_pay [OF t(2), of h] by metis
      then show ?thesis using none c by (simp add: t(1) encoded_def pay_None)
    qed
    ultimately show ?thesis using Ok by blast
  next
    case (Err s')
    then have "onWay H ?db (s'\<lparr>fs_batch := []\<rparr>)" using out by simp
    then have "dbNodeBlob H (fs_db s') h = dbNodeBlob H ?db h" for h using blob by fastforce
    then show ?thesis using Err by auto
  qed (use out in auto)
qed

section \<open>Cap\<close>

text \<open>
  While \<open>Cap\<close> writes: the database is that of the start except for the disk, where the nodes \<open>xs\<close> are, unless they are in the
  batch.
\<close>

definition capping :: "crypto \<Rightarrow> Database \<Rightarrow> hash list \<Rightarrow> flushState \<Rightarrow> bool" where
  "capping H db0 xs s \<longleftrightarrow>
     fs_db s = db0\<lparr>db_diskdb := db_diskdb (fs_db s)\<rparr> \<and>
     (\<forall>h b. WriteNode h b \<in> set (fs_batch s) \<longrightarrow> encoded H db0 h = Some b) \<and>
     (\<forall>h. db_diskdb (fs_db s) h = db_diskdb db0 h \<or> (encoded H db0 h \<noteq> None \<and> db_diskdb (fs_db s) h = encoded H db0 h)) \<and>
     (\<forall>h\<in>set xs. encoded H db0 h \<noteq> None \<and> (db_diskdb (fs_db s) h = encoded H db0 h \<or> (\<exists>b. WriteNode h b \<in> set (fs_batch s))))"

lemma disk_only:
  "(a :: Database) = b\<lparr>db_diskdb := db_diskdb a\<rparr> \<Longrightarrow> b = c\<lparr>db_diskdb := db_diskdb b\<rparr> \<Longrightarrow> a = c\<lparr>db_diskdb := db_diskdb a\<rparr>"
  by (cases a; cases b; cases c) simp

lemma capping_same:
  assumes "capping H db0 xs s"
  shows "db_dirties (fs_db s) = db_dirties db0" "db_oldest (fs_db s) = db_oldest db0" "db_newest (fs_db s) = db_newest db0"
    "db_preimages (fs_db s) = db_preimages db0" "db_dirtiesSize (fs_db s) = db_dirtiesSize db0"
    "db_childrenSize (fs_db s) = db_childrenSize db0" "db_preimagesSize (fs_db s) = db_preimagesSize db0"
proof -
  have eq: "fs_db s = db0\<lparr>db_diskdb := db_diskdb (fs_db s)\<rparr>" using assms by (simp add: capping_def)
  show "db_dirties (fs_db s) = db_dirties db0" "db_oldest (fs_db s) = db_oldest db0" "db_newest (fs_db s) = db_newest db0"
    "db_preimages (fs_db s) = db_preimages db0" "db_dirtiesSize (fs_db s) = db_dirtiesSize db0"
    "db_childrenSize (fs_db s) = db_childrenSize db0" "db_preimagesSize (fs_db s) = db_preimagesSize db0"
    using arg_cong [OF eq, of db_dirties] arg_cong [OF eq, of db_oldest] arg_cong [OF eq, of db_newest] arg_cong [OF eq, of db_preimages]
      arg_cong [OF eq, of db_dirtiesSize] arg_cong [OF eq, of db_childrenSize] arg_cong [OF eq, of db_preimagesSize]
    by simp_all
qed

lemma capping_write:
  assumes "capping H db0 xs s" "batchWrite io s = (ok, s')"
  shows "capping H db0 xs s'" "ok \<Longrightarrow> capping H db0 xs (s'\<lparr>fs_batch := []\<rparr>)"
proof -
  have enc: "encoded H db0 h = Some b" if "WriteNode h b \<in> set (fs_batch s)" for h b
    using assms(1) that unfolding capping_def by blast
  have db: "fs_db s' = (fs_db s)\<lparr>db_diskdb := db_diskdb (fs_db s')\<rparr>" and bt: "fs_batch s' = fs_batch s"
    and disk: "\<And>h. db_diskdb (fs_db s') h = db_diskdb (fs_db s) h \<or> (encoded H db0 h \<noteq> None \<and> db_diskdb (fs_db s') h = encoded H db0 h)"
    and on: "\<And>h b. ok \<Longrightarrow> WriteNode h b \<in> set (fs_batch s) \<Longrightarrow> db_diskdb (fs_db s') h = encoded H db0 h"
    using batchWrite_disk [OF assms(2), of H db0] enc by blast+
  have "fs_db s = db0\<lparr>db_diskdb := db_diskdb (fs_db s)\<rparr>" using assms(1) by (simp add: capping_def)
  then have db': "fs_db s' = db0\<lparr>db_diskdb := db_diskdb (fs_db s')\<rparr>" by (rule disk_only [OF db])
  have d: "db_diskdb (fs_db s') h = db_diskdb db0 h \<or> (encoded H db0 h \<noteq> None \<and> db_diskdb (fs_db s') h = encoded H db0 h)" for h
    using disk [of h] assms(1) unfolding capping_def by metis
  have x: "encoded H db0 h \<noteq> None" "db_diskdb (fs_db s') h = encoded H db0 h \<or> (\<exists>b. WriteNode h b \<in> set (fs_batch s))"
    if "h \<in> set xs" for h
    using that assms(1) disk [of h] unfolding capping_def by metis+
  show "capping H db0 xs s'" unfolding capping_def bt using db' enc d x by blast
  show "capping H db0 xs (s'\<lparr>fs_batch := []\<rparr>)" if ok
  proof -
    have "db_diskdb (fs_db s') h = encoded H db0 h" if "h \<in> set xs" for h using x(2) [OF that] on [OF \<open>ok\<close>] by blast
    then show ?thesis using db' d x(1) by (simp add: capping_def)
  qed
qed

lemma writeReset_capping:
  assumes "capping H db0 xs s"
  shows "outcome (capping H db0 xs) (capping H db0 xs) (writeReset io s)"
proof -
  obtain ok s' where w: "batchWrite io s = (ok, s')" by fastforce
  then show ?thesis using capping_write [OF assms w] by (simp add: writeReset_def)
qed

definition savedOf :: "nat \<Rightarrow> Database \<Rightarrow> hash list \<Rightarrow> int" where
  "savedOf cns db zs = sum_list (map (\<lambda>h. savedBytes cns (the (map_of (db_dirties db) h))) zs)"

definition headOf :: "hash list \<Rightarrow> hash" where
  "headOf hs = (case hs of [] \<Rightarrow> zeroHash | h # _ \<Rightarrow> h)"

lemma flushListD:
  assumes "flushList db Stk hs"
  shows "distinct (map fst (db_dirties db))" "distinct hs" "zeroHash \<in> dom (map_of (db_dirties db))" "zeroHash \<notin> Stk"
    "set hs = dom (map_of (db_dirties db)) - insert zeroHash Stk" "linkedBy (map_of (db_dirties db)) hs"
    "db_oldest db = headOf hs" "hs \<noteq> [] \<Longrightarrow> db_newest db = last hs"
  using assms unfolding flushList_def headOf_def by blast+

lemma flushList_next:
  assumes "flushList db Stk (xs @ h # ys)" "map_of (db_dirties db) h = Some c"
  shows "cn_flushNext c = headOf ys"
proof -
  have "linkedBy (map_of (db_dirties db)) (xs @ h # ys)" using assms(1) by (simp add: flushList_def)
  then have "nxt (map_of (db_dirties db)) h = Some (headOf ys)"
    by (cases ys) (auto simp: linkedBy_def successively_append_iff successively_Cons headOf_def)
  then show ?thesis by (simp add: nxt_def assms(2))
qed

lemma encoded_some:
  "nodesCached db \<Longrightarrow> map_of (db_dirties db) h = Some c \<Longrightarrow> h \<noteq> zeroHash \<Longrightarrow> \<exists>b. cachedRlp H c = Some b \<and> encoded H db h = Some b"
  by (auto simp: nodesCached_def encoded_def cachedRlp_def)

definition capped :: "crypto \<Rightarrow> nat \<Rightarrow> int \<Rightarrow> Database \<Rightarrow> hash list \<Rightarrow> hash list \<Rightarrow> int \<Rightarrow> hash \<times> flushState \<Rightarrow> bool" where
  "capped H cns limit db0 xs ys mem r \<longleftrightarrow>
     (\<exists>zs ws. ys = zs @ ws \<and> fst r = headOf ws \<and> capping H db0 (xs @ zs) (snd r) \<and> (mem - savedOf cns db0 zs \<le> limit \<or> ws = []))"

lemma capped_step:
  assumes "capped H cns limit db0 (xs @ [y]) ys (mem - savedBytes cns c) r" "map_of (db_dirties db0) y = Some c"
  shows "capped H cns limit db0 xs (y # ys) mem r"
proof -
  obtain zs ws where r: "ys = zs @ ws" "fst r = headOf ws" "capping H db0 ((xs @ [y]) @ zs) (snd r)"
      "mem - savedBytes cns c - savedOf cns db0 zs \<le> limit \<or> ws = []"
    using assms(1) unfolding capped_def by blast
  have "y # ys = (y # zs) @ ws" "capping H db0 (xs @ y # zs) (snd r)" using r by simp_all
  moreover have "mem - savedOf cns db0 (y # zs) \<le> limit \<or> ws = []" using r(4) assms(2) by (auto simp: savedOf_def)
  ultimately show ?thesis unfolding capped_def using r(2) by blast
qed

lemma capLoop_ok:
  assumes fl: "flushList db0 {} hs" and nc: "nodesCached db0"
  shows "hs = xs @ ys \<Longrightarrow> capping H db0 xs s \<Longrightarrow> length ys < fuel \<Longrightarrow>
     outcome (capped H cns limit db0 xs ys mem) (\<lambda>s'. \<exists>zs. capping H db0 zs s') (capLoop io H cns limit fuel mem (headOf ys) s)"
proof (induction ys arbitrary: xs s fuel mem)
  case Nil
  then obtain f where f: "fuel = Suc f" by (cases fuel) auto
  show ?case using Nil.prems by (simp add: f headOf_def capped_def)
next
  case (Cons y ys)
  then obtain f where f: "fuel = Suc f" by (cases fuel) auto
  have y: "y \<noteq> zeroHash" "map_of (db_dirties db0) y \<noteq> None"
    using flushList_mem [OF fl, of y] Cons.prems(1) by auto
  then obtain c where c: "map_of (db_dirties db0) y = Some c" by blast
  have head: "headOf (y # ys) = y" by (simp add: headOf_def)
  show ?case
  proof (cases "mem > limit")
    case False
    have "y # ys = [] @ y # ys" "capping H db0 (xs @ []) s" "mem - savedOf cns db0 [] \<le> limit"
      using False Cons.prems(2) by (simp_all add: savedOf_def)
    then have "capped H cns limit db0 xs (y # ys) mem (headOf (y # ys), s)" unfolding capped_def fst_conv snd_conv by blast
    then show ?thesis using False by (simp add: f)
  next
    case True
    have here: "map_of (db_dirties (fs_db s)) y = Some c" using c capping_same(1) [OF Cons.prems(2)] by simp
    obtain b where b: "cachedRlp H c = Some b" "encoded H db0 y = Some b" using encoded_some [OF nc c y(1)] by blast
    let ?s = "s\<lparr>fs_batch := fs_batch s @ [WriteNode y b]\<rparr>"
    have cap: "capping H db0 (xs @ [y]) ?s" using Cons.prems(2) b(2) by (auto simp: capping_def)
    have next_y: "cn_flushNext c = headOf ys" using flushList_next [OF _ c] fl Cons.prems(1) by blast
    let ?w = "if bi_ideal io \<le> bi_valueSize io (fs_batch ?s) then writeReset io ?s else Ok ?s"
    let ?l = "capLoop io H cns limit f (mem - savedBytes cns c) (headOf ys)"
    have "outcome (capping H db0 (xs @ [y])) (\<lambda>s'. \<exists>zs. capping H db0 zs s') ?w"
    proof (cases "bi_ideal io \<le> bi_valueSize io (fs_batch ?s)")
      case True
      have "outcome (capping H db0 (xs @ [y])) (\<lambda>s'. \<exists>zs. capping H db0 zs s') (writeReset io ?s)"
        by (rule outcome_weaken [OF writeReset_capping [OF cap]]) auto
      then show ?thesis using True by simp
    qed (use cap in simp)
    then have "outcome (capped H cns limit db0 (xs @ [y]) ys (mem - savedBytes cns c)) (\<lambda>s'. \<exists>zs. capping H db0 zs s') (rbind ?w ?l)"
    proof (rule outcome_rbind)
      fix s1 assume "capping H db0 (xs @ [y]) s1"
      then show "outcome (capped H cns limit db0 (xs @ [y]) ys (mem - savedBytes cns c)) (\<lambda>s'. \<exists>zs. capping H db0 zs s') (?l s1)"
        using Cons.prems(1,3) f by (intro Cons.IH) auto
    qed
    then have "outcome (capped H cns limit db0 xs (y # ys) mem) (\<lambda>s'. \<exists>zs. capping H db0 zs s') (rbind ?w ?l)"
      by (rule outcome_weaken) (auto intro: capped_step [OF _ c])
    then show ?thesis using True y(1) here b(1) next_y by (simp add: f head Let_def)
  qed
qed

lemma flushList_tail:
  assumes fl: "flushList db {} (z # hs)"
    and db': "db_dirties db' = AList.delete z (db_dirties db)" "db_oldest db' = headOf hs" "db_newest db' = db_newest db"
  shows "flushList db' {} hs"
proof -
  have m: "map_of (db_dirties db') = (map_of (db_dirties db))(z := None)" by (simp add: db'(1) delete_conv')
  note f = flushListD [OF fl]
  note hs = f(5,2)
  have hz: "z \<noteq> zeroHash" using hs(1) by (metis DiffE insertI1 list.set_intros(1))
  have "linkedBy (map_of (db_dirties db)) hs" using f(6) by (auto simp: linkedBy_def successively_Cons)
  then have "linkedBy (map_of (db_dirties db')) hs"
  proof (rule linkedBy_cong)
    fix x assume "x \<in> set hs"
    then have "x \<noteq> z" using hs(2) by auto
    then show "nxt (map_of (db_dirties db')) x = nxt (map_of (db_dirties db)) x \<and> prv (map_of (db_dirties db')) x = prv (map_of (db_dirties db)) x"
      by (simp add: m nxt_def prv_def)
  qed
  moreover have "set hs = dom (map_of (db_dirties db')) - insert zeroHash {}"
  proof -
    have "set hs = set (z # hs) - {z}" using hs(2) by auto
    also have "\<dots> = dom (map_of (db_dirties db')) - insert zeroHash {}" unfolding hs(1) m by auto
    finally show ?thesis .
  qed
  moreover have "distinct (map fst (db_dirties db'))" using f(1) by (simp add: db'(1) distinct_delete)
  moreover have "zeroHash \<in> dom (map_of (db_dirties db'))" using f(3) hz by (simp add: m)
  moreover have "hs \<noteq> [] \<longrightarrow> db_newest db' = last hs" using f(8) by (simp add: db'(3))
  moreover have "distinct hs" using hs(2) by simp
  ultimately show ?thesis unfolding flushList_def db'(2) headOf_def by simp
qed

lemma length_delete:
  "distinct (map fst ds) \<Longrightarrow> map_of ds h \<noteq> None \<Longrightarrow> Suc (length (AList.delete h ds)) = length ds"
proof (induction ds)
  case (Cons a ds)
  then show ?case
  proof (cases "fst a = h")
    case True
    then have "h \<notin> fst ` set ds" using Cons.prems(1) by auto
    then show ?thesis using True by (cases a) simp
  qed (cases a; simp)
qed simp

lemma evictTo_ok:
  "flushList db {} (zs @ ws) \<Longrightarrow> length zs < fuel \<Longrightarrow>
     \<exists>db'. evictTo fuel (headOf ws) db = Ok db' \<and> flushList db' {} ws \<and>
       (\<forall>h. map_of (db_dirties db') h = (if h \<in> set zs then None else map_of (db_dirties db) h)) \<and>
       length (db_dirties db') + length zs = length (db_dirties db) \<and>
       db_dirtiesSize db' + db_childrenSize db' = db_dirtiesSize db + db_childrenSize db - savedOf 0 db zs \<and>
       db_diskdb db' = db_diskdb db \<and> db_preimages db' = db_preimages db \<and> db_preimagesSize db' = db_preimagesSize db"
proof (induction zs arbitrary: db fuel)
  case Nil
  then obtain f where f: "fuel = Suc f" by (cases fuel) auto
  have "db_oldest db = headOf ws" using Nil.prems(1) by (simp add: flushList_def headOf_def)
  then show ?case using Nil.prems(1) by (simp add: f savedOf_def)
next
  case (Cons z zs)
  then obtain f where f: "fuel = Suc f" "length zs < f" by (cases fuel) auto
  have old: "db_oldest db = z" using Cons.prems(1) by (simp add: flushList_def)
  have d: "distinct (z # zs @ ws)" "distinct (map fst (db_dirties db))" using Cons.prems(1) by (simp_all add: flushList_def)
  have z: "map_of (db_dirties db) z \<noteq> None" "z \<noteq> zeroHash"
    using flushList_mem [OF Cons.prems(1), of z] by auto
  then obtain c where c: "map_of (db_dirties db) z = Some c" by blast
  have ne: "z \<noteq> headOf ws" using d(1) z(2) by (cases ws) (auto simp: headOf_def)
  have next_z: "cn_flushNext c = headOf (zs @ ws)" using flushList_next [OF _ c, of "{}" "[]" "zs @ ws"] Cons.prems(1) by simp
  define db1 where "db1 = db\<lparr>db_dirties := AList.delete z (db_dirties db), db_oldest := cn_flushNext c,
      db_dirtiesSize := db_dirtiesSize db - (32 + int (unat (cn_size c))),
      db_childrenSize := db_childrenSize db - (case cn_children c of None \<Rightarrow> 0 | Some cs \<Rightarrow> 48 + int (length cs) * 34)\<rparr>"
  have step: "evictTo fuel (headOf ws) db = evictTo f (headOf ws) db1" using f(1) old ne c by (simp add: db1_def)
  have fl1: "flushList db1 {} (zs @ ws)"
    by (rule flushList_tail [of db z]) (use Cons.prems(1) next_z in \<open>simp_all add: db1_def\<close>)
  have m1: "map_of (db_dirties db1) h = (if h = z then None else map_of (db_dirties db) h)" for h
    by (simp add: db1_def delete_conv')
  have saved: "savedOf 0 db1 zs = savedOf 0 db zs"
    unfolding savedOf_def by (rule arg_cong [of _ _ sum_list]) (use d(1) m1 in \<open>auto intro!: map_cong\<close>)
  obtain db' where db': "evictTo f (headOf ws) db1 = Ok db'" "flushList db' {} ws"
      "\<forall>h. map_of (db_dirties db') h = (if h \<in> set zs then None else map_of (db_dirties db1) h)"
      "length (db_dirties db') + length zs = length (db_dirties db1)"
      "db_dirtiesSize db' + db_childrenSize db' = db_dirtiesSize db1 + db_childrenSize db1 - savedOf 0 db1 zs"
      "db_diskdb db' = db_diskdb db1" "db_preimages db' = db_preimages db1" "db_preimagesSize db' = db_preimagesSize db1"
    using Cons.IH [OF fl1 f(2)] by blast
  have "length (db_dirties db') + length (z # zs) = length (db_dirties db)"
    using db'(4) length_delete [OF d(2) z(1)] by (simp add: db1_def)
  moreover have "db_dirtiesSize db' + db_childrenSize db' = db_dirtiesSize db + db_childrenSize db - savedOf 0 db (z # zs)"
    using db'(5) c unfolding saved by (simp add: db1_def savedOf_def savedBytes_def)
  moreover have "\<forall>h. map_of (db_dirties db') h = (if h \<in> set (z # zs) then None else map_of (db_dirties db) h)"
    using db'(3) m1 by simp
  moreover have "db_diskdb db' = db_diskdb db" "db_preimages db' = db_preimages db" "db_preimagesSize db' = db_preimagesSize db"
    using db'(6-8) by (simp_all add: db1_def)
  ultimately show ?case unfolding step using db'(1,2) by blast
qed

lemma headLink_ok:
  assumes fl: "flushList db {} hs"
  shows "\<exists>db'. headLink db = Some db' \<and> flushList db' {} hs \<and> pay db' = pay db \<and> map fst (db_dirties db') = map fst (db_dirties db) \<and>
     db_diskdb db' = db_diskdb db \<and> db_preimages db' = db_preimages db \<and> db_preimagesSize db' = db_preimagesSize db \<and>
     db_dirtiesSize db' = db_dirtiesSize db \<and> db_childrenSize db' = db_childrenSize db"
proof (cases hs)
  case Nil
  then have "db_oldest db = zeroHash" using fl by (simp add: flushList_def)
  then show ?thesis using fl by (simp add: headLink_def)
next
  case (Cons z zs)
  have old: "db_oldest db = z" using fl Cons by (simp add: flushList_def)
  have z: "map_of (db_dirties db) z \<noteq> None" "z \<noteq> zeroHash" using flushList_mem [OF fl, of z] Cons by auto
  then obtain c where c: "map_of (db_dirties db) z = Some c" by blast
  obtain ds where ds: "setPrev z zeroHash (db_dirties db) = Some ds"
      "map_of ds = (map_of (db_dirties db))(z \<mapsto> c\<lparr>cn_flushPrev := zeroHash\<rparr>)" "map fst ds = map fst (db_dirties db)"
    using setPrev_ok [OF c] by blast
  let ?db = "db\<lparr>db_dirties := ds\<rparr>"
  have py: "pay ?db = pay db" using c by (auto simp: pay_def fun_eq_iff ds(2) payload_def)
  have f: "linkedBy (map_of (db_dirties db)) hs" "distinct hs" using fl by (simp_all add: flushList_def)
  have "linkedBy (map_of ds) hs"
  proof -
    have "successively (\<lambda>x y. nxt (map_of ds) x = Some y \<and> prv (map_of ds) y = Some x) hs"
      by (rule successively_links [of "map_of (db_dirties db)"]) (use f c Cons in \<open>auto simp: linkedBy_def ds(2) nxt_def prv_def\<close>)
    moreover have "nxt (map_of ds) (last hs) = Some zeroHash"
      using f(1) Cons c by (auto simp: linkedBy_def ds(2) nxt_def)
    ultimately show ?thesis by (simp add: linkedBy_def)
  qed
  then have "flushList ?db {} hs"
    using fl ds(3) pay_dom [OF py] unfolding flushList_def by simp
  then show ?thesis using old z(2) ds(1,3) py by (simp add: headLink_def)
qed

lemma savedOf_split: "savedOf cns db zs = savedOf 0 db zs + int (length zs) * int cns"
  by (induction zs) (simp_all add: savedOf_def savedBytes_def algebra_simps)

lemma evict_blocks:
  assumes fl: "flushList db {} (zs @ ws)" and fuel: "length zs < fuel" and sz: "dbSize cns db = Some (mem, pre)"
  shows "\<exists>db1 db2. evictTo fuel (headOf ws) db = Ok db1 \<and> headLink db1 = Some db2 \<and> flushList db2 {} ws \<and>
     (\<forall>h. pay db2 h = (if h \<in> set zs then None else pay db h)) \<and> db_diskdb db2 = db_diskdb db \<and>
     dbSize cns db2 = Some (mem - savedOf cns db zs, pre)"
proof -
  obtain db1 where e: "evictTo fuel (headOf ws) db = Ok db1" "flushList db1 {} ws"
      "\<forall>h. map_of (db_dirties db1) h = (if h \<in> set zs then None else map_of (db_dirties db) h)"
      "length (db_dirties db1) + length zs = length (db_dirties db)"
      "db_dirtiesSize db1 + db_childrenSize db1 = db_dirtiesSize db + db_childrenSize db - savedOf 0 db zs"
      "db_diskdb db1 = db_diskdb db" "db_preimagesSize db1 = db_preimagesSize db"
    using evictTo_ok [OF fl fuel] by blast
  obtain db2 where l: "headLink db1 = Some db2" "flushList db2 {} ws" "pay db2 = pay db1" "map fst (db_dirties db2) = map fst (db_dirties db1)"
      "db_diskdb db2 = db_diskdb db1" "db_preimagesSize db2 = db_preimagesSize db1"
      "db_dirtiesSize db2 = db_dirtiesSize db1" "db_childrenSize db2 = db_childrenSize db1"
    using headLink_ok [OF e(2)] by blast
  have py: "pay db2 h = (if h \<in> set zs then None else pay db h)" for h
    using e(3) by (simp add: l(3) pay_def)
  have len: "length (db_dirties db2) = length (db_dirties db1)" using arg_cong [OF l(4), of length] by simp
  have zz: "zeroHash \<notin> set zs" using flushListD(5) [OF fl] by auto
  obtain r where r: "map_of (db_dirties db) zeroHash = Some r" using flushListD(3) [OF fl] by blast
  then have "pay db2 zeroHash = pay db zeroHash" using py zz by simp
  then obtain r2 where r2: "map_of (db_dirties db2) zeroHash = Some r2" "payload r2 = payload r"
    using paySomeD [of db zeroHash db2 r] r by metis
  have "0 < length (db_dirties db2)" using r2(1) by (cases "db_dirties db2") auto
  then have "length (db_dirties db) - 1 = (length (db_dirties db2) - 1) + length zs"
    using e(4) len by linarith
  then have meta: "int ((length (db_dirties db) - 1) * cns) = int ((length (db_dirties db2) - 1) * cns) + int (length zs) * int cns"
    by (simp add: distrib_right del: of_nat_diff)
  have "cn_children r2 = cn_children r" using r2(2) by (simp add: payload_def)
  then have "dbSize cns db2 = Some (mem - savedOf cns db zs, pre)"
    using sz r r2(1) e(5,7) l(6-8) meta unfolding savedOf_split [of cns db zs] by (simp add: dbSize_def Let_def)
  then show ?thesis using e(1,6) l(1,2,5) py by auto
qed

definition capResult :: "crypto \<Rightarrow> nat \<Rightarrow> int \<Rightarrow> Database \<Rightarrow> hash list \<Rightarrow> flushState \<Rightarrow> bool" where
  "capResult H cns limit db0 hs s \<longleftrightarrow>
     (\<exists>zs ws mem pre. hs = zs @ ws \<and> flushList (fs_db s) {} ws \<and> (\<forall>h. pay (fs_db s) h = (if h \<in> set zs then None else pay db0 h)) \<and>
        (\<forall>h\<in>set zs. encoded H db0 h \<noteq> None \<and> db_diskdb (fs_db s) h = encoded H db0 h) \<and>
        (\<forall>h. db_diskdb (fs_db s) h = db_diskdb db0 h \<or> (encoded H db0 h \<noteq> None \<and> db_diskdb (fs_db s) h = encoded H db0 h)) \<and>
        dbSize cns (fs_db s) = Some (mem, pre) \<and> (mem \<le> limit \<or> ws = []))"

lemma dbSize_known: "flushList db {} hs \<Longrightarrow> \<exists>mem pre. dbSize cns db = Some (mem, pre)"
  using flushListD(3) by (fastforce simp: dbSize_def Let_def)

lemma dbSize_cong:
  "db_dirties db = db_dirties db' \<Longrightarrow> db_dirtiesSize db = db_dirtiesSize db' \<Longrightarrow> db_childrenSize db = db_childrenSize db' \<Longrightarrow>
     dbSize cns db = Some (mem, pre) \<Longrightarrow> \<exists>pre. dbSize cns db' = Some (mem, pre)"
  by (auto simp: dbSize_def Let_def split: option.splits)

lemma clearPreimages_sizes [simp]:
  "db_dirtiesSize (clearPreimages db) = db_dirtiesSize db" "db_childrenSize (clearPreimages db) = db_childrenSize db"
  by (simp_all add: clearPreimages_def)

lemma flushList_cong:
  "flushList db Stk hs \<Longrightarrow> db_dirties db' = db_dirties db \<Longrightarrow> db_oldest db' = db_oldest db \<Longrightarrow> db_newest db' = db_newest db \<Longrightarrow>
     flushList db' Stk hs"
  by (simp add: flushList_def)

lemma cap_evicts:
  assumes fl: "flushList db0 {} hs" and sz: "dbSize cns db0 = Some (mem, pre)" and fuel: "length hs < fuel"
    and r: "capped H cns limit db0 [] hs mem (oldest, s3)" and w: "batchWrite io s3 = (True, s4)"
    and db: "db = clearPreimages (fs_db s4) \<or> db = fs_db s4"
  shows "\<exists>db1 db2. evictTo fuel oldest db = Ok db1 \<and> headLink db1 = Some db2 \<and> capResult H cns limit db0 hs (s4\<lparr>fs_db := db2\<rparr>)"
proof -
  obtain zs ws where z: "hs = zs @ ws" "oldest = headOf ws" "capping H db0 zs s3" "mem - savedOf cns db0 zs \<le> limit \<or> ws = []"
    using r by (auto simp: capped_def)
  note cap = capping_write(2) [OF z(3) w]
  have same: "db_dirties db = db_dirties db0" "db_oldest db = db_oldest db0" "db_newest db = db_newest db0"
      "db_dirtiesSize db = db_dirtiesSize db0" "db_childrenSize db = db_childrenSize db0" "db_diskdb db = db_diskdb (fs_db s4)"
    using db capping_same [OF cap] by auto
  have fl': "flushList db {} (zs @ ws)" using flushList_cong [OF fl same(1-3)] z(1) by simp
  obtain pre' where sz': "dbSize cns db = Some (mem, pre')" using dbSize_cong [OF _ _ _ sz, of db] same by auto
  have "length zs < fuel" using fuel z(1) by simp
  from evict_blocks [OF fl' this sz'] obtain db1 db2 where e: "evictTo fuel (headOf ws) db = Ok db1" "headLink db1 = Some db2"
      "flushList db2 {} ws" "\<forall>h. pay db2 h = (if h \<in> set zs then None else pay db h)" "db_diskdb db2 = db_diskdb db"
      "dbSize cns db2 = Some (mem - savedOf cns db zs, pre')"
    by blast
  have "pay db = pay db0" by (simp add: fun_eq_iff pay_def same(1))
  moreover have "savedOf cns db zs = savedOf cns db0 zs" by (simp add: savedOf_def same(1))
  moreover have "\<forall>h\<in>set zs. encoded H db0 h \<noteq> None \<and> db_diskdb db2 h = encoded H db0 h"
    using cap by (simp add: capping_def e(5) same(6))
  moreover have "\<forall>h. db_diskdb db2 h = db_diskdb db0 h \<or> (encoded H db0 h \<noteq> None \<and> db_diskdb db2 h = encoded H db0 h)"
    using cap by (simp add: capping_def e(5) same(6))
  ultimately have "capResult H cns limit db0 hs (s4\<lparr>fs_db := db2\<rparr>)"
    unfolding capResult_def using e(3,4,6) z(1,4) by (intro exI [of _ zs] exI [of _ ws] exI) simp
  then show ?thesis using e(1,2) z(2) by blast
qed

lemma capping_start: "fs_db s = db0 \<Longrightarrow> fs_batch s = preimageOps ps \<or> fs_batch s = [] \<Longrightarrow> capping H db0 [] s"
  by (auto simp: capping_def preimageOps_def)

lemma dbCap_outcome:
  assumes fl: "flushList (fs_db s0) {} hs" and nc: "nodesCached (fs_db s0)" and fuel: "length hs < fuel"
  shows "outcome (capResult H cns limit (fs_db s0) hs) (\<lambda>s'. \<exists>zs. capping H (fs_db s0) zs s') (dbCap io H cns fuel limit s0)"
    (is "outcome ?P ?E _")
proof -
  let ?db = "fs_db s0"
  obtain mem pre where sz: "dbSize cns ?db = Some (mem, pre)" using dbSize_known [OF fl] by blast
  define flush where "flush = (pre > 4 * 1024 * 1024)"
  let ?s = "s0\<lparr>fs_batch := []\<rparr>"
  let ?pre = "case db_preimages (fs_db ?s) of
      Some ps \<Rightarrow>
        if flush then
          (let s1 = ?s\<lparr>fs_batch := preimageOps ps\<rparr>
           in if bi_ideal io < bi_valueSize io (fs_batch s1) then writeReset io s1 else Ok s1)
        else Ok ?s
    | None \<Rightarrow> Ok ?s"
  have "outcome (capping H ?db []) ?E ?pre"
  proof (cases "db_preimages ?db")
    case None
    then show ?thesis using capping_start [of ?s ?db] by simp
  next
    case (Some ps)
    have c: "capping H ?db [] (?s\<lparr>fs_batch := preimageOps ps\<rparr>)" "capping H ?db [] ?s"
      using capping_start [of _ ?db ps] by simp_all
    have "outcome (capping H ?db []) ?E (writeReset io (?s\<lparr>fs_batch := preimageOps ps\<rparr>))"
      by (rule outcome_weaken [OF writeReset_capping [OF c(1)]]) auto
    then show ?thesis using Some c by (auto simp: Let_def)
  qed
  then show ?thesis
    unfolding dbCap_def sz option.case prod.case Let_def [of ?s] Let_def [of "pre > 4 * 1024 * 1024"] flush_def [symmetric] Let_def [of flush]
  proof (rule outcome_rbind)
    fix s2 assume s2: "capping H ?db [] s2"
    have "db_oldest (fs_db s2) = headOf hs" using capping_same(2) [OF s2] flushListD(7) [OF fl] by simp
    then have "outcome (capped H cns limit ?db [] hs mem) ?E (capLoop io H cns limit fuel mem (db_oldest (fs_db s2)) s2)"
      using capLoop_ok [OF fl nc, of "[]" hs] s2 fuel by simp
    then show "outcome ?P ?E (rbind (capLoop io H cns limit fuel mem (db_oldest (fs_db s2)) s2)
       (\<lambda>(oldest, s3). capFinish io fuel flush oldest s3))"
    proof (rule outcome_rbind)
      fix r assume r: "capped H cns limit ?db [] hs mem r"
      obtain oldest s3 where rr: "r = (oldest, s3)" by fastforce
      obtain ok s4 where w: "batchWrite io s3 = (ok, s4)" by fastforce
      have "outcome ?P ?E (capFinish io fuel flush oldest s3)"
      proof (cases ok)
        case False
        obtain zs where "capping H ?db zs s3" using r by (auto simp: rr capped_def)
        from capping_write(1) [OF this w] show ?thesis using False w by (auto simp: capFinish_def)
      next
        case True
        then have w': "batchWrite io s3 = (True, s4)" using w by simp
        let ?d = "if flush then clearPreimages (fs_db s4) else fs_db s4"
        obtain db1 db2 where "evictTo fuel oldest ?d = Ok db1" "headLink db1 = Some db2" "?P (s4\<lparr>fs_db := db2\<rparr>)"
          using cap_evicts [OF fl sz fuel r [unfolded rr] w', of ?d] by (cases flush) auto
        then show ?thesis using w' by (simp add: capFinish_def)
      qed
      then show "outcome ?P ?E (case r of (oldest, s3) \<Rightarrow> capFinish io fuel flush oldest s3)" by (simp add: rr)
    qed
  qed
qed

lemma capResult_onWay:
  assumes "capResult H cns limit db0 hs s"
  shows "onWay H db0 (s\<lparr>fs_batch := []\<rparr>)"
proof -
  obtain zs ws where z: "flushList (fs_db s) {} ws" "\<And>h. pay (fs_db s) h = (if h \<in> set zs then None else pay db0 h)"
      "\<And>h. h \<in> set zs \<Longrightarrow> encoded H db0 h \<noteq> None \<and> db_diskdb (fs_db s) h = encoded H db0 h"
      "\<And>h. db_diskdb (fs_db s) h = db_diskdb db0 h \<or> (encoded H db0 h \<noteq> None \<and> db_diskdb (fs_db s) h = encoded H db0 h)"
    using assms unfolding capResult_def by metis
  have "pay (fs_db s) h = pay db0 h \<or> (pay (fs_db s) h = None \<and> encoded H db0 h \<noteq> None \<and> db_diskdb (fs_db s) h = encoded H db0 h)" for h
    using z(2) [of h] z(3) [of h] by (cases "h \<in> set zs") simp_all
  then show ?thesis using z(1,4) unfolding onWay_def by auto
qed

lemma capping_onWay:
  assumes "capping H db0 xs s" "flushList db0 {} hs"
  shows "onWay H db0 (s\<lparr>fs_batch := []\<rparr>)"
proof -
  note same = capping_same [OF assms(1)]
  have "flushList (fs_db s) {} hs" using flushList_cong [OF assms(2)] same by simp
  moreover have "pay (fs_db s) = pay db0" by (simp add: fun_eq_iff pay_def same(1))
  ultimately show ?thesis using assms(1) unfolding onWay_def capping_def by auto
qed

text \<open>
  C23: \<open>Cap\<close> returns. Whether its disk writes go well or one of them fails half-way, every node reads as before. If they go well, the
  memory that \<open>Size\<close> reports is at most the limit, or no node is left in the cache.
\<close>

theorem Cap_bounds_memory:
  assumes "dbWf (fs_db s)" "length (db_dirties (fs_db s)) \<le> fuel" "\<And>x. rlpEncode H x \<noteq> []"
  shows "\<exists>s'. (dbCap io H cachedNodeSize fuel limit s = Ok s' \<or> dbCap io H cachedNodeSize fuel limit s = Err s') \<and>
     (\<forall>h. dbNodeBlob H (fs_db s') h = dbNodeBlob H (fs_db s) h) \<and>
     (dbCap io H cachedNodeSize fuel limit s = Ok s' \<longrightarrow>
        (\<exists>mem preimages. dbSize cachedNodeSize (fs_db s') = Some (mem, preimages) \<and> (mem \<le> limit \<or> dbNodes (fs_db s') = [])))"
proof -
  let ?db = "fs_db s"
  obtain hs where fl: "flushList ?db {} hs" and nc: "nodesCached ?db" using assms(1) unfolding dbWf_def by blast
  note f = flushListD [OF fl]
  have "set (zeroHash # hs) \<subseteq> fst ` set (db_dirties ?db)" using f(3,5) by (auto simp: dom_map_of_conv_image_fst)
  moreover have "distinct (zeroHash # hs)" using f(2,5) by auto
  ultimately have "length (zeroHash # hs) \<le> card (fst ` set (db_dirties ?db))"
    by (metis List.finite_set card_mono distinct_card finite_imageI)
  also have "\<dots> \<le> length (db_dirties ?db)" by (rule order_trans [OF card_image_le [OF List.finite_set] card_length])
  finally have fuel: "length hs < fuel" using assms(2) by simp
  have blob: "dbNodeBlob H (fs_db s') h = dbNodeBlob H ?db h" if "onWay H ?db (s'\<lparr>fs_batch := []\<rparr>)" for s' h
    using onWay_blob [OF that assms(3), of h] by simp
  note out = dbCap_outcome [OF fl nc fuel, of H cachedNodeSize limit io]
  show ?thesis
  proof (cases "dbCap io H cachedNodeSize fuel limit s")
    case (Ok s')
    then have res: "capResult H cachedNodeSize limit ?db hs s'" using out by simp
    then obtain ws mem pre where m: "flushList (fs_db s') {} ws" "dbSize cachedNodeSize (fs_db s') = Some (mem, pre)" "mem \<le> limit \<or> ws = []"
      unfolding capResult_def by blast
    have "dbNodes (fs_db s') = []" if "ws = []"
    proof -
      have "h = zeroHash" if "h \<in> fst ` set (db_dirties (fs_db s'))" for h
        using flushListD(5) [OF m(1)] that \<open>ws = []\<close> by (auto simp: dom_map_of_conv_image_fst)
      then show ?thesis by (auto simp: dbNodes_def filter_empty_conv)
    qed
    then show ?thesis using Ok m(2,3) blob [OF capResult_onWay [OF res]] by blast
  next
    case (Err s')
    then obtain zs where "capping H ?db zs s'" using out by auto
    then show ?thesis using Err blob [OF capping_onWay [OF _ fl]] by auto
  qed (use out in auto)
qed

section \<open>A concrete database\<close>

text \<open>A leaf, an extension above it, and both referenced by the meta root.\<close>

definition demo0 :: Database where "demo0 = NewDatabaseWithCache (\<lambda>_. None)"
definition demo1 :: Database where "demo1 = the (dbInsert demo0 [1] 40 (ShortN [0x20, 1] (ValueN [7]) (cleanFlag None)))"
definition demo2 :: Database where "demo2 = the (dbInsert demo1 [2] 50 (ShortN [0, 1] (HashN [1]) (cleanFlag None)))"
definition demo3 :: Database where "demo3 = the (dbReference demo2 [2] zeroHash)"
definition demo4 :: Database where "demo4 = the (dbReference demo3 [1] zeroHash)"

lemma demo4_db:
  "db_dirties demo4 =
     [(zeroHash, metaRoot\<lparr>cn_children := Some [([2], 1), ([1], 1)]\<rparr>),
      ([1], \<lparr>cn_node = RawShort [0x20, 1] (RawValue [7]), cn_size = 40, cn_parents = 2, cn_children = None,
         cn_flushPrev = zeroHash, cn_flushNext = [2]\<rparr>),
      ([2], \<lparr>cn_node = RawShort [0, 1] (RawHash [1]), cn_size = 50, cn_parents = 1, cn_children = None,
         cn_flushPrev = [1], cn_flushNext = zeroHash\<rparr>)]"
  "db_oldest demo4 = [1]" "db_newest demo4 = [2]" "db_preimages demo4 = Some []"
  by code_simp+

lemma demo_hashes: "[1] \<noteq> zeroHash" "[2] \<noteq> zeroHash" "zeroHash \<noteq> [1]" "zeroHash \<noteq> [2]" "[1] \<noteq> ([2] :: hash)" "[2] \<noteq> ([1] :: hash)"
  by (simp_all add: zeroHash_def numeral_eq_Suc)

lemma demo4_kids: "kidEdges demo4 = {(zeroHash, [2]), (zeroHash, [1]), ([2], [1])}"
  by (auto simp: kidEdges_def demo4_db forChilds_def demo_hashes metaRoot_def split: if_splits)

lemma demo4_wf: "dbWf demo4"
proof -
  have "dom (map_of (db_dirties demo4)) = {zeroHash, [1], [2]}" by (auto simp: demo4_db)
  then have "flushList demo4 {} [[1], [2]]"
    unfolding flushList_def by (auto simp: demo4_db demo_hashes linkedBy_def nxt_def prv_def)
  moreover have "nodesCached demo4" by (auto simp: nodesCached_def demo4_db demo_hashes metaRoot_def split: if_splits)
  moreover have "acyclic (kidEdges demo4)"
    by (rule acyclicI_order [of _ "\<lambda>h. if h = [1] then 0 else if h = [2] then 1 else 2 :: nat"]) (auto simp: demo4_kids demo_hashes)
  ultimately show ?thesis unfolding dbWf_def by (auto simp: demo4_kids demo_hashes)
qed

text \<open>Writes that go well, one entry at a time.\<close>

definition demoIO :: batchIO where
  "demoIO = \<lparr>bi_valueSize = length, bi_ideal = 1, bi_fails = \<lambda>_. None\<rparr>"

definition demoFlush :: flushState where
  "demoFlush = \<lparr>fs_db = demo4, fs_batch = [], fs_writes = 0, fs_preimages = \<lambda>_. None, fs_called = []\<rparr>"

lemma markItem_ne: "rlpEncode markCrypto x \<noteq> []"
  by (cases x) (simp_all add: markCrypto_def)

lemma Commit_moves_trie_witness:
  "\<exists>s'. dbCommit demoIO markCrypto 9 [2] demoFlush = Ok s' \<and> dbNodeBlob markCrypto (fs_db s') [1] = dbNodeBlob markCrypto demo4 [1] \<and>
     map_of (db_dirties (fs_db s')) [1] = None"
proof -
  have s: "fs_db demoFlush = demo4" by (simp add: demoFlush_def)
  obtain s' where s': "dbCommit demoIO markCrypto 9 [2] demoFlush = Ok s' \<or> dbCommit demoIO markCrypto 9 [2] demoFlush = Err s'"
      "\<forall>h. dbNodeBlob markCrypto (fs_db s') h = dbNodeBlob markCrypto demo4 h"
      "dbCommit demoIO markCrypto 9 [2] demoFlush = Ok s' \<longrightarrow>
        (\<forall>h c. ([2], h) \<in> (kidEdges demo4)\<^sup>* \<longrightarrow> map_of (db_dirties demo4) h = Some c \<longrightarrow>
           map_of (db_dirties (fs_db s')) h = None \<and> db_diskdb (fs_db s') h = cachedRlp markCrypto c)"
    using Commit_moves_trie [of demoFlush "[2]" 9 markCrypto demoIO] demo4_wf markItem_ne
    by (auto simp: s demo_hashes demo4_db)
  have "case dbCommit demoIO markCrypto 9 [2] demoFlush of Ok _ \<Rightarrow> True | _ \<Rightarrow> False" by code_simp
  then have ok: "dbCommit demoIO markCrypto 9 [2] demoFlush = Ok s'" using s'(1) by auto
  have "([2], [1]) \<in> (kidEdges demo4)\<^sup>*" by (rule r_into_rtrancl) (simp add: demo4_kids)
  then show ?thesis using ok s'(2,3) by (auto simp: demo4_db demo_hashes)
qed

lemma Cap_bounds_memory_witness:
  "\<exists>s' mem preimages. dbCap demoIO markCrypto 100 3 250 demoFlush = Ok s' \<and> dbSize 100 (fs_db s') = Some (mem, preimages) \<and>
     dbNodeBlob markCrypto (fs_db s') [1] = dbNodeBlob markCrypto demo4 [1]"
proof -
  have s: "fs_db demoFlush = demo4" by (simp add: demoFlush_def)
  obtain s' where s': "dbCap demoIO markCrypto 100 3 250 demoFlush = Ok s' \<or> dbCap demoIO markCrypto 100 3 250 demoFlush = Err s'"
      "\<forall>h. dbNodeBlob markCrypto (fs_db s') h = dbNodeBlob markCrypto demo4 h"
      "dbCap demoIO markCrypto 100 3 250 demoFlush = Ok s' \<longrightarrow> (\<exists>mem preimages. dbSize 100 (fs_db s') = Some (mem, preimages))"
    using Cap_bounds_memory [of demoFlush 3 markCrypto demoIO 100 250] demo4_wf markItem_ne by (auto simp: s demo4_db)
  have "case dbCap demoIO markCrypto 100 3 250 demoFlush of Ok _ \<Rightarrow> True | _ \<Rightarrow> False" by code_simp
  then have ok: "dbCap demoIO markCrypto 100 3 250 demoFlush = Ok s'" using s'(1) by auto
  then show ?thesis using s'(2,3) by blast
qed

end
