(* ===== verification/Garbage.thy ===== *)
theory Garbage
  imports Eviction
begin

text \<open>
  Garbage collection in the node database (\<open>dereference\<close> of \<open>trie/database.go\<close>). The code counts for each cached node the
  references from the meta root and from other cached nodes, and removes a node when its count drops to zero.

  Shown: the count of a node that is only in memory is never below the number of its references, whatever sequence of insertions,
  references, dereferences, caps and commits runs, failing disk writes included; hence everything that a remaining root
  references is still there (\<open>roots_stay_readable\<close>), and dereferencing a root returns and leaves the nodes of the other
  roots alone (\<open>Dereference_keeps_live\<close>).
\<close>

section \<open>References and counts\<close>

text \<open>How often a cached node references a hash; the meta root counts how often a root has been referenced.\<close>

definition edgeCount :: "Database \<Rightarrow> hash \<Rightarrow> hash \<Rightarrow> nat" where
  "edgeCount db p h =
     (case map_of (db_dirties db) p of
        None \<Rightarrow> 0
      | Some c \<Rightarrow>
          if p = zeroHash then (case cn_children c of None \<Rightarrow> 0 | Some cs \<Rightarrow> (case map_of cs h of None \<Rightarrow> 0 | Some n \<Rightarrow> unat n))
          else count_list (forChilds c) h)"

definition refs :: "Database \<Rightarrow> hash set \<Rightarrow> hash \<Rightarrow> nat" where
  "refs db Stk h = (\<Sum>p\<in>dom (map_of (db_dirties db)) - Stk. edgeCount db p h)"

definition held :: "Database \<Rightarrow> hash \<Rightarrow> bool" where
  "held db h \<longleftrightarrow> map_of (db_dirties db) h \<noteq> None \<or> db_diskdb db h \<noteq> None"

text \<open>
  While nodes are removed: \<open>Stk\<close> are those whose removal has begun, \<open>W\<close> the references of theirs that are still to be dropped.
\<close>

definition counted :: "Database \<Rightarrow> hash set \<Rightarrow> hash list \<Rightarrow> bool" where
  "counted db Stk W \<longleftrightarrow>
     (\<forall>h c. map_of (db_dirties db) h = Some c \<longrightarrow> db_diskdb db h = None \<longrightarrow> refs db Stk h + count_list W h \<le> unat (cn_parents c))"

definition live :: "Database \<Rightarrow> hash set \<Rightarrow> bool" where
  "live db Stk \<longleftrightarrow> (\<forall>p h. p \<notin> Stk \<longrightarrow> 0 < edgeCount db p h \<longrightarrow> held db h)"

text \<open>What removing nodes does to the others.\<close>

definition shrinks :: "hash set \<Rightarrow> Database \<Rightarrow> Database \<Rightarrow> bool" where
  "shrinks Stk db db' \<longleftrightarrow>
     db_diskdb db' = db_diskdb db \<and>
     (\<forall>h\<in>Stk. map_of (db_dirties db) h \<noteq> None \<longrightarrow> map_of (db_dirties db') h \<noteq> None) \<and>
     (\<forall>h c'. map_of (db_dirties db') h = Some c' \<longrightarrow>
        (\<exists>c. map_of (db_dirties db) h = Some c \<and> cn_node c' = cn_node c \<and> cn_parents c' \<le> cn_parents c \<and>
           set (forChilds c') \<subseteq> set (forChilds c) \<and> (h \<notin> Stk \<longrightarrow> cn_children c' = cn_children c)))"

lemma shrinks_refl [simp]: "shrinks Stk db db"
  by (simp add: shrinks_def)

lemma shrinksD:
  "shrinks Stk db db' \<Longrightarrow> map_of (db_dirties db') h = Some c' \<Longrightarrow>
     \<exists>c. map_of (db_dirties db) h = Some c \<and> cn_node c' = cn_node c \<and> cn_parents c' \<le> cn_parents c \<and>
       set (forChilds c') \<subseteq> set (forChilds c) \<and> (h \<notin> Stk \<longrightarrow> cn_children c' = cn_children c)"
  unfolding shrinks_def by blast

lemma shrinks_trans:
  assumes "shrinks Stk db db1" "shrinks Stk db1 db2"
  shows "shrinks Stk db db2"
proof -
  have "\<exists>c. map_of (db_dirties db) h = Some c \<and> cn_node c2 = cn_node c \<and> cn_parents c2 \<le> cn_parents c \<and>
      set (forChilds c2) \<subseteq> set (forChilds c) \<and> (h \<notin> Stk \<longrightarrow> cn_children c2 = cn_children c)"
    if m: "map_of (db_dirties db2) h = Some c2" for h c2
  proof -
    obtain c1 where c1: "map_of (db_dirties db1) h = Some c1" "cn_node c2 = cn_node c1" "cn_parents c2 \<le> cn_parents c1"
        "set (forChilds c2) \<subseteq> set (forChilds c1)" "h \<notin> Stk \<longrightarrow> cn_children c2 = cn_children c1"
      using shrinksD [OF assms(2) m] by blast
    then show ?thesis using shrinksD [OF assms(1) c1(1)] by (metis order_trans)
  qed
  moreover have "db_diskdb db2 = db_diskdb db" using assms by (simp add: shrinks_def)
  moreover have "\<forall>h\<in>Stk. map_of (db_dirties db) h \<noteq> None \<longrightarrow> map_of (db_dirties db2) h \<noteq> None"
    using assms unfolding shrinks_def by blast
  ultimately show ?thesis unfolding shrinks_def by blast
qed

lemma shrinks_cached: "shrinks Stk db db' \<Longrightarrow> map_of (db_dirties db') h \<noteq> None \<Longrightarrow> map_of (db_dirties db) h \<noteq> None"
  using shrinksD by fastforce

lemma shrinks_kidEdges: "shrinks Stk db db' \<Longrightarrow> kidEdges db' \<subseteq> kidEdges db"
  unfolding kidEdges_def using shrinksD by fastforce

lemma shrinks_ranked:
  assumes "ranked rk db" "shrinks Stk db db'"
  shows "ranked rk db'"
  using assms(1) shrinks_kidEdges [OF assms(2)] shrinks_cached [OF assms(2)] unfolding ranked_def by blast

lemma finite_cached [simp]: "finite (dom (map_of (db_dirties db)) - Stk)"
  by (simp add: finite_dom_map_of)

text \<open>The counts depend only on the nodes and their references.\<close>

lemma count_list_pos: "0 < count_list xs x \<longleftrightarrow> x \<in> set xs"
  by (metis count_list_0_iff neq0_conv)

lemma edgeCount_kids: "p \<noteq> zeroHash \<Longrightarrow> 0 < edgeCount db p h \<longleftrightarrow> (p, h) \<in> kidEdges db"
  by (auto simp: edgeCount_def kidEdges_def count_list_pos split: option.splits)

lemma edgeCount_kid: "0 < edgeCount db p h \<Longrightarrow> (p, h) \<in> kidEdges db"
proof (cases "p = zeroHash")
  case True
  assume "0 < edgeCount db p h"
  then obtain c cs n where c: "map_of (db_dirties db) p = Some c" "cn_children c = Some cs" "map_of cs h = Some n"
    using True by (auto simp: edgeCount_def split: option.splits)
  have "h \<in> fst ` set cs" using map_of_SomeD [OF c(3)] by (rule image_eqI [rotated]) simp
  then show ?thesis using c(1,2) by (auto simp: kidEdges_def forChilds_def)
qed (simp add: edgeCount_kids)

lemma edgeCount_pay: "pay db p = pay db' p \<Longrightarrow> edgeCount db p h = edgeCount db' p h"
  unfolding pay_def edgeCount_def
  by (cases "map_of (db_dirties db) p"; cases "map_of (db_dirties db') p") (auto simp: payload_def forChilds_def)

lemma pay_kidEdges: "pay a = pay b \<Longrightarrow> kidEdges a = kidEdges b"
proof -
  have "(p, k) \<in> kidEdges b" if py: "pay a = pay b" and e: "(p, k) \<in> kidEdges a" for a b p k
  proof -
    obtain c where c: "map_of (db_dirties a) p = Some c" "k \<in> set (forChilds c)" using e by (auto simp: kidEdges_def)
    obtain c' where "map_of (db_dirties b) p = Some c'" "payload c = payload c'" using paySomeD [OF fun_cong [OF py] c(1)] by blast
    then show ?thesis using c(2) forChilds_payload [of c c'] by (auto simp: kidEdges_def)
  qed
  then show "pay a = pay b \<Longrightarrow> kidEdges a = kidEdges b" by (metis subrelI subset_antisym)
qed

lemma refs_cong:
  "dom (map_of (db_dirties db)) - Stk = dom (map_of (db_dirties db')) - Stk' \<Longrightarrow>
     (\<And>p. p \<in> dom (map_of (db_dirties db)) - Stk \<Longrightarrow> edgeCount db p h = edgeCount db' p h) \<Longrightarrow> refs db Stk h = refs db' Stk' h"
  unfolding refs_def by (rule sum.cong) auto

lemma refs_insert:
  "p \<in> dom (map_of (db_dirties db)) \<Longrightarrow> p \<notin> Stk \<Longrightarrow> refs db Stk h = edgeCount db p h + refs db (insert p Stk) h"
  unfolding refs_def by (subst sum.remove [of _ p]) (auto intro!: arg_cong2 [of _ _ _ _ "(+)"] sum.cong)

lemma refs_zero: "refs db Stk h = 0 \<Longrightarrow> p \<notin> Stk \<Longrightarrow> edgeCount db p h = 0"
proof (cases "p \<in> dom (map_of (db_dirties db))")
  case True
  then show "refs db Stk h = 0 \<Longrightarrow> p \<notin> Stk \<Longrightarrow> edgeCount db p h = 0" unfolding refs_def by simp
next
  case False
  then show ?thesis by (simp add: edgeCount_def domIff)
qed

lemma flushList_same:
  assumes "flushList db Stk hs" "map fst (db_dirties db') = map fst (db_dirties db)"
    and "\<And>h. nxt (map_of (db_dirties db')) h = nxt (map_of (db_dirties db)) h \<and> prv (map_of (db_dirties db')) h = prv (map_of (db_dirties db)) h"
    and "db_oldest db' = db_oldest db" "db_newest db' = db_newest db"
  shows "flushList db' Stk hs"
proof -
  have "dom (map_of (db_dirties db')) = dom (map_of (db_dirties db))"
    using arg_cong [OF assms(2), of set] by (simp add: dom_map_of_conv_image_fst)
  moreover have "linkedBy (map_of (db_dirties db')) hs" using flushListD(6) [OF assms(1)] assms(3) by (rule linkedBy_cong)
  ultimately show ?thesis using assms(1,2,4,5) unfolding flushList_def by simp
qed

section \<open>Removing a node and what only it references\<close>

lemma dropRef_ok:
  assumes "map_of (db_dirties db) p = Some c" "p \<in> Stk" "p \<noteq> zeroHash"
  shows "\<exists>db'. dropRef h p db = Some db' \<and> shrinks Stk db db' \<and> map fst (db_dirties db') = map fst (db_dirties db) \<and>
     (\<forall>q. q \<noteq> p \<longrightarrow> map_of (db_dirties db') q = map_of (db_dirties db) q) \<and>
     (\<exists>c'. map_of (db_dirties db') p = Some c' \<and> cn_parents c' = cn_parents c \<and> cn_flushNext c' = cn_flushNext c \<and> cn_flushPrev c' = cn_flushPrev c) \<and>
     db_oldest db' = db_oldest db \<and> db_newest db' = db_newest db"
proof (cases "\<exists>cs n. cn_children c = Some cs \<and> map_of cs h = Some n \<and> n > 0")
  case False
  then have "dropRef h p db = Some db" using assms(1) by (auto simp: dropRef_def split: option.splits)
  then show ?thesis using assms(1) by auto
next
  case True
  then obtain cs n where n: "cn_children c = Some cs" "map_of cs h = Some n" "n > 0" by blast
  define cs' where "cs' = (if n - 1 = 0 then AList.delete h cs else AList.update h (n - 1) cs)"
  define c' where "c' = c\<lparr>cn_children := Some cs'\<rparr>"
  define db' where "db' = db\<lparr>db_dirties := AList.update p c' (db_dirties db),
      db_childrenSize := db_childrenSize db - (if n - 1 = 0 then 34 else 0)\<rparr>"
  have d: "dropRef h p db = Some db'" using assms(1) n by (simp add: dropRef_def db'_def c'_def cs'_def)
  have m: "map_of (db_dirties db') = (map_of (db_dirties db))(p \<mapsto> c')" by (simp add: db'_def update_conv')
  have ks: "map fst (db_dirties db') = map fst (db_dirties db)" using assms(1) by (simp add: db'_def update_known)
  have sh: "shrinks Stk db db'"
  proof -
    have "h \<in> fst ` set cs" using map_of_SomeD [OF n(2)] by (rule image_eqI [rotated]) simp
    then have "fst ` set cs' \<subseteq> fst ` set cs" by (simp add: cs'_def dom_update dom_delete_subset)
    then have "set (forChilds c') \<subseteq> set (forChilds c)" using n(1) by (auto simp: forChilds_def c'_def)
    then have "cn_node c' = cn_node c \<and> cn_parents c' \<le> cn_parents c \<and> set (forChilds c') \<subseteq> set (forChilds c)" by (simp add: c'_def)
    then show ?thesis using assms m unfolding shrinks_def by (auto simp: db'_def)
  qed
  have other: "\<forall>q. q \<noteq> p \<longrightarrow> map_of (db_dirties db') q = map_of (db_dirties db) q" by (simp add: m)
  have this': "map_of (db_dirties db') p = Some c'" "cn_parents c' = cn_parents c" "cn_flushNext c' = cn_flushNext c" "cn_flushPrev c' = cn_flushPrev c"
    by (simp_all add: m c'_def)
  have "db_oldest db' = db_oldest db" "db_newest db' = db_newest db" by (simp_all add: db'_def)
  then show ?thesis using d sh ks other this' by blast
qed

definition collecting :: "(hash \<Rightarrow> nat) \<Rightarrow> hash set \<Rightarrow> hash list \<Rightarrow> Database \<Rightarrow> bool" where
  "collecting rk Stk W db \<longleftrightarrow>
     (\<exists>hs. flushList db Stk hs) \<and> counted db Stk W \<and> live db Stk \<and> ranked rk db \<and> (\<forall>p. (p, zeroHash) \<notin> kidEdges db) \<and>
     (\<forall>p\<in>Stk. map_of (db_dirties db) p \<noteq> None)"

text \<open>A step that keeps the edges from outside \<open>Stk'\<close> keeps what is live.\<close>

lemma live_mono:
  assumes "live db Stk" "Stk \<subseteq> Stk'" "\<And>p h. p \<notin> Stk' \<Longrightarrow> edgeCount db' p h \<le> edgeCount db p h" "\<And>h. held db h \<Longrightarrow> held db' h"
  shows "live db' Stk'"
  using assms unfolding live_def by (metis less_le_trans subsetD)

lemma collecting_shrinks:
  assumes "collecting rk Stk W db" "shrinks Stk db db'" "\<exists>hs. flushList db' Stk hs" "counted db' Stk W'" "live db' Stk"
  shows "collecting rk Stk W' db'"
proof -
  have "\<forall>p. (p, zeroHash) \<notin> kidEdges db'" using assms(1) shrinks_kidEdges [OF assms(2)] unfolding collecting_def by blast
  moreover have "\<forall>p\<in>Stk. map_of (db_dirties db') p \<noteq> None" using assms(1,2) unfolding collecting_def shrinks_def by blast
  moreover have "ranked rk db'" using assms(1) shrinks_ranked [OF _ assms(2)] unfolding collecting_def by blast
  ultimately show ?thesis using assms(3-5) unfolding collecting_def by blast
qed

text \<open>Dropping one reference: the count of the child.\<close>

lemma collecting_decrement:
  assumes col: "collecting rk Stk (child # W) db" and c: "map_of (db_dirties db) child = Some c"
    and node: "node = (if cn_parents c > 0 then c\<lparr>cn_parents := cn_parents c - 1\<rparr> else c)"
    and db1: "db1 = db\<lparr>db_dirties := AList.update child node (db_dirties db)\<rparr>"
  shows "collecting rk Stk W db1 \<and> shrinks Stk db db1 \<and> map_of (db_dirties db1) child = Some node"
proof -
  have m: "map_of (db_dirties db1) = (map_of (db_dirties db))(child \<mapsto> node)" by (simp add: db1 update_conv')
  have n: "cn_node node = cn_node c" "cn_children node = cn_children c" "forChilds node = forChilds c"
      "cn_flushNext node = cn_flushNext c" "cn_flushPrev node = cn_flushPrev c"
    by (auto simp: node forChilds_def)
  have less: "cn_parents node \<le> cn_parents c" by (auto simp: node word_le_nat_alt unat_minus_one word_gt_0)
  have disk: "db_diskdb db1 = db_diskdb db" by (simp add: db1)
  have sh: "shrinks Stk db db1" using c n less unfolding shrinks_def by (auto simp: m disk)
  have e: "edgeCount db1 p h = edgeCount db p h" for p h using c n by (simp add: edgeCount_def m)
  have dm: "dom (map_of (db_dirties db1)) = dom (map_of (db_dirties db))" using c by (auto simp: m)
  have r: "refs db1 Stk h = refs db Stk h" for h by (rule refs_cong) (simp_all add: dm e)
  have cnt: "refs db Stk h + count_list (child # W) h \<le> unat (cn_parents c')"
    if "map_of (db_dirties db) h = Some c'" "db_diskdb db h = None" for h c'
    using col that unfolding collecting_def counted_def by blast
  have "counted db1 Stk W"
    unfolding counted_def
  proof (intro allI impI)
    fix h c' assume h: "map_of (db_dirties db1) h = Some c'" "db_diskdb db1 h = None"
    show "refs db1 Stk h + count_list W h \<le> unat (cn_parents c')"
    proof (cases "h = child")
      case True
      have "refs db Stk h + count_list W h + 1 \<le> unat (cn_parents c)" using cnt [of h c] True c h(2) disk by simp
      moreover from this have "cn_parents c \<noteq> 0" by auto
      then have "unat (cn_parents node) = unat (cn_parents c) - 1" by (simp add: node word_gt_0 unat_minus_one)
      moreover have "c' = node" using h(1) True by (simp add: m)
      ultimately show ?thesis by (simp add: r)
    next
      case False
      then show ?thesis using cnt [of h c'] h by (simp add: r m disk)
    qed
  qed
  moreover have "live db1 Stk"
  proof (rule live_mono [OF _ order_refl])
    show "live db Stk" using col by (simp add: collecting_def)
  qed (use c in \<open>auto simp: e held_def m disk\<close>)
  moreover have "\<exists>hs. flushList db1 Stk hs"
  proof -
    obtain hs where "flushList db Stk hs" using col unfolding collecting_def by blast
    then have "flushList db1 Stk hs"
      by (rule flushList_same) (use c n in \<open>simp_all add: update_known update_conv' nxt_def prv_def db1\<close>)
    then show ?thesis by blast
  qed
  ultimately show ?thesis using collecting_shrinks [OF col sh] sh m by simp
qed

text \<open>The removal of a node begins: its references are still to be dropped.\<close>

lemma collecting_push:
  assumes col: "collecting rk Stk W db" and node: "map_of (db_dirties db) child = Some node" and "child \<noteq> zeroHash" "child \<notin> Stk"
  shows "\<exists>db'. unlink child node db = Some db' \<and> collecting rk (insert child Stk) (forChilds node @ W) db' \<and> pay db' = pay db \<and>
     db_diskdb db' = db_diskdb db"
proof -
  obtain hs where fl: "flushList db Stk hs" using col unfolding collecting_def by blast
  have "child \<in> set hs" using flushList_mem [OF fl] node assms(3,4) by simp
  from unlink_ok [OF fl this node] obtain db' hs' where u: "unlink child node db = Some db'" "flushList db' (insert child Stk) hs'"
      "pay db' = pay db" "db_diskdb db' = db_diskdb db"
    by blast
  have e: "edgeCount db' p h = edgeCount db p h" for p h by (rule edgeCount_pay) (simp add: u(3))
  have dm: "dom (map_of (db_dirties db')) = dom (map_of (db_dirties db))" using pay_dom [OF u(3)] .
  have known: "\<exists>c. map_of (db_dirties db) h = Some c \<and> payload c' = payload c" if "map_of (db_dirties db') h = Some c'" for h c'
    using paySomeD [OF fun_cong [OF u(3)] that] .
  have kids: "kidEdges db' = kidEdges db"
    using pay_kidEdges [of db' db] u(3) by simp
  have ch: "child \<in> dom (map_of (db_dirties db))" using node by blast
  have split: "refs db Stk h = count_list (forChilds node) h + refs db' (insert child Stk) h" for h
  proof -
    have "refs db (insert child Stk) h = refs db' (insert child Stk) h" by (rule refs_cong) (simp_all add: dm e)
    moreover have "edgeCount db child h = count_list (forChilds node) h" using node assms(3) by (simp add: edgeCount_def)
    ultimately show ?thesis using refs_insert [OF ch assms(4), of h] by simp
  qed
  have "counted db' (insert child Stk) (forChilds node @ W)"
    unfolding counted_def
  proof (intro allI impI)
    fix h c' assume h: "map_of (db_dirties db') h = Some c'" "db_diskdb db' h = None"
    obtain c where c: "map_of (db_dirties db) h = Some c" "payload c' = payload c" using known [OF h(1)] by blast
    then have "refs db Stk h + count_list W h \<le> unat (cn_parents c)"
      using col h(2) u(4) unfolding collecting_def counted_def by auto
    then show "refs db' (insert child Stk) h + count_list (forChilds node @ W) h \<le> unat (cn_parents c')"
      using c(2) by (simp add: split payload_def)
  qed
  moreover have "live db' (insert child Stk)"
  proof (rule live_mono [of db Stk])
    show "live db Stk" using col by (simp add: collecting_def)
    show "held db h \<Longrightarrow> held db' h" for h using dm by (auto simp: held_def u(4) simp flip: domIff)
  qed (use e in auto)
  moreover have "ranked rk db'" using col dm unfolding collecting_def ranked_def kids by (metis domIff)
  moreover have "\<forall>p\<in>insert child Stk. map_of (db_dirties db') p \<noteq> None"
    using col ch dm unfolding collecting_def by (metis domIff insertE)
  moreover have "\<forall>p. (p, zeroHash) \<notin> kidEdges db'" using col unfolding collecting_def kids by blast
  ultimately have "collecting rk (insert child Stk) (forChilds node @ W) db'" using u(2) unfolding collecting_def by blast
  then show ?thesis using u by blast
qed

text \<open>One of its references is taken out of the node that is being removed.\<close>

lemma collecting_dropRef:
  assumes col: "collecting rk Stk W db" and p: "p \<in> Stk" "p \<noteq> zeroHash"
  shows "\<exists>db'. dropRef h p db = Some db' \<and> collecting rk Stk W db' \<and> shrinks Stk db db'"
proof -
  obtain c where c: "map_of (db_dirties db) p = Some c" using col p(1) unfolding collecting_def by blast
  obtain db' c' where d: "dropRef h p db = Some db'" "shrinks Stk db db'" "map fst (db_dirties db') = map fst (db_dirties db)"
      "\<And>q. q \<noteq> p \<Longrightarrow> map_of (db_dirties db') q = map_of (db_dirties db) q"
      "map_of (db_dirties db') p = Some c'" "cn_parents c' = cn_parents c" "cn_flushNext c' = cn_flushNext c" "cn_flushPrev c' = cn_flushPrev c"
      "db_oldest db' = db_oldest db" "db_newest db' = db_newest db"
    using dropRef_ok [OF c p, of h] by metis
  have e: "edgeCount db' q k = edgeCount db q k" if "q \<notin> Stk" for q k
  proof -
    have "q \<noteq> p" using that p(1) by blast
    then show ?thesis by (simp add: edgeCount_def d(4))
  qed
  have dm: "dom (map_of (db_dirties db')) = dom (map_of (db_dirties db))"
    using arg_cong [OF d(3), of set] by (simp add: dom_map_of_conv_image_fst)
  have disk: "db_diskdb db' = db_diskdb db" using d(2) by (simp add: shrinks_def)
  have r: "refs db' Stk k = refs db Stk k" for k by (rule refs_cong) (simp_all add: dm e)
  have "counted db' Stk W"
    unfolding counted_def
  proof (intro allI impI)
    fix k ck assume k: "map_of (db_dirties db') k = Some ck" "db_diskdb db' k = None"
    then obtain c0 where "map_of (db_dirties db) k = Some c0" "cn_parents ck = cn_parents c0"
      using c d(4-6) by (cases "k = p") auto
    then show "refs db' Stk k + count_list W k \<le> unat (cn_parents ck)"
      using col k(2) unfolding collecting_def counted_def r disk by simp
  qed
  moreover have "live db' Stk"
  proof (rule live_mono [OF _ order_refl])
    show "live db Stk" using col by (simp add: collecting_def)
    show "held db k \<Longrightarrow> held db' k" for k using dm by (auto simp: held_def disk simp flip: domIff)
  qed (simp add: e)
  moreover have "\<exists>hs. flushList db' Stk hs"
  proof -
    obtain hs where "flushList db Stk hs" using col unfolding collecting_def by blast
    then have "flushList db' Stk hs"
    proof (rule flushList_same [OF _ d(3) _ d(9,10)])
      fix k
      show "nxt (map_of (db_dirties db')) k = nxt (map_of (db_dirties db)) k \<and> prv (map_of (db_dirties db')) k = prv (map_of (db_dirties db)) k"
        using c d(4-8) by (cases "k = p") (simp_all add: nxt_def prv_def)
    qed
    then show ?thesis by blast
  qed
  ultimately show ?thesis using collecting_shrinks [OF col d(2)] d(1,2) by blast
qed

text \<open>The removal of a node ends.\<close>

lemma collecting_pop:
  assumes col: "collecting rk (insert child Stk) W db" and "child \<notin> Stk" "child \<noteq> zeroHash"
    and zero: "\<And>c. map_of (db_dirties db) child = Some c \<Longrightarrow> cn_parents c = 0"
    and db': "db_dirties db' = AList.delete child (db_dirties db)" "db_diskdb db' = db_diskdb db"
      "db_oldest db' = db_oldest db" "db_newest db' = db_newest db"
  shows "collecting rk Stk W db'"
proof -
  have m: "map_of (db_dirties db') = (map_of (db_dirties db))(child := None)" by (simp add: db'(1) delete_conv')
  have sub: "map_of (db_dirties db') h = Some c \<Longrightarrow> map_of (db_dirties db) h = Some c" for h c by (simp add: m split: if_splits)
  have e: "edgeCount db' q k = edgeCount db q k" if "q \<noteq> child" for q k using that by (simp add: edgeCount_def m)
  have r: "refs db' Stk k = refs db (insert child Stk) k" for k by (rule refs_cong) (auto simp: m e split: if_splits)
  have sh: "shrinks Stk db db'"
    using assms(2) sub unfolding shrinks_def by (auto simp: db'(2) m)
  have "counted db' Stk W"
    using col sub unfolding collecting_def counted_def r db'(2) by blast
  moreover have "live db' Stk"
    unfolding live_def
  proof (intro allI impI)
    fix p h assume p: "p \<notin> Stk" "0 < edgeCount db' p h"
    then have pc: "p \<noteq> child" by (auto simp: edgeCount_def m)
    then have pe: "0 < edgeCount db p h" using p(2) e by simp
    then have hd: "held db h" using col p(1) pc unfolding collecting_def live_def by blast
    show "held db' h"
    proof (cases "h = child \<and> db_diskdb db h = None")
      case True
      then obtain c where c: "map_of (db_dirties db) child = Some c" using hd by (auto simp: held_def)
      then have "refs db (insert child Stk) child = 0"
        using col zero [OF c] True unfolding collecting_def counted_def by fastforce
      then show ?thesis using refs_zero [of db "insert child Stk" child p] p(1) pc pe True by simp
    next
      case False
      then show ?thesis using hd by (auto simp: held_def m db'(2))
    qed
  qed
  moreover have "\<exists>hs. flushList db' Stk hs"
    using col uncache_flushList [OF _ assms(2) db'(1,3,4)] unfolding collecting_def by blast
  moreover have "\<forall>p\<in>Stk. map_of (db_dirties db') p \<noteq> None" using col assms(2) unfolding collecting_def by (auto simp: m)
  moreover have "ranked rk db'" using col shrinks_ranked [OF _ sh] unfolding collecting_def by blast
  moreover have "\<forall>p. (p, zeroHash) \<notin> kidEdges db'" using col shrinks_kidEdges [OF sh] unfolding collecting_def by blast
  ultimately show ?thesis unfolding collecting_def by blast
qed

lemma shrinks_pop:
  assumes sh: "shrinks (insert child Stk) db db1" and "child \<notin> Stk"
    and db': "db_dirties db' = AList.delete child (db_dirties db1)" "db_diskdb db' = db_diskdb db1"
  shows "shrinks Stk db db'"
proof -
  have m: "map_of (db_dirties db') = (map_of (db_dirties db1))(child := None)" by (simp add: db'(1) delete_conv')
  have "\<exists>c. map_of (db_dirties db) h = Some c \<and> cn_node c' = cn_node c \<and> cn_parents c' \<le> cn_parents c \<and>
      set (forChilds c') \<subseteq> set (forChilds c) \<and> (h \<notin> Stk \<longrightarrow> cn_children c' = cn_children c)"
    if "map_of (db_dirties db') h = Some c'" for h c'
  proof -
    have h: "h \<noteq> child" "map_of (db_dirties db1) h = Some c'" using that by (simp_all add: m split: if_splits)
    then show ?thesis using shrinksD [OF sh h(2)] by auto
  qed
  moreover have "db_diskdb db' = db_diskdb db" using sh by (simp add: shrinks_def db'(2))
  moreover have "map_of (db_dirties db') h \<noteq> None" if "h \<in> Stk" "map_of (db_dirties db) h \<noteq> None" for h
  proof -
    have "h \<noteq> child" using that(1) assms(2) by blast
    moreover have "map_of (db_dirties db1) h \<noteq> None" using sh that unfolding shrinks_def by blast
    ultimately show ?thesis by (simp add: m)
  qed
  ultimately show ?thesis unfolding shrinks_def by blast
qed

lemma release_ok:
  "collecting rk Stk (child # W) db \<Longrightarrow> child \<noteq> zeroHash \<Longrightarrow>
     (map_of (db_dirties db) child \<noteq> None \<Longrightarrow> Suc (rk child) < fuel \<and> (\<forall>p\<in>Stk. rk child < rk p)) \<Longrightarrow> 0 < fuel \<Longrightarrow>
     outcome (\<lambda>db'. collecting rk Stk W db' \<and> shrinks Stk db db') (\<lambda>_. False) (release fuel child db)"
proof (induction fuel arbitrary: child db Stk W)
  case (Suc fuel)
  show ?case
  proof (cases "map_of (db_dirties db) child")
    case None
    have "counted db Stk W"
      unfolding counted_def
    proof (intro allI impI)
      fix h c assume h: "map_of (db_dirties db) h = Some c" "db_diskdb db h = None"
      then have "refs db Stk h + count_list (child # W) h \<le> unat (cn_parents c)"
        using Suc.prems(1) unfolding collecting_def counted_def by blast
      then show "refs db Stk h + count_list W h \<le> unat (cn_parents c)" by (simp split: if_splits)
    qed
    then have "collecting rk Stk W db" using Suc.prems(1) unfolding collecting_def by blast
    then show ?thesis using None by simp
  next
    case (Some c)
    define node where "node = (if cn_parents c > 0 then c\<lparr>cn_parents := cn_parents c - 1\<rparr> else c)"
    define db1 where "db1 = db\<lparr>db_dirties := AList.update child node (db_dirties db)\<rparr>"
    note dec = collecting_decrement [OF Suc.prems(1) Some node_def db1_def]
    have rank: "Suc (rk child) < Suc fuel" "\<forall>p\<in>Stk. rk child < rk p" using Suc.prems(3) Some by auto
    have off: "child \<notin> Stk" using rank(2) by blast
    show ?thesis
    proof (cases "cn_parents node = 0")
      case False
      have "release (Suc fuel) child db = Ok db1" using Some False by (simp add: node_def [symmetric] db1_def [symmetric] Let_def)
      then show ?thesis using dec by simp
    next
      case True
      let ?S = "insert child Stk"
      let ?drop = "\<lambda>h db. case dropRef h child db of None \<Rightarrow> Panic | Some db' \<Rightarrow> release fuel h db'"
      let ?fin = "\<lambda>db3. db3\<lparr>db_dirties := AList.delete child (db_dirties db3),
          db_dirtiesSize := db_dirtiesSize db3 - (32 + int (unat (cn_size node))),
          db_childrenSize := db_childrenSize db3 - (if cn_children node \<noteq> None then 48 else 0)\<rparr>"
      obtain db2 where u: "unlink child node db1 = Some db2" "collecting rk ?S (forChilds node @ W) db2" "pay db2 = pay db1"
          "db_diskdb db2 = db_diskdb db1"
        using collecting_push [of rk Stk W db1 child node] dec Suc.prems(2) off by blast
      have sh: "shrinks Stk db1 db2"
        unfolding shrinks_def
      proof (intro conjI allI impI ballI)
        fix h c' assume "map_of (db_dirties db2) h = Some c'"
        then obtain c where "map_of (db_dirties db1) h = Some c" "payload c' = payload c" using paySomeD [OF fun_cong [OF u(3)]] by blast
        then show "\<exists>c. map_of (db_dirties db1) h = Some c \<and> cn_node c' = cn_node c \<and> cn_parents c' \<le> cn_parents c \<and>
            set (forChilds c') \<subseteq> set (forChilds c) \<and> (h \<notin> Stk \<longrightarrow> cn_children c' = cn_children c)"
          using forChilds_payload [of c' c] by (auto simp: payload_def)
      next
        show "db_diskdb db2 = db_diskdb db1" by (rule u(4))
      next
        fix h assume "h \<in> Stk" "map_of (db_dirties db1) h \<noteq> None"
        then show "map_of (db_dirties db2) h \<noteq> None" using fun_cong [OF u(3), of h] by (metis pay_None)
      qed
      have kid: "rk h < rk child \<and> h \<noteq> zeroHash" if "h \<in> set (forChilds node)" "map_of (db_dirties d) h \<noteq> None" "shrinks ?S db2 d" for h d
      proof -
        have node': "map_of (db_dirties db1) child = Some node" and r: "ranked rk db1" and z: "(child, zeroHash) \<notin> kidEdges db1"
          using dec unfolding collecting_def by blast+
        have e: "(child, h) \<in> kidEdges db1" using node' that(1) unfolding kidEdges_def by blast
        have "map_of (db_dirties db1) h \<noteq> None" using that(2) shrinks_cached [OF that(3)] shrinks_cached [OF sh] by blast
        then show ?thesis using r e z unfolding ranked_def by blast
      qed
      have loop: "outcome (\<lambda>d'. collecting rk ?S W d' \<and> shrinks ?S db2 d') (\<lambda>_. False) (foldRes ?drop ks d)"
        if "collecting rk ?S (ks @ W) d" "shrinks ?S db2 d" "set ks \<subseteq> set (forChilds node)" for ks d
        using that
      proof (induction ks arbitrary: d)
        case (Cons k ks)
        obtain d' where d': "dropRef k child d = Some d'" "collecting rk ?S (k # ks @ W) d'" "shrinks ?S d d'"
          using collecting_dropRef [of rk ?S "(k # ks) @ W" d child k] Cons.prems(1) Suc.prems(2) by auto
        have sh': "shrinks ?S db2 d'" by (rule shrinks_trans [OF Cons.prems(2) d'(3)])
        have kz: "k \<noteq> zeroHash"
        proof -
          have "map_of (db_dirties db1) child = Some node" "(child, zeroHash) \<notin> kidEdges db1" using dec unfolding collecting_def by blast+
          then show ?thesis using Cons.prems(3) unfolding kidEdges_def by auto
        qed
        have rest: "outcome (\<lambda>e. collecting rk ?S (ks @ W) e \<and> shrinks ?S d' e) (\<lambda>_. False) (release fuel k d')"
        proof (rule Suc.IH [OF d'(2) kz])
          assume "map_of (db_dirties d') k \<noteq> None"
          then have "rk k < rk child" using kid [OF _ _ sh'] Cons.prems(3) by auto
          then show "Suc (rk k) < fuel \<and> (\<forall>p\<in>?S. rk k < rk p)" using rank by auto
        next
          show "0 < fuel" using rank by simp
        qed
        have "foldRes ?drop (k # ks) d = rbind (release fuel k d') (foldRes ?drop ks)" using d'(1) by simp
        moreover have "outcome (\<lambda>d'. collecting rk ?S W d' \<and> shrinks ?S db2 d') (\<lambda>_. False) (rbind (release fuel k d') (foldRes ?drop ks))"
        proof (rule outcome_rbind [OF rest])
          fix e assume "collecting rk ?S (ks @ W) e \<and> shrinks ?S d' e"
          then show "outcome (\<lambda>d'. collecting rk ?S W d' \<and> shrinks ?S db2 d') (\<lambda>_. False) (foldRes ?drop ks e)"
            using Cons.IH [of e] Cons.prems(3) shrinks_trans [OF sh'] by simp
        qed
        ultimately show ?case by simp
      qed simp
      have "release (Suc fuel) child db = rbind (foldRes ?drop (forChilds node) db2) (\<lambda>db3. Ok (?fin db3))"
        using Some True u(1) by (simp add: node_def [symmetric] db1_def [symmetric] Let_def)
      moreover have "outcome (\<lambda>db'. collecting rk Stk W db' \<and> shrinks Stk db db') (\<lambda>_. False)
          (rbind (foldRes ?drop (forChilds node) db2) (\<lambda>db3. Ok (?fin db3)))"
      proof (rule outcome_rbind [OF loop [OF u(2) shrinks_refl order_refl]])
        fix db3 assume d3: "collecting rk ?S W db3 \<and> shrinks ?S db2 db3"
        have "cn_parents c3 = 0" if m3: "map_of (db_dirties db3) child = Some c3" for c3
        proof -
          obtain c2 where c2: "map_of (db_dirties db2) child = Some c2" "cn_parents c3 \<le> cn_parents c2"
            using d3 shrinksD [OF _ m3] by blast
          obtain c1 where "map_of (db_dirties db1) child = Some c1" "cn_parents c2 \<le> cn_parents c1"
            using shrinksD [OF sh c2(1)] by blast
          then show ?thesis using dec c2(2) True by (simp add: word_le_0_iff)
        qed
        then have "collecting rk Stk W (?fin db3)"
          using d3 off Suc.prems(2) by (intro collecting_pop [of rk child Stk W db3]) simp_all
        moreover have "shrinks Stk db2 (?fin db3)" by (rule shrinks_pop [of child Stk db2 db3]) (use d3 off in simp_all)
        ultimately show "outcome (\<lambda>db'. collecting rk Stk W db' \<and> shrinks Stk db db') (\<lambda>_. False) (Ok (?fin db3))"
          using shrinks_trans [OF shrinks_trans [OF _ sh]] dec by auto
      qed
      ultimately show ?thesis by simp
    qed
  qed
qed simp

section \<open>Dereferencing a root\<close>

definition rootCount :: "Database \<Rightarrow> hash \<Rightarrow> nat" where
  "rootCount db r = edgeCount db zeroHash r"

definition liveEdges :: "Database \<Rightarrow> (hash \<times> hash) set" where
  "liveEdges db = {(p, h). 0 < edgeCount db p h}"

text \<open>What is both cached and on disk is the same.\<close>

definition diskAgrees :: "crypto \<Rightarrow> Database \<Rightarrow> bool" where
  "diskAgrees H db \<longleftrightarrow> (\<forall>h c b. map_of (db_dirties db) h = Some c \<longrightarrow> db_diskdb db h = Some b \<longrightarrow> cachedRlp H c = Some b)"

definition diskFull :: "Database \<Rightarrow> bool" where
  "diskFull db \<longleftrightarrow> (\<forall>h. db_diskdb db h \<noteq> Some [])"

definition gcOk :: "crypto \<Rightarrow> Database \<Rightarrow> bool" where
  "gcOk H db \<longleftrightarrow> dbWf db \<and> counted db {} [] \<and> live db {} \<and> diskAgrees H db \<and> diskFull db"

lemma collecting_gc: "gcOk H db \<Longrightarrow> ranked rk db \<Longrightarrow> collecting rk {} [] db"
  unfolding gcOk_def dbWf_def collecting_def by blast

lemma dropRoot_ok:
  assumes col: "collecting rk {} [] db" and root: "0 < rootCount db root"
  shows "\<exists>db1. dropRef root zeroHash db = Some db1 \<and> collecting rk {} [root] db1 \<and> shrinks {zeroHash} db db1 \<and>
     (\<forall>r. rootCount db1 r = rootCount db r - (if r = root then 1 else 0))"
proof -
  obtain hs where fl: "flushList db {} hs" using col unfolding collecting_def by blast
  obtain c where c: "map_of (db_dirties db) zeroHash = Some c" using flushListD(3) [OF fl] by blast
  obtain cs n where n: "cn_children c = Some cs" "map_of cs root = Some n" "0 < unat n"
    using root c by (auto simp: rootCount_def edgeCount_def split: option.splits)
  have n0: "n > 0" using n(3) by (simp add: word_gt_0 unat_gt_0)
  define cs' where "cs' = (if n - 1 = 0 then AList.delete root cs else AList.update root (n - 1) cs)"
  define c' where "c' = c\<lparr>cn_children := Some cs'\<rparr>"
  define db1 where "db1 = db\<lparr>db_dirties := AList.update zeroHash c' (db_dirties db),
      db_childrenSize := db_childrenSize db - (if n - 1 = 0 then 34 else 0)\<rparr>"
  have d: "dropRef root zeroHash db = Some db1" using c n n0 by (simp add: dropRef_def db1_def c'_def cs'_def)
  have m: "map_of (db_dirties db1) = (map_of (db_dirties db))(zeroHash \<mapsto> c')" by (simp add: db1_def update_conv')
  have disk: "db_diskdb db1 = db_diskdb db" by (simp add: db1_def)
  have sh: "shrinks {zeroHash} db db1"
  proof -
    have "root \<in> fst ` set cs" using map_of_SomeD [OF n(2)] by (rule image_eqI [rotated]) simp
    then have "fst ` set cs' \<subseteq> fst ` set cs" by (simp add: cs'_def dom_update dom_delete_subset)
    then have "set (forChilds c') \<subseteq> set (forChilds c)" using n(1) by (auto simp: forChilds_def c'_def)
    then have "cn_node c' = cn_node c \<and> cn_parents c' \<le> cn_parents c \<and> set (forChilds c') \<subseteq> set (forChilds c)" by (simp add: c'_def)
    then show ?thesis using c m unfolding shrinks_def by (auto simp: disk)
  qed
  have mc: "map_of cs' r = (if r = root then (if n - 1 = 0 then None else Some (n - 1)) else map_of cs r)" for r
    by (simp add: cs'_def delete_conv' update_conv')
  have e0: "edgeCount db1 zeroHash r = edgeCount db zeroHash r - (if r = root then 1 else 0)" for r
  proof -
    have "unat (n - 1) = unat n - 1" using n0 by (simp add: word_gt_0 unat_minus_one)
    then show ?thesis using c n by (auto simp: edgeCount_def m c'_def mc)
  qed
  have e: "edgeCount db1 q k = edgeCount db q k" if "q \<noteq> zeroHash" for q k using that by (simp add: edgeCount_def m)
  have dm: "dom (map_of (db_dirties db1)) = dom (map_of (db_dirties db))" using c by (auto simp: m)
  have zin: "zeroHash \<in> dom (map_of (db_dirties db1))" "zeroHash \<in> dom (map_of (db_dirties db))" using c dm by blast+
  have r1: "refs db1 {} h + (if h = root then 1 else 0) = refs db {} h" for h
  proof -
    have "refs db1 {zeroHash} h = refs db {zeroHash} h" by (rule refs_cong) (auto simp: dm e)
    then show ?thesis
      using refs_insert [OF zin(1), of "{}" h] refs_insert [OF zin(2), of "{}" h] e0 [of h] root by (auto simp: rootCount_def)
  qed
  have "counted db1 {} [root]"
    unfolding counted_def
  proof (intro allI impI)
    fix h ch assume h: "map_of (db_dirties db1) h = Some ch" "db_diskdb db1 h = None"
    then obtain c0 where c0: "map_of (db_dirties db) h = Some c0" "cn_parents ch = cn_parents c0"
      using c by (cases "h = zeroHash") (auto simp: m c'_def)
    then have "refs db {} h \<le> unat (cn_parents c0)" using col h(2) unfolding collecting_def counted_def by (auto simp: disk)
    then show "refs db1 {} h + count_list [root] h \<le> unat (cn_parents ch)" using r1 [of h] c0(2) by (simp split: if_splits)
  qed
  moreover have "live db1 {}"
  proof (rule live_mono [of db "{}"])
    show "live db {}" using col by (simp add: collecting_def)
    show "edgeCount db1 p h \<le> edgeCount db p h" for p h using e0 e by (cases "p = zeroHash") auto
    show "held db h \<Longrightarrow> held db1 h" for h using dm by (auto simp: held_def disk simp flip: domIff)
  qed simp
  moreover have "flushList db1 {} hs"
    by (rule flushList_same [OF fl]) (use c in \<open>simp_all add: update_known update_conv' nxt_def prv_def db1_def c'_def\<close>)
  moreover have "ranked rk db1" using col shrinks_ranked [OF _ sh] unfolding collecting_def by blast
  moreover have "\<forall>p. (p, zeroHash) \<notin> kidEdges db1" using col shrinks_kidEdges [OF sh] unfolding collecting_def by blast
  ultimately have "collecting rk {} [root] db1" unfolding collecting_def by blast
  then show ?thesis using d sh e0 by (auto simp: rootCount_def)
qed

lemma cachedRlp_node: "cn_node c = cn_node c' \<Longrightarrow> cachedRlp H c = cachedRlp H c'"
  by (simp add: cachedRlp_def)

lemma shrinks_node: "shrinks Stk db db' \<Longrightarrow> map_of (db_dirties db') h = Some c' \<Longrightarrow> \<exists>c. map_of (db_dirties db) h = Some c \<and> cn_node c' = cn_node c"
  using shrinksD by blast

lemma dereference_outcome:
  assumes gc: "gcOk H db" and root: "0 < rootCount db root" and fuel: "Suc (length (db_dirties db)) < fuel"
  shows "\<exists>db'. dbDereference fuel root db = Ok db' \<and> gcOk H db' \<and> (\<forall>r. rootCount db' r = rootCount db r - (if r = root then 1 else 0)) \<and>
     db_diskdb db' = db_diskdb db \<and>
     (\<forall>h c'. map_of (db_dirties db') h = Some c' \<longrightarrow> (\<exists>c. map_of (db_dirties db) h = Some c \<and> cn_node c' = cn_node c))"
proof -
  have wf: "nodesCached db" "\<And>p. (p, zeroHash) \<notin> kidEdges db" "acyclic (kidEdges db)" using gc unfolding gcOk_def dbWf_def by blast+
  obtain rk where rk: "ranked rk db" "\<And>h. rk h \<le> length (db_dirties db)" using acyclic_ranked [OF wf(3)] by blast
  note col = collecting_gc [OF gc rk(1)]
  obtain db1 where d: "dropRef root zeroHash db = Some db1" "collecting rk {} [root] db1" "shrinks {zeroHash} db db1"
      "\<forall>r. rootCount db1 r = rootCount db r - (if r = root then 1 else 0)"
    using dropRoot_ok [OF col root] by blast
  have nz: "root \<noteq> zeroHash"
  proof
    assume "root = zeroHash"
    then have "(zeroHash, zeroHash) \<in> kidEdges db" using edgeCount_kid [of db zeroHash zeroHash] root by (simp add: rootCount_def)
    then show False using wf(2) by blast
  qed
  have "outcome (\<lambda>db'. collecting rk {} [] db' \<and> shrinks {} db1 db') (\<lambda>_. False) (release fuel root db1)"
    by (rule release_ok [OF d(2) nz]) (use fuel rk(2) [of root] in auto)
  then obtain db' where r: "release fuel root db1 = Ok db'" "collecting rk {} [] db'" "shrinks {} db1 db'"
    by (auto simp: outcome_iff)
  have disk: "db_diskdb db' = db_diskdb db" using d(3) r(3) by (simp add: shrinks_def)
  have node: "\<exists>c. map_of (db_dirties db) h = Some c \<and> cn_node c' = cn_node c" if "map_of (db_dirties db') h = Some c'" for h c'
    using shrinks_node [OF r(3) that] shrinks_node [OF d(3)] by metis
  have kids: "kidEdges db' \<subseteq> kidEdges db" using shrinks_kidEdges [OF d(3)] shrinks_kidEdges [OF r(3)] by blast
  have "nodesCached db'" using wf(1) node unfolding nodesCached_def by metis
  moreover have "diskAgrees H db'"
    unfolding diskAgrees_def disk
  proof (intro allI impI)
    fix h c' b assume h: "map_of (db_dirties db') h = Some c'" "db_diskdb db h = Some b"
    obtain c where c: "map_of (db_dirties db) h = Some c" "cn_node c' = cn_node c" using node [OF h(1)] by blast
    then have "cachedRlp H c = Some b" using gc h(2) unfolding gcOk_def diskAgrees_def by blast
    then show "cachedRlp H c' = Some b" using cachedRlp_node [OF c(2)] by simp
  qed
  moreover have "acyclic (kidEdges db')" using wf(3) kids by (rule acyclic_subset)
  moreover have "diskFull db'" using gc by (simp add: gcOk_def diskFull_def disk)
  ultimately have "gcOk H db'" using r(2) unfolding gcOk_def dbWf_def collecting_def by blast
  moreover have "rootCount db' r' = rootCount db1 r'" for r'
  proof -
    obtain hs where "flushList db' {} hs" using r(2) unfolding collecting_def by blast
    then obtain c' where c': "map_of (db_dirties db') zeroHash = Some c'" using flushListD(3) by blast
    obtain c where c: "map_of (db_dirties db1) zeroHash = Some c" "cn_children c' = cn_children c" using shrinksD [OF r(3) c'] by blast
    show ?thesis by (simp add: rootCount_def edgeCount_def c c')
  qed
  moreover have "dbDereference fuel root db = Ok db'" using nz d(1) r(1) by (simp add: dbDereference_def dereference_def)
  ultimately show ?thesis using d(4) disk node by auto
qed

section \<open>Inserting nodes\<close>

lemma addParent_map:
  "map_of (addParent ds k) h = (if h = k then map_option (\<lambda>c. c\<lparr>cn_parents := cn_parents c + 1\<rparr>) (map_of ds h) else map_of ds h)"
  by (auto simp: addParent_def update_conv' split: option.splits)

lemma addParent_keys: "map fst (addParent ds k) = map fst ds"
  by (auto simp: addParent_def update_known split: option.splits)

lemma addParents_map:
  "map_of (foldl addParent ds ks) h = map_option (\<lambda>c. c\<lparr>cn_parents := cn_parents c + of_nat (count_list ks h)\<rparr>) (map_of ds h)"
proof (induction ks arbitrary: ds)
  case (Cons k ks)
  then show ?case by (cases "map_of ds h") (auto simp: addParent_map)
qed (simp add: option.map_id0 [unfolded id_def])

lemma addParents_keys: "map fst (foldl addParent ds ks) = map fst ds"
  by (induction ks arbitrary: ds) (simp_all add: addParent_keys)

lemma simplifyNode_some: "simplifyNode n = Some raw \<Longrightarrow> raw \<noteq> RawNil"
  by (cases n) (auto split: option.splits)

text \<open>The cached node \<open>c'\<close> is \<open>c\<close> with \<open>k\<close> more parents, possibly linked differently.\<close>

definition moreParents :: "nat \<Rightarrow> cachedNode \<Rightarrow> cachedNode \<Rightarrow> bool" where
  "moreParents k c c' \<longleftrightarrow> cn_node c' = cn_node c \<and> cn_children c' = cn_children c \<and> cn_parents c' = cn_parents c + of_nat k"

lemma dbInsert_effect:
  assumes fl: "flushList db {} hs" and new: "map_of (db_dirties db) h = None" and raw: "simplifyNode n = Some raw"
  shows "\<exists>db' e. dbInsert db h sz n = Some db' \<and> flushList db' {} (hs @ [h]) \<and> db_diskdb db' = db_diskdb db \<and>
     map_of (db_dirties db') h = Some e \<and> cn_node e = raw \<and> cn_children e = None \<and>
     (\<forall>k. k \<noteq> h \<longrightarrow> rel_option (moreParents (count_list (forGatherChildren raw) k)) (map_of (db_dirties db) k) (map_of (db_dirties db') k))"
proof -
  let ?ks = "forGatherChildren raw"
  define e where "e = \<lparr>cn_node = raw, cn_size = of_nat sz, cn_parents = 0, cn_children = None,
      cn_flushPrev = db_newest db, cn_flushNext = zeroHash\<rparr>"
  have ks: "forChilds e = ?ks" by (simp add: e_def forChilds_def)
  define ds where "ds = AList.update h e (foldl addParent (db_dirties db) ?ks)"
  define sum where "sum = db_dirtiesSize db + int (unat (32 + cn_size e))"
  note f = flushListD [OF fl]
  have hz: "h \<noteq> zeroHash" using f(3) new by auto
  have hh: "h \<notin> set hs" using flushList_mem [OF fl, of h] new by simp
  have m: "map_of ds = (\<lambda>k. if k = h then Some e
      else map_option (\<lambda>c. c\<lparr>cn_parents := cn_parents c + of_nat (count_list ?ks k)\<rparr>) (map_of (db_dirties db) k))"
    by (auto simp: ds_def update_conv' addParents_map fun_eq_iff)
  have "h \<notin> set (map fst (foldl addParent (db_dirties db) ?ks))"
    using new by (simp only: addParents_keys) (simp add: map_of_eq_None_iff)
  then have dk: "distinct (map fst ds)" using f(1) by (simp add: ds_def distinct_update addParents_keys)
  have rel: "rel_option (moreParents (count_list ?ks k)) (map_of (db_dirties db) k) (map_of ds k)" if "k \<noteq> h" for k
    using that by (cases "map_of (db_dirties db) k") (simp_all add: m moreParents_def)
  have lk: "nxt (map_of ds) k = nxt (map_of (db_dirties db)) k \<and> prv (map_of ds) k = prv (map_of (db_dirties db)) k" if "k \<noteq> h" for k
    using that by (cases "map_of (db_dirties db) k") (simp_all add: nxt_def prv_def m)
  have le: "nxt (map_of ds) h = Some zeroHash" "prv (map_of ds) h = Some (db_newest db)" by (simp_all add: nxt_def prv_def m e_def)
  have dm: "dom (map_of ds) = insert h (dom (map_of (db_dirties db)))" by (auto simp: m split: if_splits)
  show ?thesis
  proof (cases "hs = []")
    case True
    let ?db = "db\<lparr>db_dirties := ds, db_oldest := h, db_newest := h, db_dirtiesSize := sum\<rparr>"
    have "db_oldest db = zeroHash" using f(7) True by (simp add: headOf_def)
    then have "dbInsert db h sz n = Some ?db"
      using new raw by (simp add: dbInsert_def Let_def e_def [symmetric] ks ds_def [symmetric] sum_def)
    moreover have "flushList ?db {} (hs @ [h])"
      using dk f(3,5) hz le(1) True dm unfolding flushList_def by (auto simp: linkedBy_def)
    moreover have "map_of (db_dirties ?db) h = Some e" by (simp add: m)
    ultimately show ?thesis using rel by (auto simp: e_def)
  next
    case False
    have nw: "db_newest db = last hs" using f(8) False by simp
    have ln: "last hs \<in> set hs" using False by simp
    have oz: "db_oldest db \<noteq> zeroHash" using f(5,7) False by (cases hs) (auto simp: headOf_def)
    have lh: "last hs \<noteq> h" using ln hh by auto
    have "map_of (db_dirties db) (last hs) \<noteq> None" using flushList_mem [OF fl] ln by simp
    then obtain c where c: "map_of ds (last hs) = Some c" using lh by (auto simp: m)
    have cn: "map_of ds (db_newest db) = Some c" using c nw by simp
    define ds' where "ds' = AList.update (db_newest db) (c\<lparr>cn_flushNext := h\<rparr>) ds"
    let ?db = "db\<lparr>db_dirties := ds', db_newest := h, db_dirtiesSize := sum\<rparr>"
    have m': "map_of ds' = (map_of ds)(last hs \<mapsto> c\<lparr>cn_flushNext := h\<rparr>)" by (simp add: ds'_def update_conv' nw)
    have k': "map fst ds' = map fst ds" unfolding ds'_def by (rule update_known [OF cn])
    have "dbInsert db h sz n = Some ?db"
      using new raw oz cn by (simp add: dbInsert_def Let_def e_def [symmetric] ks ds_def [symmetric] sum_def ds'_def)
    moreover have "flushList ?db {} (hs @ [h])"
    proof -
      have "successively (\<lambda>x y. nxt (map_of ds') x = Some y \<and> prv (map_of ds') y = Some x) hs"
      proof (rule successively_links)
        show "successively (\<lambda>x y. nxt (map_of (db_dirties db)) x = Some y \<and> prv (map_of (db_dirties db)) y = Some x) hs"
          using f(6) by (simp add: linkedBy_def)
        show "distinct hs" by (rule f(2))
        show "nxt (map_of ds') x = nxt (map_of (db_dirties db)) x" if "x \<in> set hs" "x \<noteq> last hs" for x
        proof -
          have "x \<noteq> h" using that hh by blast
          then show ?thesis using lk [of x] that(2) by (simp add: m' nxt_def)
        qed
        show "prv (map_of ds') x = prv (map_of (db_dirties db)) x" if "x \<in> set hs" for x
        proof -
          have "x \<noteq> h" using that hh by blast
          then show ?thesis using lk [of x] c by (cases "x = last hs") (simp_all add: m' prv_def)
        qed
      qed
      moreover have "nxt (map_of ds') (last hs) = Some h" by (simp add: m' nxt_def)
      moreover have "nxt (map_of ds') h = Some zeroHash" "prv (map_of ds') h = Some (last hs)"
        using le nw lh by (simp_all add: m' nxt_def prv_def)
      ultimately have "linkedBy (map_of ds') (hs @ [h])" using False by (simp add: linkedBy_def successively_append_iff)
      moreover have "dom (map_of ds') = insert h (dom (map_of (db_dirties db)))"
        using dm c by (auto simp: m' simp flip: dm)
      moreover have "distinct (map fst ds')" using dk k' by simp
      ultimately show ?thesis using f(2,3,5,7) hh hz False unfolding flushList_def by (auto simp: headOf_def split: list.splits)
    qed
    moreover have "map_of (db_dirties ?db) h = Some e" using lh by (simp add: m' m)
    moreover have "rel_option (moreParents (count_list ?ks k)) (map_of (db_dirties db) k) (map_of ds' k)" if "k \<noteq> h" for k
      using rel [OF that] c by (cases "k = last hs"; cases "map_of (db_dirties db) k") (auto simp: m' moreParents_def)
    ultimately show ?thesis by (auto simp: e_def)
  qed
qed

text \<open>
  What the committer guarantees: the children of a new node are cached or on disk, the references stay without cycles (a hash
  cannot contain itself), no count overflows, and a node that is already on disk is the same node.
\<close>

definition insertable :: "crypto \<Rightarrow> Database \<Rightarrow> hash \<Rightarrow> node \<Rightarrow> bool" where
  "insertable H db h n \<longleftrightarrow>
     (\<forall>raw. simplifyNode n = Some raw \<longrightarrow>
        (\<forall>k\<in>set (forGatherChildren raw). k \<noteq> zeroHash \<and> held db k) \<and>
        acyclic (kidEdges db \<union> {h} \<times> set (forGatherChildren raw)) \<and>
        (\<forall>k c. map_of (db_dirties db) k = Some c \<longrightarrow> unat (cn_parents c) + count_list (forGatherChildren raw) k < 2 ^ 32) \<and>
        (db_diskdb db h = None \<or> db_diskdb db h = Some (rlpEncode H (rawItem raw))))"

lemma unat_add_less: "unat (a :: u32) + n < 2 ^ 32 \<Longrightarrow> unat (a + of_nat n) = unat a + n"
  using unat_add_lem [of a "of_nat n"] unat_of_nat_u32 [of n] by simp

lemma forChilds_moreParents: "moreParents k c c' \<Longrightarrow> forChilds c' = forChilds c"
  by (simp add: moreParents_def forChilds_def)

lemma gc_insert:
  assumes gc: "gcOk H db" and ins: "insertable H db h n" and db': "dbInsert db h sz n = Some db'"
  shows "gcOk H db'"
proof (cases "map_of (db_dirties db) h")
  case (Some c)
  then show ?thesis using db' gc by (simp add: dbInsert_def)
next
  case None
  obtain raw where raw: "simplifyNode n = Some raw" using db' None by (auto simp: dbInsert_def split: option.splits)
  let ?ks = "forGatherChildren raw"
  obtain hs where fl: "flushList db {} hs" using gc unfolding gcOk_def dbWf_def by blast
  obtain e where eff: "flushList db' {} (hs @ [h])" "db_diskdb db' = db_diskdb db" "map_of (db_dirties db') h = Some e"
      "cn_node e = raw" "cn_children e = None"
      "\<And>k. k \<noteq> h \<Longrightarrow> rel_option (moreParents (count_list ?ks k)) (map_of (db_dirties db) k) (map_of (db_dirties db') k)"
    using dbInsert_effect [OF fl None raw, of sz] db' by auto
  have guard: "k \<in> set ?ks \<Longrightarrow> k \<noteq> zeroHash \<and> held db k" "acyclic (kidEdges db \<union> {h} \<times> set ?ks)"
      "map_of (db_dirties db) k = Some c \<Longrightarrow> unat (cn_parents c) + count_list ?ks k < 2 ^ 32"
      "db_diskdb db h = None \<or> db_diskdb db h = Some (rlpEncode H (rawItem raw))" for k c
    using ins raw unfolding insertable_def by blast+
  have hz: "h \<noteq> zeroHash" using flushListD(3) [OF fl] None by auto
  have old: "\<exists>c. map_of (db_dirties db) k = Some c \<and> moreParents (count_list ?ks k) c c'"
    if "k \<noteq> h" "map_of (db_dirties db') k = Some c'" for k c'
    using eff(6) [OF that(1)] that(2) by (cases "map_of (db_dirties db) k") auto
  have kept: "\<exists>c'. map_of (db_dirties db') k = Some c' \<and> moreParents (count_list ?ks k) c c'"
    if "map_of (db_dirties db) k = Some c" for k c
  proof -
    have "k \<noteq> h" using that None by auto
    then show ?thesis using eff(6) [of k] that by (cases "map_of (db_dirties db') k") auto
  qed
  have kidsE: "forChilds e = ?ks" by (simp add: forChilds_def eff(4,5))
  have kids: "kidEdges db' \<subseteq> kidEdges db \<union> {h} \<times> set ?ks"
  proof
    fix x assume "x \<in> kidEdges db'"
    then obtain p k c' where x: "x = (p, k)" "map_of (db_dirties db') p = Some c'" "k \<in> set (forChilds c')" by (auto simp: kidEdges_def)
    show "x \<in> kidEdges db \<union> {h} \<times> set ?ks"
    proof (cases "p = h")
      case True
      then show ?thesis using x eff(3) kidsE by simp
    next
      case False
      then obtain c where "map_of (db_dirties db) p = Some c" "moreParents (count_list ?ks p) c c'" using old x(2) by blast
      then show ?thesis using x forChilds_moreParents by (auto simp: kidEdges_def)
    qed
  qed
  have e0: "edgeCount db' p k = edgeCount db p k" if "p \<noteq> h" for p k
  proof (cases "map_of (db_dirties db) p")
    case None
    then have "map_of (db_dirties db') p = None" using old [OF that] by (cases "map_of (db_dirties db') p") auto
    then show ?thesis using None by (simp add: edgeCount_def)
  next
    case (Some c)
    then obtain c' where "map_of (db_dirties db') p = Some c'" "moreParents (count_list ?ks p) c c'" using kept by blast
    then show ?thesis using Some forChilds_moreParents [of _ c c'] by (simp add: edgeCount_def moreParents_def)
  qed
  have eh: "edgeCount db' h k = count_list ?ks k" for k using hz eff(3) kidsE by (simp add: edgeCount_def)
  have dm: "dom (map_of (db_dirties db')) = insert h (dom (map_of (db_dirties db)))"
    using old kept eff(3) by blast
  have r: "refs db' {} k = refs db {} k + count_list ?ks k" for k
  proof -
    have "refs db' {h} k = refs db {} k" by (rule refs_cong) (use None e0 in \<open>auto simp: dm\<close>)
    then show ?thesis using refs_insert [of h db' "{}" k] eff(3) eh by (auto simp: domIff)
  qed
  have heldm: "held db' k" if "held db k" for k using that dm by (auto simp: held_def eff(2) simp flip: domIff)
  have "counted db' {} []"
    unfolding counted_def
  proof (intro allI impI)
    fix k c' assume k: "map_of (db_dirties db') k = Some c'" "db_diskdb db' k = None"
    show "refs db' {} k + count_list [] k \<le> unat (cn_parents c')"
    proof (cases "k = h")
      case True
      have "edgeCount db p h = 0" for p
        using gc None k(2) True eff(2) unfolding gcOk_def live_def held_def by fastforce
      then have "refs db {} h = 0" by (simp add: refs_def)
      moreover have "(h, h) \<notin> kidEdges db \<union> {h} \<times> set ?ks" using guard(2) unfolding acyclic_def by blast
      then have "count_list ?ks h = 0" by (simp add: count_list_0_iff)
      ultimately show ?thesis using True by (simp add: r)
    next
      case False
      then obtain c where c: "map_of (db_dirties db) k = Some c" "moreParents (count_list ?ks k) c c'" using old k(1) by blast
      have "refs db {} k \<le> unat (cn_parents c)" using gc c(1) k(2) eff(2) unfolding gcOk_def counted_def by auto
      then show ?thesis using c(2) guard(3) [OF c(1)] by (simp add: r moreParents_def unat_add_less)
    qed
  qed
  moreover have "live db' {}"
    unfolding live_def
  proof (intro allI impI)
    fix p k assume "0 < edgeCount db' p k"
    then show "held db' k"
      using gc guard(1) e0 [of p k] heldm by (cases "p = h") (auto simp: eh count_list_pos gcOk_def live_def)
  qed
  moreover have "nodesCached db'"
    unfolding nodesCached_def
  proof (intro allI impI)
    fix k c' assume k: "map_of (db_dirties db') k = Some c'"
    show "(cn_node c' = RawNil) = (k = zeroHash)"
    proof (cases "k = h")
      case True
      then show ?thesis using k eff(3,4) hz simplifyNode_some [OF raw] by simp
    next
      case False
      then obtain c where "map_of (db_dirties db) k = Some c" "cn_node c' = cn_node c" using old k by (auto simp: moreParents_def)
      then show ?thesis using gc unfolding gcOk_def dbWf_def nodesCached_def by auto
    qed
  qed
  moreover have "\<forall>p. (p, zeroHash) \<notin> kidEdges db'"
    using kids guard(1) [of zeroHash] gc unfolding gcOk_def dbWf_def by blast
  moreover have "acyclic (kidEdges db')" using guard(2) kids by (rule acyclic_subset)
  moreover have "diskFull db'" using gc by (simp add: gcOk_def diskFull_def eff(2))
  moreover have "diskAgrees H db'"
    unfolding diskAgrees_def eff(2)
  proof (intro allI impI)
    fix k c' b assume k: "map_of (db_dirties db') k = Some c'" "db_diskdb db k = Some b"
    show "cachedRlp H c' = Some b"
    proof (cases "k = h")
      case True
      then show ?thesis using k eff(3,4) guard(4) simplifyNode_some [OF raw] by (simp add: cachedRlp_def)
    next
      case False
      then obtain c where c: "map_of (db_dirties db) k = Some c" "cn_node c' = cn_node c" using old k by (auto simp: moreParents_def)
      then have "cachedRlp H c = Some b" using gc k(2) unfolding gcOk_def diskAgrees_def by blast
      then show ?thesis using cachedRlp_node [OF c(2)] by simp
    qed
  qed
  ultimately show ?thesis using eff(1) unfolding gcOk_def dbWf_def by blast
qed

section \<open>References from outside\<close>

text \<open>A storage trie is referenced by an account, a root by the meta root.\<close>

definition referable :: "Database \<Rightarrow> hash \<Rightarrow> hash \<Rightarrow> bool" where
  "referable db child parent \<longleftrightarrow>
     child \<noteq> zeroHash \<and> acyclic (insert (parent, child) (kidEdges db)) \<and>
     (\<forall>c. map_of (db_dirties db) child = Some c \<longrightarrow> unat (cn_parents c) + 1 < 2 ^ 32)"

lemma count_update: "count_list (map fst (AList.update h v al)) k = count_list (map fst al) k + (if k = h \<and> map_of al h = None then 1 else 0)"
  by (auto simp: update_keys map_of_eq_None_iff)

lemma dbReference_effect:
  assumes "dbReference db child parent = Some db'" "db' \<noteq> db" "child \<noteq> parent"
  shows "\<exists>c p p'. map_of (db_dirties db) child = Some c \<and> map_of (db_dirties db) parent = Some p \<and>
     map_of (db_dirties db') = (map_of (db_dirties db))(child \<mapsto> c\<lparr>cn_parents := cn_parents c + 1\<rparr>, parent \<mapsto> p') \<and>
     (\<exists>cs. p' = p\<lparr>cn_children := cs\<rparr>) \<and>
     (\<forall>k. edgeCount db' parent k \<le> edgeCount db parent k + (if k = child then 1 else 0)) \<and>
     set (forChilds p') \<subseteq> insert child (set (forChilds p)) \<and>
     map fst (db_dirties db') = map fst (db_dirties db) \<and>
     db_diskdb db' = db_diskdb db \<and> db_oldest db' = db_oldest db \<and> db_newest db' = db_newest db"
proof -
  obtain c where c: "map_of (db_dirties db) child = Some c" using assms(1,2) by (auto simp: dbReference_def split: option.splits)
  obtain p where p: "map_of (db_dirties db) parent = Some p" using assms(1) c by (auto simp: dbReference_def split: option.splits)
  define prev where "prev = (case cn_children p of None \<Rightarrow> [] | Some cs \<Rightarrow> cs)"
  define count where "count = (case map_of prev child of None \<Rightarrow> 0 | Some n \<Rightarrow> n) + (1 :: u16)"
  define p' where "p' = p\<lparr>cn_children := Some (AList.update child count prev)\<rparr>"
  define ds where "ds = addParent (db_dirties db) child"
  have change: "\<not> (cn_children p \<noteq> None \<and> map_of prev child \<noteq> None \<and> parent \<noteq> zeroHash)"
  proof
    assume "cn_children p \<noteq> None \<and> map_of prev child \<noteq> None \<and> parent \<noteq> zeroHash"
    then have "dbReference db child parent = Some db" using c p by (auto simp: dbReference_def prev_def)
    then show False using assms(1,2) by simp
  qed
  have dp: "map_of ds parent = Some p" using p assms(3) by (simp add: ds_def addParent_map)
  have new: "db' = db\<lparr>db_dirties := AList.update parent p' ds, db_childrenSize := db_childrenSize db'\<rparr>"
    using assms(1) c p change dp
    by (auto simp: dbReference_def Let_def prev_def [symmetric] ds_def [symmetric] p'_def count_def split: if_splits)
  have dd: "db_dirties db' = AList.update parent p' ds" "db_diskdb db' = db_diskdb db"
      "db_oldest db' = db_oldest db" "db_newest db' = db_newest db"
    using arg_cong [OF new, of db_dirties] arg_cong [OF new, of db_diskdb] arg_cong [OF new, of db_oldest] arg_cong [OF new, of db_newest]
    by simp_all
  have m: "map_of (db_dirties db') = (map_of (db_dirties db))(child \<mapsto> c\<lparr>cn_parents := cn_parents c + 1\<rparr>, parent \<mapsto> p')"
    using c by (auto simp: dd update_conv' ds_def addParent_map fun_eq_iff)
  have fc: "forChilds p = map fst prev @ forGatherChildren (cn_node p)" by (simp add: forChilds_def prev_def split: option.splits)
  have fc': "forChilds p' = map fst (AList.update child count prev) @ forGatherChildren (cn_node p)" by (simp add: forChilds_def p'_def)
  have edge: "edgeCount db' parent k \<le> edgeCount db parent k + (if k = child then 1 else 0)" for k
  proof (cases "parent = zeroHash")
    case True
    have "edgeCount db' parent k = (case map_of (AList.update child count prev) k of None \<Rightarrow> 0 | Some n \<Rightarrow> unat n)"
      by (simp add: edgeCount_def m True p'_def)
    moreover have "edgeCount db parent k = (case map_of prev k of None \<Rightarrow> 0 | Some n \<Rightarrow> unat n)"
      using p True by (simp add: edgeCount_def prev_def split: option.splits)
    moreover have "unat (n + 1) \<le> unat n + 1" for n :: u16 using unat_plus_simple [of n 1] by (simp add: unat_word_ariths)
    ultimately show ?thesis by (auto simp: update_conv' count_def split: option.splits)
  next
    case False
    have "map_of prev child = None" using change False by (auto simp: prev_def split: option.splits)
    then show ?thesis using p False by (auto simp: edgeCount_def m fc fc' count_update)
  qed
  have "set (forChilds p') \<subseteq> insert child (set (forChilds p))" unfolding fc fc' by (auto simp: dom_update)
  moreover have "map fst (db_dirties db') = map fst (db_dirties db)"
    unfolding dd(1) update_known [OF dp] by (simp add: ds_def addParent_keys)
  moreover have "\<exists>cs. p' = p\<lparr>cn_children := cs\<rparr>" by (auto simp: p'_def)
  ultimately show ?thesis using c p m edge dd(2-4) by blast
qed

lemma gc_reference:
  assumes gc: "gcOk H db" and ref: "referable db child parent" and db': "dbReference db child parent = Some db'"
  shows "gcOk H db'"
proof (cases "db' = db")
  case False
  have g: "child \<noteq> zeroHash" "acyclic (insert (parent, child) (kidEdges db))"
      "\<And>c. map_of (db_dirties db) child = Some c \<Longrightarrow> unat (cn_parents c) + 1 < 2 ^ 32"
    using ref unfolding referable_def by blast+
  have ne: "child \<noteq> parent" using g(2) unfolding acyclic_def by blast
  obtain c p p' where eff: "map_of (db_dirties db) child = Some c" "map_of (db_dirties db) parent = Some p"
      "map_of (db_dirties db') = (map_of (db_dirties db))(child \<mapsto> c\<lparr>cn_parents := cn_parents c + 1\<rparr>, parent \<mapsto> p')"
      "\<exists>cs. p' = p\<lparr>cn_children := cs\<rparr>"
      "\<And>k. edgeCount db' parent k \<le> edgeCount db parent k + (if k = child then 1 else 0)"
      "set (forChilds p') \<subseteq> insert child (set (forChilds p))" "map fst (db_dirties db') = map fst (db_dirties db)"
      "db_diskdb db' = db_diskdb db" "db_oldest db' = db_oldest db" "db_newest db' = db_newest db"
    using dbReference_effect [OF db' False ne] by metis
  have p': "cn_node p' = cn_node p" "cn_parents p' = cn_parents p" "cn_flushNext p' = cn_flushNext p" "cn_flushPrev p' = cn_flushPrev p"
    using eff(4) by auto
  have old: "\<exists>k0. map_of (db_dirties db) h = Some k0 \<and> cn_node c' = cn_node k0 \<and> cn_parents c' = cn_parents k0 + (if h = child then 1 else 0) \<and>
      (h \<noteq> parent \<longrightarrow> forChilds c' = forChilds k0 \<and> cn_children c' = cn_children k0)"
    if "map_of (db_dirties db') h = Some c'" for h c'
    using that eff(1,2) p' ne by (cases "h = parent"; cases "h = child") (auto simp: eff(3) forChilds_def)
  have dm: "dom (map_of (db_dirties db')) = dom (map_of (db_dirties db))" using eff(1,2) by (auto simp: eff(3))
  have e: "edgeCount db' q k = edgeCount db q k" if "q \<noteq> parent" for q k
    using that eff(1) by (cases "q = child") (simp_all add: edgeCount_def eff(3) forChilds_def)
  have kids: "kidEdges db' \<subseteq> insert (parent, child) (kidEdges db)"
  proof
    fix x assume "x \<in> kidEdges db'"
    then obtain q k c' where x: "x = (q, k)" "map_of (db_dirties db') q = Some c'" "k \<in> set (forChilds c')" by (auto simp: kidEdges_def)
    show "x \<in> insert (parent, child) (kidEdges db)"
    proof (cases "q = parent")
      case True
      then show ?thesis using x eff(2,6) by (auto simp: eff(3) kidEdges_def)
    next
      case False
      then show ?thesis using x old [OF x(2)] by (auto simp: kidEdges_def)
    qed
  qed
  have r: "refs db' {} k \<le> refs db {} k + (if k = child then 1 else 0)" for k
  proof -
    have "refs db' {parent} k = refs db {parent} k" by (rule refs_cong) (auto simp: dm e)
    moreover have "parent \<in> dom (map_of (db_dirties db'))" "parent \<in> dom (map_of (db_dirties db))" using eff(2) dm by blast+
    ultimately show ?thesis
      using refs_insert [of parent db' "{}" k] refs_insert [of parent db "{}" k] eff(5) [of k] by auto
  qed
  have "counted db' {} []"
    unfolding counted_def
  proof (intro allI impI)
    fix h c' assume h: "map_of (db_dirties db') h = Some c'" "db_diskdb db' h = None"
    obtain k0 where k0: "map_of (db_dirties db) h = Some k0" "cn_parents c' = cn_parents k0 + (if h = child then 1 else 0)"
      using old [OF h(1)] by blast
    have "refs db {} h \<le> unat (cn_parents k0)" using gc k0(1) h(2) eff(8) unfolding gcOk_def counted_def by auto
    moreover have "unat (cn_parents c') = unat (cn_parents k0) + (if h = child then 1 else 0)"
      using k0 g(3) [of k0] unat_add_less [of "cn_parents k0" 1] by auto
    ultimately show "refs db' {} h + count_list [] h \<le> unat (cn_parents c')" using r [of h] by simp
  qed
  moreover have "live db' {}"
    unfolding live_def
  proof (intro allI impI)
    fix q k assume q: "0 < edgeCount db' q k"
    have "held db k"
    proof (cases "0 < edgeCount db q k")
      case True
      then show ?thesis using gc unfolding gcOk_def live_def by blast
    next
      case False
      then have "k = child" using q e [of q k] eff(5) [of k] by (cases "q = parent") (auto split: if_splits)
      then show ?thesis using eff(1) by (simp add: held_def)
    qed
    then show "held db' k" using dm by (auto simp: held_def eff(8) simp flip: domIff)
  qed
  moreover have "\<exists>hs. flushList db' {} hs"
  proof -
    obtain hs where "flushList db {} hs" using gc unfolding gcOk_def dbWf_def by blast
    then have "flushList db' {} hs"
    proof (rule flushList_same [OF _ eff(7) _ eff(9,10)])
      fix h
      show "nxt (map_of (db_dirties db')) h = nxt (map_of (db_dirties db)) h \<and> prv (map_of (db_dirties db')) h = prv (map_of (db_dirties db)) h"
        using eff(1,2) p' by (simp add: eff(3) nxt_def prv_def)
    qed
    then show ?thesis by blast
  qed
  moreover have "nodesCached db'" using gc old unfolding gcOk_def dbWf_def nodesCached_def by metis
  moreover have "\<forall>q. (q, zeroHash) \<notin> kidEdges db'" using kids g(1) gc unfolding gcOk_def dbWf_def by blast
  moreover have "acyclic (kidEdges db')" using g(2) kids by (rule acyclic_subset)
  moreover have "diskFull db'" using gc by (simp add: gcOk_def diskFull_def eff(8))
  moreover have "diskAgrees H db'"
    using gc old cachedRlp_node unfolding gcOk_def diskAgrees_def eff(8) by metis
  ultimately show ?thesis unfolding gcOk_def dbWf_def by blast
qed (use gc in simp)

section \<open>Moving nodes to disk\<close>

lemma gc_onWay:
  assumes gc: "gcOk H db" and way: "onWay H db s" and ne: "\<And>x. rlpEncode H x \<noteq> []"
  shows "gcOk H (fs_db s)"
proof -
  let ?db = "fs_db s"
  have py: "pay ?db h = pay db h \<or> (pay ?db h = None \<and> encoded H db h \<noteq> None \<and> db_diskdb ?db h = encoded H db h)" for h
    by (rule onWay_pay [OF way])
  have disk: "db_diskdb ?db h = db_diskdb db h \<or> (encoded H db h \<noteq> None \<and> db_diskdb ?db h = encoded H db h)" for h
    using way unfolding onWay_def by blast
  have node: "\<exists>c. map_of (db_dirties db) h = Some c \<and> payload c' = payload c" if "map_of (db_dirties ?db) h = Some c'" for h c'
  proof -
    have "pay ?db h \<noteq> None" using that by (simp add: pay_None)
    then have "pay ?db h = pay db h" using py [of h] by metis
    then show ?thesis using paySomeD [OF _ that] by blast
  qed
  have kids: "kidEdges ?db \<subseteq> kidEdges db"
  proof
    fix x assume "x \<in> kidEdges ?db"
    then obtain p k c' where x: "x = (p, k)" "map_of (db_dirties ?db) p = Some c'" "k \<in> set (forChilds c')" by (auto simp: kidEdges_def)
    then obtain c where "map_of (db_dirties db) p = Some c" "payload c' = payload c" using node by blast
    then show "x \<in> kidEdges db" using x forChilds_payload [of c' c] by (auto simp: kidEdges_def)
  qed
  have e: "edgeCount ?db p k \<le> edgeCount db p k" for p k
  proof (cases "map_of (db_dirties ?db) p")
    case (Some c')
    then have "pay ?db p \<noteq> None" by (simp add: pay_None)
    then have "pay ?db p = pay db p" using py [of p] by metis
    then have "edgeCount ?db p k = edgeCount db p k" by (rule edgeCount_pay)
    then show ?thesis by simp
  qed (simp add: edgeCount_def)
  have "dom (map_of (db_dirties ?db)) \<subseteq> dom (map_of (db_dirties db))" using node by blast
  then have r: "refs ?db {} k \<le> refs db {} k" for k
    unfolding refs_def by (intro order_trans [OF sum_mono [OF e]] sum_mono2) (auto simp: finite_dom_map_of)
  have heldm: "held ?db k" if "held db k" for k
  proof (cases "map_of (db_dirties db) k = None")
    case True
    then have "db_diskdb db k \<noteq> None" using that by (simp add: held_def)
    then show ?thesis using disk [of k] by (auto simp: held_def)
  next
    case False
    then have "pay db k \<noteq> None" by (simp add: pay_None)
    then have "pay ?db k \<noteq> None \<or> db_diskdb ?db k \<noteq> None" using py [of k] by metis
    then show ?thesis by (simp add: held_def pay_None)
  qed
  have "counted ?db {} []"
    unfolding counted_def
  proof (intro allI impI)
    fix h c' assume h: "map_of (db_dirties ?db) h = Some c'" "db_diskdb ?db h = None"
    obtain c where c: "map_of (db_dirties db) h = Some c" "payload c' = payload c" using node [OF h(1)] by blast
    have "db_diskdb db h = None" using disk [of h] h(2) by auto
    then have "refs db {} h \<le> unat (cn_parents c)" using gc c(1) unfolding gcOk_def counted_def by auto
    then show "refs ?db {} h + count_list [] h \<le> unat (cn_parents c')" using r [of h] c(2) by (simp add: payload_def)
  qed
  moreover have "live ?db {}"
    by (rule live_mono [of db "{}"]) (use gc e heldm in \<open>auto simp: gcOk_def\<close>)
  moreover have "nodesCached ?db"
    unfolding nodesCached_def
  proof (intro allI impI)
    fix h c' assume "map_of (db_dirties ?db) h = Some c'"
    then obtain c where "map_of (db_dirties db) h = Some c" "payload c' = payload c" using node by blast
    then show "(cn_node c' = RawNil) = (h = zeroHash)"
      using gc by (auto simp: gcOk_def dbWf_def nodesCached_def payload_def)
  qed
  moreover have "\<forall>p. (p, zeroHash) \<notin> kidEdges ?db" using kids gc unfolding gcOk_def dbWf_def by blast
  moreover have "acyclic (kidEdges ?db)" by (rule acyclic_subset [OF _ kids]) (use gc in \<open>simp add: gcOk_def dbWf_def\<close>)
  moreover have "diskAgrees H ?db"
    unfolding diskAgrees_def
  proof (intro allI impI)
    fix h c' b assume h: "map_of (db_dirties ?db) h = Some c'" "db_diskdb ?db h = Some b"
    obtain c where c: "map_of (db_dirties db) h = Some c" "payload c' = payload c" using node [OF h(1)] by blast
    have "cn_node c' = cn_node c" using c(2) by (simp add: payload_def)
    then have rlp: "cachedRlp H c' = cachedRlp H c" by (rule cachedRlp_node)
    show "cachedRlp H c' = Some b"
      using disk [of h]
    proof
      assume "db_diskdb ?db h = db_diskdb db h"
      then have "db_diskdb db h = Some b" using h(2) by simp
      then have "cachedRlp H c = Some b" using gc c(1) unfolding gcOk_def diskAgrees_def by blast
      then show ?thesis by (simp add: rlp)
    next
      assume "encoded H db h \<noteq> None \<and> db_diskdb ?db h = encoded H db h"
      then show ?thesis using c(1) h(2) rlp by (simp add: encoded_def)
    qed
  qed
  moreover have "diskFull ?db"
    unfolding diskFull_def
  proof
    fix h
    have "encoded H db h \<noteq> Some []" using ne by (auto simp: encoded_def cachedRlp_def split: option.splits)
    then show "db_diskdb ?db h \<noteq> Some []" using disk [of h] gc by (auto simp: gcOk_def diskFull_def)
  qed
  moreover have "\<exists>hs. flushList ?db {} hs" using way unfolding onWay_def by blast
  ultimately show ?thesis unfolding gcOk_def dbWf_def by blast
qed

lemma gcOk_cong:
  assumes gc: "gcOk H db" and eq: "db_dirties db' = db_dirties db" "db_diskdb db' = db_diskdb db"
    and ends: "db_oldest db' = db_oldest db" "db_newest db' = db_newest db"
  shows "gcOk H db'"
proof -
  have e: "edgeCount db' = edgeCount db" by (simp add: fun_eq_iff edgeCount_def eq(1))
  have h: "held db' = held db" by (simp add: fun_eq_iff held_def eq)
  have r: "refs db' = refs db" by (simp add: fun_eq_iff refs_def eq(1) e)
  have k: "kidEdges db' = kidEdges db" by (simp add: kidEdges_def eq(1))
  have "dbWf db'"
    using gc flushList_cong [OF _ eq(1) ends] by (auto simp: gcOk_def dbWf_def k nodesCached_def eq(1))
  moreover have "counted db' {} []" using gc by (simp add: gcOk_def counted_def eq r)
  moreover have "live db' {}" using gc by (simp add: gcOk_def live_def e h)
  moreover have "diskAgrees H db'" using gc by (simp add: gcOk_def diskAgrees_def eq)
  moreover have "diskFull db'" using gc by (simp add: gcOk_def diskFull_def eq)
  ultimately show ?thesis unfolding gcOk_def by blast
qed

lemma length_flushList:
  assumes fl: "flushList db {} hs"
  shows "length hs < length (db_dirties db)"
proof -
  note f = flushListD [OF fl]
  have "set (zeroHash # hs) \<subseteq> fst ` set (db_dirties db)" using f(3,5) by (auto simp: dom_map_of_conv_image_fst)
  moreover have "distinct (zeroHash # hs)" using f(2,5) by auto
  ultimately have "length (zeroHash # hs) \<le> card (fst ` set (db_dirties db))"
    by (metis List.finite_set card_mono distinct_card finite_imageI)
  also have "\<dots> \<le> length (db_dirties db)" by (rule order_trans [OF card_image_le [OF List.finite_set] card_length])
  finally show ?thesis by simp
qed

lemma gc_cap:
  assumes gc: "gcOk H (fs_db s)" and ne: "\<And>x. rlpEncode H x \<noteq> []" and fuel: "length (db_dirties (fs_db s)) \<le> fuel"
    and res: "dbCap io H cns fuel limit s = Ok s' \<or> dbCap io H cns fuel limit s = Err s'"
  shows "gcOk H (fs_db s')"
proof -
  obtain hs where fl: "flushList (fs_db s) {} hs" and nc: "nodesCached (fs_db s)" using gc unfolding gcOk_def dbWf_def by blast
  have "length hs < fuel" using length_flushList [OF fl] fuel by simp
  note out = dbCap_outcome [OF fl nc this, of H cns limit io]
  from res have "onWay H (fs_db s) (s'\<lparr>fs_batch := []\<rparr>)"
  proof
    assume "dbCap io H cns fuel limit s = Ok s'"
    then show ?thesis using out capResult_onWay by simp
  next
    assume "dbCap io H cns fuel limit s = Err s'"
    then show ?thesis using out capping_onWay [OF _ fl] by auto
  qed
  from gc_onWay [OF gc this ne] show ?thesis by simp
qed

lemma gc_commit:
  assumes gc: "gcOk H (fs_db s)" and ne: "\<And>x. rlpEncode H x \<noteq> []" and fuel: "Suc (length (db_dirties (fs_db s))) < fuel"
    and root: "root \<noteq> zeroHash"
    and res: "dbCommit io H fuel root s = Ok s' \<or> dbCommit io H fuel root s = Err s'"
  shows "gcOk H (fs_db s')"
proof -
  have wf: "dbWf (fs_db s)" using gc by (simp add: gcOk_def)
  note out = dbCommit_outcome [OF wf root fuel, of H io]
  from res show ?thesis
  proof
    assume "dbCommit io H fuel root s = Ok s'"
    then obtain t where t: "fs_db s' = clearPreimages (fs_db t)" "onWay H (fs_db s) t" using out by auto
    from gc_onWay [OF gc t(2) ne] show ?thesis by (rule gcOk_cong) (simp_all add: t(1))
  next
    assume "dbCommit io H fuel root s = Err s'"
    then have "onWay H (fs_db s) (s'\<lparr>fs_batch := []\<rparr>)" using out by simp
    from gc_onWay [OF gc this ne] show ?thesis by simp
  qed
qed

lemma gc_fresh: "disk zeroHash = None \<Longrightarrow> (\<And>h. disk h \<noteq> Some []) \<Longrightarrow> gcOk H (NewDatabaseWithCache disk)"
proof -
  assume disk: "disk zeroHash = None" "\<And>h. disk h \<noteq> Some []"
  let ?db = "NewDatabaseWithCache disk"
  have m: "map_of (db_dirties ?db) = [zeroHash \<mapsto> metaRoot]" by (simp add: NewDatabaseWithCache_def)
  have e: "edgeCount ?db p h = 0" for p h by (simp add: edgeCount_def m metaRoot_def)
  have k: "kidEdges ?db = {}" by (auto simp: kidEdges_def m metaRoot_def forChilds_def split: if_splits)
  have "flushList ?db {} []" by (simp add: flushList_def NewDatabaseWithCache_def linkedBy_def)
  moreover have "nodesCached ?db" by (auto simp: nodesCached_def m metaRoot_def split: if_splits)
  moreover have "counted ?db {} []" by (simp add: counted_def refs_def e)
  moreover have "live ?db {}" by (simp add: live_def e)
  moreover have "diskAgrees H ?db" using disk(1) by (auto simp: diskAgrees_def m NewDatabaseWithCache_def split: if_splits)
  moreover have "diskFull ?db" using disk(2) by (simp add: diskFull_def NewDatabaseWithCache_def)
  ultimately show ?thesis unfolding gcOk_def dbWf_def k by (auto simp: acyclic_def)
qed

section \<open>Runs\<close>

text \<open>
  The databases that the operations lead to, from a fresh one on, in any order. A cap or commit may fail at any of its disk
  writes. The bounds on the recursion are those that suffice.
\<close>

inductive gcRun :: "crypto \<Rightarrow> Database \<Rightarrow> bool" for H where
  fresh: "disk zeroHash = None \<Longrightarrow> (\<And>h. disk h \<noteq> Some []) \<Longrightarrow> gcRun H (NewDatabaseWithCache disk)"
| inserted: "gcRun H db \<Longrightarrow> insertable H db h n \<Longrightarrow> dbInsert db h sz n = Some db' \<Longrightarrow> gcRun H db'"
| referenced: "gcRun H db \<Longrightarrow> referable db child parent \<Longrightarrow> dbReference db child parent = Some db' \<Longrightarrow> gcRun H db'"
| dereferenced: "gcRun H db \<Longrightarrow> 0 < rootCount db root \<Longrightarrow> Suc (length (db_dirties db)) < fuel \<Longrightarrow>
     dbDereference fuel root db = Ok db' \<Longrightarrow> gcRun H db'"
| capped: "gcRun H (fs_db s) \<Longrightarrow> length (db_dirties (fs_db s)) \<le> fuel \<Longrightarrow>
     dbCap io H cns fuel limit s = Ok s' \<or> dbCap io H cns fuel limit s = Err s' \<Longrightarrow> gcRun H (fs_db s')"
| committed: "gcRun H (fs_db s) \<Longrightarrow> root \<noteq> zeroHash \<Longrightarrow> Suc (length (db_dirties (fs_db s))) < fuel \<Longrightarrow>
     dbCommit io H fuel root s = Ok s' \<or> dbCommit io H fuel root s = Err s' \<Longrightarrow> gcRun H (fs_db s')"

lemma gcRun_ok:
  assumes ne: "\<And>x. rlpEncode H x \<noteq> []"
  shows "gcRun H db \<Longrightarrow> gcOk H db"
proof (induction rule: gcRun.induct)
  case (fresh disk)
  then show ?case by (rule gc_fresh)
next
  case (inserted db h n sz db')
  then show ?case by (blast intro: gc_insert)
next
  case (referenced db child parent db')
  then show ?case by (blast intro: gc_reference)
next
  case (dereferenced db root fuel db')
  then show ?case using dereference_outcome [of H db root fuel] by auto
next
  case (capped s fuel io cns limit s')
  then show ?case using gc_cap [OF _ ne] by blast
next
  case (committed s root fuel io s')
  then show ?case using gc_commit [OF _ ne] by blast
qed

lemma held_reads:
  assumes gc: "gcOk H db" and "held db h" "h \<noteq> zeroHash"
  shows "\<exists>b. dbNodeBlob H db h = Ok b"
proof (cases "map_of (db_dirties db) h")
  case None
  then obtain b where b: "db_diskdb db h = Some b" using assms(2) by (auto simp: held_def)
  then have "b \<noteq> []" using gc by (auto simp: gcOk_def diskFull_def)
  then show ?thesis using None b assms(3) by (simp add: dbNodeBlob_def)
next
  case (Some c)
  then have "cn_node c \<noteq> RawNil" using gc assms(3) by (auto simp: gcOk_def dbWf_def nodesCached_def)
  then show ?thesis using Some assms(3) by (simp add: dbNodeBlob_def cachedRlp_def)
qed

lemma live_reads:
  assumes gc: "gcOk H db" and e: "(p, h) \<in> liveEdges db"
  shows "held db h \<and> h \<noteq> zeroHash"
proof -
  have "0 < edgeCount db p h" using e by (simp add: liveEdges_def)
  then have "(p, h) \<in> kidEdges db" "held db h" using edgeCount_kid gc unfolding gcOk_def live_def by blast+
  then show ?thesis using gc unfolding gcOk_def dbWf_def by blast
qed

text \<open>
  C24: whatever sequence of insertions, references, dereferences, caps and commits has run, with or without failing disk writes:
  each node that the meta root references, directly or through other cached nodes, can be read.
\<close>

theorem roots_stay_readable:
  assumes "gcRun H db" "\<And>x. rlpEncode H x \<noteq> []" "(zeroHash, h) \<in> (liveEdges db)\<^sup>+"
  shows "\<exists>b. dbNodeBlob H db h = Ok b"
proof -
  have gc: "gcOk H db" using gcRun_ok [OF assms(2)] assms(1) by blast
  obtain p where "(p, h) \<in> liveEdges db" using tranclD2 [OF assms(3)] by blast
  then show ?thesis using live_reads [OF gc] held_reads [OF gc] by blast
qed

lemma dereference_blob:
  assumes gc: "gcOk H db" "gcOk H db'" and h: "held db' h" "h \<noteq> zeroHash" and disk: "db_diskdb db' = db_diskdb db"
    and node: "\<And>c'. map_of (db_dirties db') h = Some c' \<Longrightarrow> \<exists>c. map_of (db_dirties db) h = Some c \<and> cn_node c' = cn_node c"
  shows "dbNodeBlob H db' h = dbNodeBlob H db h"
proof (cases "map_of (db_dirties db') h")
  case (Some c')
  then obtain c where c: "map_of (db_dirties db) h = Some c" "cn_node c' = cn_node c" using node by blast
  then show ?thesis using Some cachedRlp_node [OF c(2), of H] by (simp add: dbNodeBlob_def)
next
  case None
  then obtain b where b: "db_diskdb db h = Some b" using h(1) disk by (auto simp: held_def)
  have "b \<noteq> []" using gc(1) b by (auto simp: gcOk_def diskFull_def)
  show ?thesis
  proof (cases "map_of (db_dirties db) h")
    case (Some c)
    then have "cachedRlp H c = Some b" using gc(1) b unfolding gcOk_def diskAgrees_def by blast
    then show ?thesis using Some None b disk \<open>b \<noteq> []\<close> by (simp add: dbNodeBlob_def)
  qed (use None disk in \<open>simp add: dbNodeBlob_def\<close>)
qed

text \<open>
  C25: dereferencing a root returns; the meta root then references it once less and the other roots as often as before, and each
  node that a remaining root needs reads as before.
\<close>

theorem Dereference_keeps_live:
  assumes "gcRun H db" "\<And>x. rlpEncode H x \<noteq> []" "0 < rootCount db root" "Suc (length (db_dirties db)) < fuel"
  shows "\<exists>db'. dbDereference fuel root db = Ok db' \<and>
     (\<forall>r. rootCount db' r = rootCount db r - (if r = root then 1 else 0)) \<and>
     (\<forall>h. (zeroHash, h) \<in> (liveEdges db')\<^sup>+ \<longrightarrow> dbNodeBlob H db' h = dbNodeBlob H db h \<and> (\<exists>b. dbNodeBlob H db h = Ok b))"
proof -
  have gc: "gcOk H db" using gcRun_ok [OF assms(2)] assms(1) by blast
  obtain db' where d: "dbDereference fuel root db = Ok db'" "gcOk H db'"
      "\<forall>r. rootCount db' r = rootCount db r - (if r = root then 1 else 0)" "db_diskdb db' = db_diskdb db"
      "\<forall>h c'. map_of (db_dirties db') h = Some c' \<longrightarrow> (\<exists>c. map_of (db_dirties db) h = Some c \<and> cn_node c' = cn_node c)"
    using dereference_outcome [OF gc assms(3,4)] by blast
  have "dbNodeBlob H db' h = dbNodeBlob H db h \<and> (\<exists>b. dbNodeBlob H db h = Ok b)" if r: "(zeroHash, h) \<in> (liveEdges db')\<^sup>+" for h
  proof -
    obtain p where "(p, h) \<in> liveEdges db'" using tranclD2 [OF r] by blast
    then have h: "held db' h" "h \<noteq> zeroHash" using live_reads [OF d(2)] by blast+
    have "dbNodeBlob H db' h = dbNodeBlob H db h" using dereference_blob [OF gc d(2) h d(4)] d(5) by blast
    then show ?thesis using held_reads [OF d(2) h] by auto
  qed
  then show ?thesis using d(1,3) by blast
qed

section \<open>A concrete run\<close>

lemma demo_steps:
  "dbInsert demo0 [1] 40 (ShortN [0x20, 1] (ValueN [7]) (cleanFlag None)) = Some demo1"
  "dbInsert demo1 [2] 50 (ShortN [0, 1] (HashN [1]) (cleanFlag None)) = Some demo2"
  "dbReference demo2 [2] zeroHash = Some demo3" "dbReference demo3 [1] zeroHash = Some demo4"
proof -
  have *: "(case x of None \<Rightarrow> False | Some _ \<Rightarrow> True) \<Longrightarrow> x = Some (the x)" for x :: "Database option" by (cases x) auto
  show "dbInsert demo0 [1] 40 (ShortN [0x20, 1] (ValueN [7]) (cleanFlag None)) = Some demo1"
    unfolding demo1_def by (rule *) code_simp
  show "dbInsert demo1 [2] 50 (ShortN [0, 1] (HashN [1]) (cleanFlag None)) = Some demo2"
    unfolding demo2_def by (rule *) code_simp
  show "dbReference demo2 [2] zeroHash = Some demo3" unfolding demo3_def by (rule *) code_simp
  show "dbReference demo3 [1] zeroHash = Some demo4" unfolding demo4_def by (rule *) code_simp
qed

lemma demo_dirties:
  "db_dirties demo0 = [(zeroHash, metaRoot)]"
  "db_dirties demo1 =
     [(zeroHash, metaRoot),
      ([1], \<lparr>cn_node = RawShort [0x20, 1] (RawValue [7]), cn_size = 40, cn_parents = 0, cn_children = None,
         cn_flushPrev = zeroHash, cn_flushNext = zeroHash\<rparr>)]"
  "db_dirties demo2 =
     [(zeroHash, metaRoot),
      ([1], \<lparr>cn_node = RawShort [0x20, 1] (RawValue [7]), cn_size = 40, cn_parents = 1, cn_children = None,
         cn_flushPrev = zeroHash, cn_flushNext = [2]\<rparr>),
      ([2], \<lparr>cn_node = RawShort [0, 1] (RawHash [1]), cn_size = 50, cn_parents = 0, cn_children = None,
         cn_flushPrev = [1], cn_flushNext = zeroHash\<rparr>)]"
  "db_dirties demo3 =
     [(zeroHash, metaRoot\<lparr>cn_children := Some [([2], 1)]\<rparr>),
      ([1], \<lparr>cn_node = RawShort [0x20, 1] (RawValue [7]), cn_size = 40, cn_parents = 1, cn_children = None,
         cn_flushPrev = zeroHash, cn_flushNext = [2]\<rparr>),
      ([2], \<lparr>cn_node = RawShort [0, 1] (RawHash [1]), cn_size = 50, cn_parents = 1, cn_children = None,
         cn_flushPrev = [1], cn_flushNext = zeroHash\<rparr>)]"
  by code_simp+

lemma dbInsert_disk: "dbInsert db h sz n = Some db' \<Longrightarrow> db_diskdb db' = db_diskdb db"
  by (auto simp: dbInsert_def Let_def split: option.splits if_splits)

lemma demo_disk: "db_diskdb demo0 h = None" "db_diskdb demo1 h = None"
proof -
  show 0: "db_diskdb demo0 h = None" by (simp add: demo0_def NewDatabaseWithCache_def)
  show "db_diskdb demo1 h = None" using dbInsert_disk [OF demo_steps(1)] 0 by simp
qed

lemma demo_kids:
  "kidEdges demo0 = {}" "kidEdges demo1 = {}" "kidEdges demo2 = {([2], [1])}" "kidEdges demo3 = {(zeroHash, [2]), ([2], [1])}"
  by (auto simp: kidEdges_def demo_dirties forChilds_def demo_hashes metaRoot_def split: if_splits)

lemma demo_acyclic: "r \<subseteq> {(zeroHash, [2]), (zeroHash, [1]), ([2], [1])} \<Longrightarrow> acyclic r"
  by (rule acyclicI_order [of _ "\<lambda>h. if h = [1] then 0 else if h = [2] then 1 else 2 :: nat"]) (auto simp: demo_hashes)

lemma demo_run: "gcRun markCrypto demo4"
proof -
  have "gcRun markCrypto demo0" unfolding demo0_def by (rule gcRun.fresh) simp_all
  moreover have "insertable markCrypto demo0 [1] (ShortN [0x20, 1] (ValueN [7]) (cleanFlag None))"
    by (auto simp: insertable_def demo_disk demo_kids demo_dirties metaRoot_def acyclic_def split: if_splits)
  ultimately have "gcRun markCrypto demo1" using demo_steps(1) by (rule gcRun.inserted)
  moreover have "insertable markCrypto demo1 [2] (ShortN [0, 1] (HashN [1]) (cleanFlag None))"
    using demo_acyclic [of "{([2], [1])}"]
    by (auto simp: insertable_def demo_disk demo_kids demo_dirties demo_hashes held_def metaRoot_def split: if_splits)
  ultimately have "gcRun markCrypto demo2" using demo_steps(2) by (rule gcRun.inserted)
  moreover have "referable demo2 [2] zeroHash"
    using demo_acyclic [of "{(zeroHash, [2]), ([2], [1])}"]
    by (auto simp: referable_def demo_kids demo_dirties demo_hashes)
  ultimately have "gcRun markCrypto demo3" using demo_steps(3) by (rule gcRun.referenced)
  moreover have "referable demo3 [1] zeroHash"
    using demo_acyclic [of "{(zeroHash, [1]), (zeroHash, [2]), ([2], [1])}"]
    by (auto simp: referable_def demo_kids demo_dirties demo_hashes)
  ultimately show ?thesis using demo_steps(4) by (rule gcRun.referenced)
qed

lemma demo4_roots: "rootCount demo4 [1] = 1" "rootCount demo4 [2] = 1"
  by (simp_all add: rootCount_def edgeCount_def demo4_db demo_hashes)

lemma roots_stay_readable_witness: "\<exists>b. dbNodeBlob markCrypto demo4 [1] = Ok b"
proof (rule roots_stay_readable [OF demo_run markItem_ne])
  show "(zeroHash, [1]) \<in> (liveEdges demo4)\<^sup>+"
    by (rule r_into_trancl) (simp add: liveEdges_def demo4_roots [unfolded rootCount_def])
qed

lemma Dereference_keeps_live_witness:
  "\<exists>db'. dbDereference 9 [2] demo4 = Ok db' \<and> rootCount db' [2] = 0 \<and> rootCount db' [1] = 1"
  using Dereference_keeps_live [OF demo_run markItem_ne, of "[2]" 9] by (auto simp: demo4_roots demo4_db demo_hashes)

end
