(* ===== verification/Config.thy ===== *)
theory Config
  imports Prelude
begin

text \<open>
  The configuration of a node (\<open>config/config.go\<close>): the topology of reputation shards (ids 1, 2,
  ...) and processing shards (ids 1001, 1002, ...), the assignment of node ids to shards, the
  leaders and the consensus threshold. Node and shard ids are 32-bit words; a map is a function
  to \<open>option\<close>. Reading and writing the configuration as JSON is file input and output.

  The properties: two quorums of the configured threshold share more than a third of the nodes,
  a quorum exists, and on the topologies that the program uses the tables agree: a node is in the
  list of its own shard, at the position that the consensus computes.
\<close>

section \<open>Operations\<close>

record Topology =
  RShardIds :: "u32 list"
  PShardIds :: "(u32 \<times> u32 list) list"

record Config =
  cfg_Version :: string
  cfg_Topo :: Topology
  cfg_Nodes :: "u32 \<rightharpoonup> u32 list"
  cfg_NodeNumPerShard :: u32
  cfg_NodeId :: u32
  cfg_ShardId :: u32
  cfg_RShardId :: u32
  cfg_IsLeader :: bool
  cfg_RShardNum :: u32
  cfg_PShardNum :: u32
  cfg_ConsensusThreshold :: u32
  cfg_Accounts :: "address list"
  cfg_Bootnode :: string

text \<open>\<open>topo.PShardIds[id]\<close>, nil when the key is absent.\<close>

definition pShards :: "Topology \<Rightarrow> u32 \<Rightarrow> u32 list" where
  "pShards topo r = (case map_of (PShardIds topo) r of Some ps \<Rightarrow> ps | None \<Rightarrow> [])"

text \<open>The loops that number the nodes of a list of shards.\<close>

fun nodeRange :: "u32 \<Rightarrow> nat \<Rightarrow> u32 list" where
  "nodeRange counter 0 = []"
| "nodeRange counter (Suc k) = counter # nodeRange (counter + 1) k"

fun assignShards :: "u32 \<Rightarrow> u32 list \<Rightarrow> (u32 \<rightharpoonup> u32 list) \<times> u32 \<Rightarrow> (u32 \<rightharpoonup> u32 list) \<times> u32" where
  "assignShards n [] (nodes, counter) = (nodes, counter)"
| "assignShards n (s # ss) (nodes, counter) =
     assignShards n ss (nodes(s \<mapsto> nodeRange counter (unat n)), counter + n)"

text \<open>\<open>topo.PShardIds[topo.RShardIds[shardId-1]]\<close>; \<open>None\<close> is an index out of range.\<close>

definition pShardsAt :: "Topology \<Rightarrow> u32 \<Rightarrow> u32 list option" where
  "pShardsAt topo shardId =
     (let i = unat (shardId - 1) in
      if i < length (RShardIds topo) then Some (pShards topo (RShardIds topo ! i)) else None)"

definition shardOfNode :: "Topology \<Rightarrow> u32 \<Rightarrow> u32 \<Rightarrow> u32" where
  "shardOfNode topo nodeNumPerShard nodeId =
     (let a = (nodeId - 1) div nodeNumPerShard in
      if unat a < length (RShardIds topo) then a + 1 else a + 1001 - of_nat (length (RShardIds topo)))"

definition rShardOf :: "Topology \<Rightarrow> u32 \<Rightarrow> u32" where
  "rShardOf topo shardId =
     foldl (\<lambda>r R. foldl (\<lambda>r P. if P = shardId then R else r) r (pShards topo R)) 0 (RShardIds topo)"

definition consensusThreshold :: "u32 \<Rightarrow> u32" where
  "consensusThreshold nodeNumPerShard = nodeNumPerShard * 2 div 3 + 1"

text \<open>\<open>None\<close>: an index out of range in the topology, or a division by zero.\<close>

definition NewConfig :: "string \<Rightarrow> Topology \<Rightarrow> u32 \<Rightarrow> u32 \<Rightarrow> address list \<Rightarrow> string \<Rightarrow> Config option" where
  "NewConfig version topo nodeNumPerShard nodeId accounts bootnode =
     (case those (map (pShardsAt topo) (RShardIds topo)) of
        None \<Rightarrow> None
      | Some pss \<Rightarrow>
          if nodeNumPerShard = 0 then None
          else
            let rs = map of_nat [1..<length (RShardIds topo) + 1];
                (nodes, counter) = assignShards nodeNumPerShard rs (Map.empty, 1);
                (nodes, counter) = assignShards nodeNumPerShard (concat pss) (nodes, counter);
                shardId = shardOfNode topo nodeNumPerShard nodeId
            in Some \<lparr>cfg_Version = ''Mitosis-Shard-'' @ version, cfg_Topo = topo, cfg_Nodes = nodes,
                 cfg_NodeNumPerShard = nodeNumPerShard, cfg_NodeId = nodeId, cfg_ShardId = shardId,
                 cfg_RShardId = rShardOf topo shardId, cfg_IsLeader = (nodeId mod nodeNumPerShard = 0),
                 cfg_RShardNum = of_nat (length (RShardIds topo)),
                 cfg_PShardNum = of_nat (length (concat (map (pShards topo) (RShardIds topo)))),
                 cfg_ConsensusThreshold = consensusThreshold nodeNumPerShard,
                 cfg_Accounts = accounts, cfg_Bootnode = bootnode\<rparr>)"

text \<open>
  \<open>getKeyOffset\<close> of the shard states and of the consensus: the first node id of a processing shard.
\<close>

definition getKeyOffset :: "Config \<Rightarrow> u32 \<Rightarrow> u32" where
  "getKeyOffset cfg shardId = (cfg_RShardNum cfg + shardId - 1001) * cfg_NodeNumPerShard cfg + 1"

section \<open>The threshold\<close>

lemma unat_threshold:
  "unat n < 2 ^ 31 \<Longrightarrow> unat (consensusThreshold n) = 2 * unat n div 3 + 1"
proof -
  assume n: "unat n < 2 ^ 31"
  have 2: "unat (n * 2) = 2 * unat n" using n by (simp add: unat_word_ariths)
  have "unat (n * 2 div 3) = 2 * unat n div 3" using 2 by (simp add: unat_div)
  moreover from this have "unat (n * 2 div 3) + 1 < 2 ^ 32" using n by simp
  ultimately show ?thesis by (simp add: consensusThreshold_def unat_word_ariths)
qed

text \<open>
  C39: the threshold is a Byzantine quorum. In a shard of \<open>n\<close> nodes (fewer than
  \<open>2 ^ 31\<close>, beyond which the multiplication wraps), any two sets of at least
  \<open>consensusThreshold n\<close> nodes share more than a third of the nodes, and the \<open>n\<close> nodes together
  reach the threshold.
\<close>

theorem quorums_intersect:
  assumes "unat n < 2 ^ 31" "n \<noteq> 0" "A \<subseteq> V" "B \<subseteq> V" "finite V" "card V = unat n"
    and "unat (consensusThreshold n) \<le> card A" "unat (consensusThreshold n) \<le> card B"
  shows "unat n < 3 * card (A \<inter> B) \<and> unat (consensusThreshold n) \<le> unat n"
proof -
  have fin: "finite A" "finite B" using assms(3-5) finite_subset by auto
  have "card (A \<union> B) \<le> unat n" using assms(3-6) card_mono [of V "A \<union> B"] by simp
  moreover have "card A + card B = card (A \<union> B) + card (A \<inter> B)" by (rule card_Un_Int [OF fin])
  ultimately have "2 * (2 * unat n div 3 + 1) \<le> unat n + card (A \<inter> B)"
    using assms(7,8) unat_threshold [OF assms(1)] by simp
  moreover have "0 < unat n" using assms(2) by (simp add: unat_gt_0)
  ultimately show ?thesis using unat_threshold [OF assms(1)] by (intro conjI; presburger)
qed

theorem quorums_intersect_witness:
  "unat (4 :: u32) < 3 * card ({0, 1, 2 :: nat} \<inter> {1, 2, 3}) \<and> unat (consensusThreshold 4) \<le> unat (4 :: u32)"
  by (rule quorums_intersect [of 4 "{0, 1, 2}" "{0, 1, 2, 3}" "{1, 2, 3}"]) (simp_all add: consensusThreshold_def)

section \<open>The assignment of nodes to shards\<close>

lemma nodeRange_eq: "nodeRange c k = map (\<lambda>i. c + of_nat i) [0..<k]"
proof (induction k arbitrary: c)
  case (Suc k)
  have "map (\<lambda>i. c + of_nat i) [0..<Suc k] = c # map (\<lambda>i. c + of_nat (Suc i)) [0..<k]"
    by (simp add: map_upt_Suc del: upt_Suc of_nat_Suc)
  then show ?case using Suc.IH [of "c + 1"] by (simp add: algebra_simps del: upt_Suc)
qed simp

lemma assignShards_other: "s \<notin> set ss \<Longrightarrow> fst (assignShards n ss (m, c)) s = m s"
  by (induction ss arbitrary: m c) auto

lemma assignShards_counter: "snd (assignShards n ss (m, c)) = c + of_nat (length ss) * n"
  by (induction ss arbitrary: m c) (auto simp: algebra_simps)

lemma assignShards_at:
  "distinct ss \<Longrightarrow> k < length ss \<Longrightarrow>
     fst (assignShards n ss (m, c)) (ss ! k) = Some (nodeRange (c + of_nat k * n) (unat n))"
proof (induction ss arbitrary: m c k)
  case (Cons s ss)
  show ?case
  proof (cases k)
    case 0
    then show ?thesis using Cons.prems(1) by (simp add: assignShards_other)
  next
    case (Suc j)
    have at: "c + n + of_nat j * n = c + of_nat k * n" by (simp add: Suc algebra_simps)
    have "fst (assignShards n (s # ss) (m, c)) ((s # ss) ! k) = Some (nodeRange (c + n + of_nat j * n) (unat n))"
      using Suc Cons.prems by (simp add: Cons.IH)
    then show ?thesis unfolding at .
  qed
qed simp

text \<open>
  The topologies of the program: at most 1000 reputation shards, numbered from 1, and processing
  shards that are numbered from 1001 in the order of their reputation shards.
\<close>

definition standard :: "Topology \<Rightarrow> nat \<Rightarrow> nat \<Rightarrow> bool" where
  "standard topo R P \<longleftrightarrow> R \<le> 1000 \<and> RShardIds topo = map of_nat [1..<R + 1] \<and>
     concat (map (pShards topo) (RShardIds topo)) = map of_nat [1001..<1001 + P]"

lemma those_Some: "(\<And>x. x \<in> set xs \<Longrightarrow> f x = Some (g x)) \<Longrightarrow> those (map f xs) = Some (map g xs)"
  by (induction xs) auto

lemma standard_pShards:
  assumes "standard topo R P"
  shows "those (map (pShardsAt topo) (RShardIds topo)) = Some (map (pShards topo) (RShardIds topo))"
proof (rule those_Some)
  fix r assume "r \<in> set (RShardIds topo)"
  then obtain x where x: "r = of_nat x" "1 \<le> x" "x < R + 1" using assms by (auto simp: standard_def simp del: upt_Suc)
  define k where "k = x - 1"
  have k: "r = of_nat (k + 1)" "k < R" using x by (simp_all add: k_def)
  then have "unat (r - 1) = k" using assms by (simp add: standard_def)
  then show "pShardsAt topo r = Some (pShards topo r)"
    using assms k by (simp add: pShardsAt_def standard_def Let_def del: upt_Suc)
qed

lemma standard_distinct:
  assumes "standard topo R P" "R + P < 2 ^ 32 - 1001"
  shows "distinct (map of_nat [1..<R + 1] :: u32 list)" "distinct (map of_nat [1001..<1001 + P] :: u32 list)"
    and "k < R \<Longrightarrow> (of_nat (k + 1) :: u32) \<notin> set (map of_nat [1001..<1001 + P])"
proof -
  have inj: "inj_on (of_nat :: nat \<Rightarrow> u32) {0..<2 ^ 32}" by (auto simp: inj_on_def of_nat_u32_eq_iff)
  show "distinct (map of_nat [1..<R + 1] :: u32 list)" "distinct (map of_nat [1001..<1001 + P] :: u32 list)"
    using assms by (auto simp: distinct_map standard_def simp del: upt_Suc intro!: inj_on_subset [OF inj])
  assume "k < R"
  then show "(of_nat (k + 1) :: u32) \<notin> set (map of_nat [1001..<1001 + P])"
  proof -
    have "(of_nat (k + 1) :: u32) \<noteq> of_nat x" if "1001 \<le> x" "x < 1001 + P" for x
      using assms that \<open>k < R\<close> of_nat_u32_eq_iff [of "k + 1" x] by (simp add: standard_def del: of_nat_add)
    then show ?thesis by (simp add: image_iff del: of_nat_add of_nat_Suc)
  qed
qed

lemma NewConfig_nodes:
  assumes "standard topo R P" "n \<noteq> 0" "(R + P) * unat n < 2 ^ 32 - 1001" "k < R + P"
  shows "\<exists>c. NewConfig v topo n nodeId as boot = Some c \<and> cfg_NodeNumPerShard c = n \<and> cfg_NodeId c = nodeId \<and>
     cfg_RShardNum c = of_nat R \<and> cfg_ShardId c = shardOfNode topo n nodeId \<and> (cfg_IsLeader c \<longleftrightarrow> nodeId mod n = 0) \<and>
     cfg_Nodes c (if k < R then of_nat (k + 1) else of_nat (1001 + (k - R))) = Some (nodeRange (1 + of_nat k * n) (unat n))"
proof -
  let ?rs = "map of_nat [1..<R + 1] :: u32 list" and ?ps = "map of_nat [1001..<1001 + P] :: u32 list"
  have "R + P \<le> (R + P) * unat n" using assms(2) by (simp add: unat_eq_zero [symmetric] del: unat_eq_zero)
  then have bound: "R + P < 2 ^ 32 - 1001" using assms(3) by linarith
  note dist = standard_distinct [OF assms(1) bound]
  have len: "RShardIds topo = ?rs" "concat (map (pShards topo) (RShardIds topo)) = ?ps" "length (RShardIds topo) = R"
    using assms(1) unfolding standard_def by (blast, blast, simp)
  obtain m c where m: "assignShards n ?rs (Map.empty, 1) = (m, c)" by (cases "assignShards n ?rs (Map.empty, 1)")
  have c: "c = 1 + of_nat R * n" using assignShards_counter [of n ?rs Map.empty 1] m by (simp del: upt_Suc)
  obtain m' c' where m': "assignShards n ?ps (m, c) = (m', c')" by (cases "assignShards n ?ps (m, c)")
  have "m' (if k < R then of_nat (k + 1) else of_nat (1001 + (k - R))) = Some (nodeRange (1 + of_nat k * n) (unat n))"
  proof (cases "k < R")
    case True
    have at: "?rs ! k = of_nat (k + 1)" using True by (simp del: upt_Suc)
    have "m (of_nat (k + 1)) = Some (nodeRange (1 + of_nat k * n) (unat n))"
      using assignShards_at [OF dist(1), of k n Map.empty 1] True m unfolding at by (simp del: upt_Suc of_nat_add)
    then show ?thesis
      using True assignShards_other [OF dist(3) [OF True], of n m c] m' by (simp del: of_nat_add)
  next
    case False
    then have at: "?ps ! (k - R) = of_nat (1001 + (k - R))" using assms(4) by (simp del: upt_Suc)
    have "c + of_nat (k - R) * n = 1 + of_nat k * n" using False by (simp add: c of_nat_diff algebra_simps)
    then show ?thesis using assignShards_at [OF dist(2), of "k - R" n m c] False assms(4) m' unfolding at by (simp del: upt_Suc)
  qed
  then show ?thesis
    using standard_pShards [OF assms(1)] assms(2) m m'
    by (simp add: NewConfig_def len(2,3) Let_def del: upt_Suc of_nat_add)
qed

text \<open>
  C40: the tables of the configuration agree. On a topology of the program and for every
  node id up to the number of nodes, \<open>NewConfig\<close> returns (no index is out of range), the node is in the
  node list of its own shard, it is a leader exactly when it is the last of that list, and for a
  processing shard the list starts at \<open>getKeyOffset\<close>, from which the consensus translates between
  node ids and positions in a bitmap.
\<close>

theorem node_in_its_shard:
  assumes "standard topo R P" "n \<noteq> 0" "(R + P) * unat n < 2 ^ 32 - 1001"
    and "0 < unat nodeId" "unat nodeId \<le> (R + P) * unat n"
  shows "\<exists>c ids. NewConfig v topo n nodeId as boot = Some c \<and> cfg_Nodes c (cfg_ShardId c) = Some ids \<and>
     length ids = unat n \<and> nodeId \<in> set ids \<and> (cfg_IsLeader c \<longleftrightarrow> nodeId = last ids) \<and>
     (1000 < cfg_ShardId c \<longrightarrow> ids = map (\<lambda>i. getKeyOffset c (cfg_ShardId c) + of_nat i) [0..<unat n])"
proof -
  define N where "N = unat n"
  define k where "k = (unat nodeId - 1) div N"
  define j where "j = (unat nodeId - 1) mod N"
  have N: "0 < N" using assms(2) by (simp add: N_def unat_gt_0)
  have id: "unat nodeId = k * N + j + 1" "j < N" using assms(4) N by (simp_all add: k_def j_def)
  have n: "n = of_nat N" "N < 2 ^ 32" using unat_u32_less [of n] by (auto simp only: N_def unsigned_of_nat word_of_nat_eq_iff of_nat_unat ucast_id)
  have "k * N < (R + P) * N" using id assms(5) unfolding N_def by linarith
  then have k: "k < R + P" by simp
  define shard :: u32 where "shard = (if k < R then of_nat (k + 1) else of_nat (1001 + (k - R)))"
  have R: "length (RShardIds topo) = R" "R \<le> 1000" using assms(1) by (simp_all add: standard_def)
  have "nodeId \<noteq> 0" using assms(4) by auto
  then have "unat ((nodeId - 1) div n) = k" by (simp add: unat_div unat_minus_one k_def N_def)
  then have "(nodeId - 1) div n = of_nat k" "unat ((nodeId - 1) div n) = k" by auto
  then have shard: "shardOfNode topo n nodeId = shard"
    by (auto simp: shardOfNode_def shard_def R(1) of_nat_diff not_less)
  have nodeId: "nodeId = 1 + of_nat k * n + of_nat j"
  proof -
    have "nodeId = of_nat (k * N + j + 1)" using id(1) by (metis of_nat_unat ucast_id)
    then show ?thesis by (simp add: n)
  qed
  obtain c where c: "NewConfig v topo n nodeId as boot = Some c" "cfg_NodeNumPerShard c = n"
      "cfg_RShardNum c = of_nat R" "cfg_ShardId c = shard" "cfg_IsLeader c \<longleftrightarrow> nodeId mod n = 0"
      "cfg_Nodes c shard = Some (nodeRange (1 + of_nat k * n) N)"
    using NewConfig_nodes [OF assms(1-3) k, of v nodeId as boot] unfolding shard shard_def [symmetric] N_def [symmetric]
    by (elim exE conjE) (rule that)
  let ?ids = "nodeRange (1 + of_nat k * n) N"
  have mem: "nodeId \<in> set ?ids" using id(2) by (auto simp: nodeRange_eq nodeId)
  have "last ?ids = 1 + of_nat k * n + of_nat (N - 1)"
    using N by (simp add: nodeRange_eq last_map)
  then have "nodeId = last ?ids \<longleftrightarrow> (of_nat j :: u32) = of_nat (N - 1)" by (simp add: nodeId)
  also have "\<dots> \<longleftrightarrow> j + 1 = N" using id(2) n(2) by (subst of_nat_u32_eq_iff) auto
  also have "\<dots> \<longleftrightarrow> unat nodeId mod N = 0"
  proof -
    have "unat nodeId mod N = (j + 1) mod N" unfolding id(1) by (simp only: add.assoc mod_mult_self3)
    then show ?thesis using id(2) by (cases "j + 1 = N") auto
  qed
  also have "\<dots> \<longleftrightarrow> nodeId mod n = 0" by (simp add: unat_mod N_def unat_eq_zero [symmetric] del: unat_eq_zero)
  finally have leader: "cfg_IsLeader c \<longleftrightarrow> nodeId = last ?ids" using c(5) by simp
  have "?ids = map (\<lambda>i. getKeyOffset c shard + of_nat i) [0..<N]" if "1000 < shard"
  proof -
    have "\<not> k < R"
    proof
      assume "k < R"
      then have "shard \<le> 1000" using R(2) unat_of_nat_u32 [of "k + 1"] by (simp add: shard_def word_le_nat_alt del: of_nat_add)
      then show False using that by simp
    qed
    then have "of_nat R + shard - 1001 = (of_nat k :: u32)" by (simp add: shard_def of_nat_diff)
    then show ?thesis by (simp add: nodeRange_eq getKeyOffset_def c(2,3) add.commute)
  qed
  then show ?thesis using c mem leader by (auto simp: N_def nodeRange_eq)
qed

text \<open>Two reputation shards with three processing shards and four nodes each.\<close>

definition smallTopo :: Topology where
  "smallTopo = \<lparr>RShardIds = [1, 2], PShardIds = [(1, [1001]), (2, [1002, 1003])]\<rparr>"

theorem node_in_its_shard_witness:
  "\<exists>c ids. NewConfig [] smallTopo 4 18 [] [] = Some c \<and> cfg_Nodes c (cfg_ShardId c) = Some ids \<and> length ids = 4 \<and> 18 \<in> set ids"
proof -
  have "standard smallTopo 2 3" by (simp add: standard_def smallTopo_def pShards_def upt_rec)
  from node_in_its_shard [OF this, of 4 18 "[]" "[]" "[]"] show ?thesis by auto
qed

end
