(* ===== verification/Bls.thy ===== *)
theory Bls
  imports Bitmap Config "HOL-Library.Multiset"
begin

text \<open>
  Signatures (\<open>bls/bls.go\<close>, \<open>bls/pubkeydb.go\<close>). The BLS library itself is third-party code: a
  record \<open>blsLib\<close> of its functions, which every definition takes. The library's methods that fill
  a variable (\<open>Deserialize\<close>) are functions to the value that is left in it, because the callers
  ignore the error. The public keys of a shard are a map from node ids, the store a map from shard
  ids; the certificate file that fills it is an argument. Key generation and the key files are
  input and output.

  What is relied on of the library is \<open>blsOk\<close>: a signature verifies under the signer's key and not
  under a nil key, keys
  add up as a commutative monoid, and signatures of one message on two keys add up to a signature
  on the sum of the keys. Under it an aggregate of valid signatures is valid for the bitmap of its
  signers (\<open>aggregate_merge\<close>, \<open>aggregate_verifies\<close>).
\<close>

section \<open>The library\<close>

record ('sec, 'pub, 'sig) blsLib =
  SignByte :: "'sec \<Rightarrow> bytes \<Rightarrow> 'sig"
  sigSerialize :: "'sig \<Rightarrow> bytes"
  sigDeserialize :: "bytes \<Rightarrow> 'sig"
  sigAdd :: "'sig \<Rightarrow> 'sig \<Rightarrow> 'sig"
  VerifyByte :: "'sig \<Rightarrow> 'pub option \<Rightarrow> bytes \<Rightarrow> bool"
  GetPublicKey :: "'sec \<Rightarrow> 'pub"
  pubZero :: 'pub
  pubAdd :: "'pub \<Rightarrow> 'pub \<Rightarrow> 'pub"
  pubSerialize :: "'pub \<Rightarrow> bytes"
  pubDeserialize :: "bytes \<Rightarrow> 'pub option"
  pubOfHex :: "string \<Rightarrow> 'pub"

section \<open>Public keys\<close>

type_synonym 'pub PubKeyDB = "u32 \<rightharpoonup> 'pub"

definition NewPubKeyDB :: "'pub PubKeyDB" where
  "NewPubKeyDB = Map.empty"

definition dbAdd :: "('sec, 'pub, 'sig) blsLib \<Rightarrow> 'pub PubKeyDB \<Rightarrow> u32 \<Rightarrow> bytes \<Rightarrow> bool \<times> 'pub PubKeyDB" where
  "dbAdd L p nodeId pubByte =
     (case pubDeserialize L pubByte of
        None \<Rightarrow> (False, p)
      | Some pubKey \<Rightarrow> (p nodeId = None, p(nodeId \<mapsto> pubKey)))"

text \<open>A missing key is logged and left out of the sum.\<close>

definition dbAggregate :: "('sec, 'pub, 'sig) blsLib \<Rightarrow> 'pub PubKeyDB \<Rightarrow> Bitmap \<Rightarrow> u32 \<Rightarrow> 'pub" where
  "dbAggregate L p bitmap offset =
     foldl (\<lambda>acc i. case p (i + offset) of Some pbk \<Rightarrow> pubAdd L acc pbk | None \<Rightarrow> acc) (pubZero L) (GetElement bitmap)"

definition dbGetPubKey :: "'pub PubKeyDB \<Rightarrow> u32 \<Rightarrow> 'pub option" where
  "dbGetPubKey p nodeId = p nodeId"

text \<open>\<open>cert\<close> is the content of the certificate file, \<open>None\<close> when it cannot be read.\<close>

definition dbReset :: "('sec, 'pub, 'sig) blsLib \<Rightarrow> (u32 \<rightharpoonup> string) option \<Rightarrow> 'pub PubKeyDB \<Rightarrow> u32 list \<Rightarrow> 'pub PubKeyDB" where
  "dbReset L cert p nodeIds =
     (case cert of
        None \<Rightarrow> p
      | Some m \<Rightarrow> foldl (\<lambda>p nodeId. p(nodeId \<mapsto> pubOfHex L (case m nodeId of Some h \<Rightarrow> h | None \<Rightarrow> []))) p nodeIds)"

type_synonym 'pub PubKeyStore = "u32 \<rightharpoonup> 'pub PubKeyDB"

text \<open>\<open>None\<close>: an index out of range in the topology.\<close>

definition NewPubKeyStore :: "Topology \<Rightarrow> 'pub PubKeyStore option" where
  "NewPubKeyStore topo =
     (case those (map (pShardsAt topo) (RShardIds topo)) of
        None \<Rightarrow> None
      | Some pss \<Rightarrow>
          Some (foldl (\<lambda>m s. m(s \<mapsto> NewPubKeyDB)) Map.empty
            (map of_nat [0..<length (RShardIds topo) + 1] @ concat pss)))"

definition AddPubKey :: "('sec, 'pub, 'sig) blsLib \<Rightarrow> 'pub PubKeyStore \<Rightarrow> u32 \<Rightarrow> u32 \<Rightarrow> bytes \<Rightarrow> bool \<times> 'pub PubKeyStore" where
  "AddPubKey L p shardId nodeId pubByte =
     (let pubKeyDB = (case p shardId of Some d \<Rightarrow> d | None \<Rightarrow> NewPubKeyDB);
          (addNewKey, pubKeyDB) = dbAdd L pubKeyDB nodeId pubByte
      in (addNewKey, p(shardId \<mapsto> pubKeyDB)))"

definition GetAggregatePubKey :: "('sec, 'pub, 'sig) blsLib \<Rightarrow> 'pub PubKeyStore \<Rightarrow> u32 \<Rightarrow> Bitmap \<Rightarrow> u32 \<Rightarrow> 'pub option" where
  "GetAggregatePubKey L p shardId bitmap offset =
     (case p shardId of None \<Rightarrow> None | Some d \<Rightarrow> Some (dbAggregate L d bitmap offset))"

definition GetPubKey :: "'pub PubKeyStore \<Rightarrow> u32 \<Rightarrow> u32 \<Rightarrow> 'pub option" where
  "GetPubKey p shardId nodeId = (case p shardId of None \<Rightarrow> None | Some d \<Rightarrow> dbGetPubKey d nodeId)"

text \<open>Every shard in \<open>nodes\<close> is reset on its own, so the order of Go's map iteration does not matter.\<close>

definition storeReset :: "('sec, 'pub, 'sig) blsLib \<Rightarrow> (u32 \<rightharpoonup> string) option \<Rightarrow> 'pub PubKeyStore \<Rightarrow> (u32 \<rightharpoonup> u32 list) \<Rightarrow>
    'pub PubKeyStore" where
  "storeReset L cert p nodes shardId =
     (case nodes shardId of
        None \<Rightarrow> p shardId
      | Some nodeIds \<Rightarrow> Some (dbReset L cert (case p shardId of Some d \<Rightarrow> d | None \<Rightarrow> NewPubKeyDB) nodeIds))"

section \<open>Signing and verifying\<close>

record ('sec, 'pub) BLSKeyPair =
  kp_Sec :: 'sec
  kp_Pub :: 'pub

record ('sec, 'pub) BLS =
  KeyPair :: "('sec, 'pub) BLSKeyPair"
  PubKeys :: "'pub PubKeyStore"

definition NewBLS :: "('sec, 'pub, 'sig) blsLib \<Rightarrow> (u32 \<rightharpoonup> string) option \<Rightarrow> ('sec, 'pub) BLSKeyPair \<Rightarrow> Topology \<Rightarrow>
    (u32 \<rightharpoonup> u32 list) \<Rightarrow> ('sec, 'pub) BLS option" where
  "NewBLS L cert kp topo nodes =
     map_option (\<lambda>pubKeys. \<lparr>KeyPair = kp, PubKeys = storeReset L cert pubKeys nodes\<rparr>) (NewPubKeyStore topo)"

definition blsSign :: "('sec, 'pub, 'sig) blsLib \<Rightarrow> ('sec, 'pub) BLS \<Rightarrow> bytes \<Rightarrow> 'sig" where
  "blsSign L b msg = SignByte L (kp_Sec (KeyPair b)) msg"

definition SignBytes :: "('sec, 'pub, 'sig) blsLib \<Rightarrow> ('sec, 'pub) BLS \<Rightarrow> bytes \<Rightarrow> bytes" where
  "SignBytes L b msg = sigSerialize L (SignByte L (kp_Sec (KeyPair b)) msg)"

definition blsAddPubKey :: "('sec, 'pub, 'sig) blsLib \<Rightarrow> ('sec, 'pub) BLS \<Rightarrow> u32 \<Rightarrow> u32 \<Rightarrow> bytes \<Rightarrow> bool \<times> ('sec, 'pub) BLS" where
  "blsAddPubKey L b shardId nodeId pubByte =
     (case AddPubKey L (PubKeys b) shardId nodeId pubByte of (r, p) \<Rightarrow> (r, b\<lparr>PubKeys := p\<rparr>))"

definition VerifyAggregateSig :: "('sec, 'pub, 'sig) blsLib \<Rightarrow> ('sec, 'pub) BLS \<Rightarrow> bytes \<Rightarrow> bytes \<Rightarrow> Bitmap \<Rightarrow> u32 \<Rightarrow> u32 \<Rightarrow> bool" where
  "VerifyAggregateSig L b sigBytes msg bitmap shardId offset =
     VerifyByte L (sigDeserialize L sigBytes) (GetAggregatePubKey L (PubKeys b) shardId bitmap offset) msg"

definition VerifySign :: "('sec, 'pub, 'sig) blsLib \<Rightarrow> ('sec, 'pub) BLS \<Rightarrow> bytes \<Rightarrow> bytes \<Rightarrow> u32 \<Rightarrow> u32 \<Rightarrow> bool" where
  "VerifySign L b sigBytes msg nodeId shardId =
     VerifyByte L (sigDeserialize L sigBytes) (GetPubKey (PubKeys b) shardId nodeId) msg"

definition blsGetPubKey :: "('sec, 'pub, 'sig) blsLib \<Rightarrow> ('sec, 'pub) BLS \<Rightarrow> bytes" where
  "blsGetPubKey L b = pubSerialize L (kp_Pub (KeyPair b))"

text \<open>\<open>None\<close>: the method call on a nil key.\<close>

definition GetPubKeyWithNodeId :: "('sec, 'pub, 'sig) blsLib \<Rightarrow> ('sec, 'pub) BLS \<Rightarrow> u32 \<Rightarrow> u32 \<Rightarrow> bytes option" where
  "GetPubKeyWithNodeId L b shardId nodeId = map_option (pubSerialize L) (GetPubKey (PubKeys b) shardId nodeId)"

section \<open>Aggregation\<close>

definition blsOk :: "('sec, 'pub, 'sig) blsLib \<Rightarrow> bool" where
  "blsOk L \<longleftrightarrow>
     (\<forall>s. sigDeserialize L (sigSerialize L s) = s) \<and>
     (\<forall>k m. VerifyByte L (SignByte L k m) (Some (GetPublicKey L k)) m) \<and>
     (\<forall>s m. \<not> VerifyByte L s None m) \<and>
     (\<forall>a b. pubAdd L a b = pubAdd L b a) \<and>
     (\<forall>a b c. pubAdd L (pubAdd L a b) c = pubAdd L a (pubAdd L b c)) \<and>
     (\<forall>a. pubAdd L a (pubZero L) = a) \<and>
     (\<forall>s t a b m. VerifyByte L s (Some a) m \<longrightarrow> VerifyByte L t (Some b) m \<longrightarrow>
        VerifyByte L (sigAdd L s t) (Some (pubAdd L a b)) m)"

lemma blsOkD:
  assumes "blsOk L"
  shows "sigDeserialize L (sigSerialize L s) = s" "VerifyByte L (SignByte L k m) (Some (GetPublicKey L k)) m"
    and "\<not> VerifyByte L s None m"
    and "pubAdd L a b = pubAdd L b a" "pubAdd L (pubAdd L a b) c = pubAdd L a (pubAdd L b c)" "pubAdd L a (pubZero L) = a"
    and "VerifyByte L s (Some a) m \<Longrightarrow> VerifyByte L t (Some b) m \<Longrightarrow> VerifyByte L (sigAdd L s t) (Some (pubAdd L a b)) m"
  using assms unfolding blsOk_def by blast+

text \<open>The sum of the keys depends on the set of signers only.\<close>

definition keyStep :: "('sec, 'pub, 'sig) blsLib \<Rightarrow> 'pub PubKeyDB \<Rightarrow> u32 \<Rightarrow> u32 \<Rightarrow> 'pub \<Rightarrow> 'pub" where
  "keyStep L p offset i acc = (case p (i + offset) of Some pbk \<Rightarrow> pubAdd L acc pbk | None \<Rightarrow> acc)"

lemma dbAggregate_fold: "dbAggregate L p bitmap offset = fold (keyStep L p offset) (GetElement bitmap) (pubZero L)"
proof -
  have "(\<lambda>acc i. case p (i + offset) of Some pbk \<Rightarrow> pubAdd L acc pbk | None \<Rightarrow> acc) = (\<lambda>acc i. keyStep L p offset i acc)"
    by (simp add: keyStep_def fun_eq_iff)
  then show ?thesis by (simp add: dbAggregate_def foldl_conv_fold)
qed

lemma keyStep_commute:
  assumes "blsOk L"
  shows "keyStep L p offset i (keyStep L p offset j acc) = keyStep L p offset j (keyStep L p offset i acc)"
proof -
  have "pubAdd L (pubAdd L acc a) b = pubAdd L (pubAdd L acc b) a" for a b
    using blsOkD(5) [OF assms, of acc] blsOkD(4) [OF assms, of a b] by simp
  then show ?thesis by (auto simp: keyStep_def split: option.splits)
qed

lemma fold_perm:
  assumes "blsOk L" "mset xs = mset ys"
  shows "fold (keyStep L p offset) xs z = fold (keyStep L p offset) ys z"
proof (rule fold_permuted_eq [where P = "\<lambda>_. True"])
  show "mset xs = mset ys" by (rule assms(2))
qed (use keyStep_commute [OF assms(1)] in \<open>auto simp: fun_eq_iff\<close>)

lemma mset_GetElement:
  assumes "length b \<le> 2 ^ 28" "length b' \<le> 2 ^ 28" "keys b' = insert k (keys b)" "k \<notin> keys b"
  shows "mset (GetElement b') = mset (GetElement b @ [of_nat k])"
proof -
  have el: "distinct (GetElement x) \<and> set (GetElement x) = of_nat ` keys x" if "length x \<le> 2 ^ 28" for x
  proof -
    have "inj_on (of_nat :: nat \<Rightarrow> u32) (keys x)"
      using that keys_bound [of _ x] by (auto simp: inj_on_def of_nat_u32_eq_iff dest!: keys_bound)
    then show ?thesis by (simp add: GetElement_keyList distinct_map set_keyList distinct_keyList)
  qed
  have "(of_nat k :: u32) \<notin> of_nat ` keys b"
  proof
    assume "(of_nat k :: u32) \<in> of_nat ` keys b"
    then obtain j where j: "j \<in> keys b" "(of_nat k :: u32) = of_nat j" by auto
    have "k \<in> keys b'" using assms(3) by simp
    then have "k < 2 ^ 32" "j < 2 ^ 32" using keys_bound [of k b'] keys_bound [OF j(1)] assms(1,2) by auto
    then show False using j assms(4) of_nat_u32_eq_iff by blast
  qed
  then have "set_mset (mset (GetElement b')) = set_mset (mset (GetElement b @ [of_nat k]))" "distinct (GetElement b @ [of_nat k])"
    using el [OF assms(1)] el [OF assms(2)] assms(3) by auto
  then show ?thesis using el [OF assms(2)] by (simp only: set_eq_iff_mset_eq_distinct [symmetric] set_mset_mset)
qed

lemma dbAggregate_insert:
  assumes "blsOk L" "length b \<le> 2 ^ 28" "length b' \<le> 2 ^ 28" "keys b' = insert k (keys b)" "k \<notin> keys b"
    and "p (of_nat k + offset) = Some pbk"
  shows "dbAggregate L p b' offset = pubAdd L (dbAggregate L p b offset) pbk"
  using fold_perm [OF assms(1) mset_GetElement [OF assms(2-5)]] assms(6)
  by (simp add: dbAggregate_fold keyStep_def)

lemma dbAggregate_empty: "keys b = {} \<Longrightarrow> dbAggregate L p b offset = pubZero L"
  using set_keyList [of b] by (simp add: dbAggregate_fold GetElement_keyList)

text \<open>A signature is the aggregate of a bitmap of signers.\<close>

definition aggregateOf :: "('sec, 'pub, 'sig) blsLib \<Rightarrow> ('sec, 'pub) BLS \<Rightarrow> u32 \<Rightarrow> u32 \<Rightarrow> bytes \<Rightarrow> Bitmap \<Rightarrow> 'sig \<Rightarrow> bool" where
  "aggregateOf L b shardId offset msg bitmap sig \<longleftrightarrow>
     VerifyByte L sig (GetAggregatePubKey L (PubKeys b) shardId bitmap offset) msg"

lemma aggregate_verifies:
  "blsOk L \<Longrightarrow> aggregateOf L b shardId offset msg bitmap sig \<Longrightarrow>
     VerifyAggregateSig L b (sigSerialize L sig) msg bitmap shardId offset"
  by (simp add: aggregateOf_def VerifyAggregateSig_def blsOkD(1))

lemma verify_known:
  assumes "blsOk L" "VerifyByte L sig (GetPubKey p shardId nodeId) msg"
  obtains d pbk where "p shardId = Some d" "d nodeId = Some pbk" "VerifyByte L sig (Some pbk) msg"
proof (cases "GetPubKey p shardId nodeId")
  case None
  then show ?thesis using assms blsOkD(3) [OF assms(1)] by simp
next
  case (Some pbk)
  then show ?thesis using assms(2) that by (auto simp: GetPubKey_def dbGetPubKey_def split: option.splits)
qed

lemma aggregate_single:
  assumes "blsOk L" "keys x = {k}" "length x \<le> 2 ^ 28" "VerifyByte L sig (GetPubKey (PubKeys b) shardId (of_nat k + offset)) msg"
  shows "aggregateOf L b shardId offset msg x sig"
proof -
  obtain d pbk where d: "PubKeys b shardId = Some d" "d (of_nat k + offset) = Some pbk" "VerifyByte L sig (Some pbk) msg"
    by (rule verify_known [OF assms(1,4)])
  have "dbAggregate L d x offset = pubAdd L (dbAggregate L d [] offset) pbk"
    by (rule dbAggregate_insert [OF assms(1) _ assms(3), where k = k]) (use assms(2) d(2) in \<open>auto simp: keys_def\<close>)
  also have "\<dots> = pbk" using dbAggregate_empty [of "[]" L d offset] blsOkD(4,6) [OF assms(1)] by (simp add: keys_def)
  finally show ?thesis using d by (simp add: aggregateOf_def GetAggregatePubKey_def)
qed

lemma aggregate_merge:
  assumes "blsOk L" "aggregateOf L b shardId offset msg bitmap sig" "length bitmap = length x" "length x \<le> 2 ^ 28"
    and "keys x = {k}" "k \<notin> keys bitmap" "VerifySign L b sigBytes msg (of_nat k + offset) shardId"
  shows "aggregateOf L b shardId offset msg (fst (Merge bitmap x)) (sigAdd L sig (sigDeserialize L sigBytes))"
proof -
  obtain d pbk where d: "PubKeys b shardId = Some d" "d (of_nat k + offset) = Some pbk"
      "VerifyByte L (sigDeserialize L sigBytes) (Some pbk) msg"
    by (rule verify_known [OF assms(1) assms(7) [unfolded VerifySign_def]])
  have "keys (fst (Merge bitmap x)) = insert k (keys bitmap)" using keys_Merge [of bitmap x] assms(3,5) by auto
  then have "dbAggregate L d (fst (Merge bitmap x)) offset = pubAdd L (dbAggregate L d bitmap offset) pbk"
    by (intro dbAggregate_insert [OF assms(1), where k = k]) (use assms(3,4,6) d(2) in auto)
  then show ?thesis using blsOkD(7) [OF assms(1) _ d(3)] assms(2) d(1)
    by (simp add: aggregateOf_def GetAggregatePubKey_def)
qed

text \<open>A library that satisfies the laws: a signature is the message with a number, which is the key.\<close>

definition sumLib :: "(byte, byte, bytes \<times> byte) blsLib" where
  "sumLib = \<lparr>SignByte = (\<lambda>k m. (m, k)), sigSerialize = (\<lambda>(m, s). s # m),
     sigDeserialize = (\<lambda>bs. case bs of [] \<Rightarrow> ([], 0) | s # m \<Rightarrow> (m, s)), sigAdd = (\<lambda>(m, s) (m', t). (m, s + t)),
     VerifyByte = (\<lambda>(m', s) p m. p = Some s \<and> m' = m), GetPublicKey = (\<lambda>k. k), pubZero = 0, pubAdd = (+),
     pubSerialize = (\<lambda>p. [p]), pubDeserialize = (\<lambda>bs. case bs of [p] \<Rightarrow> Some p | _ \<Rightarrow> None),
     pubOfHex = (\<lambda>h. of_nat (length h))\<rparr>"

lemma sumLib_ok: "blsOk sumLib"
  by (auto simp: blsOk_def sumLib_def)

end
