(* ===== verification/TxPool.thy ===== *)
theory TxPool
  imports Types Config
begin

text \<open>
  The transaction pool (\<open>core/txpool.go\<close>): pending transactions, which the node generates at
  random, and pending chunks from other shards, which have priority. A draw of the random number
  generators is an argument (\<open>draw\<close>: destination, sender, receiver, data), as are RLP and Keccak.
  \<open>None\<close> is a panic: a division by zero when there is no account or no processing shard, or an
  index out of range. Go's map iteration over the topology is in list order.
\<close>

section \<open>Operations\<close>

record TxPool =
  PendingTxs :: "Transaction list"
  PendingInboundChunks :: "OutboundChunk list"
  tp_config :: Config

type_synonym draw = "u32 \<times> u32 \<times> u32 \<times> bytes"

definition NewTxPool :: "Config \<Rightarrow> TxPool" where
  "NewTxPool config = \<lparr>PendingTxs = [], PendingInboundChunks = [], tp_config = config\<rparr>"

definition RandTx :: "(Transaction \<Rightarrow> bytes) \<Rightarrow> (bytes \<Rightarrow> hash) \<Rightarrow> TxPool \<Rightarrow> draw \<Rightarrow> Transaction option" where
  "RandTx rlp keccak pool d =
     (case d of (r0, r1, r2, dat) \<Rightarrow>
        let cfg = tp_config pool; m = (of_nat (length (cfg_Accounts cfg)) :: u32) in
        if cfg_PShardNum cfg = 0 \<or> m = 0 then None
        else
          let toShard = r0 mod cfg_PShardNum cfg + 1001;
              fromAddress = cfg_Accounts cfg ! unat (r1 mod m);
              toAddress = cfg_Accounts cfg ! unat (r2 mod m)
          in Some (NewTransaction rlp keccak (cfg_ShardId cfg) toShard fromAddress toAddress 1 dat))"

text \<open>The loop over the pending chunks: it stops once \<open>txLen\<close> is used up.\<close>

fun takeChunks :: "int \<Rightarrow> OutboundChunk list \<Rightarrow> OutboundChunk list \<times> int" where
  "takeChunks txLen [] = ([], txLen)"
| "takeChunks txLen (c # cs) =
     (if txLen > 0 then (case takeChunks (txLen - int (length (Txs c))) cs of (l, r) \<Rightarrow> (c # l, r)) else ([], txLen))"

definition AddTxs :: "(Transaction \<Rightarrow> bytes) \<Rightarrow> (bytes \<Rightarrow> hash) \<Rightarrow> TxPool \<Rightarrow> (nat \<Rightarrow> draw) \<Rightarrow> TxPool option" where
  "AddTxs rlp keccak pool draws =
     map_option (\<lambda>txs. pool\<lparr>PendingTxs := PendingTxs pool @ txs\<rparr>)
       (those (map (\<lambda>i. RandTx rlp keccak pool (draws i)) [0..<100]))"

definition takeTxs :: "(Transaction \<Rightarrow> bytes) \<Rightarrow> (bytes \<Rightarrow> hash) \<Rightarrow> TxPool \<Rightarrow> int \<Rightarrow> (nat \<Rightarrow> draw) \<Rightarrow>
    (Transaction list \<times> OutboundChunk list \<times> TxPool) option" where
  "takeTxs rlp keccak pool txLen draws =
     (case takeChunks txLen (PendingInboundChunks pool) of
        (inboundChunkList, txLen) \<Rightarrow>
          let pool = pool\<lparr>PendingInboundChunks := drop (length inboundChunkList) (PendingInboundChunks pool)\<rparr> in
          if txLen \<le> 0 then Some ([], inboundChunkList, pool)
          else
            let n = nat txLen;
                txList = (if n < length (PendingTxs pool) then take n (PendingTxs pool) else PendingTxs pool);
                pool = pool\<lparr>PendingTxs := (if n < length (PendingTxs pool) then drop n (PendingTxs pool) else [])\<rparr>
            in if length (PendingTxs pool) < 50
               then map_option (\<lambda>pool. (txList, inboundChunkList, pool)) (AddTxs rlp keccak pool draws)
               else Some (txList, inboundChunkList, pool))"

definition takeTxs1 :: "TxPool \<Rightarrow> int \<Rightarrow> OutboundChunk list \<times> TxPool" where
  "takeTxs1 pool txLen =
     (case takeChunks txLen (PendingInboundChunks pool) of
        (inboundChunkList, _) \<Rightarrow>
          (inboundChunkList,
           pool\<lparr>PendingInboundChunks := drop (length inboundChunkList) (PendingInboundChunks pool)\<rparr>))"

definition AddInboundChunk :: "TxPool \<Rightarrow> OutboundChunk \<Rightarrow> TxPool" where
  "AddInboundChunk pool inboundChunk =
     pool\<lparr>PendingInboundChunks := PendingInboundChunks pool @ [ChunkCopy inboundChunk]\<rparr>"

definition GetToShards :: "TxPool \<Rightarrow> u32 \<Rightarrow> u32 list" where
  "GetToShards pool fromShard =
     filter (\<lambda>shard. shard \<noteq> fromShard) (concat (map snd (PShardIds (cfg_Topo (tp_config pool)))))"

text \<open>The two generators overwrite the shards of a random transaction after its hash is computed.\<close>

definition GenerateCrossShardTx2 :: "(Transaction \<Rightarrow> bytes) \<Rightarrow> (bytes \<Rightarrow> hash) \<Rightarrow> TxPool \<Rightarrow> (nat \<Rightarrow> draw) \<Rightarrow> Transaction list option" where
  "GenerateCrossShardTx2 rlp keccak pool draws =
     (let fromShard = cfg_ShardId (tp_config pool); toShards = GetToShards pool fromShard in
      those (map (\<lambda>i. map_option (\<lambda>tx. tx\<lparr>FromShard := fromShard, ToShard := toShards ! i\<rparr>)
        (RandTx rlp keccak pool (draws i))) [0..<length toShards]))"

definition GenerateCrossShardTxs :: "(Transaction \<Rightarrow> bytes) \<Rightarrow> (bytes \<Rightarrow> hash) \<Rightarrow> TxPool \<Rightarrow> nat \<Rightarrow> draw \<Rightarrow> Transaction option" where
  "GenerateCrossShardTxs rlp keccak pool num d =
     (let fromShard = cfg_ShardId (tp_config pool); toShards = GetToShards pool fromShard in
      if num < length toShards
      then map_option (\<lambda>tx. tx\<lparr>FromShard := fromShard, ToShard := toShards ! num\<rparr>) (RandTx rlp keccak pool d)
      else None)"

section \<open>Taking chunks\<close>

definition txCount :: "OutboundChunk list \<Rightarrow> nat" where
  "txCount cs = sum_list (map (\<lambda>c. length (Txs c)) cs)"

lemma takeChunks_spec:
  "takeChunks n cs = (l, r) \<Longrightarrow>
     l @ drop (length l) cs = cs \<and> r = n - int (txCount l) \<and> (l \<noteq> [] \<longrightarrow> int (txCount (butlast l)) < n) \<and>
     (drop (length l) cs \<noteq> [] \<longrightarrow> n \<le> int (txCount l))"
proof (induction cs arbitrary: n l r)
  case (Cons c cs)
  show ?case
  proof (cases "n > 0")
    case True
    obtain l' where l': "takeChunks (n - int (length (Txs c))) cs = (l', r)" "l = c # l'"
      using Cons.prems True by (auto split: prod.splits)
    then show ?thesis using Cons.IH [OF l'(1)] True by (auto simp: txCount_def)
  qed (use Cons.prems in \<open>auto simp: txCount_def\<close>)
qed (auto simp: txCount_def)

text \<open>
  The pool hands out its chunks in order and once. \<open>takeTxs1\<close> returns a prefix of the
  pending chunks and keeps the rest; it takes a further chunk only while fewer than \<open>txLen\<close>
  transactions are taken, and leaves chunks behind only when at least \<open>txLen\<close> are.
\<close>

theorem takeTxs1_prefix:
  assumes "takeTxs1 pool txLen = (taken, pool')"
  shows "taken @ PendingInboundChunks pool' = PendingInboundChunks pool \<and> PendingTxs pool' = PendingTxs pool \<and>
     (taken \<noteq> [] \<longrightarrow> int (txCount (butlast taken)) < txLen) \<and>
     (PendingInboundChunks pool' \<noteq> [] \<longrightarrow> txLen \<le> int (txCount taken))"
  using assms takeChunks_spec [of txLen "PendingInboundChunks pool"] by (auto simp: takeTxs1_def split: prod.splits)

definition oneTx :: Transaction where
  "oneTx = \<lparr>FromShard = 1002, FromAddr = zeroAddr, ToShard = 1001, ToAddr = zeroAddr, Value = 1, DataBytes = [], TxHash = [1]\<rparr>"

definition oneChunk :: OutboundChunk where
  "oneChunk = \<lparr>BlockHash = zeroHash, Txs = [oneTx], ChunkProof = []\<rparr>"

definition nullConfig :: Config where
  "nullConfig = \<lparr>cfg_Version = [], cfg_Topo = \<lparr>RShardIds = [1], PShardIds = [(1, [1001, 1002])]\<rparr>, cfg_Nodes = Map.empty,
     cfg_NodeNumPerShard = 4, cfg_NodeId = 8, cfg_ShardId = 1001, cfg_RShardId = 1, cfg_IsLeader = True,
     cfg_RShardNum = 1, cfg_PShardNum = 2, cfg_ConsensusThreshold = 3, cfg_Accounts = [zeroAddr], cfg_Bootnode = []\<rparr>"

theorem takeTxs1_prefix_witness:
  "\<exists>taken pool'. takeTxs1 ((NewTxPool nullConfig)\<lparr>PendingInboundChunks := [oneChunk, oneChunk]\<rparr>) 1 = (taken, pool') \<and>
     taken @ PendingInboundChunks pool' = [oneChunk, oneChunk]"
proof -
  obtain taken pool' where t: "takeTxs1 ((NewTxPool nullConfig)\<lparr>PendingInboundChunks := [oneChunk, oneChunk]\<rparr>) 1 = (taken, pool')"
    by fastforce
  from takeTxs1_prefix [OF t] t show ?thesis by simp
qed

end
