(* ===== verification/ShardStates.thy ===== *)
theory ShardStates
  imports ChunkRoot TxPool
begin

text \<open>
  What a node knows of the other shards (\<open>core/shardstates.go\<close>): per processing shard the headers
  and the inbound chunks received so far, by block hash, and the check of a chunk against the
  transaction root of its header. A header and its chunk arrive in any order; when both are there
  and the leader has checked them, the chunk goes to the transaction pool. The pool is the same
  object as the pool of the chain.

  \<open>env\<close> holds the third-party functions: RLP and Keccak, the RLP reader, the root of the empty
  trie, \<open>common.BytesToHash\<close>, and the verification of aggregate signatures on the node's key
  store. Locks make each operation atomic.
\<close>

section \<open>Operations\<close>

record chainEnv =
  e_crypto :: crypto
  e_reader :: rlpReader
  e_emptyRoot :: hash
  e_toHash :: "bytes \<Rightarrow> hash"
  e_verifyAggregate :: "bytes \<Rightarrow> bytes \<Rightarrow> Bitmap \<Rightarrow> u32 \<Rightarrow> u32 \<Rightarrow> bool"

record ShardState =
  ss_Headers :: "hash \<rightharpoonup> Header"
  ss_InboundChunks :: "hash \<rightharpoonup> OutboundChunk"

definition NewShardState :: ShardState where
  "NewShardState = \<lparr>ss_Headers = Map.empty, ss_InboundChunks = Map.empty\<rparr>"

definition headerFlag :: bool where "headerFlag = False"

text \<open>An error of \<open>VerifyProof\<close> is ignored: its result is then nil.\<close>

definition CheckInboundChunk :: "chainEnv \<Rightarrow> 'a Header_scheme \<Rightarrow> OutboundChunk \<Rightarrow> (unit, bool) res" where
  "CheckInboundChunk env header inboundChunk =
     (case Txs inboundChunk of
        [] \<Rightarrow> Ok True
      | tx # _ \<Rightarrow>
          let H = e_crypto env; key = uintKey H (unat (ToShard tx)) in
          (case Root H (e_emptyRoot env) inboundChunk of
             None \<Rightarrow> Panic
           | Some chunkRoot \<Rightarrow>
               (case VerifyProof (e_reader env) (TxRoot header) key (proofDbOf H (ChunkProof inboundChunk)) of
                  Ok hash \<Rightarrow> Ok (e_toHash env (case hash of Some v \<Rightarrow> v | None \<Rightarrow> []) = chunkRoot)
                | Err e \<Rightarrow> Ok (e_toHash env [] = chunkRoot)
                | Panic \<Rightarrow> Panic
                | Hang \<Rightarrow> Hang)))"

text \<open>
  The first boolean tells whether the message is new, the second whether header and chunk are both
  there and the chunk is correct. \<open>Txs[0]\<close> is read for the log before anything else.
\<close>

definition UpdateShardStateWithInboundChunk ::
  "chainEnv \<Rightarrow> ShardState \<Rightarrow> OutboundChunk \<Rightarrow> (unit, (bool \<times> bool) \<times> ShardState) res" where
  "UpdateShardStateWithInboundChunk env s inboundChunk =
     (if Txs inboundChunk = [] then Panic
      else
        (case ss_InboundChunks s (BlockHash inboundChunk) of
           Some _ \<Rightarrow> Ok ((False, False), s)
         | None \<Rightarrow>
             let s = s\<lparr>ss_InboundChunks := (ss_InboundChunks s)(BlockHash inboundChunk \<mapsto> inboundChunk)\<rparr> in
             (case ss_Headers s (BlockHash inboundChunk) of
                None \<Rightarrow> Ok ((True, False), s)
              | Some header \<Rightarrow> rmap (\<lambda>checked. ((True, checked), s)) (CheckInboundChunk env header inboundChunk))))"

text \<open>A correct chunk is logged with its first transaction.\<close>

definition UpdateShardStateWithHeader :: "chainEnv \<Rightarrow> ShardState \<Rightarrow> Header \<Rightarrow> (unit, (bool \<times> bool) \<times> ShardState) res" where
  "UpdateShardStateWithHeader env s header =
     (case ss_Headers s (Hash header) of
        Some _ \<Rightarrow> Ok ((False, False), s)
      | None \<Rightarrow>
          let s = s\<lparr>ss_Headers := (ss_Headers s)(Hash header \<mapsto> header)\<rparr> in
          (case ss_InboundChunks s (Hash header) of
             None \<Rightarrow> Ok ((True, False), s)
           | Some inboundChunk \<Rightarrow>
               rbind (CheckInboundChunk env header inboundChunk) (\<lambda>checked.
                 if checked \<and> Txs inboundChunk = [] then Panic else Ok ((True, checked), s))))"

definition UpdateShardStateWithHeaderRShard :: "ShardState \<Rightarrow> Header \<Rightarrow> bool \<times> ShardState" where
  "UpdateShardStateWithHeaderRShard s header =
     (case ss_Headers s (Hash header) of
        Some _ \<Rightarrow> (False, s)
      | None \<Rightarrow> (True, s\<lparr>ss_Headers := (ss_Headers s)(Hash header \<mapsto> header)\<rparr>))"

record ShardStates =
  sts_StateDB :: "u32 \<rightharpoonup> ShardState"
  sts_txPool :: TxPool
  sts_Config :: Config

definition NewShardStates :: "Config \<Rightarrow> TxPool \<Rightarrow> ShardStates" where
  "NewShardStates conf txpool =
     \<lparr>sts_StateDB = foldl (\<lambda>m i. m(of_nat i + 1001 \<mapsto> NewShardState)) Map.empty [0..<unat (cfg_PShardNum conf)],
      sts_txPool = txpool, sts_Config = conf\<rparr>"

definition CheckHeader :: "chainEnv \<Rightarrow> ShardStates \<Rightarrow> Header \<Rightarrow> bool" where
  "CheckHeader env s msg \<longleftrightarrow>
     \<not> length (GetElement (SignBitMap msg)) < unat (cfg_ConsensusThreshold (sts_Config s)) \<and>
     \<not> (headerFlag \<and> \<not> e_verifyAggregate env (Signature msg) (Hash msg) (SignBitMap msg) (ShardId msg)
          (getKeyOffset (sts_Config s) (ShardId msg)))"

definition AddInboundChunkToTxPool :: "ShardStates \<Rightarrow> OutboundChunk \<Rightarrow> ShardStates" where
  "AddInboundChunkToTxPool s inboundChunk =
     (if length (Txs inboundChunk) > 0 then s\<lparr>sts_txPool := AddInboundChunk (sts_txPool s) inboundChunk\<rparr> else s)"

definition UpdateHeader :: "chainEnv \<Rightarrow> ShardStates \<Rightarrow> Header \<Rightarrow> (unit, bool \<times> ShardStates) res" where
  "UpdateHeader env s msg =
     (case sts_StateDB s (ShardId msg) of
        None \<Rightarrow> Ok (False, s)
      | Some st \<Rightarrow>
          if \<not> CheckHeader env s msg then Ok (False, s)
          else if cfg_ShardId (sts_Config s) > 1000 then
            rbind (UpdateShardStateWithHeader env st msg) (\<lambda>((first, checked), st).
              let s = s\<lparr>sts_StateDB := (sts_StateDB s)(ShardId msg \<mapsto> st)\<rparr> in
              if checked \<and> cfg_IsLeader (sts_Config s)
              then (case ss_InboundChunks st (Hash msg) of
                      None \<Rightarrow> Panic
                    | Some inboundChunk \<Rightarrow> Ok (first, AddInboundChunkToTxPool s inboundChunk))
              else Ok (first, s))
          else
            (case UpdateShardStateWithHeaderRShard st msg of
               (first, st) \<Rightarrow> Ok (first, s\<lparr>sts_StateDB := (sts_StateDB s)(ShardId msg \<mapsto> st)\<rparr>)))"

definition UpdateInboundChunk :: "chainEnv \<Rightarrow> ShardStates \<Rightarrow> OutboundChunk \<Rightarrow> (unit, bool \<times> ShardStates) res" where
  "UpdateInboundChunk env s msg =
     (case Txs msg of
        [] \<Rightarrow> Panic
      | tx # _ \<Rightarrow>
          (case sts_StateDB s (FromShard tx) of
             None \<Rightarrow> Ok (False, s)
           | Some st \<Rightarrow>
               rbind (UpdateShardStateWithInboundChunk env st msg) (\<lambda>((first, checked), st).
                 let s = s\<lparr>sts_StateDB := (sts_StateDB s)(FromShard tx \<mapsto> st)\<rparr> in
                 Ok (first, if checked \<and> cfg_IsLeader (sts_Config s) then AddInboundChunkToTxPool s msg else s))))"

section \<open>What the check of a chunk shows\<close>

text \<open>
  What is relied on: the laws of RLP, the root of the empty trie, and that \<open>BytesToHash\<close> keeps a
  value of 32 bytes.
\<close>

definition envOk :: "chainEnv \<Rightarrow> bool" where
  "envOk env \<longleftrightarrow> rlpOk (e_crypto env) (e_reader env) \<and>
     e_emptyRoot env = keccak256 (e_crypto env) (rlpEncode (e_crypto env) (RStr [])) \<and>
     (\<forall>b. length b = 32 \<longrightarrow> e_toHash env b = b)"

abbreviation chunkRootOf :: "chainEnv \<Rightarrow> OutboundChunk \<Rightarrow> hash" where
  "chunkRootOf env c \<equiv> keyedRoot (e_crypto env) (e_emptyRoot env) 1 (chunkHashes c)"

abbreviation blockTreeOf :: "chainEnv \<Rightarrow> OutboundChunk list \<Rightarrow> ptree" where
  "blockTreeOf env cs \<equiv> blockTree (e_crypto env) (e_emptyRoot env) cs"

definition txRootOf :: "chainEnv \<Rightarrow> OutboundChunk list \<Rightarrow> Trie \<Rightarrow> (hash \<times> Trie) option" where
  "txRootOf env cs t = GetBlockTxRoot (trieHasher (e_crypto env) (e_emptyRoot env)) (e_crypto env) (e_emptyRoot env) cs t"

lemma envOkD:
  assumes "envOk env"
  shows "rlpOk (e_crypto env) (e_reader env)" "e_emptyRoot env = keccak256 (e_crypto env) (rlpEncode (e_crypto env) (RStr []))"
    and "length b = 32 \<Longrightarrow> e_toHash env b = b" "e_emptyRoot env \<noteq> []" "length (chunkRootOf env c) = 32"
proof -
  show r: "rlpOk (e_crypto env) (e_reader env)" and e: "e_emptyRoot env = keccak256 (e_crypto env) (rlpEncode (e_crypto env) (RStr []))"
    and "length b = 32 \<Longrightarrow> e_toHash env b = b" using assms by (simp_all add: envOk_def)
  have l: "length (keccak256 (e_crypto env) x) = 32" for x using rlpOkD(7) [OF r] by blast
  then show "length (chunkRootOf env c) = 32" unfolding keyedRoot_def rootOf_def pdigest_def by (simp add: e l)
  show "e_emptyRoot env \<noteq> []" using l [of "rlpEncode (e_crypto env) (RStr [])"] by (auto simp: e)
qed

text \<open>The trie of a block with its content and root.\<close>

lemma txRoot_trie:
  assumes "envOk env" "txRootOf env cs t = Some (root, t1)"
  shows "represents noDb (merkle (e_crypto env)) t1 (blockTreeOf env cs)"
    and "\<exists>t'. TrieHash (e_crypto env) (e_emptyRoot env) t1 = Some (root, t')"
    and "storeGet noDb t1 (uintKey (e_crypto env) m) =
      (if 1001 \<le> m \<and> m < 1001 + length cs then Some (chunkRootOf env (cs ! (m - 1001))) else None)"
    and "cs \<noteq> [] \<Longrightarrow> blockTreeOf env cs \<noteq> PNil"
proof -
  let ?H = "e_crypto env" and ?vs = "map (chunkRootOf env) cs"
  note ok = envOkD [OF assms(1)]
  have "TrieHash ?H (e_emptyRoot env) (keyedTrie ?H 1001 ?vs) = Some (root, t1)"
    using assms(2) by (simp add: txRootOf_def GetBlockTxRoot_trie)
  moreover note kr = keyedTrie_represents [of "merkle ?H" ?H 1001 ?vs]
  ultimately have rep: "represents noDb (merkle ?H) t1 (blockTreeOf env cs)" and root: "root = rootOf ?H (e_emptyRoot env) (blockTreeOf env cs)"
    using TrieHash_represents [OF kr, of "e_emptyRoot env"] by (auto simp: blockTree_def)
  show "represents noDb (merkle ?H) t1 (blockTreeOf env cs)" by (rule rep)
  show "\<exists>t'. TrieHash ?H (e_emptyRoot env) t1 = Some (root, t')" using TrieHash_represents [OF rep] root by blast
  have ne: "\<forall>v\<in>set ?vs. v \<noteq> []" using keyedRoot_ne [OF ok(1,4)] by auto
  have "storeGet noDb t1 k = storeGet noDb (keyedTrie ?H 1001 ?vs) k" for k
    using storeGet_represents [OF rep] storeGet_represents [OF kr] by (simp add: blockTree_def)
  then show "storeGet noDb t1 (uintKey ?H m) =
      (if 1001 \<le> m \<and> m < 1001 + length cs then Some (chunkRootOf env (cs ! (m - 1001))) else None)"
    using keyedTrie_lookup [OF ok(1) ne, of 1001 m] by auto
  show "cs \<noteq> [] \<Longrightarrow> blockTreeOf env cs \<noteq> PNil"
    using keyedTree_nil_iff [OF ok(1) ne, of 1001] by (simp add: blockTree_def)
qed

lemma chunk_authentic:
  assumes ok: "envOk env" and blk: "txRootOf env cs t = Some (TxRoot header, t1)" "cs \<noteq> []"
    and c: "Txs c = tx # txs" "\<forall>c'\<in>insert c (set cs). \<forall>tx\<in>set (Txs c'). TxHash tx \<noteq> []"
    and free: "inj_on (keccak256 (e_crypto env)) (set (ChunkProof c) \<union> treeNodes (e_crypto env) (blockTreeOf env cs) \<union>
      (\<Union>c'\<in>insert c (set cs). treeNodes (e_crypto env) (chunkTree (e_crypto env) c')))"
    and zero: "chunkRootOf env c \<noteq> e_toHash env []"
  shows "\<exists>b. CheckInboundChunk env header c = Ok b \<and>
     (b \<longrightarrow> 1001 \<le> unat (ToShard tx) \<and> unat (ToShard tx) < 1001 + length cs \<and>
       chunkHashes c = chunkHashes (cs ! (unat (ToShard tx) - 1001)))"
proof -
  let ?H = "e_crypto env" and ?m = "unat (ToShard tx)" and ?er = "e_emptyRoot env"
  note e = envOkD [OF ok] and tr = txRoot_trie [OF ok blk(1)]
  obtain t' where t': "TrieHash ?H ?er t1 = Some (TxRoot header, t')" using tr(2) by blast
  have inj: "inj_on (keccak256 ?H) (set (ChunkProof c) \<union> pathNodes ?H (blockTreeOf env cs) (uintKey ?H ?m))"
    by (rule inj_on_subset [OF free]) (use pathNodes_treeNodes in blast)
  have same: "chunkHashes c = chunkHashes c'" if "c' \<in> set cs" "chunkRootOf env c = chunkRootOf env c'" for c'
    by (rule keyed_binding [OF e(1,2) _ _ that(2)])
      (use c(2) that(1) in \<open>auto simp: chunkHashes_def chunkTree_def intro: inj_on_subset [OF free]\<close>)
  have v: "VerifyProof (e_reader env) (TxRoot header) (uintKey ?H ?m) (proofDbOf ?H (ChunkProof c)) = Ok (storeGet noDb t1 (uintKey ?H ?m)) \<or>
      (\<exists>i h. VerifyProof (e_reader env) (TxRoot header) (uintKey ?H ?m) (proofDbOf ?H (ChunkProof c)) = Err (ProofMissing i h))"
    by (rule VerifyProof_authentic [OF e(1) tr(1) tr(4) [OF blk(2)] t' inj])
  show ?thesis
  proof (cases "1001 \<le> ?m \<and> ?m < 1001 + length cs")
    case True
    let ?c = "cs ! (?m - 1001)"
    have "?c \<in> set cs" using True by (intro nth_mem) linarith
    then show ?thesis
      using v c(1) tr(3) [of ?m] True zero same [of ?c] e(3) [OF e(5)] by (auto simp: CheckInboundChunk_def Root_eq Let_def)
  next
    case False
    then show ?thesis using v c(1) tr(3) [of ?m] zero by (auto simp: CheckInboundChunk_def Root_eq Let_def)
  qed
qed

lemma chunk_genuine:
  assumes ok: "envOk env" and blk: "txRootOf env cs t = Some (TxRoot header, t1)" "i < length cs"
    and c: "Txs c = tx # txs" "unat (ToShard tx) = 1001 + i" "chunkHashes c = chunkHashes (cs ! i)"
    and free: "inj_on (keccak256 (e_crypto env)) (treeNodes (e_crypto env) (blockTreeOf env cs))"
  shows "\<exists>puts. Prove (e_crypto env) noDb t1 (uintKey (e_crypto env) (1001 + i)) 0 = Ok puts \<and>
     (ChunkProof c = map snd puts \<longrightarrow> CheckInboundChunk env header c = Ok True)"
proof -
  let ?H = "e_crypto env"
  note e = envOkD [OF ok] and tr = txRoot_trie [OF ok blk(1)]
  have "cs \<noteq> []" using blk(2) by auto
  obtain t' where t': "TrieHash ?H (e_emptyRoot env) t1 = Some (TxRoot header, t')" using tr(2) by blast
  have inj: "inj_on (keccak256 ?H) (pathNodes ?H (blockTreeOf env cs) (uintKey ?H (1001 + i)))"
    by (rule inj_on_subset [OF free]) (rule pathNodes_treeNodes)
  obtain puts where p: "Prove ?H noDb t1 (uintKey ?H (1001 + i)) 0 = Ok puts"
      "VerifyProof (e_reader env) (TxRoot header) (uintKey ?H (1001 + i)) (proofDbOf ?H (map snd puts)) =
        Ok (storeGet noDb t1 (uintKey ?H (1001 + i)))"
    using Prove_verifies [OF e(1) tr(1) tr(4) [OF \<open>cs \<noteq> []\<close>] t' inj] by blast
  then show ?thesis
    using tr(3) [of "1001 + i"] blk(2) c e(3) [OF e(5)] by (auto simp: CheckInboundChunk_def Root_eq Let_def)
qed

text \<open>
  C35: an accepted chunk is genuine. Let the transaction root of a header be the one that
  \<open>GetBlockTxRoot\<close> computes from the chunks \<open>cs\<close> of its block. Then \<open>CheckInboundChunk\<close> of any
  non-empty chunk, with any proof, returns without panic, and when it accepts, the chunk has exactly
  the transaction hashes of the block's chunk for the destination shard of its first transaction.
  The hypotheses are the laws of the libraries, that transaction hashes are not empty, and that
  Keccak has no collision among the proof and the nodes of the tries concerned.
\<close>

theorem chunk_check_sound:
  assumes "envOk env" "txRootOf env cs t = Some (TxRoot header, t1)" "cs \<noteq> []"
    and "Txs c = tx # txs" "\<forall>c'\<in>insert c (set cs). \<forall>tx\<in>set (Txs c'). TxHash tx \<noteq> []"
    and "inj_on (keccak256 (e_crypto env)) (set (ChunkProof c) \<union> treeNodes (e_crypto env) (blockTreeOf env cs) \<union>
      (\<Union>c'\<in>insert c (set cs). treeNodes (e_crypto env) (chunkTree (e_crypto env) c')))"
    and "chunkRootOf env c \<noteq> e_toHash env []"
  shows "\<exists>b. CheckInboundChunk env header c = Ok b \<and>
     (b \<longrightarrow> 1001 \<le> unat (ToShard tx) \<and> unat (ToShard tx) < 1001 + length cs \<and>
       chunkHashes c = chunkHashes (cs ! (unat (ToShard tx) - 1001)))"
  by (rule chunk_authentic [OF assms])

text \<open>
  C36: a genuine chunk is accepted. For every chunk of a block, \<open>Prove\<close> on the block's
  transaction trie with the key of the destination shard succeeds, and a chunk with these transaction
  hashes, that destination and the returned proof passes \<open>CheckInboundChunk\<close> against the header.
\<close>

theorem chunk_check_complete:
  assumes "envOk env" "txRootOf env cs t = Some (TxRoot header, t1)" "i < length cs"
    and "Txs c = tx # txs" "unat (ToShard tx) = 1001 + i" "chunkHashes c = chunkHashes (cs ! i)"
    and "inj_on (keccak256 (e_crypto env)) (treeNodes (e_crypto env) (blockTreeOf env cs))"
  shows "\<exists>puts. Prove (e_crypto env) noDb t1 (uintKey (e_crypto env) (1001 + i)) 0 = Ok puts \<and>
     (ChunkProof c = map snd puts \<longrightarrow> CheckInboundChunk env header c = Ok True)"
  by (rule chunk_genuine [OF assms])

definition markEnv :: chainEnv where
  "markEnv = \<lparr>e_crypto = markCrypto, e_reader = markReader, e_emptyRoot = markEmpty,
     e_toHash = (\<lambda>b. if length b = 32 then b else zeroHash), e_verifyAggregate = (\<lambda>_ _ _ _ _. True)\<rparr>"

lemma markEnv_ok: "envOk markEnv"
  using rlpOk_mark by (simp add: envOk_def markEnv_def markEmpty_def)

definition rootA :: "hash \<times> Trie" where
  "rootA = the (txRootOf markEnv [chunkA] newTrie)"

definition headerA :: Header where
  "headerA = zeroHeader\<lparr>TxRoot := fst rootA, Hash := zeroHash, ShardId := 1001, SignBitMap := [15]\<rparr>"

definition provedA :: OutboundChunk where
  "provedA = chunkA\<lparr>ChunkProof := (case Prove markCrypto noDb (snd rootA) (uintKey markCrypto 1001) 0 of
     Ok puts \<Rightarrow> map snd puts | _ \<Rightarrow> [])\<rparr>"

lemma rootA_eq: "txRootOf markEnv [chunkA] newTrie = Some (TxRoot headerA, snd rootA)"
proof -
  obtain t' where "txRootOf markEnv [chunkA] newTrie = Some (keyedRoot markCrypto markEmpty 1001 [chunkRootOf markEnv chunkA], t')"
    using TrieHash_keyed [of markCrypto markEmpty 1001 "[chunkRootOf markEnv chunkA]"]
    by (auto simp: txRootOf_def GetBlockTxRoot_trie markEnv_def)
  then show ?thesis by (simp add: headerA_def rootA_def)
qed

lemma markA_free:
  "inj_on (keccak256 (e_crypto markEnv)) (set (ChunkProof provedA) \<union> treeNodes (e_crypto markEnv) (blockTreeOf markEnv [chunkA]) \<union>
     (\<Union>c'\<in>insert provedA (set [chunkA]). treeNodes (e_crypto markEnv) (chunkTree (e_crypto markEnv) c')))"
  unfolding inj_on_def by code_simp

lemma provedA_first: "\<exists>tx txs. Txs provedA = tx # txs \<and> ToShard tx = 1001" "chunkHashes provedA = chunkHashes ([chunkA] ! 0)"
  by (simp_all add: provedA_def chunkA_def chunkHashes_def)

lemma provedA_accepted: "CheckInboundChunk markEnv headerA provedA = Ok True"
proof -
  obtain tx txs where tx: "Txs provedA = tx # txs" "unat (ToShard tx) = 1001 + 0" using provedA_first(1) by auto
  have "inj_on (keccak256 (e_crypto markEnv)) (treeNodes (e_crypto markEnv) (blockTreeOf markEnv [chunkA]))"
    by (rule inj_on_subset [OF markA_free]) auto
  from chunk_genuine [OF markEnv_ok rootA_eq _ tx provedA_first(2) this]
  obtain puts where "Prove markCrypto noDb (snd rootA) (uintKey markCrypto 1001) 0 = Ok puts"
      "ChunkProof provedA = map snd puts \<longrightarrow> CheckInboundChunk markEnv headerA provedA = Ok True"
    by (auto simp: markEnv_def)
  then show ?thesis by (simp add: provedA_def)
qed

theorem chunk_check_sound_witness:
  "CheckInboundChunk markEnv headerA provedA = Ok True \<and> chunkHashes provedA = chunkHashes chunkA"
proof -
  obtain tx txs where tx: "Txs provedA = tx # txs" "ToShard tx = 1001" using provedA_first(1) by blast
  have "\<forall>c'\<in>insert provedA (set [chunkA]). \<forall>tx\<in>set (Txs c'). TxHash tx \<noteq> []" by (simp add: provedA_def chunkA_def)
  moreover have "chunkRootOf markEnv provedA \<noteq> e_toHash markEnv []" by code_simp
  ultimately show ?thesis
    using chunk_check_sound [OF markEnv_ok rootA_eq _ tx(1) _ markA_free] tx(2) provedA_accepted by simp
qed

theorem chunk_check_complete_witness:
  "\<exists>puts. Prove markCrypto noDb (snd rootA) (uintKey markCrypto (1001 + 0)) 0 = Ok puts \<and>
     (ChunkProof provedA = map snd puts \<longrightarrow> CheckInboundChunk markEnv headerA provedA = Ok True)"
proof -
  obtain tx txs where tx: "Txs provedA = tx # txs" "unat (ToShard tx) = 1001 + 0" using provedA_first(1) by auto
  have "inj_on (keccak256 (e_crypto markEnv)) (treeNodes (e_crypto markEnv) (blockTreeOf markEnv [chunkA]))"
    by (rule inj_on_subset [OF markA_free]) auto
  from chunk_check_complete [OF markEnv_ok rootA_eq _ tx provedA_first(2) this] show ?thesis by (simp add: markEnv_def)
qed

section \<open>Order of arrival\<close>

text \<open>
  C37: a header and its chunk may arrive in any order. On a node of a processing shard, handling a
  header and then the chunk of the same block leaves the same state, pool included, as handling the chunk
  first (and panics exactly when the other order does), whatever had been received before.
\<close>

theorem header_chunk_order:
  assumes "Txs m = tx # txs" "FromShard tx = ShardId h" "BlockHash m = Hash h" "cfg_ShardId (sts_Config s) > 1000"
  shows "rmap snd (rbind (UpdateHeader env s h) (\<lambda>(_, s). UpdateInboundChunk env s m)) =
     rmap snd (rbind (UpdateInboundChunk env s m) (\<lambda>(_, s). UpdateHeader env s h))"
proof (cases "sts_StateDB s (ShardId h)")
  case None
  then show ?thesis using assms by (simp add: UpdateHeader_def UpdateInboundChunk_def)
next
  case (Some st)
  have ch: "CheckHeader env (s\<lparr>sts_StateDB := x\<rparr>) h = CheckHeader env s h"
    "CheckHeader env (AddInboundChunkToTxPool (s\<lparr>sts_StateDB := x\<rparr>) c) h = CheckHeader env s h" for x c
    by (simp_all add: CheckHeader_def AddInboundChunkToTxPool_def)
  have pool: "sts_StateDB (AddInboundChunkToTxPool z c) = sts_StateDB z" "sts_Config (AddInboundChunkToTxPool z c) = sts_Config z"
    "(AddInboundChunkToTxPool z c)\<lparr>sts_StateDB := x\<rparr> = AddInboundChunkToTxPool (z\<lparr>sts_StateDB := x\<rparr>) c" for x z c
    by (simp_all add: AddInboundChunkToTxPool_def)
  have comm: "st\<lparr>ss_Headers := b, ss_InboundChunks := a\<rparr> = st\<lparr>ss_InboundChunks := a, ss_Headers := b\<rparr>" for a b
    by (cases st) simp
  note defs = UpdateHeader_def UpdateInboundChunk_def UpdateShardStateWithHeader_def UpdateShardStateWithInboundChunk_def
  show ?thesis
  proof (cases "CheckHeader env s h")
    case False
    then show ?thesis using assms Some
      by (cases "ss_InboundChunks st (Hash h)"; cases "ss_Headers st (Hash h)";
          cases "CheckInboundChunk env (the (ss_Headers st (Hash h))) m") (simp_all add: defs ch pool Let_def)
  next
    case True
    show ?thesis
    proof (cases "ss_Headers st (Hash h)")
      case None
      show ?thesis using assms Some True None
        by (cases "ss_InboundChunks st (Hash h)"; cases "CheckInboundChunk env h m";
            cases "CheckInboundChunk env h (the (ss_InboundChunks st (Hash h)))")
          (simp_all add: defs ch pool comm Let_def)
    next
      case hd: (Some h0)
      show ?thesis using assms Some True hd
        by (cases "ss_InboundChunks st (Hash h)"; cases "CheckInboundChunk env h0 m") (simp_all add: defs ch pool Let_def)
    qed
  qed
qed

theorem header_chunk_order_witness:
  "rmap snd (rbind (UpdateHeader markEnv (NewShardStates nullConfig (NewTxPool nullConfig)) headerA)
       (\<lambda>(_, s). UpdateInboundChunk markEnv s provedA)) =
   rmap snd (rbind (UpdateInboundChunk markEnv (NewShardStates nullConfig (NewTxPool nullConfig)) provedA)
       (\<lambda>(_, s). UpdateHeader markEnv s headerA))"
proof (rule header_chunk_order)
  let ?tx = "hd (Txs chunkA)"
  show "Txs provedA = ?tx # []" "FromShard ?tx = ShardId headerA" "BlockHash provedA = Hash headerA"
    by (simp_all add: provedA_def chunkA_def headerA_def)
qed (simp add: NewShardStates_def nullConfig_def)

section \<open>Every chunk is used once\<close>

text \<open>
  What the node does with the states: handling a header, handling a chunk, and taking chunks from
  the pool for a block. A configuration is the state together with the chunks taken so far. The
  chunks of the messages have the array sizes of the Go types.
\<close>

inductive shardStep :: "chainEnv \<Rightarrow> ShardStates \<times> OutboundChunk list \<Rightarrow> ShardStates \<times> OutboundChunk list \<Rightarrow> bool" for env where
  on_header: "UpdateHeader env s h = Ok (first, s') \<Longrightarrow> shardStep env (s, taken) (s', taken)"
| on_chunk: "sized_chunk m \<Longrightarrow> UpdateInboundChunk env s m = Ok (first, s') \<Longrightarrow> shardStep env (s, taken) (s', taken)"
| on_take: "takeTxs1 (sts_txPool s) n = (cs, pool) \<Longrightarrow> shardStep env (s, taken) (s\<lparr>sts_txPool := pool\<rparr>, taken @ cs)"

definition chunkId :: "OutboundChunk \<Rightarrow> u32 \<times> hash" where
  "chunkId c = (FromShard (hd (Txs c)), BlockHash c)"

text \<open>The chunk is stored, with a header of its shard that it has been checked against.\<close>

definition matched :: "chainEnv \<Rightarrow> ShardStates \<Rightarrow> OutboundChunk \<Rightarrow> bool" where
  "matched env s c \<longleftrightarrow> Txs c \<noteq> [] \<and> (\<exists>st h. sts_StateDB s (FromShard (hd (Txs c))) = Some st \<and>
     ss_InboundChunks st (BlockHash c) = Some c \<and> ss_Headers st (BlockHash c) = Some h \<and>
     Hash h = BlockHash c \<and> ShardId h = FromShard (hd (Txs c)) \<and> CheckHeader env s h \<and> CheckInboundChunk env h c = Ok True)"

definition filed :: "chainEnv \<Rightarrow> ShardStates \<Rightarrow> bool" where
  "filed env s \<longleftrightarrow> (\<forall>shard st. sts_StateDB s shard = Some st \<longrightarrow>
     (\<forall>b h. ss_Headers st b = Some h \<longrightarrow> Hash h = b \<and> ShardId h = shard \<and> CheckHeader env s h) \<and>
     (\<forall>b c. ss_InboundChunks st b = Some c \<longrightarrow> BlockHash c = b \<and> Txs c \<noteq> [] \<and> FromShard (hd (Txs c)) = shard \<and> sized_chunk c))"

definition usedOnce :: "chainEnv \<Rightarrow> ShardStates \<times> OutboundChunk list \<Rightarrow> bool" where
  "usedOnce env x \<longleftrightarrow> (case x of (s, taken) \<Rightarrow> filed env s \<and>
     distinct (map chunkId (taken @ PendingInboundChunks (sts_txPool s))) \<and>
     (\<forall>c\<in>set (taken @ PendingInboundChunks (sts_txPool s)). matched env s c))"

text \<open>The states only grow.\<close>

definition grows :: "ShardStates \<Rightarrow> ShardStates \<Rightarrow> bool" where
  "grows s s' \<longleftrightarrow> sts_Config s' = sts_Config s \<and> (\<forall>shard st. sts_StateDB s shard = Some st \<longrightarrow>
     (\<exists>st'. sts_StateDB s' shard = Some st' \<and> ss_Headers st \<subseteq>\<^sub>m ss_Headers st' \<and> ss_InboundChunks st \<subseteq>\<^sub>m ss_InboundChunks st'))"

lemma CheckHeader_cong: "sts_Config s' = sts_Config s \<Longrightarrow> CheckHeader env s' h = CheckHeader env s h"
  by (simp add: CheckHeader_def)

lemma CheckHeader_frame [simp]:
  "CheckHeader env (s\<lparr>sts_StateDB := x\<rparr>) h = CheckHeader env s h" "CheckHeader env (s\<lparr>sts_txPool := y\<rparr>) h = CheckHeader env s h"
  by (simp_all add: CheckHeader_def)

lemma matched_grows: "matched env s c \<Longrightarrow> grows s s' \<Longrightarrow> matched env s' c"
  unfolding matched_def grows_def map_le_def using CheckHeader_cong by (metis domI)

definition withHeader :: "ShardStates \<Rightarrow> ShardState \<Rightarrow> Header \<Rightarrow> ShardStates" where
  "withHeader s st h = s\<lparr>sts_StateDB := (sts_StateDB s)(ShardId h \<mapsto> st\<lparr>ss_Headers := (ss_Headers st)(Hash h \<mapsto> h)\<rparr>)\<rparr>"

definition withChunk :: "ShardStates \<Rightarrow> ShardState \<Rightarrow> OutboundChunk \<Rightarrow> ShardStates" where
  "withChunk s st c = s\<lparr>sts_StateDB := (sts_StateDB s)(FromShard (hd (Txs c)) \<mapsto>
     st\<lparr>ss_InboundChunks := (ss_InboundChunks st)(BlockHash c \<mapsto> c)\<rparr>)\<rparr>"

lemma keep_state [simp]: "sts_StateDB s k = Some st \<Longrightarrow> s\<lparr>sts_StateDB := (sts_StateDB s)(k \<mapsto> st)\<rparr> = s"
  by (cases s) (simp add: fun_upd_idem)

lemma UpdateHeader_cases:
  assumes "UpdateHeader env s h = Ok (first, s')"
  obtains "s' = s"
  | st where "sts_StateDB s (ShardId h) = Some st" "ss_Headers st (Hash h) = None" "CheckHeader env s h" "s' = withHeader s st h"
  | st c where "sts_StateDB s (ShardId h) = Some st" "ss_Headers st (Hash h) = None" "CheckHeader env s h"
      "ss_InboundChunks st (Hash h) = Some c" "CheckInboundChunk env h c = Ok True"
      "s' = AddInboundChunkToTxPool (withHeader s st h) c"
  using assms
  by (auto simp: UpdateHeader_def UpdateShardStateWithHeader_def UpdateShardStateWithHeaderRShard_def withHeader_def
      Let_def res_simps split: option.splits if_splits)

lemma UpdateInboundChunk_cases:
  assumes "UpdateInboundChunk env s m = Ok (first, s')"
  obtains "s' = s"
  | st where "Txs m \<noteq> []" "sts_StateDB s (FromShard (hd (Txs m))) = Some st" "ss_InboundChunks st (BlockHash m) = None"
      "s' = withChunk s st m"
  | st h where "Txs m \<noteq> []" "sts_StateDB s (FromShard (hd (Txs m))) = Some st" "ss_InboundChunks st (BlockHash m) = None"
      "ss_Headers st (BlockHash m) = Some h" "CheckInboundChunk env h m = Ok True"
      "s' = AddInboundChunkToTxPool (withChunk s st m) m"
  using assms
  by (auto simp: UpdateInboundChunk_def UpdateShardStateWithInboundChunk_def withChunk_def
      Let_def res_simps split: option.splits if_splits list.splits)

lemma usedOnce_same:
  assumes "usedOnce env (s, taken)" "filed env s'" "grows s s'" "PendingInboundChunks (sts_txPool s') = PendingInboundChunks (sts_txPool s)"
  shows "usedOnce env (s', taken)"
  using assms(1,2,4) matched_grows [OF _ assms(3)] by (auto simp: usedOnce_def)

lemma usedOnce_add:
  assumes "usedOnce env (s, taken)" "filed env s'" "grows s s'" "sts_txPool s' = sts_txPool s"
    and c: "sized_chunk c" "matched env s' c" "\<And>c'. chunkId c' = chunkId c \<Longrightarrow> \<not> matched env s c'"
  shows "usedOnce env (AddInboundChunkToTxPool s' c, taken)"
proof -
  let ?s = "AddInboundChunkToTxPool s' c"
  have ne: "Txs c \<noteq> []" using c(2) by (simp add: matched_def)
  have p: "PendingInboundChunks (sts_txPool ?s) = PendingInboundChunks (sts_txPool s) @ [c]"
    using ne c(1) assms(4) by (simp add: AddInboundChunkToTxPool_def AddInboundChunk_def ChunkCopy_id)
  have fr: "sts_StateDB ?s = sts_StateDB s'" "sts_Config ?s = sts_Config s'" by (simp_all add: AddInboundChunkToTxPool_def)
  have "filed env ?s" using assms(2) CheckHeader_cong [OF fr(2)] unfolding filed_def fr by simp
  moreover have m: "matched env ?s x = matched env s' x" for x
    unfolding matched_def fr using CheckHeader_cong [OF fr(2)] by simp
  moreover have "\<forall>x\<in>set (taken @ PendingInboundChunks (sts_txPool s)). chunkId x \<noteq> chunkId c"
    using assms(1) c(3) by (auto simp: usedOnce_def)
  ultimately show ?thesis
    using assms(1) matched_grows [OF _ assms(3)] c(2) unfolding usedOnce_def by (auto simp: p)
qed

lemma filed_header:
  "filed env s \<Longrightarrow> CheckHeader env s h \<Longrightarrow> sts_StateDB s (ShardId h) = Some st \<Longrightarrow> filed env (withHeader s st h)"
  unfolding filed_def withHeader_def by (auto split: if_splits)

lemma filed_chunk:
  "filed env s \<Longrightarrow> Txs c \<noteq> [] \<Longrightarrow> sized_chunk c \<Longrightarrow> sts_StateDB s (FromShard (hd (Txs c))) = Some st \<Longrightarrow> filed env (withChunk s st c)"
  unfolding filed_def withChunk_def by (auto split: if_splits)

lemma grows_header: "sts_StateDB s (ShardId h) = Some st \<Longrightarrow> ss_Headers st (Hash h) = None \<Longrightarrow> grows s (withHeader s st h)"
  unfolding grows_def withHeader_def map_le_def by auto

lemma grows_chunk:
  "sts_StateDB s (FromShard (hd (Txs c))) = Some st \<Longrightarrow> ss_InboundChunks st (BlockHash c) = None \<Longrightarrow> grows s (withChunk s st c)"
  unfolding grows_def withChunk_def map_le_def by auto

lemma shardStep_usedOnce: "shardStep env x y \<Longrightarrow> usedOnce env x \<Longrightarrow> usedOnce env y"
proof (induction rule: shardStep.induct)
  case (on_header s h first s' taken)
  have f: "filed env s" using on_header.prems by (simp add: usedOnce_def)
  from on_header.hyps show ?case
  proof (cases rule: UpdateHeader_cases)
    case 1
    then show ?thesis using on_header.prems by simp
  next
    case (2 st)
    then show ?thesis using usedOnce_same [OF on_header.prems filed_header [OF f 2(3,1)] grows_header [OF 2(1,2)]]
      by (simp add: withHeader_def)
  next
    case (3 st c)
    have c: "BlockHash c = Hash h" "Txs c \<noteq> []" "FromShard (hd (Txs c)) = ShardId h" "sized_chunk c"
      using f 3(1,4) unfolding filed_def by blast+
    have "matched env (withHeader s st h) c"
      using c 3 unfolding matched_def withHeader_def by auto
    moreover have "\<not> matched env s c'" if "chunkId c' = chunkId c" for c'
      using that c 3(1,2) by (auto simp: matched_def chunkId_def)
    ultimately show ?thesis unfolding 3(6)
      by (intro usedOnce_add [OF on_header.prems filed_header [OF f 3(3,1)] grows_header [OF 3(1,2)]] c(4))
        (simp_all add: withHeader_def)
  qed
next
  case (on_chunk m s first s' taken)
  have f: "filed env s" using on_chunk.prems by (simp add: usedOnce_def)
  from on_chunk.hyps(2) show ?case
  proof (cases rule: UpdateInboundChunk_cases)
    case 1
    then show ?thesis using on_chunk.prems by simp
  next
    case (2 st)
    then show ?thesis
      using usedOnce_same [OF on_chunk.prems filed_chunk [OF f 2(1) on_chunk.hyps(1) 2(2)] grows_chunk [OF 2(2,3)]]
      by (simp add: withChunk_def)
  next
    case (3 st h)
    have h: "Hash h = BlockHash m" "ShardId h = FromShard (hd (Txs m))" "CheckHeader env s h"
      using f 3(2,4) unfolding filed_def by blast+
    have "matched env (withChunk s st m) m"
      using h 3 unfolding matched_def withChunk_def by auto
    moreover have "\<not> matched env s c'" if "chunkId c' = chunkId m" for c'
      using that 3(2,3) by (auto simp: matched_def chunkId_def)
    ultimately show ?thesis unfolding 3(6)
      by (intro usedOnce_add [OF on_chunk.prems filed_chunk [OF f 3(1) on_chunk.hyps(1) 3(2)] grows_chunk [OF 3(2,3)]] on_chunk.hyps(1))
        (simp_all add: withChunk_def)
  qed
next
  case (on_take s n cs pool taken)
  have t: "cs @ PendingInboundChunks pool = PendingInboundChunks (sts_txPool s)"
    using takeChunks_spec [of n "PendingInboundChunks (sts_txPool s)"] on_take.hyps by (auto simp: takeTxs1_def split: prod.splits)
  have "filed env (s\<lparr>sts_txPool := pool\<rparr>) = filed env s" "matched env (s\<lparr>sts_txPool := pool\<rparr>) c = matched env s c" for c
    by (simp_all add: filed_def matched_def)
  then show ?case using on_take.prems by (auto simp: usedOnce_def t [symmetric])
qed

lemma NewShardStates_empty: "sts_StateDB (NewShardStates conf pool) shard = Some st \<Longrightarrow> st = NewShardState"
proof -
  have "foldl (\<lambda>m i. m(of_nat i + 1001 \<mapsto> NewShardState)) m is shard = Some st \<Longrightarrow> m shard = Some st \<or> st = NewShardState"
    for "is" :: "nat list" and m
    by (induction "is" arbitrary: m) (fastforce split: if_splits)+
  then show "sts_StateDB (NewShardStates conf pool) shard = Some st \<Longrightarrow> st = NewShardState"
    by (fastforce simp: NewShardStates_def)
qed

lemma usedOnce_start: "PendingInboundChunks pool = [] \<Longrightarrow> usedOnce env (NewShardStates conf pool, [])"
  using NewShardStates_empty [of conf pool]
  by (fastforce simp: usedOnce_def filed_def NewShardState_def NewShardStates_def)

text \<open>
  C38: no inbound chunk is used twice. In every state that a node reaches from its initial one by
  handling headers and chunks and taking chunks from the pool, in any order and however often the messages
  are repeated, the chunks taken so far and the pending ones come from pairwise different blocks of their shards, and
  each of them is stored together with a header of its shard that carries the threshold of signers
  and against which the chunk has been checked.
\<close>

theorem chunks_used_once:
  assumes "(shardStep env)\<^sup>*\<^sup>* (NewShardStates conf (NewTxPool conf), []) (s, taken)"
  shows "distinct (map chunkId (taken @ PendingInboundChunks (sts_txPool s))) \<and>
     (\<forall>c\<in>set (taken @ PendingInboundChunks (sts_txPool s)). matched env s c)"
proof -
  have "usedOnce env (s, taken)"
    using assms
  proof (induction rule: rtranclp_induct)
    case base
    show ?case by (rule usedOnce_start) (simp add: NewTxPool_def)
  next
    case (step y z)
    then show ?case using shardStep_usedOnce by blast
  qed
  then show ?thesis by (simp add: usedOnce_def)
qed

lemma UpdateInboundChunk_accepts:
  assumes "Txs m = tx # txs" "sts_StateDB s (FromShard tx) = Some st" "ss_InboundChunks st (BlockHash m) = None"
    and "ss_Headers st (BlockHash m) = Some h" "CheckInboundChunk env h m = Ok True" "cfg_IsLeader (sts_Config s)"
  shows "UpdateInboundChunk env s m = Ok (True, AddInboundChunkToTxPool (withChunk s st m) m)"
  using assms by (simp add: UpdateInboundChunk_def UpdateShardStateWithInboundChunk_def withChunk_def Let_def)

definition startA :: ShardStates where
  "startA = NewShardStates nullConfig (NewTxPool nullConfig)"

lemma startA_run:
  "\<exists>s. (shardStep markEnv)\<^sup>*\<^sup>* (startA, []) (s, []) \<and> PendingInboundChunks (sts_txPool s) = [provedA]"
proof -
  have st: "sts_StateDB startA 1001 = Some NewShardState" "cfg_IsLeader (sts_Config startA)" "cfg_ShardId (sts_Config startA) > 1000"
      "PendingInboundChunks (sts_txPool startA) = []"
    by (simp_all add: startA_def NewShardStates_def nullConfig_def NewTxPool_def upt_rec)
  have "CheckHeader markEnv startA headerA"
    unfolding CheckHeader_def headerFlag_def startA_def NewShardStates_def headerA_def nullConfig_def by code_simp
  then have h: "UpdateHeader markEnv startA headerA = Ok (True, withHeader startA NewShardState headerA)" (is "_ = Ok (True, ?s)")
    using st by (simp add: UpdateHeader_def UpdateShardStateWithHeader_def withHeader_def NewShardState_def headerA_def Let_def)
  have tx: "Txs provedA = [hd (Txs provedA)]" "FromShard (hd (Txs provedA)) = 1001" "BlockHash provedA = Hash headerA"
    by (simp_all add: provedA_def chunkA_def headerA_def)
  have "sts_StateDB ?s 1001 = Some (NewShardState\<lparr>ss_Headers := [Hash headerA \<mapsto> headerA]\<rparr>)"
    by (simp add: withHeader_def headerA_def NewShardState_def)
  then have c: "UpdateInboundChunk markEnv ?s provedA =
      Ok (True, AddInboundChunkToTxPool (withChunk ?s (NewShardState\<lparr>ss_Headers := [Hash headerA \<mapsto> headerA]\<rparr>) provedA) provedA)"
    using st(2) tx(2,3)
    by (intro UpdateInboundChunk_accepts [OF tx(1) _ _ _ provedA_accepted]) (simp_all add: NewShardState_def withHeader_def)
  have sz: "sized_chunk provedA" by (simp add: sized_chunk_def sized_tx_def provedA_def chunkA_def)
  have "(shardStep markEnv)\<^sup>*\<^sup>* (startA, []) (AddInboundChunkToTxPool (withChunk ?s (NewShardState\<lparr>ss_Headers := [Hash headerA \<mapsto> headerA]\<rparr>) provedA) provedA, [])"
    using shardStep.on_header [OF h] shardStep.on_chunk [OF sz c] by (meson converse_rtranclp_into_rtranclp r_into_rtranclp)
  moreover have "PendingInboundChunks (sts_txPool (AddInboundChunkToTxPool (withChunk ?s z provedA) provedA)) = [provedA]" for z
    using st(4) tx(1) sz by (auto simp: AddInboundChunkToTxPool_def AddInboundChunk_def withChunk_def withHeader_def ChunkCopy_id)
  ultimately show ?thesis by blast
qed

theorem chunks_used_once_witness:
  "\<exists>s. PendingInboundChunks (sts_txPool s) = [provedA] \<and> matched markEnv s provedA"
proof -
  obtain s where "(shardStep markEnv)\<^sup>*\<^sup>* (startA, []) (s, [])" "PendingInboundChunks (sts_txPool s) = [provedA]"
    using startA_run by blast
  then show ?thesis using chunks_used_once [of markEnv nullConfig s "[]"] by (auto simp: startA_def)
qed

end
