(* ===== verification/Ledger.thy ===== *)
theory Ledger
  imports SecureTrie
begin

text \<open>
  The account state as a ledger. A ledger is the abstract state of \<open>StateDB\<close> between two commits:
  the balance of every existing account, and the accounts marked since the last commit. The balance
  operations refine operations of the ledger (\<open>ledgerAdd\<close>, \<open>ledgerSub\<close>), and the state root depends
  on the ledger and the committed content only (\<open>flushed_ledger\<close>), not on what is loaded in memory. This is
  what lets the nodes of a shard agree on the root of a block.
\<close>

section \<open>Ledgers\<close>

record ledger =
  accounts :: "address \<rightharpoonup> u64"
  touched :: "address set"

definition ledgerBalance :: "ledger \<Rightarrow> address \<Rightarrow> u64" where
  "ledgerBalance w a = (case accounts w a of Some b \<Rightarrow> b | None \<Rightarrow> 0)"

text \<open>An account is touched when it is new or its balance is set; adding zero marks an empty account.\<close>

definition ledgerAdd :: "ledger \<Rightarrow> address \<Rightarrow> u64 \<Rightarrow> ledger" where
  "ledgerAdd w a x =
     \<lparr>accounts = (accounts w)(a \<mapsto> ledgerBalance w a + x),
      touched = (if accounts w a = None \<or> x \<noteq> 0 \<or> ledgerBalance w a = 0 then insert a (touched w) else touched w)\<rparr>"

definition ledgerSub :: "ledger \<Rightarrow> address \<Rightarrow> u64 \<Rightarrow> ledger" where
  "ledgerSub w a x =
     \<lparr>accounts = (accounts w)(a \<mapsto> ledgerBalance w a - x),
      touched = (if accounts w a = None \<or> x \<noteq> 0 then insert a (touched w) else touched w)\<rparr>"

lemma ledgerBalance_add [simp]:
  "ledgerBalance (ledgerAdd w a x) b = (if b = a then ledgerBalance w a + x else ledgerBalance w b)"
  by (simp add: ledgerBalance_def ledgerAdd_def)

lemma ledgerBalance_sub [simp]:
  "ledgerBalance (ledgerSub w a x) b = (if b = a then ledgerBalance w a - x else ledgerBalance w b)"
  by (simp add: ledgerBalance_def ledgerSub_def)

lemma insert_if: "insert a (if P then insert a S else S) = insert a S"
  by simp

text \<open>The balance operations leave the database alone.\<close>

lemma getDeleted_db [frame]: "sd_db (snd (getDeletedstateObject ops s a)) = sd_db s"
  by (simp add: getDeletedstateObject_def setError_def setstateObject_def Let_def
      split: option.splits prod.splits sum.splits)

lemma getstateObject_db: "getstateObject ops s a = (x, s') \<Longrightarrow> sd_db s' = sd_db s"
  using getDeleted_db [of ops s a] by (auto simp: getstateObject_def split: option.splits prod.splits)

lemma GetBalance_db [frame]: "sd_db (snd (GetBalance ops s a)) = sd_db s"
proof -
  obtain x s' where g: "getstateObject ops s a = (x, s')" by (cases "getstateObject ops s a")
  then show ?thesis using getstateObject_db [OF g] by (cases x) (simp_all add: GetBalance_def)
qed

lemma GetOrNew_db: "GetOrNewstateObject ops s a = (obj, s') \<Longrightarrow> sd_db s' = sd_db s"
proof -
  assume g: "GetOrNewstateObject ops s a = (obj, s')"
  obtain x s1 where s1: "getstateObject ops s a = (x, s1)" by (cases "getstateObject ops s a")
  have "sd_db s' = sd_db s1"
    using g s1 getDeleted_db [of ops s1 a]
    by (auto simp: GetOrNewstateObject_def createObject_def Let_def setstateObject_def appendJournal_def
        split: option.splits prod.splits if_splits)
  then show ?thesis using getstateObject_db [OF s1] by simp
qed

lemma balance_ops_db [frame]: "sd_db (AddBalance ops s a x) = sd_db s" "sd_db (SubBalance ops s a x) = sd_db s"
proof -
  obtain obj s' where g: "GetOrNewstateObject ops s a = (obj, s')" by (cases "GetOrNewstateObject ops s a")
  have "sd_db (objSetBalance s' obj y) = sd_db s'" "sd_db (objTouch s' obj) = sd_db s'" for y
    by (simp_all add: objSetBalance_def objTouch_def setstateObject_def appendJournal_def Let_def)
  then show "sd_db (AddBalance ops s a x) = sd_db s" "sd_db (SubBalance ops s a x) = sd_db s"
    using GetOrNew_db [OF g] g by (simp_all add: AddBalance_def SubBalance_def objAddBalance_def objSubBalance_def)
qed

lemma foldl_db: "(\<And>s x. sd_db (f s x) = sd_db s) \<Longrightarrow> sd_db (foldl f s xs) = sd_db s"
  by (induction xs arbitrary: s) auto

section \<open>The state refines the ledger\<close>

context account_trie
begin

text \<open>No account is deleted or suicided, nothing is pending, and every marked account is loaded.\<close>

definition ledgerRel :: "('d, 't) StateDB \<Rightarrow> 'c \<Rightarrow> ledger \<Rightarrow> bool" where
  "ledgerRel s c w \<longleftrightarrow> agrees s c \<and> sd_stateObjectsPending s = [] \<and>
     (\<forall>a obj. sd_stateObjects s a = Some obj \<longrightarrow> \<not> so_deleted obj \<and> \<not> so_suicided obj) \<and>
     dirtySet s = touched w \<and> (\<forall>a\<in>touched w. sd_stateObjects s a \<noteq> None) \<and>
     (\<forall>a. key a \<longrightarrow> map_option so_Balance (view s c a) = accounts w a)"

lemma ledger_good: "ledgerRel s c w \<Longrightarrow> good s c"
  by (simp add: ledgerRel_def agrees_def)

lemma view_plain: "ledgerRel s c w \<Longrightarrow> view s c a = Some obj \<Longrightarrow> \<not> so_deleted obj \<and> \<not> so_suicided obj"
  unfolding ledgerRel_def lookObj_def by (auto simp: newObject_def split: option.splits if_splits)

lemma touched_live: "ledgerRel s c w \<Longrightarrow> a \<in> touched w \<Longrightarrow> \<exists>obj. sd_stateObjects s a = Some obj \<and> key a"
  unfolding ledgerRel_def agrees_def by (cases "sd_stateObjects s a") auto

lemma ledger_balance: "ledgerRel s c w \<Longrightarrow> key a \<Longrightarrow> balanceOf (view s c a) = ledgerBalance w a"
proof -
  assume r: "ledgerRel s c w" and "key a"
  then have "map_option so_Balance (view s c a) = accounts w a" by (simp add: ledgerRel_def)
  then show ?thesis using view_plain [OF r, of a]
    by (cases "view s c a") (simp_all add: balanceOf_def ledgerBalance_def flip: \<open>_ = accounts w a\<close>)
qed

lemma ledger_alive: "ledgerRel s c w \<Longrightarrow> alive (view s c a) = view s c a"
  using view_plain [of s c w a] by (cases "view s c a") (auto simp: alive_def)

text \<open>Loading an object keeps the ledger.\<close>

lemma ledger_loaded:
  assumes "ledgerRel s c w" "loaded s c s'" "marks s c s'"
  shows "ledgerRel s' c w"
proof -
  have v: "view s' c = view s c" using assms(2) by (simp add: loaded_def)
  have "\<not> so_deleted obj \<and> \<not> so_suicided obj" if "sd_stateObjects s' a = Some obj" for a obj
    using view_plain [OF assms(1), of a obj] view_live [OF that, of c] v by simp
  moreover have "dirtySet s' = dirtySet s" using loaded_frame [OF assms(2)] by (simp add: dirtySet_def)
  moreover have "sd_stateObjects s' a \<noteq> None" if "a \<in> touched w" for a
    using assms(1,3) that unfolding ledgerRel_def marks_def by blast
  ultimately show ?thesis
    using assms agrees_marks [of s c s'] loaded_frame [OF assms(2)] unfolding ledgerRel_def v by auto
qed

text \<open>Setting the balance of a loaded object that is in the ledger.\<close>

lemma ledger_set:
  assumes "ledgerRel s c w" "key a" "good s' c" "agrees s' c"
    and "sd_stateObjectsPending s' = []" "dirtySet s' = D" "insert a (touched w) = D"
    and "sd_stateObjects s' = (sd_stateObjects s)(a \<mapsto> obj)" "\<not> so_deleted obj" "\<not> so_suicided obj"
  shows "ledgerRel s' c \<lparr>accounts = (accounts w)(a \<mapsto> so_Balance obj), touched = D\<rparr>"
proof -
  have "view s' c b = (if b = a then Some obj else view s c b)" for b
    using assms(8) by (simp add: lookObj_def)
  then show ?thesis using assms unfolding ledgerRel_def by auto
qed

lemma dirtySet_append: "dirtied e = Some a \<Longrightarrow> dirtySet (setstateObject (appendJournal s e) obj) = insert a (dirtySet s)"
  by (simp add: dirtySet_def setstateObject_def appendJournal_def journalAppend_def journalDirty_def dom_update Let_def)

lemma objSetBalance_ledger:
  assumes "ledgerRel s c w" "key a" "so_address obj = a" "\<not> so_deleted obj" "\<not> so_suicided obj"
  shows "ledgerRel (objSetBalance s obj x) c \<lparr>accounts = (accounts w)(a \<mapsto> x), touched = insert a (touched w)\<rparr>"
proof -
  let ?s = "objSetBalance s obj x"
  have g: "good s c" using ledger_good [OF assms(1)] .
  have m: "marks s c ?s" using objSetBalance_marks [OF g] assms(2,3) by simp
  have d: "dirtySet ?s = insert a (touched w)"
    using assms(1,3) dirtySet_append [of "BalanceChange a (so_Balance obj)" a] by (simp add: objSetBalance_def ledgerRel_def)
  have o: "sd_stateObjects ?s = (sd_stateObjects s)(a \<mapsto> obj\<lparr>so_Balance := x\<rparr>)"
    using assms(3) by (simp add: objSetBalance_def setstateObject_def appendJournal_def)
  have p: "sd_stateObjectsPending ?s = []" using m assms(1) by (simp add: marks_def ledgerRel_def)
  have ag: "agrees ?s c" using agrees_marks [OF _ m] assms(1) by (simp add: ledgerRel_def)
  from ledger_set [OF assms(1,2) _ ag p d refl o] m assms(4,5) show ?thesis by (simp add: marks_def)
qed

lemma GetOrNew_ledger:
  assumes "ledgerRel s c w" "key a"
  shows "\<exists>obj s'. GetOrNewstateObject ops s a = (obj, s') \<and> so_address obj = a \<and> \<not> so_deleted obj \<and> \<not> so_suicided obj \<and>
     so_Balance obj = ledgerBalance w a \<and> sd_stateObjects s' a = Some obj \<and>
     ledgerRel s' c \<lparr>accounts = (accounts w)(a \<mapsto> ledgerBalance w a),
       touched = (if accounts w a = None then insert a (touched w) else touched w)\<rparr>"
proof -
  have g: "good s c" using ledger_good [OF assms(1)] .
  obtain s1 where s1: "getstateObject ops s a = (view s c a, s1)" "loaded s c s1" "sd_stateObjects s1 a = view s c a"
    using getstateObject_spec [OF g assms(2)] ledger_alive [OF assms(1)] by auto
  have r1: "ledgerRel s1 c w" by (rule ledger_loaded [OF assms(1) s1(2) getstateObject_marks [OF g assms(2) s1(1)]])
  have acc: "map_option so_Balance (view s c a) = accounts w a" using assms by (simp add: ledgerRel_def)
  show ?thesis
  proof (cases "view s c a")
    case (Some obj)
    then have w: "accounts w a = Some (so_Balance obj)" using acc by simp
    then have "\<lparr>accounts = (accounts w)(a \<mapsto> ledgerBalance w a), touched = (if accounts w a = None then insert a (touched w) else touched w)\<rparr> = w"
      by (simp add: ledgerBalance_def fun_upd_idem)
    moreover have "so_Balance obj = ledgerBalance w a" using w by (simp add: ledgerBalance_def)
    ultimately show ?thesis
      using s1 Some r1 view_plain [OF assms(1) Some] view_address [OF g Some] by (auto simp: GetOrNewstateObject_def)
  next
    case None
    have v1: "view s1 c a = None" using s1(2) None by (simp add: loaded_def)
    have "sd_stateObjects s1 a = None" using s1(3) None by simp
    have g1: "good s1 c" using s1(2) by (simp add: loaded_def)
    obtain s2 where s2: "getDeletedstateObject ops s1 a = (None, s2)" "loaded s1 c s2" "sd_stateObjects s2 a = None"
      using getDeleted_spec [OF g1 assms(2)] v1 by auto
    let ?s = "setstateObject (appendJournal s2 (CreateObjectChange a)) (newObject a 0)"
    have cr: "createObject ops s1 a = ((newObject a 0, None), ?s)"
      using s2(1) by (simp add: createObject_def Let_def)
    have r2: "ledgerRel s2 c w"
      using ledger_loaded [OF r1 s2(2)] getDeleted_marks [OF g1 assms(2)] s2(1) by simp
    have m: "marks s1 c ?s" by (rule createObject_marks [OF g1 assms(2) cr]) (simp add: v1 balanceOf_def)
    have o: "sd_stateObjects ?s = (sd_stateObjects s2)(a \<mapsto> newObject a 0)"
      by (simp add: setstateObject_def appendJournal_def newObject_def)
    have d: "dirtySet ?s = insert a (touched w)"
      using r2 dirtySet_append [of "CreateObjectChange a" a s2] by (simp add: ledgerRel_def)
    have ag: "agrees ?s c" "sd_stateObjectsPending ?s = []"
      using agrees_marks [OF _ m] m r1 by (simp_all add: ledgerRel_def marks_def)
    have "accounts w a = None" using acc None by simp
    then show ?thesis
      using ledger_set [OF r2 assms(2) _ ag d refl o] m s1(1) None cr
      by (auto simp: GetOrNewstateObject_def marks_def newObject_def ledgerBalance_def setstateObject_def)
  qed
qed

text \<open>The balance operations refine those of the ledger.\<close>

lemma objTouch_ledger:
  assumes "ledgerRel s c w" "so_address obj = a" "sd_stateObjects s a = Some obj"
  shows "ledgerRel (objTouch s obj) c (w\<lparr>touched := insert a (touched w)\<rparr>)"
proof -
  have m: "marks s c (objTouch s obj)" using objTouch_marks [OF ledger_good [OF assms(1)]] .
  have "dirtySet (objTouch s obj) = insert a (dirtySet s)"
    using assms(2) by (auto simp: dirtySet_def objTouch_def Let_def appendJournal_def journalAppend_def journalDirty_def dom_update)
  moreover have "sd_stateObjects (objTouch s obj) = sd_stateObjects s"
    by (simp add: objTouch_def Let_def appendJournal_def)
  moreover have "agrees (objTouch s obj) c" "sd_stateObjectsPending (objTouch s obj) = []"
    using agrees_marks [OF _ m] m assms(1) by (simp_all add: ledgerRel_def marks_def)
  ultimately show ?thesis using assms(1,3) unfolding ledgerRel_def by simp
qed

lemma AddBalance_ledger:
  assumes "ledgerRel s c w" "key a"
  shows "ledgerRel (AddBalance ops s a x) c (ledgerAdd w a x)"
proof -
  let ?w = "\<lparr>accounts = (accounts w)(a \<mapsto> ledgerBalance w a), touched = (if accounts w a = None then insert a (touched w) else touched w)\<rparr>"
  obtain obj s' where o: "GetOrNewstateObject ops s a = (obj, s')" "so_address obj = a" "\<not> so_deleted obj" "\<not> so_suicided obj"
      "so_Balance obj = ledgerBalance w a" "sd_stateObjects s' a = Some obj" "ledgerRel s' c ?w"
    using GetOrNew_ledger [OF assms] by blast
  have "ledgerRel (objAddBalance s' obj x) c (ledgerAdd w a x)"
  proof (cases "x = 0")
    case True
    then show ?thesis using objTouch_ledger [OF o(7,2,6)] o(5,7) by (auto simp: objAddBalance_def ledgerAdd_def soEmpty_def insert_if)
  next
    case False
    then show ?thesis using objSetBalance_ledger [OF o(7) assms(2) o(2-4), of "so_Balance obj + x"] o(5)
      by (simp add: objAddBalance_def ledgerAdd_def insert_if)
  qed
  then show ?thesis using o(1) by (simp add: AddBalance_def)
qed

lemma SubBalance_ledger:
  assumes "ledgerRel s c w" "key a"
  shows "ledgerRel (SubBalance ops s a x) c (ledgerSub w a x)"
proof -
  let ?w = "\<lparr>accounts = (accounts w)(a \<mapsto> ledgerBalance w a), touched = (if accounts w a = None then insert a (touched w) else touched w)\<rparr>"
  obtain obj s' where o: "GetOrNewstateObject ops s a = (obj, s')" "so_address obj = a" "\<not> so_deleted obj" "\<not> so_suicided obj"
      "so_Balance obj = ledgerBalance w a" "ledgerRel s' c ?w"
    using GetOrNew_ledger [OF assms] by blast
  have "ledgerRel (objSubBalance s' obj x) c (ledgerSub w a x)"
    using objSetBalance_ledger [OF o(6) assms(2) o(2-4), of "so_Balance obj - x"] o(5,6)
    by (auto simp: objSubBalance_def ledgerSub_def insert_if)
  then show ?thesis using o(1) by (simp add: SubBalance_def)
qed

lemma GetBalance_ledger:
  assumes "ledgerRel s c w" "key a"
  shows "\<exists>s'. GetBalance ops s a = (ledgerBalance w a, s') \<and> ledgerRel s' c w"
proof -
  obtain s' where s': "getstateObject ops s a = (view s c a, s')" "loaded s c s'"
    using getstateObject_spec [OF ledger_good [OF assms(1)] assms(2)] ledger_alive [OF assms(1)] by auto
  have "ledgerRel s' c w"
    by (rule ledger_loaded [OF assms(1) s'(2) getstateObject_marks [OF ledger_good [OF assms(1)] assms(2) s'(1)]])
  moreover have "fst (GetBalance ops s a) = ledgerBalance w a"
    using GetBalance_spec [OF ledger_good [OF assms(1)] assms(2)] ledger_balance [OF assms] by auto
  moreover have "snd (GetBalance ops s a) = s'" using s'(1) by (simp add: GetBalance_def split: option.splits)
  ultimately show ?thesis by (metis prod.collapse)
qed

section \<open>The root of a ledger\<close>

definition ledgerBytes :: "ledger \<Rightarrow> address \<Rightarrow> bytes" where
  "ledgerBytes w a = encAccount ops (ledgerBalance w a)"

lemma finObj_plain: "\<not> so_suicided obj \<Longrightarrow> finObj False obj = obj"
  by (simp add: finObj_def)

text \<open>Without deletion of empty objects, finalising only moves the marked addresses to the pending ones.\<close>

lemma Finalise_ledger:
  assumes "ledgerRel s c w"
  shows "sd_stateObjects (Finalise s False) = sd_stateObjects s" "set (sd_stateObjectsPending (Finalise s False)) = touched w"
proof -
  have o: "sd_stateObjects s a = Some obj \<Longrightarrow> finObj False obj = obj" for a obj
    using assms finObj_plain unfolding ledgerRel_def by blast
  show "sd_stateObjects (Finalise s False) = sd_stateObjects s"
    using o by (auto simp: Finalise_effect fun_eq_iff map_option_case split: option.splits)
  show "set (sd_stateObjectsPending (Finalise s False)) = touched w"
    using assms unfolding ledgerRel_def by (auto simp: Finalise_effect dirtySet_def)
qed

lemma flushed_cong:
  assumes "ledgerRel s c w" "set as \<subseteq> touched w"
  shows "foldl (\<lambda>c a. cset c a (written (sd_stateObjects s a))) d as = foldl (\<lambda>c a. cset c a (ledgerBytes w a)) d as"
proof -
  have "written (sd_stateObjects s a) = ledgerBytes w a" if t: "a \<in> touched w" for a
  proof -
    obtain obj where obj: "sd_stateObjects s a = Some obj" "key a" using touched_live [OF assms(1) t] by blast
    note k = obj(2)
    have "\<not> so_deleted obj" using view_plain [OF assms(1) view_live [OF obj(1)]] by simp
    then show ?thesis using ledger_balance [OF assms(1) k] view_live [OF obj(1), of c] obj
      by (simp add: written_def ledgerBytes_def balanceOf_def)
  qed
  with assms(2) show ?thesis by (induction as arbitrary: d) auto
qed

lemma flushed_ledger:
  assumes "ledgerRel s c w" "ledgerRel s' c w"
  shows "flushed s' c False = flushed s c False"
proof -
  have ag: "agrees s c" "agrees s' c" using assms by (simp_all add: ledgerRel_def)
  have inv: "cinv c" using ag(1) rep_cinv by (auto simp: agrees_def good_def)
  note f = Finalise_ledger [OF assms(1)] Finalise_ledger [OF assms(2)]
  show ?thesis unfolding flushed_def f(1,3) flushed_cong [OF assms(1) eq_refl [OF f(2)]] flushed_cong [OF assms(2) eq_refl [OF f(4)]]
    using Finalise_pending [OF ag(1), where d = False] Finalise_pending [OF ag(2), where d = False] inv f(2,4) by (intro foldl_cset_order) auto
qed

subsection \<open>The journal and the error\<close>

text \<open>A step that records no error and that leaves an entry in the journal when it changes it.\<close>

definition quiet :: "('d, 't) StateDB \<Rightarrow> ('d, 't) StateDB \<Rightarrow> bool" where
  "quiet s s' \<longleftrightarrow> sd_dbErr s' = sd_dbErr s \<and> (sd_journal s' = sd_journal s \<or> j_entries (sd_journal s') \<noteq> [])"

lemma quiet_trans: "quiet s s' \<Longrightarrow> quiet s' s'' \<Longrightarrow> quiet s s''"
  by (auto simp: quiet_def)

lemma quiet_loaded: "loaded s c s' \<Longrightarrow> quiet s s'"
  by (auto simp: loaded_def quiet_def)

lemma quiet_entry: "quiet s (appendJournal s e)" "quiet s (setstateObject (appendJournal s e) obj)"
  by (simp_all add: quiet_def appendJournal_def setstateObject_def entries_append)

lemma quiet_touch: "quiet s (objTouch s obj)"
  by (simp add: quiet_def objTouch_def Let_def appendJournal_def entries_append journalDirty_def)

lemma quiet_GetOrNew:
  assumes "good s c" "key a" "GetOrNewstateObject ops s a = (obj, s')"
  shows "quiet s s'"
proof -
  obtain s1 where s1: "getstateObject ops s a = (alive (view s c a), s1)" "loaded s c s1"
    using getstateObject_spec [OF assms(1,2)] by blast
  have "good s1 c" using s1(2) by (simp add: loaded_def)
  then obtain s2 where s2: "getDeletedstateObject ops s1 a = (view s1 c a, s2)" "loaded s1 c s2"
    using getDeleted_spec [OF _ assms(2)] by blast
  have "s' = s1 \<or> (\<exists>e obj. s' = setstateObject (appendJournal s2 e) obj)"
    using assms(3) s1(1) s2(1)
    by (auto simp: GetOrNewstateObject_def createObject_def Let_def split: option.splits if_splits)
  then show ?thesis
    using quiet_trans [OF quiet_loaded [OF s1(2)]] quiet_trans [OF quiet_loaded [OF s2(2)] quiet_entry(2)] quiet_loaded [OF s1(2)] by blast
qed

lemma quiet_balance:
  assumes "good s c" "key a"
  shows "quiet s (AddBalance ops s a x)" "quiet s (SubBalance ops s a x)" "quiet s (snd (GetBalance ops s a))"
proof -
  obtain obj s' where g: "GetOrNewstateObject ops s a = (obj, s')" by (cases "GetOrNewstateObject ops s a")
  note q = quiet_GetOrNew [OF assms g]
  have "quiet s' (objAddBalance s' obj x)" "quiet s' (objSubBalance s' obj x)"
    using quiet_touch [of s' obj] quiet_entry(2) [of s']
    by (simp_all add: objAddBalance_def objSubBalance_def objSetBalance_def) (simp_all add: quiet_def)
  then show "quiet s (AddBalance ops s a x)" "quiet s (SubBalance ops s a x)"
    using quiet_trans [OF q] g by (simp_all add: AddBalance_def SubBalance_def)
  show "quiet s (snd (GetBalance ops s a))"
    using GetBalance_spec [OF assms] quiet_loaded by auto
qed

definition journalOk :: "('d, 't) StateDB \<Rightarrow> bool" where
  "journalOk s \<longleftrightarrow> sd_dbErr s = None \<and> (j_entries (sd_journal s) = [] \<longrightarrow> j_dirties (sd_journal s) = [])"

lemma quiet_ok: "quiet s s' \<Longrightarrow> journalOk s \<Longrightarrow> journalOk s'"
  by (auto simp: quiet_def journalOk_def)

subsection \<open>Ledgers over a content\<close>

text \<open>What is not marked is as in the content.\<close>

definition trieAccounts :: "'c \<Rightarrow> address \<rightharpoonup> u64" where
  "trieAccounts c a = map_option so_Balance (lookObj (decAccount ops) (clook c) Map.empty a)"

definition onLedger :: "('d, 't) StateDB \<Rightarrow> 'c \<Rightarrow> ledger \<Rightarrow> bool" where
  "onLedger s c w \<longleftrightarrow> ledgerRel s c w \<and> journalOk s \<and> (\<forall>a. key a \<longrightarrow> a \<notin> touched w \<longrightarrow> accounts w a = trieAccounts c a)"

lemma onLedger_good: "onLedger s c w \<Longrightarrow> good s c"
  using ledger_good by (auto simp: onLedger_def)

lemma onLedger_add: "onLedger s c w \<Longrightarrow> key a \<Longrightarrow> onLedger (AddBalance ops s a x) c (ledgerAdd w a x)"
  using AddBalance_ledger [of s c w a x] quiet_ok [OF quiet_balance(1), of s c a x] onLedger_good [of s c w] unfolding onLedger_def
  by (auto simp: ledgerAdd_def ledgerBalance_def split: if_splits)

lemma onLedger_sub: "onLedger s c w \<Longrightarrow> key a \<Longrightarrow> onLedger (SubBalance ops s a x) c (ledgerSub w a x)"
  using SubBalance_ledger [of s c w a x] quiet_ok [OF quiet_balance(2), of s c a x] onLedger_good [of s c w] unfolding onLedger_def
  by (auto simp: ledgerSub_def ledgerBalance_def split: if_splits)

lemma onLedger_get:
  assumes "onLedger s c w" "key a"
  shows "\<exists>s'. GetBalance ops s a = (ledgerBalance w a, s') \<and> onLedger s' c w"
proof -
  obtain s' where "GetBalance ops s a = (ledgerBalance w a, s')" "ledgerRel s' c w"
    using GetBalance_ledger [of s c w a] assms by (auto simp: onLedger_def)
  then show ?thesis using quiet_ok [OF quiet_balance(3) [OF onLedger_good [OF assms(1)] assms(2)]] assms(1) by (simp add: onLedger_def)
qed

text \<open>The ledger that a content holds, and the state that is loaded from it.\<close>

definition trieLedger :: "'c \<Rightarrow> ledger" where
  "trieLedger c = \<lparr>accounts = trieAccounts c, touched = {}\<rparr>"

lemma onLedger_fresh: "rep d t c \<Longrightarrow> onLedger (emptyStateDB d t) c (trieLedger c)"
  unfolding onLedger_def ledgerRel_def agrees_def good_def
  by (simp add: emptyStateDB_def trieLedger_def trieAccounts_def dirtySet_def newJournal_def journalOk_def)

text \<open>A content that can be loaded under its root.\<close>

definition available :: "'d \<Rightarrow> 'c \<Rightarrow> bool" where
  "available d c \<longleftrightarrow> (\<exists>t. op_OpenTrie ops d (croot c) = Inr t \<and> rep d t c)"

definition fresh :: "('d, 't) StateDB \<Rightarrow> 'c \<Rightarrow> bool" where
  "fresh s c \<longleftrightarrow> (\<exists>t. s = emptyStateDB (sd_db s) t \<and> rep (sd_db s) t c)"

lemma fresh_ledger: "fresh s c \<Longrightarrow> onLedger s c (trieLedger c)"
  unfolding fresh_def using onLedger_fresh by metis

lemma StateNew_fresh: "available d c \<Longrightarrow> \<exists>s. StateNew ops (croot c) d = Inr s \<and> sd_db s = d \<and> fresh s c"
  by (auto simp: available_def StateNew_def fresh_def emptyStateDB_def)

lemma flushed_accounts:
  assumes "onLedger s c w" "key a"
  shows "trieAccounts (flushed s c False) a = accounts w a"
proof -
  have r: "ledgerRel s c w" and ag: "agrees s c" using assms(1) by (simp_all add: onLedger_def ledgerRel_def)
  have inv: "cinv c" using ag rep_cinv by (auto simp: agrees_def good_def)
  note f = Finalise_ledger [OF r] and p = Finalise_pending [OF ag, where d = False]
  have "flushed s c False = foldl (\<lambda>c a. cset c a (ledgerBytes w a)) c (sd_stateObjectsPending (Finalise s False))"
    unfolding flushed_def f(1) by (rule flushed_cong [OF r]) (simp add: f)
  then have look: "clook (flushed s c False) a = (if a \<in> touched w then Some (ledgerBytes w a) else clook c a)"
    using foldl_cset_look [OF inv p(2) _ assms(2), of "ledgerBytes w"] p(3) f(2) codec(2) by (auto simp: ledgerBytes_def)
  show ?thesis
  proof (cases "a \<in> touched w")
    case True
    then obtain obj where "view s c a = Some obj" using touched_live [OF r True] view_live [of s a _ c] by blast
    moreover have "map_option so_Balance (view s c a) = accounts w a" using r assms(2) by (simp add: ledgerRel_def)
    ultimately have "accounts w a = Some (so_Balance obj)" by simp
    then show ?thesis using look True codec
      by (auto simp: trieAccounts_def lookObj_def ledgerBytes_def ledgerBalance_def newObject_def)
  next
    case False
    then have "trieAccounts (flushed s c False) a = trieAccounts c a" using look by (simp add: trieAccounts_def lookObj_def)
    then show ?thesis using assms False by (simp add: onLedger_def)
  qed
qed

lemma flushed_settled: "onLedger s c w \<Longrightarrow> touched w = {} \<Longrightarrow> flushed s c False = c"
  using Finalise_ledger(2) [of s c w] by (simp add: onLedger_def flushed_def)

lemma flushed_single:
  assumes "onLedger s c w" "touched w = {a}"
  shows "flushed s c False = cset c a (ledgerBytes w a)"
proof -
  have r: "ledgerRel s c w" and ag: "agrees s c" using assms(1) by (simp_all add: onLedger_def ledgerRel_def)
  note f = Finalise_ledger [OF r]
  have "sd_stateObjectsPending (Finalise s False) = [a]"
    using Finalise_pending(2) [OF ag, of False] f(2) assms(2) by (cases "sd_stateObjectsPending (Finalise s False)") (auto dest!: subset_singletonD)
  then show ?thesis unfolding flushed_def f(1) using flushed_cong [OF r, of "[a]" c] assms(2) by simp
qed

lemma onLedger_cong:
  "onLedger s c w \<Longrightarrow> (\<And>a. key a \<Longrightarrow> accounts w' a = accounts w a) \<Longrightarrow> touched w' = touched w \<Longrightarrow> onLedger s c w'"
  by (simp add: onLedger_def ledgerRel_def)

text \<open>The ledger after a commit.\<close>

definition settled :: "ledger \<Rightarrow> ledger" where
  "settled w = w\<lparr>touched := {}\<rparr>"

lemma settled_trieLedger [simp]: "settled (trieLedger c) = trieLedger c"
  by (simp add: settled_def trieLedger_def)

lemma onLedger_finalised:
  assumes "onLedger s c w" "rep d t (flushed s c False)" "sd_db s' = d" "sd_trie s' = t"
    and "sd_stateObjects s' = sd_stateObjects s" "sd_stateObjectsPending s' = []" "dirtySet s' = {}" "sd_dbErr s' = None"
  shows "onLedger s' (flushed s c False) (settled w)"
proof -
  let ?c = "flushed s c False"
  have r: "ledgerRel s c w" and ag: "agrees s c" using assms(1) by (simp_all add: onLedger_def ledgerRel_def)
  have ac: "map_option so_Balance (view s' ?c a) = accounts w a" if "key a" for a
  proof (cases "sd_stateObjects s a")
    case (Some obj)
    have "map_option so_Balance (view s c a) = accounts w a" using r that by (simp add: ledgerRel_def)
    then show ?thesis using Some assms(5) by (simp add: lookObj_def)
  qed (use flushed_accounts [OF assms(1) that] assms(5) in \<open>simp add: trieAccounts_def lookObj_def\<close>)
  have tb: "balanceOf (Some obj) = trieBalance ?c a" if "sd_stateObjects s a = Some obj" for a obj
    using flushed_balance [OF ag, of a False] view_live [OF that, of c] that r ag unfolding agrees_def ledgerRel_def by auto
  have "good s' ?c" using assms ag by (simp add: good_def agrees_def)
  then have "agrees s' ?c" using tb assms ag by (simp add: agrees_def)
  moreover have "journalOk s'" using assms(7,8) by (simp add: journalOk_def dirtySet_def)
  ultimately show ?thesis using ac flushed_accounts [OF assms(1)] r assms(5-7)
    by (simp add: onLedger_def ledgerRel_def settled_def)
qed

end

context persistent_trie
begin

lemma commit_ledger:
  assumes "onLedger s c w" "stored S (sd_db s)" "fits S (flushed s c False)"
  shows "\<exists>s'. StateCommit ops s False = Some (Inr (croot (flushed s c False)), s') \<and>
     stored (adding S (flushed s c False)) (sd_db s') \<and> onLedger s' (flushed s c False) (settled w) \<and>
     available (sd_db s') (flushed s c False) \<and> (\<forall>c0. available (sd_db s) c0 \<longrightarrow> available (sd_db s') c0)"
proof -
  let ?c = "flushed s c False" and ?f = "Finalise s False"
  have r: "ledgerRel s c w" and ag: "agrees s c" and j: "journalOk s" using assms(1) by (simp_all add: onLedger_def ledgerRel_def)
  obtain t' where t': "IntermediateRoot ops s False = Some (croot ?c, ?f\<lparr>sd_stateObjectsPending := [], sd_trie := t'\<rparr>)"
      "rep (sd_db s) t' ?c"
    using IntermediateRoot_flushed [OF ag] by blast
  obtain d' t'' where d': "op_Commit ops (sd_db s) t' = (Inr (croot ?c), d', t'')" "stored (adding S ?c) d'" "rep d' t'' ?c"
      "available d' ?c" "\<forall>c0. available (sd_db s) c0 \<longrightarrow> available d' c0"
    using commit [OF t'(2) assms(2,3)] unfolding available_def by blast
  let ?s = "?f\<lparr>sd_stateObjectsPending := [], sd_trie := t'', sd_stateObjectsDirty := [], sd_db := d'\<rparr>"
  have c: "StateCommit ops s False = Some (Inr (croot ?c), ?s)"
    using j t'(1) d'(1) by (simp add: journalOk_def StateCommit_def Let_def Finalise_effect)
  have "dirtySet ?s = {}"
    using j by (auto simp: journalOk_def dirtySet_def Finalise_def newJournal_def clearJournalAndRefund_def finalise_fold)
  then have s: "onLedger ?s ?c (settled w)"
    using Finalise_ledger(1) [OF r] j by (intro onLedger_finalised [OF assms(1) d'(3)]) (simp_all add: journalOk_def Finalise_effect)
  then show ?thesis using c d'(2,4,5) by auto
qed

end

end
