(* ===== verification/Blockchain.thy ===== *)
theory Blockchain
  imports Ledger ShardStates Message
begin

text \<open>
  The chain of a node (\<open>core/blockchain.go\<close>). The leader of a processing shard creates blocks, the
  validators check them by executing them on their own state and roll back, and a committed block
  moves the state of every node to its root. The record \<open>Blockchain\<close> has the fields of the Go
  struct; \<open>chain.TxPool\<close> is the pool of \<open>ShardStates\<close>, which is the same object. What is handed to
  \<open>Node.Gossip\<close> is appended to \<open>bc_sent\<close> with its destination shard. Not modelled: the key file, the
  block files that a leader writes, logging.

  \<open>nodeEnv\<close> holds the third-party functions. The time and the random draws are arguments. The
  state mutex makes every operation atomic. A result \<open>Hang\<close> of \<open>CheckBlock\<close> is the loop that waits
  for a header which has not arrived.
\<close>

section \<open>The chain\<close>

record nodeEnv =
  n_env :: chainEnv
  n_rlpHeader :: "HeaderForHash \<Rightarrow> bytes"
  n_rlpTx :: "Transaction \<Rightarrow> bytes"
  n_encAccount :: "u64 \<Rightarrow> bytes"
  n_decAccount :: "bytes \<Rightarrow> u64 option"

type_synonym State = "(Database, SecureTrie) StateDB"

record Blockchain =
  bc_ShardStates :: ShardStates
  bc_LatestBlock :: "Block option"
  bc_BlockDB :: "u32 \<rightharpoonup> Block"
  bc_StateDB :: State
  bc_OutboundChunkDB :: "hash \<rightharpoonup> OutboundChunk list"
  bc_sent :: "(u32 \<times> BlockchainMessage) list"
  bc_config :: Config

definition nodeOps :: "nodeEnv \<Rightarrow> (Database, SecureTrie) trieOps" where
  "nodeOps N = secureOps (e_crypto (n_env N)) (e_reader (n_env N)) (e_emptyRoot (n_env N)) (n_encAccount N) (n_decAccount N)"

abbreviation keccakOf :: "nodeEnv \<Rightarrow> bytes \<Rightarrow> hash" where
  "keccakOf N \<equiv> keccak256 (e_crypto (n_env N))"

definition gossip :: "Blockchain \<Rightarrow> u32 \<Rightarrow> Topic \<Rightarrow> payload \<Rightarrow> Blockchain" where
  "gossip chain shard t p = chain\<lparr>bc_sent := bc_sent chain @ [(shard, NewBlockchainMessage t p)]\<rparr>"

text \<open>\<open>None\<close> would be a nil \<open>StateDB\<close>, when the empty trie cannot be opened.\<close>

definition NewBlockchain :: "nodeEnv \<Rightarrow> Config \<Rightarrow> Blockchain option" where
  "NewBlockchain N config =
     (case StateNew (nodeOps N) zeroHash freshDb of
        Inl _ \<Rightarrow> None
      | Inr s \<Rightarrow>
          Some \<lparr>bc_ShardStates = NewShardStates config (NewTxPool config), bc_LatestBlock = None, bc_BlockDB = Map.empty,
                bc_StateDB = s, bc_OutboundChunkDB = Map.empty, bc_sent = [], bc_config = config\<rparr>)"

text \<open>\<open>root, _ := chain.StateDB.Commit(false)\<close>: with an error the root is the zero hash.\<close>

definition commitState :: "nodeEnv \<Rightarrow> State \<Rightarrow> (hash \<times> State) option" where
  "commitState N s =
     map_option (\<lambda>(r, s). (case r of Inr root \<Rightarrow> root | Inl _ \<Rightarrow> zeroHash, s)) (StateCommit (nodeOps N) s False)"

definition fundAccounts :: "nodeEnv \<Rightarrow> Config \<Rightarrow> State \<Rightarrow> State" where
  "fundAccounts N config s = foldl (\<lambda>s addr. AddBalance (nodeOps N) s addr 10000000) s (cfg_Accounts config)"

definition Genesis :: "nodeEnv \<Rightarrow> u64 \<Rightarrow> Blockchain \<Rightarrow> (unit, Block \<times> Blockchain) res" where
  "Genesis N now chain =
     (let config = bc_config chain in
      case commitState N (fundAccounts N config (bc_StateDB chain)) of
        None \<Rightarrow> Panic
      | Some (root, s) \<Rightarrow>
          let head = NewHeader (n_rlpHeader N) (keccakOf N) (cfg_ShardId config) 0 zeroHash root zeroHash
                (NewBitmap (cfg_PShardNum config)) now;
              block = NewBlock head [] []
          in Ok (block, chain\<lparr>bc_StateDB := s, bc_LatestBlock := Some block\<rparr>))"

section \<open>Executing transactions\<close>

definition execInboundTx :: "nodeEnv \<Rightarrow> Config \<Rightarrow> State \<Rightarrow> Transaction \<Rightarrow> State" where
  "execInboundTx N config s tx =
     (if FromShard tx \<noteq> cfg_ShardId config \<and> ToShard tx = cfg_ShardId config
      then AddBalance (nodeOps N) s (ToAddr tx) (Value tx) else s)"

definition execInbound :: "nodeEnv \<Rightarrow> Config \<Rightarrow> State \<Rightarrow> OutboundChunk list \<Rightarrow> State" where
  "execInbound N config s chunks = foldl (\<lambda>s c. foldl (execInboundTx N config) s (Txs c)) s chunks"

text \<open>One iteration of the loop over the transactions of a block.\<close>

definition execTx :: "nodeEnv \<Rightarrow> Config \<Rightarrow> State \<Rightarrow> Transaction \<Rightarrow> State" where
  "execTx N config s tx =
     (if FromShard tx = cfg_ShardId config \<and> ToShard tx = cfg_ShardId config then
        (case GetBalance (nodeOps N) s (FromAddr tx) of
           (bal, s) \<Rightarrow>
             if bal < Value tx then s
             else AddBalance (nodeOps N) (SubBalance (nodeOps N) s (FromAddr tx) (Value tx)) (ToAddr tx) (Value tx))
      else if FromShard tx = cfg_ShardId config \<and> ToShard tx \<noteq> cfg_ShardId config then
        (case GetBalance (nodeOps N) s (FromAddr tx) of
           (bal, s) \<Rightarrow> if bal < Value tx then s else SubBalance (nodeOps N) s (FromAddr tx) (Value tx))
      else s)"

text \<open>The leader's loop also collects the destinations; \<open>SetKey\<close> may be out of range.\<close>

fun leaderTxs :: "nodeEnv \<Rightarrow> Config \<Rightarrow> State \<Rightarrow> Bitmap \<Rightarrow> Transaction list \<Rightarrow> (State \<times> Bitmap) option" where
  "leaderTxs N config s bm [] = Some (s, bm)"
| "leaderTxs N config s bm (tx # txs) =
     (if FromShard tx = cfg_ShardId config \<and> ToShard tx \<noteq> cfg_ShardId config \<and>
         \<not> fst (GetBalance (nodeOps N) s (FromAddr tx)) < Value tx
      then (case SetKey bm (ToShard tx - 1001) of
              None \<Rightarrow> None
            | Some bm \<Rightarrow> leaderTxs N config (execTx N config s tx) bm txs)
      else leaderTxs N config (execTx N config s tx) bm txs)"

text \<open>\<open>outboundChunks[tx.ToShard-1001].Txs = append(...)\<close>; \<open>None\<close>: index out of range.\<close>

fun placeTxs :: "OutboundChunk list \<Rightarrow> Transaction list \<Rightarrow> OutboundChunk list option" where
  "placeTxs cs [] = Some cs"
| "placeTxs cs (tx # txs) =
     (let i = unat (ToShard tx - 1001) in
      if i < length cs then placeTxs (cs[i := (cs ! i)\<lparr>Txs := Txs (cs ! i) @ [tx]\<rparr>]) txs else None)"

definition outboundChunksOf :: "Config \<Rightarrow> Transaction list \<Rightarrow> OutboundChunk list option" where
  "outboundChunksOf config txs = placeTxs (replicate (unat (cfg_PShardNum config)) zeroChunk) txs"

text \<open>The proofs of the chunks; an error of \<open>Prove\<close> leaves the proof empty.\<close>

fun proveChunks :: "crypto \<Rightarrow> Trie \<Rightarrow> hash \<Rightarrow> nat \<Rightarrow> OutboundChunk list \<Rightarrow> (unit, OutboundChunk list) res" where
  "proveChunks H txTrie h i [] = Ok []"
| "proveChunks H txTrie h i (c # cs) =
     (case Prove H noDb txTrie (uintKey H (i + 1001)) 0 of
        Ok puts \<Rightarrow> rmap ((#) (c\<lparr>ChunkProof := map snd puts, BlockHash := h\<rparr>)) (proveChunks H txTrie h (Suc i) cs)
      | Err _ \<Rightarrow> rmap ((#) (c\<lparr>ChunkProof := [], BlockHash := h\<rparr>)) (proveChunks H txTrie h (Suc i) cs)
      | Panic \<Rightarrow> Panic
      | Hang \<Rightarrow> Hang)"

section \<open>Creating and committing blocks\<close>

text \<open>The part of \<open>CreateNewBlock\<close> after the transactions are chosen.\<close>

definition packBlock :: "nodeEnv \<Rightarrow> u64 \<Rightarrow> Block \<Rightarrow> Blockchain \<Rightarrow> Transaction list \<Rightarrow> OutboundChunk list \<Rightarrow>
    (unit, Block \<times> Blockchain) res" where
  "packBlock N now latest chain txs inboundChunks =
     (let config = bc_config chain; env = n_env N in
      case leaderTxs N config (execInbound N config (bc_StateDB chain) inboundChunks) (NewBitmap (cfg_PShardNum config)) txs of
        None \<Rightarrow> Panic
      | Some (s, outboundDstBitmap) \<Rightarrow>
          (case commitState N s of
             None \<Rightarrow> Panic
           | Some (stateRoot, s) \<Rightarrow>
               (case outboundChunksOf config txs of
                  None \<Rightarrow> Panic
                | Some outboundChunks \<Rightarrow>
                    (case txRootOf env outboundChunks newTrie of
                       None \<Rightarrow> Panic
                     | Some (txRoot, txTrie) \<Rightarrow>
                         let head = NewHeader (n_rlpHeader N) (keccakOf N) (cfg_ShardId config) (Height latest + 1)
                               (HeaderGetHash (n_rlpHeader N) (keccakOf N) latest) stateRoot txRoot outboundDstBitmap now
                         in rmap (\<lambda>outboundChunks.
                              let block = NewBlock head txs inboundChunks in
                              (block, chain\<lparr>bc_StateDB := s, bc_LatestBlock := Some block,
                                 bc_OutboundChunkDB := (bc_OutboundChunkDB chain)(Hash block \<mapsto> outboundChunks)\<rparr>))
                            (proveChunks (e_crypto env) txTrie (Hash head) 0 outboundChunks)))))"

definition CreateNewBlock :: "nodeEnv \<Rightarrow> u64 \<Rightarrow> (nat \<Rightarrow> draw) \<Rightarrow> Blockchain \<Rightarrow> (unit, Block \<times> Blockchain) res" where
  "CreateNewBlock N now draws chain =
     (case bc_LatestBlock chain of
        None \<Rightarrow> Genesis N now chain
      | Some latest \<Rightarrow>
          (case takeTxs1 (sts_txPool (bc_ShardStates chain)) 100 of
             (inboundChunks, pool) \<Rightarrow>
               let chain = chain\<lparr>bc_ShardStates := (bc_ShardStates chain)\<lparr>sts_txPool := pool\<rparr>\<rparr> in
               (case (if cfg_ShardId (bc_config chain) \<ge> 1001 \<and> Height latest + 1 < 200
                      then GenerateCrossShardTx2 (n_rlpTx N) (keccakOf N) pool draws else Some []) of
                  None \<Rightarrow> Panic
                | Some txs \<Rightarrow> packBlock N now latest chain txs inboundChunks)))"

definition RollBack :: "nodeEnv \<Rightarrow> Blockchain \<Rightarrow> hash \<Rightarrow> bool \<times> Blockchain" where
  "RollBack N chain h =
     (case StateNew (nodeOps N) h (sd_db (bc_StateDB chain)) of
        Inl _ \<Rightarrow> (False, chain)
      | Inr s \<Rightarrow> (True, chain\<lparr>bc_StateDB := s\<rparr>))"

text \<open>
  \<open>ExecuteBlock\<close> only logs what is wrong with a block; it panics on a chunk without
  transactions and on a chunk whose header or shard is not known.
\<close>

fun executeInbound :: "nodeEnv \<Rightarrow> Config \<Rightarrow> ShardStates \<Rightarrow> State \<Rightarrow> OutboundChunk list \<Rightarrow> (unit, State) res" where
  "executeInbound N config sts s [] = Ok s"
| "executeInbound N config sts s (c # cs) =
     (case Txs c of
        [] \<Rightarrow> Panic
      | tx # _ \<Rightarrow>
          (case sts_StateDB sts (FromShard tx) of
             None \<Rightarrow> Panic
           | Some st \<Rightarrow>
               (case ss_Headers st (BlockHash c) of
                  None \<Rightarrow> Panic
                | Some header \<Rightarrow>
                    rbind (CheckInboundChunk (n_env N) header c) (\<lambda>_.
                      executeInbound N config sts (foldl (execInboundTx N config) s (Txs c)) cs))))"

definition ExecuteBlock :: "nodeEnv \<Rightarrow> Blockchain \<Rightarrow> Block \<Rightarrow> (unit, Blockchain) res" where
  "ExecuteBlock N chain block =
     (let config = bc_config chain in
      case (if Height block = 0 then map_option snd (commitState N (fundAccounts N config (bc_StateDB chain)))
            else Some (bc_StateDB chain)) of
        None \<Rightarrow> Panic
      | Some s \<Rightarrow>
          if bc_LatestBlock chain = None then Panic
          else
            rbind (executeInbound N config (bc_ShardStates chain) s (InboundChunks block)) (\<lambda>s.
              case commitState N (foldl (execTx N config) s (Transactions block)) of
                None \<Rightarrow> Panic
              | Some (_, s) \<Rightarrow>
                  (case outboundChunksOf config (Transactions block) of
                     None \<Rightarrow> Panic
                   | Some outboundChunks \<Rightarrow>
                       (case txRootOf (n_env N) outboundChunks newTrie of
                          None \<Rightarrow> Panic
                        | Some _ \<Rightarrow> Ok (chain\<lparr>bc_StateDB := s\<rparr>)))))"

definition sendChunks :: "Blockchain \<Rightarrow> OutboundChunk list \<Rightarrow> Blockchain" where
  "sendChunks chain chunks =
     foldl (\<lambda>chain (i, c).
       if of_nat i + 1001 = cfg_ShardId (bc_config chain) then chain
       else if length (Txs c) > 0 then gossip chain (of_nat i + 1001) OutboundChunkGossip (PChunk c)
       else chain) chain (enumerate 0 chunks)"

definition ChainCommit :: "nodeEnv \<Rightarrow> Blockchain \<Rightarrow> Block \<Rightarrow> (unit, Blockchain) res" where
  "ChainCommit N chain block =
     (let chain = chain\<lparr>bc_LatestBlock := Some block, bc_BlockDB := (bc_BlockDB chain)(Height block \<mapsto> block)\<rparr> in
      rbind (case RollBack N chain (StateRoot block) of (True, chain) \<Rightarrow> Ok chain | (False, chain) \<Rightarrow> ExecuteBlock N chain block) (\<lambda>chain.
      rbind (UpdateHeader (n_env N) (bc_ShardStates chain) (Header.truncate block)) (\<lambda>(_, sts).
        let chain = gossip (chain\<lparr>bc_ShardStates := sts\<rparr>) (cfg_RShardId (bc_config chain)) HeaderGossip (PHeader (Header.truncate block))
        in Ok (sendChunks chain (case bc_OutboundChunkDB chain (Hash block) of Some cs \<Rightarrow> cs | None \<Rightarrow> [])))))"

section \<open>Receiving headers and chunks\<close>

text \<open>One message of the queue; a payload of another type is read as the zero value.\<close>

definition HandleHeaderMsg :: "nodeEnv \<Rightarrow> Blockchain \<Rightarrow> payload option \<Rightarrow> (unit, Blockchain) res" where
  "HandleHeaderMsg N chain dat =
     (let header = (case dat of Some (PHeader h) \<Rightarrow> h | _ \<Rightarrow> zeroHeader); config = bc_config chain in
      rbind (UpdateHeader (n_env N) (bc_ShardStates chain) header) (\<lambda>(first, sts).
        let chain = chain\<lparr>bc_ShardStates := sts\<rparr> in
        if first then
          let chain = gossip chain (cfg_ShardId config) HeaderGossip (PHeader header) in
          Ok (if cfg_ShardId config < 1001
              then foldl (\<lambda>chain k. gossip chain (k + 1001) HeaderGossip (PHeader header)) chain (GetElement (OutboundDstBitmap header))
              else chain)
        else Ok chain))"

definition HandleInboundChunkMsg :: "nodeEnv \<Rightarrow> Blockchain \<Rightarrow> payload option \<Rightarrow> (unit, Blockchain) res" where
  "HandleInboundChunkMsg N chain dat =
     (let inboundChunk = (case dat of Some (PChunk c) \<Rightarrow> c | _ \<Rightarrow> zeroChunk); config = bc_config chain in
      case Txs inboundChunk of
        [] \<Rightarrow> Ok chain
      | tx # _ \<Rightarrow>
          if ToShard tx = cfg_ShardId config then
            rbind (UpdateInboundChunk (n_env N) (bc_ShardStates chain) inboundChunk) (\<lambda>(first, sts).
              let chain = chain\<lparr>bc_ShardStates := sts\<rparr> in
              Ok (if first then gossip chain (cfg_ShardId config) OutboundChunkGossip (PChunk inboundChunk) else chain))
          else Ok chain)"

section \<open>Checking blocks\<close>

datatype blockErr = BadStateRoot | NoGenesis | NotNext | EmptyChunk | BadChunkProof | BadTxRoot

text \<open>
  The inbound chunks of a block, each verified against its header as \<open>CheckInboundChunk\<close> does
  (the code is repeated in \<open>CheckBlock\<close>) and then executed. An unknown shard is a nil pointer.
\<close>

fun checkInbound :: "nodeEnv \<Rightarrow> Config \<Rightarrow> ShardStates \<Rightarrow> State \<Rightarrow> OutboundChunk list \<Rightarrow> (unit, blockErr option \<times> State) res" where
  "checkInbound N config sts s [] = Ok (None, s)"
| "checkInbound N config sts s (c # cs) =
     (case Txs c of
        [] \<Rightarrow> Ok (Some EmptyChunk, s)
      | tx # _ \<Rightarrow>
          (case sts_StateDB sts (FromShard tx) of
             None \<Rightarrow> Panic
           | Some st \<Rightarrow>
               (case ss_Headers st (BlockHash c) of
                  None \<Rightarrow> Hang
                | Some header \<Rightarrow>
                    rbind (CheckInboundChunk (n_env N) header c) (\<lambda>checked.
                      if checked then checkInbound N config sts (foldl (execInboundTx N config) s (Txs c)) cs
                      else Ok (Some BadChunkProof, s)))))"

definition checkRoots :: "nodeEnv \<Rightarrow> Blockchain \<Rightarrow> Block \<Rightarrow> State \<Rightarrow> (unit, blockErr option \<times> Blockchain) res" where
  "checkRoots N chain block s =
     (case commitState N s of
        None \<Rightarrow> Panic
      | Some (stateRoot, s) \<Rightarrow>
          let chain = chain\<lparr>bc_StateDB := s\<rparr> in
          if stateRoot \<noteq> StateRoot block then Ok (Some BadStateRoot, chain)
          else
            (case outboundChunksOf (bc_config chain) (Transactions block) of
               None \<Rightarrow> Panic
             | Some outboundChunks \<Rightarrow>
                 (case txRootOf (n_env N) outboundChunks newTrie of
                    None \<Rightarrow> Panic
                  | Some (txRoot, _) \<Rightarrow> Ok (if txRoot \<noteq> TxRoot block then Some BadTxRoot else None, chain))))"

definition checkBody :: "nodeEnv \<Rightarrow> Blockchain \<Rightarrow> Block \<Rightarrow> (unit, blockErr option \<times> Blockchain) res" where
  "checkBody N chain block =
     (let config = bc_config chain in
      if Height block = 0 then
        (case commitState N (fundAccounts N config (bc_StateDB chain)) of
           None \<Rightarrow> Panic
         | Some (stateRoot, s) \<Rightarrow>
             Ok (if stateRoot \<noteq> StateRoot block then Some BadStateRoot else None, chain\<lparr>bc_StateDB := s\<rparr>))
      else
        (case bc_LatestBlock chain of
           None \<Rightarrow> Ok (Some NoGenesis, chain)
         | Some latest \<Rightarrow>
             if Height block \<noteq> Height latest + 1 then Ok (Some NotNext, chain)
             else
               rbind (checkInbound N config (bc_ShardStates chain) (bc_StateDB chain) (InboundChunks block)) (\<lambda>(err, s).
                 case err of
                   Some e \<Rightarrow> Ok (Some e, chain\<lparr>bc_StateDB := s\<rparr>)
                 | None \<Rightarrow> checkRoots N chain block (foldl (execTx N config) s (Transactions block)))))"

text \<open>The deferred \<open>RollBack\<close> runs on every return.\<close>

definition CheckBlock :: "nodeEnv \<Rightarrow> Blockchain \<Rightarrow> Block \<Rightarrow> (unit, blockErr option \<times> Blockchain) res" where
  "CheckBlock N chain block =
     (case commitState N (bc_StateDB chain) of
        None \<Rightarrow> Panic
      | Some (prevStateRoot, s) \<Rightarrow>
          rmap (\<lambda>(err, chain). (err, snd (RollBack N chain prevStateRoot)))
            (checkBody N (chain\<lparr>bc_StateDB := s\<rparr>) block))"

end
