(* ===== verification/Agreement.thy ===== *)
theory Agreement
  imports Blockchain
begin

text \<open>
  What the chain guarantees. Executing a block refines a function on ledgers (\<open>ledgerBlock\<close>), so its
  result depends on the content of the state only; hence the leader and the validators of a shard
  compute the same root, an honest block is accepted and every node that commits it has the same
  state. The chunks that a leader sends out pass the check of the receiving shard.
\<close>

section \<open>Blocks on ledgers\<close>

definition ledgerInboundTx :: "Config \<Rightarrow> ledger \<Rightarrow> Transaction \<Rightarrow> ledger" where
  "ledgerInboundTx config w tx =
     (if FromShard tx \<noteq> cfg_ShardId config \<and> ToShard tx = cfg_ShardId config then ledgerAdd w (ToAddr tx) (Value tx) else w)"

definition ledgerTx :: "Config \<Rightarrow> ledger \<Rightarrow> Transaction \<Rightarrow> ledger" where
  "ledgerTx config w tx =
     (if FromShard tx \<noteq> cfg_ShardId config \<or> ledgerBalance w (FromAddr tx) < Value tx then w
      else if ToShard tx = cfg_ShardId config then ledgerAdd (ledgerSub w (FromAddr tx) (Value tx)) (ToAddr tx) (Value tx)
      else ledgerSub w (FromAddr tx) (Value tx))"

definition ledgerBlock :: "Config \<Rightarrow> ledger \<Rightarrow> OutboundChunk list \<Rightarrow> Transaction list \<Rightarrow> ledger" where
  "ledgerBlock config w chunks txs =
     foldl (ledgerTx config) (foldl (\<lambda>w c. foldl (ledgerInboundTx config) w (Txs c)) w chunks) txs"

text \<open>The state after the inbound chunks and the transactions of a block.\<close>

definition execBlock :: "nodeEnv \<Rightarrow> Config \<Rightarrow> State \<Rightarrow> OutboundChunk list \<Rightarrow> Transaction list \<Rightarrow> State" where
  "execBlock N config s chunks txs = foldl (execTx N config) (execInbound N config s chunks) txs"

definition addressed :: "Transaction \<Rightarrow> bool" where
  "addressed tx \<longleftrightarrow> isAddress (FromAddr tx) \<and> isAddress (ToAddr tx)"

section \<open>Parts of a block that do not depend on the state\<close>

text \<open>A chunk that a node can check and finds correct.\<close>

definition chunkKnown :: "nodeEnv \<Rightarrow> ShardStates \<Rightarrow> OutboundChunk \<Rightarrow> bool" where
  "chunkKnown N sts c \<longleftrightarrow>
     (case Txs c of
        [] \<Rightarrow> False
      | tx # _ \<Rightarrow>
          (case sts_StateDB sts (FromShard tx) of
             None \<Rightarrow> False
           | Some st \<Rightarrow>
               (case ss_Headers st (BlockHash c) of
                  None \<Rightarrow> False
                | Some header \<Rightarrow> CheckInboundChunk (n_env N) header c = Ok True)))"

lemma checkInbound_known:
  "\<forall>c\<in>set cs. chunkKnown N sts c \<Longrightarrow> checkInbound N config sts s cs = Ok (None, execInbound N config s cs)"
proof (induction cs arbitrary: s)
  case (Cons c cs)
  then have "chunkKnown N sts c" by simp
  then obtain tx txs st header where "Txs c = tx # txs" "sts_StateDB sts (FromShard tx) = Some st"
      "ss_Headers st (BlockHash c) = Some header" "CheckInboundChunk (n_env N) header c = Ok True"
    by (auto simp: chunkKnown_def split: list.splits option.splits)
  then show ?case using Cons by (simp add: execInbound_def)
qed (simp add: execInbound_def)

lemma checkInbound_accepts:
  "checkInbound N config sts s cs = Ok (None, s') \<Longrightarrow> (\<forall>c\<in>set cs. chunkKnown N sts c) \<and> s' = execInbound N config s cs"
proof (induction cs arbitrary: s)
  case (Cons c cs)
  then obtain tx txs st header where h: "Txs c = tx # txs" "sts_StateDB sts (FromShard tx) = Some st"
      "ss_Headers st (BlockHash c) = Some header" "CheckInboundChunk (n_env N) header c = Ok True"
    by (auto simp: res_simps split: list.splits option.splits if_splits)
  then show ?case using Cons.IH [of "foldl (execInboundTx N config) s (Txs c)"] Cons.prems
    by (auto simp: chunkKnown_def execInbound_def)
qed (simp add: execInbound_def)

lemma leaderTxs_exec:
  assumes "\<forall>tx\<in>set txs. unat (ToShard tx - 1001) < 8 * length bm"
  shows "\<exists>bm'. leaderTxs N config s bm txs = Some (foldl (execTx N config) s txs, bm')"
  using assms
proof (induction txs arbitrary: s bm)
  case (Cons tx txs)
  obtain bm1 where "SetKey bm (ToShard tx - 1001) = Some bm1" using SetKey_defined Cons.prems by fastforce
  moreover from this have "length bm1 = length bm" using SetKey_spec by blast
  ultimately show ?case using Cons.IH [of bm "execTx N config s tx"] Cons.IH [of bm1 "execTx N config s tx"] Cons.prems by auto
qed simp

lemma length_NewBitmap: "unat n < 2 ^ 31 \<Longrightarrow> unat n \<le> 8 * length (NewBitmap n)"
proof -
  assume "unat n < 2 ^ 31"
  then have "unat (n + 7) = unat n + 7" by (simp add: unat_word_ariths)
  then show ?thesis by (simp add: NewBitmap_def unat_div)
qed

definition destined :: "nat \<Rightarrow> Transaction \<Rightarrow> bool" where
  "destined i tx \<longleftrightarrow> unat (ToShard tx - 1001) = i"

lemma placeTxs_ok:
  assumes "\<forall>tx\<in>set txs. unat (ToShard tx - 1001) < length cs"
  shows "\<exists>cs'. placeTxs cs txs = Some cs' \<and> length cs' = length cs \<and>
     (\<forall>i<length cs. Txs (cs' ! i) = Txs (cs ! i) @ filter (destined i) txs)"
  using assms
proof (induction txs arbitrary: cs)
  case (Cons tx txs)
  let ?i = "unat (ToShard tx - 1001)"
  let ?cs = "cs[?i := (cs ! ?i)\<lparr>Txs := Txs (cs ! ?i) @ [tx]\<rparr>]"
  have i: "?i < length cs" using Cons.prems by simp
  obtain cs' where cs': "placeTxs ?cs txs = Some cs'" "length cs' = length ?cs"
      "\<forall>i<length ?cs. Txs (cs' ! i) = Txs (?cs ! i) @ filter (destined i) txs"
    using Cons.IH [of ?cs] Cons.prems by auto
  have "destined i tx \<longleftrightarrow> i = ?i" for i by (auto simp: destined_def)
  then show ?case using i cs' by (auto simp: Let_def nth_list_update)
qed simp

lemma outboundChunksOf_ok:
  assumes "\<forall>tx\<in>set txs. unat (ToShard tx - 1001) < unat (cfg_PShardNum config)"
  shows "\<exists>cs. outboundChunksOf config txs = Some cs \<and> length cs = unat (cfg_PShardNum config) \<and>
     (\<forall>i<length cs. Txs (cs ! i) = filter (destined i) txs)"
  using placeTxs_ok [of txs "replicate (unat (cfg_PShardNum config)) zeroChunk"] assms
  by (auto simp: outboundChunksOf_def zeroChunk_def)

lemma proveChunks_ok:
  assumes "represents noDb (merkle H) t p"
  shows "\<exists>cs'. proveChunks H t h i cs = Ok cs' \<and> length cs' = length cs \<and>
     (\<forall>j<length cs. \<exists>puts. Prove H noDb t (uintKey H (i + j + 1001)) 0 = Ok puts \<and>
        cs' ! j = (cs ! j)\<lparr>ChunkProof := map snd puts, BlockHash := h\<rparr>)"
proof (induction cs arbitrary: i)
  case (Cons c cs)
  obtain cs' where cs': "proveChunks H t h (Suc i) cs = Ok cs'" "length cs' = length cs"
      "\<And>j. j < length cs \<Longrightarrow> \<exists>puts. Prove H noDb t (uintKey H (Suc i + j + 1001)) 0 = Ok puts \<and>
        cs' ! j = (cs ! j)\<lparr>ChunkProof := map snd puts, BlockHash := h\<rparr>"
    using Cons.IH [of "Suc i"] by blast
  obtain puts where puts: "Prove H noDb t (uintKey H (i + 1001)) 0 = Ok puts"
    using Prove_entries [OF assms] by blast
  let ?c = "c\<lparr>ChunkProof := map snd puts, BlockHash := h\<rparr>"
  have "proveChunks H t h i (c # cs) = Ok (?c # cs')" using puts cs'(1) by simp
  moreover have "\<exists>puts. Prove H noDb t (uintKey H (i + j + 1001)) 0 = Ok puts \<and>
      (?c # cs') ! j = ((c # cs) ! j)\<lparr>ChunkProof := map snd puts, BlockHash := h\<rparr>" if "j < length (c # cs)" for j
    using cs'(3) [of "j - 1"] puts that by (cases j) auto
  ultimately show ?case using cs'(2) by auto
qed simp

lemma txRootOf_ok: "\<exists>root t. txRootOf env cs newTrie = Some (root, t)"
  by (rule TrieHash_keyed [of "e_crypto env" "e_emptyRoot env" 1001 "map (chunkRootOf env) cs"])
    (simp add: txRootOf_def GetBlockTxRoot_trie)

section \<open>The transactions of a leader\<close>

text \<open>A configuration with accounts and with processing shards numbered from 1001.\<close>

definition readyConfig :: "Config \<Rightarrow> bool" where
  "readyConfig config \<longleftrightarrow> unat (cfg_PShardNum config) < 2 ^ 31 \<and> length (cfg_Accounts config) < 2 ^ 32 \<and>
     list_all isAddress (cfg_Accounts config) \<and>
     list_all (\<lambda>s. 1001 \<le> s \<and> unat s < 1001 + unat (cfg_PShardNum config)) (concat (map snd (PShardIds (cfg_Topo config))))"

definition chosenTxs :: "nodeEnv \<Rightarrow> (nat \<Rightarrow> draw) \<Rightarrow> Blockchain \<Rightarrow> Block \<Rightarrow> Transaction list option" where
  "chosenTxs N draws chain latest =
     (if cfg_ShardId (bc_config chain) \<ge> 1001 \<and> Height latest + 1 < 200
      then GenerateCrossShardTx2 (n_rlpTx N) (keccakOf N) (sts_txPool (bc_ShardStates chain)) draws else Some [])"

lemma those_elem: "those xs = Some ys \<Longrightarrow> y \<in> set ys \<Longrightarrow> \<exists>x\<in>set xs. x = Some y"
  by (induction xs arbitrary: ys) (auto split: option.splits)

lemma Generate_config:
  assumes "tp_config pool' = tp_config pool"
  shows "GenerateCrossShardTx2 rlp keccak pool' draws = GenerateCrossShardTx2 rlp keccak pool draws"
proof -
  have "RandTx rlp keccak pool' = RandTx rlp keccak pool" "GetToShards pool' = GetToShards pool"
    by (simp_all add: fun_eq_iff RandTx_def GetToShards_def assms)
  then show ?thesis by (simp add: GenerateCrossShardTx2_def assms)
qed

lemma RandTx_addressed:
  assumes "RandTx rlp keccak pool d = Some tx" "readyConfig (tp_config pool)"
  shows "addressed tx"
proof -
  obtain r0 r1 r2 dat where d: "d = (r0, r1, r2, dat)" by (cases d)
  let ?as = "cfg_Accounts (tp_config pool)" and ?m = "of_nat (length (cfg_Accounts (tp_config pool))) :: u32"
  have m: "?m \<noteq> 0" using assms(1) by (auto simp: d RandTx_def Let_def split: if_splits)
  have "unat ?m = length ?as" using assms(2) by (simp add: readyConfig_def)
  then have "unat (r mod ?m) < length ?as" for r :: u32
    using m unat_gt_0 [of ?m] by (simp add: unat_mod)
  then have "isAddress (?as ! unat (r mod ?m))" for r :: u32
    using assms(2) nth_mem by (auto simp: readyConfig_def list_all_iff)
  then show ?thesis using assms(1) by (auto simp: d RandTx_def Let_def NewTransaction_def addressed_def split: if_splits)
qed

lemma chosenTxs_ok:
  assumes "chosenTxs N draws chain latest = Some txs" "tp_config (sts_txPool (bc_ShardStates chain)) = bc_config chain"
    and "readyConfig (bc_config chain)" "tx \<in> set txs"
  shows "addressed tx" "1001 \<le> ToShard tx" "unat (ToShard tx) < 1001 + unat (cfg_PShardNum (bc_config chain))"
proof -
  let ?pool = "sts_txPool (bc_ShardStates chain)"
  have "GenerateCrossShardTx2 (n_rlpTx N) (keccakOf N) ?pool draws = Some txs"
    using assms(1,4) by (auto simp: chosenTxs_def split: if_splits)
  from those_elem [OF this [unfolded GenerateCrossShardTx2_def Let_def] assms(4)] obtain i t where i: "i < length (GetToShards ?pool (cfg_ShardId (tp_config ?pool)))"
      "RandTx (n_rlpTx N) (keccakOf N) ?pool (draws i) = Some t"
      "tx = t\<lparr>FromShard := cfg_ShardId (tp_config ?pool), ToShard := GetToShards ?pool (cfg_ShardId (tp_config ?pool)) ! i\<rparr>"
    by (auto simp: eq_commute [of "Some tx"])
  show "addressed tx" using RandTx_addressed [OF i(2)] assms(2,3) i(3) by (simp add: addressed_def)
  have "ToShard tx \<in> set (concat (map snd (PShardIds (cfg_Topo (bc_config chain)))))"
    using nth_mem [OF i(1)] i(3) assms(2) by (simp add: GetToShards_def)
  then show "1001 \<le> ToShard tx" "unat (ToShard tx) < 1001 + unat (cfg_PShardNum (bc_config chain))"
    using assms(3) unfolding readyConfig_def list_all_iff by blast+
qed

lemma shard_index: "1001 \<le> (s :: u32) \<Longrightarrow> unat (s - 1001) = unat s - 1001"
  by (simp add: unat_sub)

section \<open>Execution refines the ledger\<close>

lemma execInbound_db [frame]: "sd_db (execInbound N config s chunks) = sd_db s"
  unfolding execInbound_def by (intro foldl_db) (simp add: execInboundTx_def frame)

lemma execTx_db [frame]: "sd_db (execTx N config s tx) = sd_db s"
proof -
  obtain x s' where g: "GetBalance (nodeOps N) s (FromAddr tx) = (x, s')" by (cases "GetBalance (nodeOps N) s (FromAddr tx)")
  then have "sd_db s' = sd_db s" using GetBalance_db [of "nodeOps N" s "FromAddr tx"] by simp
  then show ?thesis using g by (simp add: execTx_def frame)
qed

lemma execBlock_db [frame]: "sd_db (execBlock N config s chunks txs) = sd_db s"
  by (simp add: execBlock_def foldl_db frame)

lemma fundAccounts_db [frame]: "sd_db (fundAccounts N config s) = sd_db s"
  unfolding fundAccounts_def by (intro foldl_db) (simp add: frame)

lemma checkInbound_db: "checkInbound N config sts s cs = Ok (err, s') \<Longrightarrow> sd_db s' = sd_db s"
proof (induction cs arbitrary: s)
  case (Cons c cs)
  have "sd_db (foldl (execInboundTx N config) s (Txs c)) = sd_db s"
    by (intro foldl_db) (simp add: execInboundTx_def frame)
  then show ?case using Cons by (auto simp: res_simps split: list.splits option.splits if_splits)
qed simp

text \<open>What is relied on of the libraries.\<close>

definition nodeOk :: "nodeEnv \<Rightarrow> bool" where
  "nodeOk N \<longleftrightarrow> cryptoOk (e_crypto (n_env N)) (n_encAccount N) (n_decAccount N) \<and> envOk (n_env N)"

text \<open>A state just loaded with the tree \<open>p\<close>, as \<open>RollBack\<close> leaves it, and the tree of a state.\<close>

definition stateAt :: "nodeEnv \<Rightarrow> State \<Rightarrow> ptree \<Rightarrow> bool" where
  "stateAt N s p \<longleftrightarrow> (\<exists>t. s = emptyStateDB (sd_db s) t \<and> secRep (e_crypto (n_env N)) (e_reader (n_env N)) (sd_db s) t p)"

definition hasTree :: "nodeEnv \<Rightarrow> State \<Rightarrow> ptree \<Rightarrow> bool" where
  "hasTree N s q \<longleftrightarrow> (\<exists>root s1. IntermediateRoot (nodeOps N) s False = Some (root, s1) \<and>
     stateOk (e_crypto (n_env N)) (e_reader (n_env N)) (n_decAccount N) s1 q)"

text \<open>The database of a state is in order for the trees \<open>S\<close>, and \<open>q\<close> has no collision with them.\<close>

definition dbHolds :: "nodeEnv \<Rightarrow> State \<Rightarrow> ptree set \<Rightarrow> bool" where
  "dbHolds N s S \<longleftrightarrow> dbGood (e_reader (n_env N)) (e_crypto (n_env N)) (sd_db s) S"

definition noCollision :: "nodeEnv \<Rightarrow> ptree set \<Rightarrow> ptree \<Rightarrow> bool" where
  "noCollision N S q \<longleftrightarrow> storable (e_crypto (n_env N)) (e_emptyRoot (n_env N)) S q"

definition stateRootOf :: "nodeEnv \<Rightarrow> ptree \<Rightarrow> hash" where
  "stateRootOf N q = rootOf (e_crypto (n_env N)) (e_emptyRoot (n_env N)) q"

locale chain_node =
  fixes N :: nodeEnv
  assumes node: "nodeOk N"

sublocale chain_node \<subseteq> nd: storing_crypto "e_crypto (n_env N)" "e_reader (n_env N)" "e_emptyRoot (n_env N)"
    "n_encAccount N" "n_decAccount N"
  using node by unfold_locales (simp_all add: nodeOk_def envOk_def)

context chain_node
begin

abbreviation "onLedger \<equiv> nd.secure.onLedger"

lemma execInboundTx_ledger:
  "onLedger s p w \<Longrightarrow> isAddress (ToAddr tx) \<Longrightarrow> onLedger (execInboundTx N config s tx) p (ledgerInboundTx config w tx)"
  using nd.secure.onLedger_add by (simp add: execInboundTx_def ledgerInboundTx_def nodeOps_def)

lemma execTx_ledger:
  assumes "onLedger s p w" "addressed tx"
  shows "onLedger (execTx N config s tx) p (ledgerTx config w tx)"
proof -
  have a: "isAddress (FromAddr tx)" "isAddress (ToAddr tx)" using assms(2) by (simp_all add: addressed_def)
  obtain s' where s': "GetBalance (nodeOps N) s (FromAddr tx) = (ledgerBalance w (FromAddr tx), s')" "onLedger s' p w"
    using nd.secure.onLedger_get [OF assms(1) a(1)] unfolding nodeOps_def by blast
  note sub = nd.secure.onLedger_sub [OF s'(2) a(1), of "Value tx"]
  show ?thesis
    using s' assms(1) sub nd.secure.onLedger_add [OF sub a(2), of "Value tx"]
    by (auto simp: execTx_def ledgerTx_def nodeOps_def)
qed

lemma foldl_ledger:
  assumes "\<And>s w x. x \<in> set xs \<Longrightarrow> onLedger s p w \<Longrightarrow> onLedger (f s x) p (g w x)"
  shows "onLedger s p w \<Longrightarrow> onLedger (foldl f s xs) p (foldl g w xs)"
  using assms by (induction xs arbitrary: s w) auto

lemma execBlock_ledger:
  assumes "onLedger s p w" "\<forall>c\<in>set chunks. \<forall>tx\<in>set (Txs c). addressed tx" "\<forall>tx\<in>set txs. addressed tx"
  shows "onLedger (execBlock N config s chunks txs) p (ledgerBlock config w chunks txs)"
  unfolding execBlock_def ledgerBlock_def execInbound_def using assms
  by (intro foldl_ledger execTx_ledger execInboundTx_ledger) (auto simp: addressed_def)

lemma fundAccounts_ledger:
  assumes "onLedger s p w" "\<forall>a\<in>set (cfg_Accounts config). isAddress a"
  shows "onLedger (fundAccounts N config s) p (foldl (\<lambda>w a. ledgerAdd w a 10000000) w (cfg_Accounts config))"
  unfolding fundAccounts_def using assms nd.secure.onLedger_add
  by (intro foldl_ledger) (auto simp: nodeOps_def)

lemma stateAt_fresh: "stateAt N s p \<longleftrightarrow> nd.secure.fresh s p"
  by (simp add: stateAt_def nd.secure.fresh_def)

lemma stateAt_ledger: "stateAt N s p \<Longrightarrow> onLedger s p (nd.secure.trieLedger p)"
  by (simp add: stateAt_fresh nd.secure.fresh_ledger)

lemma hasTree_flushed:
  assumes "onLedger s p w"
  shows "hasTree N s q \<longleftrightarrow> q = nd.secure.flushed s p False"
proof -
  have ag: "nd.secure.agrees s p" using assms by (simp add: nd.secure.onLedger_def nd.secure.ledgerRel_def)
  have plain: "\<not> so_suicided obj" if "sd_stateObjects s a = Some obj" for a obj
    using assms that unfolding nd.secure.onLedger_def nd.secure.ledgerRel_def by blast
  obtain s1 where s1: "IntermediateRoot (nodeOps N) s False = Some (stateRootOf N (nd.secure.flushed s p False), s1)"
      "stateOk (e_crypto (n_env N)) (e_reader (n_env N)) (n_decAccount N) s1 (nd.secure.flushed s p False)"
    using nd.root_tree [of s p False] ag plain unfolding nd.stateOk_agrees nodeOps_def stateRootOf_def by blast
  show ?thesis using s1 stateOk_unique unfolding hasTree_def by fastforce
qed

lemma commitState_ok:
  assumes "onLedger s p w" "dbHolds N s S" "hasTree N s q" "noCollision N S q"
  shows "\<exists>s'. commitState N s = Some (stateRootOf N q, s') \<and> dbHolds N s' (S \<union> isub q) \<and>
     onLedger s' q (nd.secure.settled w) \<and> nd.secure.available (sd_db s') q \<and>
     (\<forall>c0. nd.secure.available (sd_db s) c0 \<longrightarrow> nd.secure.available (sd_db s') c0)"
proof -
  have "q = nd.secure.flushed s p False" using hasTree_flushed [OF assms(1)] assms(3) by simp
  then show ?thesis
    using nd.persist.commit_ledger [OF assms(1), of S] assms(2,4)
    by (auto simp: commitState_def nodeOps_def stateRootOf_def dbHolds_def noCollision_def)
qed

lemma RollBack_ok:
  assumes "nd.secure.available (sd_db (bc_StateDB chain)) q"
  shows "\<exists>s. RollBack N chain (stateRootOf N q) = (True, chain\<lparr>bc_StateDB := s\<rparr>) \<and> stateAt N s q \<and>
     sd_db s = sd_db (bc_StateDB chain)"
  using nd.secure.StateNew_fresh [OF assms] by (auto simp: RollBack_def nodeOps_def stateRootOf_def stateAt_fresh)

lemma execBlock_state:
  assumes "stateAt N s p" "\<forall>c\<in>set chunks. \<forall>tx\<in>set (Txs c). addressed tx" "\<forall>tx\<in>set txs. addressed tx"
  shows "onLedger (execBlock N config s chunks txs) p (ledgerBlock config (nd.secure.trieLedger p) chunks txs)"
  using execBlock_ledger [OF stateAt_ledger [OF assms(1)] assms(2,3)] .

lemma hasTree_ledger: "onLedger s p w \<Longrightarrow> onLedger s' p w \<Longrightarrow> hasTree N s q \<longleftrightarrow> hasTree N s' q"
  using nd.secure.flushed_ledger [of s p w s'] hasTree_flushed [of s p w q] hasTree_flushed [of s' p w q]
  by (simp add: nd.secure.onLedger_def)

text \<open>The tree after a block depends on the tree before it only.\<close>

lemma execBlock_tree:
  assumes "onLedger s p w" "onLedger s' p w" "cfg_ShardId config' = cfg_ShardId config"
    and "\<forall>c\<in>set chunks. \<forall>tx\<in>set (Txs c). addressed tx" "\<forall>tx\<in>set txs. addressed tx"
  shows "hasTree N (execBlock N config s chunks txs) q \<longleftrightarrow> hasTree N (execBlock N config' s' chunks txs) q"
proof -
  have "ledgerTx config' = ledgerTx config" "ledgerInboundTx config' = ledgerInboundTx config"
    by (simp_all add: fun_eq_iff ledgerTx_def ledgerInboundTx_def assms(3))
  then have "ledgerBlock config' w chunks txs = ledgerBlock config w chunks txs" by (simp add: ledgerBlock_def)
  then have l: "onLedger (execBlock N config s chunks txs) p (ledgerBlock config w chunks txs)"
      "onLedger (execBlock N config' s' chunks txs) p (ledgerBlock config w chunks txs)"
    using execBlock_ledger [OF assms(1,4,5), of config] execBlock_ledger [OF assms(2,4,5), of config'] by simp_all
  then show ?thesis by (rule hasTree_ledger)
qed

lemma packBlock_ok:
  assumes st: "stateAt N (bc_StateDB chain) p" "dbHolds N (bc_StateDB chain) S"
    and adr: "\<forall>c\<in>set chunks. \<forall>tx\<in>set (Txs c). addressed tx" "\<forall>tx\<in>set txs. addressed tx"
    and rng: "\<forall>tx\<in>set txs. unat (ToShard tx - 1001) < unat (cfg_PShardNum (bc_config chain))" "unat (cfg_PShardNum (bc_config chain)) < 2 ^ 31"
    and q: "hasTree N (execBlock N (bc_config chain) (bc_StateDB chain) chunks txs) q" "noCollision N S q"
  shows "\<exists>block chain' cs cs' t1. packBlock N now latest chain txs chunks = Ok (block, chain') \<and>
     Transactions block = txs \<and> InboundChunks block = chunks \<and> Height block = Height latest + 1 \<and>
     StateRoot block = stateRootOf N q \<and> nd.secure.available (sd_db (bc_StateDB chain')) q \<and>
     outboundChunksOf (bc_config chain) txs = Some cs \<and> txRootOf (n_env N) cs newTrie = Some (TxRoot block, t1) \<and>
     bc_OutboundChunkDB chain' (Hash block) = Some cs' \<and>
     proveChunks (e_crypto (n_env N)) t1 (Hash block) 0 cs = Ok cs'"
proof -
  let ?cfg = "bc_config chain" and ?env = "n_env N"
  let ?s = "execBlock N ?cfg (bc_StateDB chain) chunks txs"
  have l: "onLedger ?s p (ledgerBlock ?cfg (nd.secure.trieLedger p) chunks txs)" by (rule execBlock_state [OF st(1) adr])
  have db: "sd_db ?s = sd_db (bc_StateDB chain)" by (rule execBlock_db)
  obtain s' where s': "commitState N ?s = Some (stateRootOf N q, s')" "nd.secure.available (sd_db s') q"
    using commitState_ok [OF l _ q(1), of S] q(2) st(2) db by (auto simp: dbHolds_def)
  obtain bm where bm: "leaderTxs N ?cfg (execInbound N ?cfg (bc_StateDB chain) chunks) (NewBitmap (cfg_PShardNum ?cfg)) txs = Some (?s, bm)"
    using leaderTxs_exec [of txs "NewBitmap (cfg_PShardNum ?cfg)" N ?cfg] length_NewBitmap [OF rng(2)] rng(1)
    unfolding execBlock_def by (meson less_le_trans)
  obtain cs where cs: "outboundChunksOf ?cfg txs = Some cs" using outboundChunksOf_ok [OF rng(1)] by blast
  obtain root t1 where t1: "txRootOf ?env cs newTrie = Some (root, t1)" using txRootOf_ok by blast
  have env: "envOk ?env" using node by (simp add: nodeOk_def)
  define head where "head = NewHeader (n_rlpHeader N) (keccakOf N) (cfg_ShardId ?cfg) (Height latest + 1)
    (HeaderGetHash (n_rlpHeader N) (keccakOf N) latest) (stateRootOf N q) root bm now"
  obtain cs' where cs': "proveChunks (e_crypto ?env) t1 (Hash head) 0 cs = Ok cs'"
    using proveChunks_ok [OF txRoot_trie(1) [OF env t1], of "Hash head" 0 cs] by blast
  have "packBlock N now latest chain txs chunks =
      Ok (NewBlock head txs chunks, chain\<lparr>bc_StateDB := s', bc_LatestBlock := Some (NewBlock head txs chunks),
        bc_OutboundChunkDB := (bc_OutboundChunkDB chain)(Hash (NewBlock head txs chunks) \<mapsto> cs')\<rparr>)"
    using bm s'(1) cs t1 cs' by (simp add: packBlock_def Let_def head_def)
  then show ?thesis using s'(2) cs t1 cs'
    by (auto simp: head_def NewHeader_def NewBlock_def Header.defs Let_def)
qed

lemma checkRoots_ok:
  assumes l: "onLedger s p w" and db: "dbHolds N s S" "hasTree N s q" "noCollision N S q" "nd.secure.available (sd_db s) p"
    and blk: "StateRoot block = stateRootOf N q" "outboundChunksOf (bc_config chain) (Transactions block) = Some cs"
      "txRootOf (n_env N) cs newTrie = Some (TxRoot block, t1)"
  shows "\<exists>s'. checkRoots N chain block s = Ok (None, chain\<lparr>bc_StateDB := s'\<rparr>) \<and> dbHolds N s' (S \<union> isub q) \<and>
     nd.secure.available (sd_db s') p \<and> nd.secure.available (sd_db s') q"
proof -
  obtain s' where "commitState N s = Some (stateRootOf N q, s')" "dbHolds N s' (S \<union> isub q)"
      "nd.secure.available (sd_db s') q" "nd.secure.available (sd_db s') p"
    using commitState_ok [OF l db(1-3)] db(4) by blast
  then show ?thesis using blk by (auto simp: checkRoots_def Let_def)
qed

text \<open>A validator accepts a block whose roots are those of its execution.\<close>

lemma CheckBlock_ok:
  assumes st: "stateAt N (bc_StateDB chain) p" "dbHolds N (bc_StateDB chain) S" "noCollision N S p"
    and top: "bc_LatestBlock chain = Some latest" "Height block = Height latest + 1" "Height block \<noteq> 0"
    and adr: "\<forall>c\<in>set (InboundChunks block). \<forall>tx\<in>set (Txs c). addressed tx" "\<forall>tx\<in>set (Transactions block). addressed tx"
    and known: "\<forall>c\<in>set (InboundChunks block). chunkKnown N (bc_ShardStates chain) c"
    and q: "hasTree N (execBlock N (bc_config chain) (bc_StateDB chain) (InboundChunks block) (Transactions block)) q"
      "noCollision N (S \<union> isub p) q"
    and blk: "StateRoot block = stateRootOf N q" "outboundChunksOf (bc_config chain) (Transactions block) = Some cs"
      "txRootOf (n_env N) cs newTrie = Some (TxRoot block, t1)"
  shows "\<exists>s. CheckBlock N chain block = Ok (None, chain\<lparr>bc_StateDB := s\<rparr>) \<and> stateAt N s p \<and>
     dbHolds N s (S \<union> isub p \<union> isub q) \<and> nd.secure.available (sd_db s) q"
proof -
  let ?cfg = "bc_config chain" and ?cs = "InboundChunks block" and ?txs = "Transactions block"
  note l0 = stateAt_ledger [OF st(1)]
  have "hasTree N (bc_StateDB chain) p"
    using hasTree_flushed [OF l0] nd.secure.flushed_settled [OF l0] by (simp add: nd.secure.trieLedger_def)
  then obtain s1 where s1: "commitState N (bc_StateDB chain) = Some (stateRootOf N p, s1)" "dbHolds N s1 (S \<union> isub p)"
      "onLedger s1 p (nd.secure.trieLedger p)" "nd.secure.available (sd_db s1) p"
    using commitState_ok [OF l0 st(2) _ st(3)] by auto
  let ?s = "execBlock N ?cfg s1 ?cs ?txs"
  have db: "sd_db ?s = sd_db s1" by (rule execBlock_db)
  have l: "onLedger ?s p (ledgerBlock ?cfg (nd.secure.trieLedger p) ?cs ?txs)" by (rule execBlock_ledger [OF s1(3) adr])
  have t: "hasTree N ?s q" using execBlock_tree [OF l0 s1(3) refl adr, of ?cfg q] q(1) by simp
  obtain s2 where s2: "checkRoots N (chain\<lparr>bc_StateDB := s1\<rparr>) block ?s = Ok (None, chain\<lparr>bc_StateDB := s2\<rparr>)"
      "dbHolds N s2 (S \<union> isub p \<union> isub q)" "nd.secure.available (sd_db s2) p" "nd.secure.available (sd_db s2) q"
    using checkRoots_ok [OF l _ t q(2), of block "chain\<lparr>bc_StateDB := s1\<rparr>" cs t1] s1(2,4) db blk
    by (auto simp: dbHolds_def)
  have "checkBody N (chain\<lparr>bc_StateDB := s1\<rparr>) block = Ok (None, chain\<lparr>bc_StateDB := s2\<rparr>)"
    using s2(1) top checkInbound_known [OF known, of ?cfg s1] by (simp add: checkBody_def execBlock_def)
  moreover obtain s3 where "RollBack N (chain\<lparr>bc_StateDB := s2\<rparr>) (stateRootOf N p) = (True, chain\<lparr>bc_StateDB := s3\<rparr>)"
      "stateAt N s3 p" "sd_db s3 = sd_db s2"
    using RollBack_ok [of "chain\<lparr>bc_StateDB := s2\<rparr>" p] s2(3) by auto
  ultimately show ?thesis using s1(1) s2(2,4) by (auto simp: CheckBlock_def dbHolds_def)
qed

text \<open>A leader that is ready creates a block.\<close>

lemma CreateNewBlock_ok:
  assumes st: "stateAt N (bc_StateDB chain) p" "dbHolds N (bc_StateDB chain) S"
    and top: "bc_LatestBlock chain = Some latest" "tp_config (sts_txPool (bc_ShardStates chain)) = bc_config chain" "readyConfig (bc_config chain)"
    and txs: "takeTxs1 (sts_txPool (bc_ShardStates chain)) 100 = (chunks, pool)" "chosenTxs N draws chain latest = Some txs"
      "\<forall>c\<in>set chunks. \<forall>tx\<in>set (Txs c). addressed tx"
    and q: "hasTree N (execBlock N (bc_config chain) (bc_StateDB chain) chunks txs) q" "noCollision N S q"
  shows "\<exists>block chain' cs cs' t1. CreateNewBlock N now draws chain = Ok (block, chain') \<and>
     Transactions block = txs \<and> InboundChunks block = chunks \<and> Height block = Height latest + 1 \<and>
     StateRoot block = stateRootOf N q \<and> nd.secure.available (sd_db (bc_StateDB chain')) q \<and>
     outboundChunksOf (bc_config chain) txs = Some cs \<and> txRootOf (n_env N) cs newTrie = Some (TxRoot block, t1) \<and>
     bc_OutboundChunkDB chain' (Hash block) = Some cs' \<and>
     proveChunks (e_crypto (n_env N)) t1 (Hash block) 0 cs = Ok cs'"
proof -
  let ?chain = "chain\<lparr>bc_ShardStates := (bc_ShardStates chain)\<lparr>sts_txPool := pool\<rparr>\<rparr>"
  note ok = chosenTxs_ok [OF txs(2) top(2,3)]
  have "tp_config pool = tp_config (sts_txPool (bc_ShardStates chain))"
    using txs(1) by (auto simp: takeTxs1_def split: prod.splits)
  then have "(if cfg_ShardId (bc_config ?chain) \<ge> 1001 \<and> Height latest + 1 < 200
      then GenerateCrossShardTx2 (n_rlpTx N) (keccakOf N) pool draws else Some []) = Some txs"
    using txs(2) Generate_config [of pool "sts_txPool (bc_ShardStates chain)"]
    by (auto simp: chosenTxs_def split: if_splits)
  then have c: "CreateNewBlock N now draws chain = packBlock N now latest ?chain txs chunks"
    using top(1) txs(1) by (simp add: CreateNewBlock_def Let_def)
  have rng: "\<forall>tx\<in>set txs. unat (ToShard tx - 1001) < unat (cfg_PShardNum (bc_config ?chain))"
  proof
    fix tx assume tx: "tx \<in> set txs"
    have "1001 \<le> unat (ToShard tx)" using ok(2) [OF tx] by (simp add: word_le_nat_alt)
    then show "unat (ToShard tx - 1001) < unat (cfg_PShardNum (bc_config ?chain))"
      using ok(2,3) [OF tx] by (simp add: shard_index)
  qed
  show ?thesis unfolding c
    using packBlock_ok [of ?chain p S chunks txs q now latest] st txs(3) ok(1) rng top(3) q by (simp add: readyConfig_def)
qed

text \<open>Whatever the outcome of a check, the validator is back in its state.\<close>

lemma checkBody_state:
  assumes l: "onLedger (bc_StateDB chain) p (nd.secure.trieLedger p)" "dbHolds N (bc_StateDB chain) S" "nd.secure.available (sd_db (bc_StateDB chain)) p"
    and blk: "Height block \<noteq> 0" "\<forall>c\<in>set (InboundChunks block). \<forall>tx\<in>set (Txs c). addressed tx" "\<forall>tx\<in>set (Transactions block). addressed tx"
    and q: "hasTree N (execBlock N (bc_config chain) (bc_StateDB chain) (InboundChunks block) (Transactions block)) q" "noCollision N S q"
    and run: "checkBody N chain block = Ok (err, chain')"
  shows "\<exists>s. chain' = chain\<lparr>bc_StateDB := s\<rparr> \<and> nd.secure.available (sd_db s) p"
    and "err = None \<Longrightarrow> StateRoot block = stateRootOf N q \<and>
      (\<exists>latest. bc_LatestBlock chain = Some latest \<and> Height block = Height latest + 1) \<and>
      (\<forall>c\<in>set (InboundChunks block). chunkKnown N (bc_ShardStates chain) c) \<and>
      (\<exists>cs t1. outboundChunksOf (bc_config chain) (Transactions block) = Some cs \<and> txRootOf (n_env N) cs newTrie = Some (TxRoot block, t1))"
proof -
  let ?cfg = "bc_config chain" and ?cs = "InboundChunks block" and ?txs = "Transactions block"
  let ?s = "execBlock N ?cfg (bc_StateDB chain) ?cs ?txs"
  let ?in = "checkInbound N ?cfg (bc_ShardStates chain) (bc_StateDB chain) ?cs"
  have le: "onLedger ?s p (ledgerBlock ?cfg (nd.secure.trieLedger p) ?cs ?txs)" by (rule execBlock_ledger [OF l(1) blk(2,3)])
  obtain s' where s': "commitState N ?s = Some (stateRootOf N q, s')" "nd.secure.available (sd_db s') p"
    using commitState_ok [OF le _ q(1), of S] q(2) l(2,3) execBlock_db [of N ?cfg "bc_StateDB chain"] by (auto simp: dbHolds_def)
  have self: "chain = chain\<lparr>bc_StateDB := bc_StateDB chain\<rparr>" by simp
  have cases: "(\<exists>s e. err = Some e \<and> chain' = chain\<lparr>bc_StateDB := s\<rparr> \<and> sd_db s = sd_db (bc_StateDB chain)) \<or>
      (\<exists>latest. bc_LatestBlock chain = Some latest \<and> Height block = Height latest + 1 \<and> ?in = Ok (None, execInbound N ?cfg (bc_StateDB chain) ?cs) \<and>
        checkRoots N chain block ?s = Ok (err, chain'))"
  proof (cases "bc_LatestBlock chain")
    case None
    then have "err = Some NoGenesis" "chain' = chain" using run blk(1) by (simp_all add: checkBody_def Let_def)
    then show ?thesis using self by blast
  next
    case (Some latest)
    show ?thesis
    proof (cases "Height block = Height latest + 1")
      case False
      then have "err = Some NotNext" "chain' = chain" using run blk(1) Some by (simp_all add: checkBody_def Let_def)
      then show ?thesis using self by blast
    next
      case True
      obtain e s1 where i: "?in = Ok (e, s1)" using run blk(1) Some True by (auto simp: checkBody_def Let_def res_simps)
      show ?thesis
      proof (cases e)
        case None
        then have "s1 = execInbound N ?cfg (bc_StateDB chain) ?cs" using checkInbound_accepts i by blast
        then show ?thesis using run blk(1) Some True i None by (simp add: checkBody_def Let_def execBlock_def)
      next
        case e: (Some x)
        then have "err = Some x" "chain' = chain\<lparr>bc_StateDB := s1\<rparr>" using run blk(1) Some True i by (simp_all add: checkBody_def Let_def)
        then show ?thesis using checkInbound_db [OF i] by blast
      qed
    qed
  qed
  then show "\<exists>s. chain' = chain\<lparr>bc_StateDB := s\<rparr> \<and> nd.secure.available (sd_db s) p"
    using l(3) s' by (auto simp: checkRoots_def Let_def split: option.splits prod.splits if_splits)
  assume e: "err = None"
  with cases obtain latest where c: "bc_LatestBlock chain = Some latest" "Height block = Height latest + 1"
      "?in = Ok (None, execInbound N ?cfg (bc_StateDB chain) ?cs)" "checkRoots N chain block ?s = Ok (None, chain')"
    by auto
  show "StateRoot block = stateRootOf N q \<and>
      (\<exists>latest. bc_LatestBlock chain = Some latest \<and> Height block = Height latest + 1) \<and>
      (\<forall>c\<in>set ?cs. chunkKnown N (bc_ShardStates chain) c) \<and>
      (\<exists>cs t1. outboundChunksOf ?cfg ?txs = Some cs \<and> txRootOf (n_env N) cs newTrie = Some (TxRoot block, t1))"
    using c s'(1) checkInbound_accepts [OF c(3)] by (auto simp: checkRoots_def Let_def split: option.splits prod.splits if_splits)
qed

lemma CheckBlock_sound:
  assumes st: "stateAt N (bc_StateDB chain) p" "dbHolds N (bc_StateDB chain) S" "noCollision N S p"
    and blk: "Height block \<noteq> 0" "\<forall>c\<in>set (InboundChunks block). \<forall>tx\<in>set (Txs c). addressed tx" "\<forall>tx\<in>set (Transactions block). addressed tx"
    and q: "hasTree N (execBlock N (bc_config chain) (bc_StateDB chain) (InboundChunks block) (Transactions block)) q"
      "noCollision N (S \<union> isub p) q"
    and run: "CheckBlock N chain block = Ok (err, chain')"
  shows "\<exists>s. chain' = chain\<lparr>bc_StateDB := s\<rparr> \<and> stateAt N s p"
    and "err = None \<Longrightarrow> StateRoot block = stateRootOf N q \<and>
      (\<exists>latest. bc_LatestBlock chain = Some latest \<and> Height block = Height latest + 1) \<and>
      (\<forall>c\<in>set (InboundChunks block). chunkKnown N (bc_ShardStates chain) c) \<and>
      (\<exists>cs t1. outboundChunksOf (bc_config chain) (Transactions block) = Some cs \<and> txRootOf (n_env N) cs newTrie = Some (TxRoot block, t1))"
proof -
  note l0 = stateAt_ledger [OF st(1)]
  have "hasTree N (bc_StateDB chain) p"
    using hasTree_flushed [OF l0] nd.secure.flushed_settled [OF l0] by (simp add: nd.secure.trieLedger_def)
  then obtain s1 where s1: "commitState N (bc_StateDB chain) = Some (stateRootOf N p, s1)" "dbHolds N s1 (S \<union> isub p)"
      "onLedger s1 p (nd.secure.trieLedger p)" "nd.secure.available (sd_db s1) p"
    using commitState_ok [OF l0 st(2) _ st(3)] by auto
  let ?c = "chain\<lparr>bc_StateDB := s1\<rparr>"
  have t: "hasTree N (execBlock N (bc_config chain) s1 (InboundChunks block) (Transactions block)) q"
    using execBlock_tree [OF l0 s1(3) refl blk(2,3)] q(1) by simp
  obtain c1 where c1: "checkBody N ?c block = Ok (err, c1)" "chain' = snd (RollBack N c1 (stateRootOf N p))"
    using run s1(1) by (auto simp: CheckBlock_def res_simps)
  have pre: "onLedger (bc_StateDB ?c) p (nd.secure.trieLedger p)" "dbHolds N (bc_StateDB ?c) (S \<union> isub p)"
      "nd.secure.available (sd_db (bc_StateDB ?c)) p"
      "hasTree N (execBlock N (bc_config ?c) (bc_StateDB ?c) (InboundChunks block) (Transactions block)) q"
    using s1(2-4) t by simp_all
  note body = checkBody_state [OF pre(1-3) blk pre(4) q(2) c1(1)]
  obtain s where s: "c1 = chain\<lparr>bc_StateDB := s\<rparr>" "nd.secure.available (sd_db s) p" using body(1) by auto
  then show "\<exists>s. chain' = chain\<lparr>bc_StateDB := s\<rparr> \<and> stateAt N s p"
    using RollBack_ok [of c1 p] c1(2) by auto
  show "err = None \<Longrightarrow> StateRoot block = stateRootOf N q \<and>
      (\<exists>latest. bc_LatestBlock chain = Some latest \<and> Height block = Height latest + 1) \<and>
      (\<forall>c\<in>set (InboundChunks block). chunkKnown N (bc_ShardStates chain) c) \<and>
      (\<exists>cs t1. outboundChunksOf (bc_config chain) (Transactions block) = Some cs \<and> txRootOf (n_env N) cs newTrie = Some (TxRoot block, t1))"
    using body(2) by simp
qed

text \<open>A block of height 0 is compared with the state after the accounts are funded, and in nothing else.\<close>

lemma CheckBlock_genesis:
  assumes st: "stateAt N (bc_StateDB chain) p" "dbHolds N (bc_StateDB chain) S" "noCollision N S p"
    and blk: "Height block = 0" "\<forall>a\<in>set (cfg_Accounts (bc_config chain)). isAddress a"
    and q: "hasTree N (fundAccounts N (bc_config chain) (bc_StateDB chain)) q" "noCollision N (S \<union> isub p) q"
  shows "\<exists>s. CheckBlock N chain block =
       Ok (if StateRoot block = stateRootOf N q then None else Some BadStateRoot, chain\<lparr>bc_StateDB := s\<rparr>) \<and> stateAt N s p"
proof -
  let ?cfg = "bc_config chain"
  note l0 = stateAt_ledger [OF st(1)]
  have "hasTree N (bc_StateDB chain) p"
    using hasTree_flushed [OF l0] nd.secure.flushed_settled [OF l0] by (simp add: nd.secure.trieLedger_def)
  then obtain s1 where s1: "commitState N (bc_StateDB chain) = Some (stateRootOf N p, s1)" "dbHolds N s1 (S \<union> isub p)"
      "onLedger s1 p (nd.secure.trieLedger p)" "nd.secure.available (sd_db s1) p"
    using commitState_ok [OF l0 st(2) _ st(3)] by auto
  let ?s = "fundAccounts N ?cfg s1"
  have db: "dbHolds N ?s (S \<union> isub p)" "nd.secure.available (sd_db ?s) p" using s1(2,4) by (simp_all add: dbHolds_def frame)
  note l = fundAccounts_ledger [OF s1(3) blk(2)]
  have t: "hasTree N ?s q" using hasTree_ledger [OF fundAccounts_ledger [OF l0 blk(2)] l] q(1) by simp
  obtain s2 where s2: "commitState N ?s = Some (stateRootOf N q, s2)" "nd.secure.available (sd_db s2) p"
    using commitState_ok [OF l db(1) t q(2)] db(2) by blast
  obtain s3 where "RollBack N (chain\<lparr>bc_StateDB := s2\<rparr>) (stateRootOf N p) = (True, chain\<lparr>bc_StateDB := s3\<rparr>)" "stateAt N s3 p"
    using RollBack_ok [of "chain\<lparr>bc_StateDB := s2\<rparr>" p] s2(2) by auto
  moreover from this have "\<exists>s. chain\<lparr>bc_StateDB := s3\<rparr> = chain\<lparr>bc_StateDB := s\<rparr> \<and> stateAt N s p" by blast
  ultimately show ?thesis using s1(1) s2(1) blk(1) by (simp add: CheckBlock_def checkBody_def Let_def)
qed

end

section \<open>Honest blocks\<close>

text \<open>
  C1: the nodes of a shard agree. Let the leader and a validator of a shard have loaded the same
  state, with the same height. Then \<open>CreateNewBlock\<close> returns a block, \<open>CheckBlock\<close> of the validator
  accepts it and leaves the validator in its state, and \<open>RollBack\<close> to the state root of the block,
  which \<open>Commit\<close> performs, puts both nodes in the same new state: the tree that results from executing
  the block. The hypotheses are the laws of the libraries, well-formed addresses and shard numbers, that
  the validator knows the headers of the chunks and finds the chunks correct, databases in order, and
  no hash collision among the trees stored.
\<close>

theorem honest_block_accepted:
  assumes "nodeOk N" "stateAt N (bc_StateDB L) p" "dbHolds N (bc_StateDB L) S"
    and "bc_LatestBlock L = Some latest" "tp_config (sts_txPool (bc_ShardStates L)) = bc_config L" "readyConfig (bc_config L)"
    and "takeTxs1 (sts_txPool (bc_ShardStates L)) 100 = (chunks, pool)" "chosenTxs N draws L latest = Some txs"
    and "\<forall>c\<in>set chunks. \<forall>tx\<in>set (Txs c). addressed tx" "\<forall>c\<in>set chunks. chunkKnown N (bc_ShardStates V) c"
    and "hasTree N (execBlock N (bc_config L) (bc_StateDB L) chunks txs) q" "noCollision N S q"
    and "stateAt N (bc_StateDB V) p" "dbHolds N (bc_StateDB V) S'" "noCollision N S' p" "noCollision N (S' \<union> isub p) q"
    and "bc_LatestBlock V = Some latest'" "Height latest' = Height latest" "Height latest + 1 \<noteq> 0"
    and "cfg_ShardId (bc_config V) = cfg_ShardId (bc_config L)" "cfg_PShardNum (bc_config V) = cfg_PShardNum (bc_config L)"
  shows "\<exists>block L' V' L2 V2. CreateNewBlock N now draws L = Ok (block, L') \<and> CheckBlock N V block = Ok (None, V') \<and>
     stateAt N (bc_StateDB V') p \<and>
     RollBack N L' (StateRoot block) = (True, L2) \<and> RollBack N V' (StateRoot block) = (True, V2) \<and>
     stateAt N (bc_StateDB L2) q \<and> stateAt N (bc_StateDB V2) q"
proof -
  have N: "chain_node N" using assms(1) by (simp add: chain_node_def)
  obtain block L' cs t1 where b: "CreateNewBlock N now draws L = Ok (block, L')" "Transactions block = txs" "InboundChunks block = chunks"
      "Height block = Height latest + 1" "StateRoot block = stateRootOf N q"
      "account_trie.available (nodeOps N) (secRep (e_crypto (n_env N)) (e_reader (n_env N))) (rootOf (e_crypto (n_env N)) (e_emptyRoot (n_env N))) (sd_db (bc_StateDB L')) q"
      "outboundChunksOf (bc_config L) txs = Some cs" "txRootOf (n_env N) cs newTrie = Some (TxRoot block, t1)"
    using chain_node.CreateNewBlock_ok [OF N assms(2-9,11,12), of now] unfolding nodeOps_def by blast
  have cs: "outboundChunksOf (bc_config V) (Transactions block) = Some cs"
    using b(2,7) assms(21) by (simp add: outboundChunksOf_def)
  have adr: "\<forall>tx\<in>set (Transactions block). addressed tx" using chosenTxs_ok(1) [OF assms(8,5,6)] b(2) by blast
  note L0 = chain_node.stateAt_ledger [OF N assms(2)] and V0 = chain_node.stateAt_ledger [OF N assms(13)]
  have q: "hasTree N (execBlock N (bc_config V) (bc_StateDB V) (InboundChunks block) (Transactions block)) q"
    using chain_node.execBlock_tree [OF N L0 V0 assms(20,9), of txs q] assms(11) adr b(2,3) by simp
  obtain s where s: "CheckBlock N V block = Ok (None, V\<lparr>bc_StateDB := s\<rparr>)" "stateAt N s p"
      "account_trie.available (nodeOps N) (secRep (e_crypto (n_env N)) (e_reader (n_env N))) (rootOf (e_crypto (n_env N)) (e_emptyRoot (n_env N))) (sd_db s) q"
    using chain_node.CheckBlock_ok [OF N assms(13-15,17) _ _ _ adr _ q assms(16) b(5) cs b(8)] assms(9,10,18,19) b(3,4)
    unfolding nodeOps_def by auto
  show ?thesis
    using b(1,5) s(1,2) chain_node.RollBack_ok [OF N, of L' q] chain_node.RollBack_ok [OF N, of "V\<lparr>bc_StateDB := s\<rparr>" q] b(6) s(3)
    unfolding nodeOps_def by fastforce
qed

text \<open>
  C2: what \<open>CheckBlock\<close> accepts, of any block from anyone. Whatever the outcome, the validator is back in the
  state it had before. A block of another height than 0 is accepted if and only if it is the next block, every inbound chunk is
  proved against a header the validator knows, the state root is the root of the tree that results from executing
  the block on the validator's own state, and the transaction root is the one of the block's transactions. A block of height 0 is
  accepted, however long the chain is already, if and only if its state root is the root of the tree that results from funding the configured
  accounts on the validator's own state; its transactions, chunks, transaction root and predecessor are not looked at. Here
  \<open>q\<close> is the tree of the state that the block is compared with, and the addresses involved are well-formed.
\<close>

theorem checked_block_sound:
  assumes "nodeOk N" "stateAt N (bc_StateDB V) p" "dbHolds N (bc_StateDB V) S" "noCollision N S p"
    and "if Height block = 0 then \<forall>a\<in>set (cfg_Accounts (bc_config V)). isAddress a
      else (\<forall>c\<in>set (InboundChunks block). \<forall>tx\<in>set (Txs c). addressed tx) \<and> (\<forall>tx\<in>set (Transactions block). addressed tx)"
    and "hasTree N (if Height block = 0 then fundAccounts N (bc_config V) (bc_StateDB V)
      else execBlock N (bc_config V) (bc_StateDB V) (InboundChunks block) (Transactions block)) q"
    and "noCollision N (S \<union> isub p) q" "CheckBlock N V block = Ok (err, V')"
  shows "(\<exists>s. V' = V\<lparr>bc_StateDB := s\<rparr> \<and> stateAt N s p) \<and>
     (err = None \<longleftrightarrow> StateRoot block = stateRootOf N q \<and>
      (Height block \<noteq> 0 \<longrightarrow>
        (\<exists>latest. bc_LatestBlock V = Some latest \<and> Height block = Height latest + 1) \<and>
        (\<forall>c\<in>set (InboundChunks block). chunkKnown N (bc_ShardStates V) c) \<and>
        (\<exists>cs t1. outboundChunksOf (bc_config V) (Transactions block) = Some cs \<and> txRootOf (n_env N) cs newTrie = Some (TxRoot block, t1))))"
proof -
  have N: "chain_node N" using assms(1) by (simp add: chain_node_def)
  show ?thesis
  proof (cases "Height block = 0")
    case True
    then show ?thesis using chain_node.CheckBlock_genesis [OF N assms(2-4) True _ _ assms(7)] assms(5,6,8) by (auto split: if_splits)
  next
    case False
    then have pre: "\<forall>c\<in>set (InboundChunks block). \<forall>tx\<in>set (Txs c). addressed tx" "\<forall>tx\<in>set (Transactions block). addressed tx"
        "hasTree N (execBlock N (bc_config V) (bc_StateDB V) (InboundChunks block) (Transactions block)) q"
      using assms(5,6) by simp_all
    note sound = chain_node.CheckBlock_sound [OF N assms(2-4) False pre assms(7,8)]
      and complete = chain_node.CheckBlock_ok [OF N assms(2-4) _ _ False pre(1,2) _ pre(3) assms(7)]
    have "err = None" if "StateRoot block = stateRootOf N q" "bc_LatestBlock V = Some latest" "Height block = Height latest + 1"
        "\<forall>c\<in>set (InboundChunks block). chunkKnown N (bc_ShardStates V) c"
        "outboundChunksOf (bc_config V) (Transactions block) = Some cs" "txRootOf (n_env N) cs newTrie = Some (TxRoot block, t1)" for latest cs t1
      using complete [OF that(2,3,4,1,5,6)] assms(8) by auto
    then show ?thesis using sound False by blast
  qed
qed

text \<open>
  A node for the witnesses. The codec is that of the theory \<open>Decode\<close>; in the place of Keccak is a function
  that keeps addresses and otherwise the end of its input, where the balances are. One account has
  the balance 5.
\<close>

definition endCrypto :: crypto where
  "endCrypto = markCrypto\<lparr>keccak256 := \<lambda>data. if length data = 20 then data @ replicate 12 0 else take 32 (rev data @ replicate 32 0)\<rparr>"

lemma rlpOk_end: "rlpOk endCrypto markReader"
proof -
  have "rlpEncode endCrypto = rlpEncode markCrypto" by (simp add: endCrypto_def)
  moreover have "length (keccak256 endCrypto data) = 32" for data by (auto simp: endCrypto_def min_def)
  ultimately show ?thesis using rlpOk_mark unfolding rlpOk_def by simp
qed

definition endNode :: nodeEnv where
  "endNode = \<lparr>n_env = markEnv\<lparr>e_crypto := endCrypto, e_emptyRoot := keccak256 endCrypto (rlpEncode endCrypto (RStr []))\<rparr>,
     n_rlpHeader = (\<lambda>_. []), n_rlpTx = (\<lambda>_. []), n_encAccount = plainEnc, n_decAccount = plainDec\<rparr>"

lemma endNode_ok: "nodeOk endNode"
proof -
  have "cryptoOk endCrypto plainEnc plainDec"
    by (auto simp: cryptoOk_def inj_on_def endCrypto_def isAddress_def plainEnc_def plainDec_def)
  moreover have "envOk (n_env endNode)" using rlpOk_end by (simp add: envOk_def endNode_def markEnv_def)
  ultimately show ?thesis by (simp add: nodeOk_def endNode_def)
qed

interpretation endN: chain_node endNode
  using endNode_ok by unfold_locales

definition fundedTree :: "u64 \<Rightarrow> ptree" where
  "fundedTree b = secSet endCrypto PNil zeroAddr (plainEnc b)"

definition fundedTrie :: SecureTrie where
  "fundedTrie = snd (SecTryUpdate (nodeReader markReader freshDb) endCrypto (sd_trie freshState) zeroAddr (plainEnc 5))"

definition fundedState :: State where
  "fundedState = emptyStateDB freshDb fundedTrie"

lemma zeroAddr_address: "isAddress zeroAddr"
  by (simp add: isAddress_def)

lemma fundedState_at: "stateAt endNode fundedState (fundedTree 5)"
proof -
  have "secRep endCrypto markReader freshDb (sd_trie freshState) PNil"
    by (simp add: secRep_def represents_def freshState_def emptyStateDB_def pwf_def)
  from SecTryUpdate_rep [OF this, of zeroAddr "plainEnc 5"] have "secRep endCrypto markReader freshDb fundedTrie (fundedTree 5)"
    by (auto simp: fundedTrie_def fundedTree_def)
  then show ?thesis by (auto simp: stateAt_def fundedState_def emptyStateDB_def endNode_def markEnv_def)
qed

lemma fundedState_db: "dbHolds endNode fundedState {}"
  using freshDb_good by (simp add: dbHolds_def fundedState_def emptyStateDB_def)

lemma funded_inner: "isub (fundedTree 5) = {fundedTree 5}" "isub (fundedTree 4) = {fundedTree 4}"
  by code_simp+

lemma funded_digest:
  "pdigest endCrypto (fundedTree 5) \<noteq> pdigest endCrypto (fundedTree 4)"
  "pdigest endCrypto (fundedTree 5) \<noteq> zeroHash" "pdigest endCrypto (fundedTree 4) \<noteq> zeroHash"
  "pdigest endCrypto (fundedTree 5) \<noteq> e_emptyRoot (n_env endNode)" "pdigest endCrypto (fundedTree 4) \<noteq> e_emptyRoot (n_env endNode)"
  by code_simp+

lemma endCrypto_node: "e_crypto (n_env endNode) = endCrypto"
  by (simp add: endNode_def)

lemma funded_free:
  "noCollision endNode {} (fundedTree 5)" "noCollision endNode {} (fundedTree 4)" "noCollision endNode ({} \<union> isub (fundedTree 5)) (fundedTree 4)"
  using funded_digest unfolding noCollision_def storable_def collisionFree_def inj_on_def endCrypto_node by (auto simp: funded_inner)

definition fundedChain :: Blockchain where
  "fundedChain = \<lparr>bc_ShardStates = NewShardStates nullConfig (NewTxPool nullConfig), bc_LatestBlock = Some zeroBlock,
     bc_BlockDB = Map.empty, bc_StateDB = fundedState, bc_OutboundChunkDB = Map.empty, bc_sent = [], bc_config = nullConfig\<rparr>"

definition crossTx :: Transaction where
  "crossTx = \<lparr>FromShard = 1001, FromAddr = zeroAddr, ToShard = 1002, ToAddr = zeroAddr, Value = 1, DataBytes = [], TxHash = zeroHash\<rparr>"

lemma fundedChain_txs: "chosenTxs endNode (\<lambda>_. (0, 0, 0, [])) fundedChain zeroBlock = Some [crossTx]"
  by code_simp

lemma nullConfig_ready: "readyConfig nullConfig"
  by (simp add: readyConfig_def nullConfig_def isAddress_def)

lemma fundedChain_tree: "hasTree endNode (execBlock endNode nullConfig fundedState [] [crossTx]) (fundedTree 4)"
proof -
  have ad: "addressed crossTx" by (simp add: addressed_def crossTx_def isAddress_def)
  let ?w = "ledgerBlock nullConfig (endN.nd.secure.trieLedger (fundedTree 5)) [] [crossTx]"
  have l: "endN.onLedger (execBlock endNode nullConfig fundedState [] [crossTx]) (fundedTree 5) ?w"
    using endN.execBlock_state [OF fundedState_at, of "[]" "[crossTx]" nullConfig] ad by simp
  have look: "secLook endCrypto (fundedTree 5) zeroAddr = Some (plainEnc 5)" "plainDec (plainEnc 5) = Some 5" "plainEnc 5 \<noteq> []"
    by code_simp+
  have acc: "accounts (endN.nd.secure.trieLedger (fundedTree 5)) zeroAddr = Some 5"
    unfolding endN.nd.secure.trieLedger_def endN.nd.secure.trieAccounts_def
    using look by (simp add: lookObj_def newObject_def endNode_def secureOps_def)
  have w: "?w = ledgerSub (endN.nd.secure.trieLedger (fundedTree 5)) zeroAddr 1"
    using acc by (simp add: ledgerBlock_def ledgerTx_def crossTx_def nullConfig_def ledgerBalance_def)
  have b: "ledgerBalance ?w zeroAddr = 4" unfolding w using acc by (simp add: ledgerBalance_def ledgerSub_def)
  have enc: "encAccount (secureOps H r er (n_encAccount endNode) dec) = plainEnc" for H r er dec
    by (simp add: secureOps_def endNode_def)
  have "touched ?w = {zeroAddr}" unfolding w by (simp add: ledgerSub_def endN.nd.secure.trieLedger_def)
  from endN.nd.secure.flushed_single [OF l this]
  have "endN.nd.secure.flushed (execBlock endNode nullConfig fundedState [] [crossTx]) (fundedTree 5) False =
      secSet endCrypto (fundedTree 5) zeroAddr (plainEnc 4)"
    unfolding endN.nd.secure.ledgerBytes_def b enc by (simp only: endCrypto_node)
  also have "\<dots> = fundedTree 4" by code_simp
  finally show ?thesis using endN.hasTree_flushed [OF l] by simp
qed

theorem honest_block_accepted_witness:
  "\<exists>block L' V'. CreateNewBlock endNode 7 (\<lambda>_. (0, 0, 0, [])) fundedChain = Ok (block, L') \<and>
     CheckBlock endNode fundedChain block = Ok (None, V') \<and> stateAt endNode (bc_StateDB V') (fundedTree 5)"
proof -
  have c: "bc_StateDB fundedChain = fundedState" "bc_config fundedChain = nullConfig" "bc_LatestBlock fundedChain = Some zeroBlock"
    by (simp_all add: fundedChain_def)
  have t: "takeTxs1 (sts_txPool (bc_ShardStates fundedChain)) 100 = ([], NewTxPool nullConfig)"
    "tp_config (sts_txPool (bc_ShardStates fundedChain)) = nullConfig" "Height zeroBlock + 1 \<noteq> 0"
    by (simp_all add: fundedChain_def NewShardStates_def NewTxPool_def takeTxs1_def zeroBlock_def zeroHeader_def NewBlock_def Header.defs)
  show ?thesis
    using honest_block_accepted [OF endNode_ok, of fundedChain "fundedTree 5" "{}" zeroBlock "[]" "NewTxPool nullConfig"
        "\<lambda>_. (0, 0, 0, [])" "[crossTx]" fundedChain "fundedTree 4" "{}" zeroBlock 7]
      fundedState_at fundedState_db nullConfig_ready fundedChain_txs fundedChain_tree funded_free c t by simp blast
qed

text \<open>A block of height 1 that claims the old state root.\<close>

definition staleBlock :: Block where
  "staleBlock = zeroBlock\<lparr>Height := 1, StateRoot := stateRootOf endNode (fundedTree 5), Transactions := [crossTx]\<rparr>"

lemma fundedState_tree: "hasTree endNode fundedState (fundedTree 5)"
  using endN.hasTree_flushed [OF endN.stateAt_ledger [OF fundedState_at]] endN.nd.secure.flushed_settled [OF endN.stateAt_ledger [OF fundedState_at]]
  by (simp add: endN.nd.secure.trieLedger_def)

lemma staleBlock_rejected: "\<exists>V'. CheckBlock endNode fundedChain staleBlock = Ok (Some BadStateRoot, V')"
proof -
  note l0 = endN.stateAt_ledger [OF fundedState_at]
  have ad: "addressed crossTx" by (simp add: addressed_def crossTx_def isAddress_def)
  obtain s1 where s1: "commitState endNode fundedState = Some (stateRootOf endNode (fundedTree 5), s1)"
      "dbHolds endNode s1 ({} \<union> isub (fundedTree 5))" "endN.onLedger s1 (fundedTree 5) (endN.nd.secure.trieLedger (fundedTree 5))"
    using endN.commitState_ok [OF l0 fundedState_db fundedState_tree funded_free(1)] by auto
  let ?s = "execBlock endNode nullConfig s1 [] [crossTx]"
  have le: "endN.onLedger ?s (fundedTree 5) (ledgerBlock nullConfig (endN.nd.secure.trieLedger (fundedTree 5)) [] [crossTx])"
    using endN.execBlock_ledger [OF s1(3), of "[]" "[crossTx]" nullConfig] ad by simp
  have t: "hasTree endNode ?s (fundedTree 4)"
    using endN.execBlock_tree [OF l0 s1(3) refl, of "[]" "[crossTx]" nullConfig "fundedTree 4"] fundedChain_tree ad by simp
  have db: "dbHolds endNode ?s ({} \<union> isub (fundedTree 5))" using s1(2) by (simp add: dbHolds_def frame)
  obtain s2 where s2: "commitState endNode ?s = Some (stateRootOf endNode (fundedTree 4), s2)"
    using endN.commitState_ok [OF le db t funded_free(3)] by blast
  have "stateRootOf endNode (fundedTree 4) \<noteq> stateRootOf endNode (fundedTree 5)"
    using funded_digest(1,4,5) by (auto simp: stateRootOf_def rootOf_def endCrypto_node)
  then show ?thesis
    using s1(1) s2 by (simp add: CheckBlock_def checkBody_def checkRoots_def Let_def staleBlock_def fundedChain_def execBlock_def execInbound_def
        zeroBlock_def zeroHeader_def NewBlock_def Header.defs)
qed

text \<open>A block of height 0, with a transaction that its transaction root does not cover, on a chain of height 7.\<close>

definition lateChain :: Blockchain where
  "lateChain = fundedChain\<lparr>bc_LatestBlock := Some (zeroBlock\<lparr>Height := 7\<rparr>), bc_config := nullConfig\<lparr>cfg_Accounts := []\<rparr>\<rparr>"

definition lateBlock :: Block where
  "lateBlock = zeroBlock\<lparr>StateRoot := stateRootOf endNode (fundedTree 5), Transactions := [crossTx]\<rparr>"

lemma lateBlock_run: "\<exists>V'. CheckBlock endNode lateChain lateBlock = Ok (None, V')"
proof -
  have "case CheckBlock endNode lateChain lateBlock of Ok (e, V') \<Rightarrow> e = None | _ \<Rightarrow> False" by code_simp
  then show ?thesis by (auto split: res.splits prod.splits)
qed

theorem checked_block_sound_witness:
  "(\<exists>V' s. CheckBlock endNode fundedChain staleBlock = Ok (Some BadStateRoot, V') \<and> V' = fundedChain\<lparr>bc_StateDB := s\<rparr> \<and>
     stateAt endNode s (fundedTree 5)) \<and>
   (\<exists>V' s. CheckBlock endNode lateChain lateBlock = Ok (None, V') \<and> V' = lateChain\<lparr>bc_StateDB := s\<rparr> \<and>
     stateAt endNode s (fundedTree 5))"
proof
  obtain V' where V': "CheckBlock endNode fundedChain staleBlock = Ok (Some BadStateRoot, V')" using staleBlock_rejected by blast
  have ad: "addressed crossTx" by (simp add: addressed_def crossTx_def isAddress_def)
  have b: "Height staleBlock \<noteq> 0" "InboundChunks staleBlock = []" "Transactions staleBlock = [crossTx]"
    "bc_StateDB fundedChain = fundedState" "bc_config fundedChain = nullConfig"
    by (simp_all add: staleBlock_def zeroBlock_def NewBlock_def Header.defs fundedChain_def)
  show "\<exists>V' s. CheckBlock endNode fundedChain staleBlock = Ok (Some BadStateRoot, V') \<and> V' = fundedChain\<lparr>bc_StateDB := s\<rparr> \<and>
     stateAt endNode s (fundedTree 5)"
    using checked_block_sound [OF endNode_ok, of fundedChain "fundedTree 5" "{}" staleBlock "fundedTree 4" "Some BadStateRoot" V']
      fundedState_at fundedState_db funded_free fundedChain_tree V' ad b by auto
next
  obtain V' where V': "CheckBlock endNode lateChain lateBlock = Ok (None, V')" using lateBlock_run by blast
  have b: "Height lateBlock = 0" "bc_StateDB lateChain = fundedState" "cfg_Accounts (bc_config lateChain) = []"
    by (simp_all add: lateBlock_def lateChain_def zeroBlock_def zeroHeader_def NewBlock_def Header.defs fundedChain_def)
  have f: "hasTree endNode fundedState (fundedTree 5)" "noCollision endNode ({} \<union> isub (fundedTree 5)) (fundedTree 5)"
    using fundedState_tree funded_free(1) by (simp_all add: noCollision_def storable_def)
  show "\<exists>V' s. CheckBlock endNode lateChain lateBlock = Ok (None, V') \<and> V' = lateChain\<lparr>bc_StateDB := s\<rparr> \<and>
     stateAt endNode s (fundedTree 5)"
    using checked_block_sound [OF endNode_ok, of lateChain "fundedTree 5" "{}" lateBlock "fundedTree 5" None V']
      fundedState_at fundedState_db funded_free(1) f V' b by (simp add: fundAccounts_def)
qed

section \<open>Value\<close>

definition importedValue :: "Config \<Rightarrow> OutboundChunk list \<Rightarrow> u64" where
  "importedValue config chunks =
     sum_list (map (\<lambda>tx. if FromShard tx \<noteq> cfg_ShardId config \<and> ToShard tx = cfg_ShardId config then Value tx else 0) (concat (map Txs chunks)))"

text \<open>The value that leaves the shard: what funded outbound transactions subtract.\<close>

fun exportedValue :: "nodeEnv \<Rightarrow> Config \<Rightarrow> State \<Rightarrow> Transaction list \<Rightarrow> u64" where
  "exportedValue N config s [] = 0"
| "exportedValue N config s (tx # txs) =
     (if FromShard tx = cfg_ShardId config \<and> ToShard tx \<noteq> cfg_ShardId config \<and> \<not> balance (nodeOps N) s (FromAddr tx) < Value tx
      then Value tx else 0) + exportedValue N config (execTx N config s tx) txs"

lemma sum_ledger:
  assumes "finite A" "a \<in> A"
  shows "sum (ledgerBalance (ledgerAdd w a x)) A = sum (ledgerBalance w) A + x"
    and "sum (ledgerBalance (ledgerSub w a x)) A = sum (ledgerBalance w) A - x"
  using assms by (simp_all add: sum.remove [of A a])

context chain_node
begin

lemma balance_ledger: "onLedger s p w \<Longrightarrow> isAddress a \<Longrightarrow> balance (nodeOps N) s a = ledgerBalance w a"
  using nd.secure.onLedger_get [of s p w a] by (auto simp: balance_def nodeOps_def)

lemma sum_inbound:
  assumes "finite A" "\<forall>tx\<in>set txs. ToAddr tx \<in> A"
  shows "sum (ledgerBalance (foldl (ledgerInboundTx config) w txs)) A = sum (ledgerBalance w) A +
    sum_list (map (\<lambda>tx. if FromShard tx \<noteq> cfg_ShardId config \<and> ToShard tx = cfg_ShardId config then Value tx else 0) txs)"
  using assms(2) by (induction txs arbitrary: w) (auto simp: ledgerInboundTx_def sum_ledger [OF assms(1)] simp del: ledgerBalance_add)

lemma foldl_concat: "foldl (\<lambda>w c. foldl f w (g c)) w cs = foldl f w (concat (map g cs))"
  by (induction cs arbitrary: w) auto

lemma sum_txs:
  assumes "finite A" "onLedger s p w" "\<forall>tx\<in>set txs. addressed tx \<and> FromAddr tx \<in> A \<and> ToAddr tx \<in> A"
  shows "sum (ledgerBalance (foldl (ledgerTx config) w txs)) A + exportedValue N config s txs = sum (ledgerBalance w) A"
  using assms(2,3)
proof (induction txs arbitrary: s w)
  case (Cons tx txs)
  have tx: "addressed tx" "FromAddr tx \<in> A" "ToAddr tx \<in> A" "isAddress (FromAddr tx)" using Cons.prems(2) by (auto simp: addressed_def)
  have ih: "sum (ledgerBalance (foldl (ledgerTx config) (ledgerTx config w tx) txs)) A + exportedValue N config (execTx N config s tx) txs =
      sum (ledgerBalance (ledgerTx config w tx)) A"
    using Cons.IH [OF execTx_ledger [OF Cons.prems(1) tx(1)]] Cons.prems(2) by simp
  have b: "balance (nodeOps N) s (FromAddr tx) = ledgerBalance w (FromAddr tx)" using balance_ledger [OF Cons.prems(1) tx(4)] .
  have "sum (ledgerBalance (ledgerTx config w tx)) A +
      (if FromShard tx = cfg_ShardId config \<and> ToShard tx \<noteq> cfg_ShardId config \<and> \<not> ledgerBalance w (FromAddr tx) < Value tx then Value tx else 0) =
      sum (ledgerBalance w) A"
    using tx(2,3) by (simp add: ledgerTx_def sum_ledger [OF assms(1)] del: ledgerBalance_add ledgerBalance_sub)
  then show ?case using ih b by (auto simp: algebra_simps split: if_splits)
qed simp

end

text \<open>
  C4: a block creates no money within a shard. Over any finite set of addresses that contains those
  of the block, the sum of the balances after executing the block, plus the value of the outbound
  transactions that were funded, is the sum before plus the value of the inbound transactions, in 64-bit
  arithmetic.
\<close>

theorem block_conserves_value:
  assumes "nodeOk N" "stateAt N s p" "finite A" "\<forall>a\<in>A. isAddress a"
    and "\<forall>c\<in>set chunks. \<forall>tx\<in>set (Txs c). FromAddr tx \<in> A \<and> ToAddr tx \<in> A" "\<forall>tx\<in>set txs. FromAddr tx \<in> A \<and> ToAddr tx \<in> A"
  shows "(\<Sum>a\<in>A. balance (nodeOps N) (execBlock N config s chunks txs) a) +
      exportedValue N config (execInbound N config s chunks) txs =
    (\<Sum>a\<in>A. balance (nodeOps N) s a) + importedValue config chunks"
proof -
  have N: "chain_node N" using assms(1) by (simp add: chain_node_def)
  have adr: "\<forall>c\<in>set chunks. \<forall>tx\<in>set (Txs c). addressed tx" "\<forall>tx\<in>set txs. addressed tx"
    using assms(4-6) by (auto simp: addressed_def)
  note l0 = chain_node.stateAt_ledger [OF N assms(2)]
  note li = chain_node.execBlock_ledger [OF N l0 adr(1), of "[]" config, simplified execBlock_def ledgerBlock_def foldl.simps, simplified]
  note lb = chain_node.execBlock_ledger [OF N l0 adr, of config]
  have bal: "(\<Sum>a\<in>A. balance (nodeOps N) s' a) = sum (ledgerBalance w) A" if "chain_node.onLedger N s' p w" for s' w
    using chain_node.balance_ledger [OF N that] assms(4) by simp
  note st = chain_node.sum_txs [OF N assms(3) li, of txs config]
  have "sum (ledgerBalance (foldl (ledgerInboundTx config) w (concat (map Txs chunks)))) A = sum (ledgerBalance w) A + importedValue config chunks" for w
    unfolding importedValue_def using chain_node.sum_inbound [OF N assms(3), of "concat (map Txs chunks)"] assms(5) by auto
  then show ?thesis
    using st adr(2) assms(6) unfolding bal [OF lb] bal [OF l0] ledgerBlock_def chain_node.foldl_concat [OF N] by simp
qed

theorem block_conserves_value_witness:
  "(\<Sum>a\<in>{zeroAddr}. balance (nodeOps endNode) (execBlock endNode nullConfig fundedState [oneChunk] [crossTx]) a) +
      exportedValue endNode nullConfig (execInbound endNode nullConfig fundedState [oneChunk]) [crossTx] =
    (\<Sum>a\<in>{zeroAddr}. balance (nodeOps endNode) fundedState a) + importedValue nullConfig [oneChunk]"
  by (rule block_conserves_value [OF endNode_ok fundedState_at])
    (simp_all add: zeroAddr_address oneChunk_def oneTx_def crossTx_def)



section \<open>Outbound chunks\<close>

text \<open>
  C3: the chunks that a leader sends are accepted. The block that \<open>CreateNewBlock\<close> returns has one outbound
  chunk per processing shard, which carries the block's hash and, in their order, the transactions for
  that shard; every chunk with a transaction passes \<open>CheckInboundChunk\<close> of the receiving shard against the
  header of the block.
\<close>

theorem created_chunks_accepted:
  assumes "nodeOk N" "stateAt N (bc_StateDB L) p" "dbHolds N (bc_StateDB L) S"
    and "bc_LatestBlock L = Some latest" "tp_config (sts_txPool (bc_ShardStates L)) = bc_config L" "readyConfig (bc_config L)"
    and "takeTxs1 (sts_txPool (bc_ShardStates L)) 100 = (chunks, pool)" "chosenTxs N draws L latest = Some txs"
    and "\<forall>c\<in>set chunks. \<forall>tx\<in>set (Txs c). addressed tx"
    and "hasTree N (execBlock N (bc_config L) (bc_StateDB L) chunks txs) q" "noCollision N S q"
    and "outboundChunksOf (bc_config L) txs = Some cs"
    and "inj_on (keccak256 (e_crypto (n_env N))) (treeNodes (e_crypto (n_env N)) (blockTreeOf (n_env N) cs))"
  shows "\<exists>block L' cs'. CreateNewBlock N now draws L = Ok (block, L') \<and> bc_OutboundChunkDB L' (Hash block) = Some cs' \<and>
     length cs' = unat (cfg_PShardNum (bc_config L)) \<and>
     (\<forall>i<length cs'. BlockHash (cs' ! i) = Hash block \<and> Txs (cs' ! i) = filter (destined i) (Transactions block) \<and>
        (Txs (cs' ! i) \<noteq> [] \<longrightarrow> CheckInboundChunk (n_env N) block (cs' ! i) = Ok True))"
proof -
  have N: "chain_node N" using assms(1) by (simp add: chain_node_def)
  have env: "envOk (n_env N)" using assms(1) by (simp add: nodeOk_def)
  obtain block L' cs' t1 where b: "CreateNewBlock N now draws L = Ok (block, L')" "Transactions block = txs"
      "txRootOf (n_env N) cs newTrie = Some (TxRoot block, t1)" "bc_OutboundChunkDB L' (Hash block) = Some cs'"
      "proveChunks (e_crypto (n_env N)) t1 (Hash block) 0 cs = Ok cs'"
    using chain_node.CreateNewBlock_ok [OF N assms(2-11), of now] assms(12) by auto
  note ok = chosenTxs_ok [OF assms(8,5,6)]
  have idx: "1001 \<le> unat (ToShard tx)" "unat (ToShard tx - 1001) = unat (ToShard tx) - 1001" if "tx \<in> set txs" for tx
    using ok(2) [OF that] by (simp_all add: word_le_nat_alt shard_index)
  have rng: "\<forall>tx\<in>set txs. unat (ToShard tx - 1001) < unat (cfg_PShardNum (bc_config L))"
  proof
    fix tx assume tx: "tx \<in> set txs"
    show "unat (ToShard tx - 1001) < unat (cfg_PShardNum (bc_config L))" using idx [OF tx] ok(3) [OF tx] by linarith
  qed
  have cs: "length cs = unat (cfg_PShardNum (bc_config L))" "\<And>i. i < length cs \<Longrightarrow> Txs (cs ! i) = filter (destined i) txs"
    using outboundChunksOf_ok [OF rng] assms(12) by auto
  have pr: "length cs' = length cs" "\<And>j. j < length cs \<Longrightarrow> \<exists>puts. Prove (e_crypto (n_env N)) noDb t1 (uintKey (e_crypto (n_env N)) (j + 1001)) 0 = Ok puts \<and>
      cs' ! j = (cs ! j)\<lparr>ChunkProof := map snd puts, BlockHash := Hash block\<rparr>"
    using proveChunks_ok [OF txRoot_trie(1) [OF env b(3)], of "Hash block" 0 cs] b(5) by auto
  have "BlockHash (cs' ! i) = Hash block \<and> Txs (cs' ! i) = filter (destined i) (Transactions block) \<and>
      (Txs (cs' ! i) \<noteq> [] \<longrightarrow> CheckInboundChunk (n_env N) block (cs' ! i) = Ok True)" if i: "i < length cs'" for i
  proof -
    obtain puts where puts: "Prove (e_crypto (n_env N)) noDb t1 (uintKey (e_crypto (n_env N)) (i + 1001)) 0 = Ok puts"
        "cs' ! i = (cs ! i)\<lparr>ChunkProof := map snd puts, BlockHash := Hash block\<rparr>"
      using pr i by auto
    have t: "Txs (cs' ! i) = filter (destined i) txs" using cs(2) [of i] pr(1) i puts(2) by simp
    have "CheckInboundChunk (n_env N) block (cs' ! i) = Ok True" if ne: "Txs (cs' ! i) = tx # rest" for tx rest
    proof -
      have "tx \<in> set (filter (destined i) txs)" using t ne by (metis list.set_intros(1))
      then have "tx \<in> set txs" "destined i tx" by simp_all
      then have "unat (ToShard tx) = 1001 + i" using idx [of tx] by (simp add: destined_def)
      moreover have "chunkHashes (cs' ! i) = chunkHashes (cs ! i)" using puts(2) by (simp add: chunkHashes_def)
      ultimately show ?thesis
        using chunk_genuine [OF env b(3) _ ne, of i] assms(13) pr(1) i puts by (auto simp: add.commute)
    qed
    then show ?thesis using t puts(2) b(2) by (cases "Txs (cs' ! i)") auto
  qed
  then show ?thesis using b(1,4) pr(1) cs(1) by auto
qed

lemma crossTx_chunks: "outboundChunksOf nullConfig [crossTx] = Some [zeroChunk, zeroChunk\<lparr>Txs := [crossTx]\<rparr>]"
  by code_simp

lemma crossTx_free:
  "inj_on (keccak256 (e_crypto (n_env endNode)))
     (treeNodes (e_crypto (n_env endNode)) (blockTreeOf (n_env endNode) [zeroChunk, zeroChunk\<lparr>Txs := [crossTx]\<rparr>]))"
  unfolding inj_on_def by code_simp

theorem created_chunks_accepted_witness:
  "\<exists>block L' cs'. CreateNewBlock endNode 7 (\<lambda>_. (0, 0, 0, [])) fundedChain = Ok (block, L') \<and> bc_OutboundChunkDB L' (Hash block) = Some cs' \<and>
     length cs' = 2 \<and> BlockHash (cs' ! 1) = Hash block"
proof -
  have c: "bc_StateDB fundedChain = fundedState" "bc_config fundedChain = nullConfig" "bc_LatestBlock fundedChain = Some zeroBlock"
    "unat (cfg_PShardNum nullConfig) = 2"
    by (simp_all add: fundedChain_def nullConfig_def)
  have t: "takeTxs1 (sts_txPool (bc_ShardStates fundedChain)) 100 = ([], NewTxPool nullConfig)"
    "tp_config (sts_txPool (bc_ShardStates fundedChain)) = nullConfig"
    by (simp_all add: fundedChain_def NewShardStates_def NewTxPool_def takeTxs1_def)
  show ?thesis
    using created_chunks_accepted [OF endNode_ok, of fundedChain "fundedTree 5" "{}" zeroBlock "[]" "NewTxPool nullConfig"
        "\<lambda>_. (0, 0, 0, [])" "[crossTx]" "fundedTree 4" "[zeroChunk, zeroChunk\<lparr>Txs := [crossTx]\<rparr>]" 7]
      fundedState_at fundedState_db nullConfig_ready fundedChain_txs fundedChain_tree funded_free crossTx_chunks crossTx_free c t by fastforce
qed

end
