(* ===== verification/Consensus.thy ===== *)
theory Consensus
  imports Bls Agreement
begin

text \<open>
  The consensus of a shard (\<open>consensus/protocol.go\<close>, \<open>leader.go\<close>, \<open>validator.go\<close>): three phases per block.
  The leader proposes a block, collects the validators' signatures into an aggregate and a bitmap, and moves to the
  next phase with enough of them; a validator answers each phase with its vote.

  The chain is reached through a record of its four operations, \<open>chainOps\<close>, which \<open>nodeChain\<close> builds from
  the theory \<open>Blockchain\<close>. A message that a goroutine \<open>TryGossip\<close> sends is appended to \<open>bft_sent\<close> with the phase it
  was started in. The pointers to signatures and bitmaps are options, and a method call on nil is a panic. In the code
  the bitmap of the leader's last message shares its bytes with the bitmap that later votes change, so a repetition of
  that message may carry more signers than the first; here a message keeps the bitmap it was sent with. The
  mutex makes the handlers atomic.
\<close>

section \<open>Phases\<close>

datatype BFTPhase = BFT_INIT | BFT_PREPARE | BFT_PRECOMMIT | BFT_COMMIT

fun phaseNum :: "BFTPhase \<Rightarrow> nat" where
  "phaseNum BFT_INIT = 0" | "phaseNum BFT_PREPARE = 1" | "phaseNum BFT_PRECOMMIT = 2" | "phaseNum BFT_COMMIT = 3"

lemma phaseNum_eq [simp]: "phaseNum a = phaseNum b \<longleftrightarrow> a = b"
  by (cases a; cases b) auto

instantiation BFTPhase :: linorder
begin

definition less_eq_BFTPhase :: "BFTPhase \<Rightarrow> BFTPhase \<Rightarrow> bool" where
  "a \<le> b \<longleftrightarrow> phaseNum a \<le> phaseNum b"

definition less_BFTPhase :: "BFTPhase \<Rightarrow> BFTPhase \<Rightarrow> bool" where
  "a < b \<longleftrightarrow> phaseNum a < phaseNum b"

instance
  by standard (auto simp: less_eq_BFTPhase_def less_BFTPhase_def)

end

record Phase =
  ph_height :: u32
  ph_bftPhase :: BFTPhase

definition Switch :: "Phase \<Rightarrow> u32 \<Rightarrow> BFTPhase \<Rightarrow> Phase" where
  "Switch p height bftPhase =
     (if ph_height p > height \<or> (ph_height p = height \<and> ph_bftPhase p \<ge> bftPhase) then p
      else \<lparr>ph_height = height, ph_bftPhase = bftPhase\<rparr>)"

definition IsNew :: "Phase \<Rightarrow> Phase \<Rightarrow> bool" where
  "IsNew p x = (if ph_height p > ph_height x \<or> (ph_height p = ph_height x \<and> ph_bftPhase p \<ge> ph_bftPhase x) then False else True)"

definition IsOut :: "Phase \<Rightarrow> Phase \<Rightarrow> bool" where
  "IsOut p x = (if ph_height p > ph_height x \<or> (ph_height p = ph_height x \<and> ph_bftPhase p > ph_bftPhase x) then True else False)"

section \<open>The protocol state\<close>

record 'c chainOps =
  co_CreateNewBlock :: "'c \<Rightarrow> (unit, Block \<times> 'c) res"
  co_CheckBlock :: "'c \<Rightarrow> Block \<Rightarrow> (unit, blockErr option \<times> 'c) res"
  co_Commit :: "'c \<Rightarrow> Block \<Rightarrow> (unit, 'c) res"
  co_LatestBlock :: "'c \<Rightarrow> Block option"

definition nodeChain :: "nodeEnv \<Rightarrow> u64 \<Rightarrow> (nat \<Rightarrow> draw) \<Rightarrow> Blockchain chainOps" where
  "nodeChain N now draws =
     \<lparr>co_CreateNewBlock = CreateNewBlock N now draws, co_CheckBlock = CheckBlock N, co_Commit = ChainCommit N,
      co_LatestBlock = bc_LatestBlock\<rparr>"

record ('sec, 'pub, 'sig, 'c) BFTProtocol =
  bft_bls :: "('sec, 'pub) BLS"
  bft_blockchain :: 'c
  bft_config :: Config
  bft_phase :: Phase
  bft_latestCommittedBlockHash :: hash
  bft_currentBlock :: "Block option"
  bft_aggregatePrepareSig :: "'sig option"
  bft_aggregatePrecommitSig :: "'sig option"
  bft_aggregateCommitSig :: "'sig option"
  bft_prepareBitmap :: "Bitmap option"
  bft_precommitBitmap :: "Bitmap option"
  bft_commitBitmap :: "Bitmap option"
  bft_sent :: "(Phase \<times> BFTMessage \<times> Topic) list"

definition NewBFTProtocol :: "('sec, 'pub) BLS \<Rightarrow> 'c \<Rightarrow> Config \<Rightarrow> ('sec, 'pub, 'sig, 'c) BFTProtocol" where
  "NewBFTProtocol b blockchain config =
     \<lparr>bft_bls = b, bft_blockchain = blockchain, bft_config = config, bft_phase = \<lparr>ph_height = 0, ph_bftPhase = BFT_INIT\<rparr>,
      bft_latestCommittedBlockHash = zeroHash, bft_currentBlock = None, bft_aggregatePrepareSig = None,
      bft_aggregatePrecommitSig = None, bft_aggregateCommitSig = None, bft_prepareBitmap = None,
      bft_precommitBitmap = None, bft_commitBitmap = None, bft_sent = []\<rparr>"

definition nodeId2Key :: "Config \<Rightarrow> u32" where
  "nodeId2Key config =
     cfg_NodeId config - (cfg_RShardNum config + cfg_ShardId config - 1001) * cfg_NodeNumPerShard config - 1"

definition key2NodeId :: "Config \<Rightarrow> u32 \<Rightarrow> u32" where
  "key2NodeId config key = key + (cfg_RShardNum config + cfg_ShardId config - 1001) * cfg_NodeNumPerShard config + 1"

definition bftKeyOffset :: "Config \<Rightarrow> u32" where
  "bftKeyOffset config = (cfg_RShardNum config + cfg_ShardId config - 1001) * cfg_NodeNumPerShard config + 1"

text \<open>\<open>bitmap := types.NewBitmap(...); bitmap.SetKey(bft.nodeId2Key())\<close>\<close>

definition ownBitmap :: "Config \<Rightarrow> Bitmap option" where
  "ownBitmap config = SetKey (NewBitmap (cfg_NodeNumPerShard config)) (nodeId2Key config)"

text \<open>\<open>go bft.TryGossip(phase, msg, topic)\<close>\<close>

definition send :: "('sec, 'pub, 'sig, 'c) BFTProtocol \<Rightarrow> BFTMessage \<Rightarrow> Topic \<Rightarrow> ('sec, 'pub, 'sig, 'c) BFTProtocol" where
  "send bft m topic = bft\<lparr>bft_sent := bft_sent bft @ [(bft_phase bft, m, topic)]\<rparr>"

text \<open>
  The loop of \<open>TryGossip\<close>, with the phases of the node that it sees when it wakes up: what it sends in
  as many rounds.
\<close>

fun TryGossip :: "Phase \<Rightarrow> BFTMessage \<Rightarrow> Phase list \<Rightarrow> BFTMessage list" where
  "TryGossip phase m [] = []"
| "TryGossip phase m (p # ps) = m # (if IsOut p phase then [] else [m]) @ TryGossip phase m ps"

datatype bftErr =
  NoCurrentBlock | OtherBlock | WrongSignature | SkipGenesis | SkipBlocks | ForkOccurred | NotEnoughSignatures | CheckFailed blockErr

section \<open>The leader\<close>

definition BftPrepare :: "('sec, 'pub, 'sig) blsLib \<Rightarrow> 'c chainOps \<Rightarrow> ('sec, 'pub, 'sig, 'c) BFTProtocol \<Rightarrow>
    (unit, ('sec, 'pub, 'sig, 'c) BFTProtocol) res" where
  "BftPrepare L ops bft =
     rbind (co_CreateNewBlock ops (bft_blockchain bft)) (\<lambda>(block, chain).
       case ownBitmap (bft_config bft) of
         None \<Rightarrow> Panic
       | Some bitmap \<Rightarrow>
           let msg = Hash block @ [messageTypeByte MessageType_PREPARE];
               signedMsg = blsSign L (bft_bls bft) msg;
               prepareMsg = NewBFTMsg MessageType_PREPARE block (sigSerialize L signedMsg) bitmap;
               bft = bft\<lparr>bft_blockchain := chain, bft_currentBlock := Some block, bft_prepareBitmap := Some bitmap,
                 bft_aggregatePrepareSig := Some signedMsg, bft_phase := Switch (bft_phase bft) (Height block) BFT_PREPARE\<rparr>
           in Ok (send bft prepareMsg ConsensusValidator))"

definition BftPrecommit :: "('sec, 'pub, 'sig) blsLib \<Rightarrow> ('sec, 'pub, 'sig, 'c) BFTProtocol \<Rightarrow>
    (unit, ('sec, 'pub, 'sig, 'c) BFTProtocol) res" where
  "BftPrecommit L bft =
     (case (bft_currentBlock bft, bft_aggregatePrepareSig bft, bft_prepareBitmap bft, ownBitmap (bft_config bft)) of
        (Some block, Some sig, Some prepareBitmap, Some bitmap) \<Rightarrow>
          let bft = bft\<lparr>bft_phase := Switch (bft_phase bft) (Height block) BFT_PRECOMMIT\<rparr>;
              precommitMsg = NewBFTMsg MessageType_PRECOMMIT block (sigSerialize L sig) prepareBitmap;
              bft = send bft precommitMsg ConsensusValidator
          in Ok (bft\<lparr>bft_precommitBitmap := Some bitmap, bft_aggregatePrecommitSig := Some (blsSign L (bft_bls bft) (Hash block))\<rparr>)
      | _ \<Rightarrow> Panic)"

text \<open>The commit message holds the block before its signature is filled in.\<close>

definition BftCommit :: "('sec, 'pub, 'sig) blsLib \<Rightarrow> 'c chainOps \<Rightarrow> ('sec, 'pub, 'sig, 'c) BFTProtocol \<Rightarrow>
    (unit, ('sec, 'pub, 'sig, 'c) BFTProtocol) res" where
  "BftCommit L ops bft =
     (case (bft_currentBlock bft, bft_aggregatePrecommitSig bft, bft_precommitBitmap bft, ownBitmap (bft_config bft)) of
        (Some block, Some sig, Some precommitBitmap, Some bitmap) \<Rightarrow>
          let bft = bft\<lparr>bft_phase := Switch (bft_phase bft) (Height block) BFT_COMMIT\<rparr>;
              commitMsg = NewBFTMsg MessageType_COMMIT block (sigSerialize L sig) precommitBitmap;
              bft = send bft commitMsg ConsensusValidator;
              msg = Hash block @ [messageTypeByte MessageType_COMMIT];
              block = block\<lparr>Signature := sigSerialize L sig, SignBitMap := BitmapCopy precommitBitmap\<rparr>;
              bft = bft\<lparr>bft_commitBitmap := Some bitmap, bft_aggregateCommitSig := Some (blsSign L (bft_bls bft) msg),
                bft_currentBlock := Some block\<rparr>
          in rbind (co_Commit ops (bft_blockchain bft) block) (\<lambda>chain.
               case co_LatestBlock ops chain of
                 None \<Rightarrow> Panic
               | Some latest \<Rightarrow> Ok (bft\<lparr>bft_blockchain := chain, bft_latestCommittedBlockHash := Hash latest\<rparr>))
      | _ \<Rightarrow> Panic)"

text \<open>
  What the three vote handlers do with a vote: the signature is checked under the key of the first signer in the
  vote's bitmap, the bitmap is merged and the signature added. \<open>Inl\<close>: the handler returns with this error, if any.
\<close>

definition countVote :: "('sec, 'pub, 'sig) blsLib \<Rightarrow> ('sec, 'pub, 'sig, 'c) BFTProtocol \<Rightarrow> bytes \<Rightarrow> Bitmap \<Rightarrow> 'sig option \<Rightarrow>
    BFTMessage \<Rightarrow> (unit, bftErr option + Bitmap \<times> 'sig) res" where
  "countVote L bft msg bitmap sig m =
     (case GetElement (SenderPubkeyBitmap m) of
        [] \<Rightarrow> Panic
      | key # _ \<Rightarrow>
          let signer = key2NodeId (bft_config bft) key in
          if \<not> VerifySign L (bft_bls bft) (SenderSig m) msg signer (cfg_ShardId (bft_config bft)) then Ok (Inl (Some WrongSignature))
          else
            (case Merge bitmap (SenderPubkeyBitmap m) of
               (bitmap, newSigners) \<Rightarrow>
                 if length newSigners = 0 then Ok (Inl None)
                 else
                   (case sig of
                      None \<Rightarrow> Panic
                    | Some s \<Rightarrow> Ok (Inr (bitmap, sigAdd L s (sigDeserialize L (SenderSig m)))))))"

definition OnPrepareVoteMsg :: "('sec, 'pub, 'sig) blsLib \<Rightarrow> ('sec, 'pub, 'sig, 'c) BFTProtocol \<Rightarrow> BFTMessage \<Rightarrow>
    (unit, bftErr option \<times> ('sec, 'pub, 'sig, 'c) BFTProtocol) res" where
  "OnPrepareVoteMsg L bft m =
     (case bft_currentBlock bft of
        None \<Rightarrow> Ok (Some NoCurrentBlock, bft)
      | Some block \<Rightarrow>
          if IsOut (bft_phase bft) \<lparr>ph_height = BlockNum m, ph_bftPhase = BFT_PREPARE\<rparr> then Ok (None, bft)
          else if msgBlockHash m \<noteq> Hash block then Ok (Some OtherBlock, bft)
          else
            (case bft_prepareBitmap bft of
               None \<Rightarrow> Panic
             | Some bitmap \<Rightarrow>
                 if GetSize bitmap \<ge> cfg_ConsensusThreshold (bft_config bft) then Ok (None, bft)
                 else
                   rbind (countVote L bft (msgBlockHash m @ [messageTypeByte MessageType_PREPARE]) bitmap (bft_aggregatePrepareSig bft) m) (\<lambda>r.
                     case r of
                       Inl e \<Rightarrow> Ok (e, bft)
                     | Inr (bitmap, sig) \<Rightarrow>
                         let bft = bft\<lparr>bft_prepareBitmap := Some bitmap, bft_aggregatePrepareSig := Some sig\<rparr> in
                         if GetSize bitmap \<ge> cfg_ConsensusThreshold (bft_config bft) then rmap (Pair None) (BftPrecommit L bft)
                         else Ok (None, bft))))"

definition OnPrecommitVoteMsg :: "('sec, 'pub, 'sig) blsLib \<Rightarrow> 'c chainOps \<Rightarrow> ('sec, 'pub, 'sig, 'c) BFTProtocol \<Rightarrow> BFTMessage \<Rightarrow>
    (unit, bftErr option \<times> ('sec, 'pub, 'sig, 'c) BFTProtocol) res" where
  "OnPrecommitVoteMsg L ops bft m =
     (case bft_currentBlock bft of
        None \<Rightarrow> Ok (Some NoCurrentBlock, bft)
      | Some block \<Rightarrow>
          if IsOut (bft_phase bft) \<lparr>ph_height = BlockNum m, ph_bftPhase = BFT_PRECOMMIT\<rparr> then Ok (None, bft)
          else if msgBlockHash m \<noteq> Hash block then Ok (Some OtherBlock, bft)
          else
            (case bft_precommitBitmap bft of
               None \<Rightarrow> Panic
             | Some bitmap \<Rightarrow>
                 if GetSize bitmap \<ge> cfg_ConsensusThreshold (bft_config bft) then Ok (None, bft)
                 else
                   rbind (countVote L bft (msgBlockHash m) bitmap (bft_aggregatePrecommitSig bft) m) (\<lambda>r.
                     case r of
                       Inl e \<Rightarrow> Ok (e, bft)
                     | Inr (bitmap, sig) \<Rightarrow>
                         let bft = bft\<lparr>bft_precommitBitmap := Some bitmap, bft_aggregatePrecommitSig := Some sig\<rparr> in
                         if GetSize bitmap \<ge> cfg_ConsensusThreshold (bft_config bft) then rmap (Pair None) (BftCommit L ops bft)
                         else Ok (None, bft))))"

definition OnCommitVoteMsg :: "('sec, 'pub, 'sig) blsLib \<Rightarrow> 'c chainOps \<Rightarrow> ('sec, 'pub, 'sig, 'c) BFTProtocol \<Rightarrow> BFTMessage \<Rightarrow>
    (unit, bftErr option \<times> ('sec, 'pub, 'sig, 'c) BFTProtocol) res" where
  "OnCommitVoteMsg L ops bft m =
     (case bft_currentBlock bft of
        None \<Rightarrow> Ok (Some NoCurrentBlock, bft)
      | Some block \<Rightarrow>
          if IsOut (bft_phase bft) \<lparr>ph_height = BlockNum m, ph_bftPhase = BFT_COMMIT\<rparr> then Ok (None, bft)
          else if msgBlockHash m \<noteq> Hash block then Ok (Some OtherBlock, bft)
          else
            (case bft_commitBitmap bft of
               None \<Rightarrow> Panic
             | Some bitmap \<Rightarrow>
                 if GetSize bitmap \<ge> cfg_ConsensusThreshold (bft_config bft) then Ok (None, bft)
                 else
                   rbind (countVote L bft (Hash block @ [messageTypeByte MessageType_COMMIT]) bitmap (bft_aggregateCommitSig bft) m) (\<lambda>r.
                     case r of
                       Inl e \<Rightarrow> Ok (e, bft)
                     | Inr (bitmap, sig) \<Rightarrow>
                         let bft = bft\<lparr>bft_commitBitmap := Some bitmap, bft_aggregateCommitSig := Some sig\<rparr> in
                         if GetSize bitmap \<ge> cfg_ConsensusThreshold (bft_config bft) then rmap (Pair None) (BftPrepare L ops bft)
                         else Ok (None, bft))))"

section \<open>Validators\<close>

text \<open>The first guards of the three handlers; \<open>Some\<close> is the error they return.\<close>

definition skipped :: "('sec, 'pub, 'sig, 'c) BFTProtocol \<Rightarrow> BFTMessage \<Rightarrow> bftErr option" where
  "skipped bft m =
     (case bft_currentBlock bft of
        None \<Rightarrow> if BlockNum m > 0 then Some SkipGenesis else None
      | Some block \<Rightarrow>
          if BlockNum m > Height block \<and>
             (PrevBlockHash (msgBlock m) \<noteq> bft_latestCommittedBlockHash bft \<or> BlockNum m \<noteq> Height block + 1)
          then Some SkipBlocks else None)"

definition OnPrepareMsg :: "('sec, 'pub, 'sig) blsLib \<Rightarrow> 'c chainOps \<Rightarrow> ('sec, 'pub, 'sig, 'c) BFTProtocol \<Rightarrow> BFTMessage \<Rightarrow>
    (unit, bftErr option \<times> ('sec, 'pub, 'sig, 'c) BFTProtocol) res" where
  "OnPrepareMsg L ops bft m =
     (if \<not> IsNew (bft_phase bft) \<lparr>ph_height = BlockNum m, ph_bftPhase = BFT_PREPARE\<rparr> then Ok (None, bft)
      else
        (case skipped bft m of
           Some e \<Rightarrow> Ok (Some e, bft)
         | None \<Rightarrow>
             (case GetElement (SenderPubkeyBitmap m) of
                [] \<Rightarrow> Panic
              | key # _ \<Rightarrow>
                  let msg = msgBlockHash m @ [messageTypeByte MessageType_PREPARE];
                      signer = key2NodeId (bft_config bft) key in
                  if \<not> VerifySign L (bft_bls bft) (SenderSig m) msg signer (cfg_ShardId (bft_config bft)) then Ok (Some WrongSignature, bft)
                  else
                    rbind (co_CheckBlock ops (bft_blockchain bft) (msgBlock m)) (\<lambda>(err, chain).
                      let bft = bft\<lparr>bft_blockchain := chain\<rparr> in
                      case err of
                        Some e \<Rightarrow> Ok (Some (CheckFailed e), bft)
                      | None \<Rightarrow>
                          let bft = bft\<lparr>bft_currentBlock := Some (msgBlock m)\<rparr>;
                              block = headerOnly (msgBlock m) in
                          (case ownBitmap (bft_config bft) of
                             None \<Rightarrow> Panic
                           | Some bitmap \<Rightarrow>
                               let signedMsg = blsSign L (bft_bls bft) msg;
                                   vote = NewBFTMsg MessageType_PREPAREVOTE block (sigSerialize L signedMsg) bitmap;
                                   bft = send (bft\<lparr>bft_phase := Switch (bft_phase bft) (Height (msgBlock m)) BFT_PREPARE\<rparr>) vote ConsensusLeader
                               in Ok (None, bft\<lparr>
                                    bft_aggregatePrepareSig := Some (sigAdd L (sigDeserialize L (SenderSig m)) signedMsg),
                                    bft_prepareBitmap := Some (fst (Merge (BitmapCopy bitmap) (SenderPubkeyBitmap m)))\<rparr>))))))"

definition OnPrecommitMsg :: "('sec, 'pub, 'sig) blsLib \<Rightarrow> ('sec, 'pub, 'sig, 'c) BFTProtocol \<Rightarrow> BFTMessage \<Rightarrow>
    (unit, bftErr option \<times> ('sec, 'pub, 'sig, 'c) BFTProtocol) res" where
  "OnPrecommitMsg L bft m =
     (if \<not> IsNew (bft_phase bft) \<lparr>ph_height = BlockNum m, ph_bftPhase = BFT_PRECOMMIT\<rparr> then Ok (None, bft)
      else
        (case skipped bft m of
           Some e \<Rightarrow> Ok (Some e, bft)
         | None \<Rightarrow>
             (case bft_currentBlock bft of
                None \<Rightarrow> Panic
              | Some current \<Rightarrow>
                  if msgBlockHash m \<noteq> Hash current then Ok (Some ForkOccurred, bft)
                  else if GetSize (SenderPubkeyBitmap m) < cfg_ConsensusThreshold (bft_config bft) then Ok (Some NotEnoughSignatures, bft)
                  else if \<not> VerifyAggregateSig L (bft_bls bft) (SenderSig m) (Hash current @ [messageTypeByte MessageType_PREPARE])
                         (SenderPubkeyBitmap m) (cfg_ShardId (bft_config bft)) (bftKeyOffset (bft_config bft))
                  then Ok (Some WrongSignature, bft)
                  else
                    let bft = bft\<lparr>bft_aggregatePrepareSig := Some (sigDeserialize L (SenderSig m)),
                          bft_prepareBitmap := Some (SenderPubkeyBitmap m)\<rparr>;
                        block = headerOnly (msgBlock m) in
                    (case ownBitmap (bft_config bft) of
                       None \<Rightarrow> Panic
                     | Some bitmap \<Rightarrow>
                         let signedMsg = blsSign L (bft_bls bft) (Hash current);
                             vote = NewBFTMsg MessageType_PRECOMMITVOTE block (sigSerialize L signedMsg) bitmap;
                             bft = bft\<lparr>bft_precommitBitmap := Some bitmap, bft_aggregatePrecommitSig := Some signedMsg,
                               bft_phase := Switch (bft_phase bft) (Height current) BFT_PRECOMMIT\<rparr>
                         in Ok (None, send bft vote ConsensusLeader)))))"

definition OnCommitMsg :: "('sec, 'pub, 'sig) blsLib \<Rightarrow> 'c chainOps \<Rightarrow> ('sec, 'pub, 'sig, 'c) BFTProtocol \<Rightarrow> BFTMessage \<Rightarrow>
    (unit, bftErr option \<times> ('sec, 'pub, 'sig, 'c) BFTProtocol) res" where
  "OnCommitMsg L ops bft m =
     (if \<not> IsNew (bft_phase bft) \<lparr>ph_height = BlockNum m, ph_bftPhase = BFT_COMMIT\<rparr> then Ok (None, bft)
      else
        (case skipped bft m of
           Some e \<Rightarrow> Ok (Some e, bft)
         | None \<Rightarrow>
             (case bft_currentBlock bft of
                None \<Rightarrow> Panic
              | Some current \<Rightarrow>
                  if msgBlockHash m \<noteq> Hash current then Ok (Some ForkOccurred, bft)
                  else if GetSize (SenderPubkeyBitmap m) < cfg_ConsensusThreshold (bft_config bft) then Ok (Some NotEnoughSignatures, bft)
                  else if \<not> VerifyAggregateSig L (bft_bls bft) (SenderSig m) (Hash current)
                         (SenderPubkeyBitmap m) (cfg_ShardId (bft_config bft)) (bftKeyOffset (bft_config bft))
                  then Ok (Some WrongSignature, bft)
                  else
                    let sig = sigDeserialize L (SenderSig m);
                        block = headerOnly (msgBlock m) in
                    (case ownBitmap (bft_config bft) of
                       None \<Rightarrow> Panic
                     | Some bitmap \<Rightarrow>
                         let signedMsg = blsSign L (bft_bls bft) (Hash current @ [messageTypeByte MessageType_COMMIT]);
                             vote = NewBFTMsg MessageType_COMMITVOTE block (sigSerialize L signedMsg) bitmap;
                             current = current\<lparr>Signature := sigSerialize L sig, SignBitMap := BitmapCopy (SenderPubkeyBitmap m)\<rparr>;
                             bft = bft\<lparr>bft_aggregatePrecommitSig := Some sig, bft_precommitBitmap := Some (SenderPubkeyBitmap m),
                               bft_commitBitmap := Some bitmap, bft_aggregateCommitSig := Some signedMsg,
                               bft_phase := Switch (bft_phase bft) (Height current) BFT_COMMIT\<rparr>;
                             bft = (send bft vote ConsensusLeader)\<lparr>bft_currentBlock := Some current\<rparr>
                         in rbind (co_Commit ops (bft_blockchain bft) current) (\<lambda>chain.
                              case co_LatestBlock ops chain of
                                None \<Rightarrow> Panic
                              | Some latest \<Rightarrow> Ok (None, bft\<lparr>bft_blockchain := chain, bft_latestCommittedBlockHash := Hash latest\<rparr>))))))"

section \<open>Messages\<close>

text \<open>One message of the queue; errors are logged. A payload of another type fails the type assertion.\<close>

definition HandleBFTMsg :: "('sec, 'pub, 'sig) blsLib \<Rightarrow> 'c chainOps \<Rightarrow> ('sec, 'pub, 'sig, 'c) BFTProtocol \<Rightarrow> payload option \<Rightarrow>
    (unit, bftErr option \<times> ('sec, 'pub, 'sig, 'c) BFTProtocol) res" where
  "HandleBFTMsg L ops bft dat =
     (case dat of
        Some (PBFT m) \<Rightarrow>
          if cfg_IsLeader (bft_config bft) then
            (case msgType m of
               MessageType_PREPAREVOTE \<Rightarrow> OnPrepareVoteMsg L bft m
             | MessageType_PRECOMMITVOTE \<Rightarrow> OnPrecommitVoteMsg L ops bft m
             | MessageType_COMMITVOTE \<Rightarrow> OnCommitVoteMsg L ops bft m
             | _ \<Rightarrow> Ok (None, bft))
          else
            (case msgType m of
               MessageType_PREPARE \<Rightarrow> OnPrepareMsg L ops bft m
             | MessageType_PRECOMMIT \<Rightarrow> OnPrecommitMsg L bft m
             | MessageType_COMMIT \<Rightarrow> OnCommitMsg L ops bft m
             | _ \<Rightarrow> Ok (None, bft))
      | _ \<Rightarrow> Panic)"

text \<open>The loop \<open>for data := range bft.bftMsgQueue\<close>.\<close>

primrec HandleBFTMsgs :: "('sec, 'pub, 'sig) blsLib \<Rightarrow> 'c chainOps \<Rightarrow> ('sec, 'pub, 'sig, 'c) BFTProtocol \<Rightarrow> BFTMessage list \<Rightarrow>
    (unit, ('sec, 'pub, 'sig, 'c) BFTProtocol) res" where
  "HandleBFTMsgs L ops bft [] = Ok bft"
| "HandleBFTMsgs L ops bft (m # ms) = rbind (HandleBFTMsg L ops bft (Some (PBFT m))) (\<lambda>(_, bft). HandleBFTMsgs L ops bft ms)"

definition BftStart :: "('sec, 'pub, 'sig) blsLib \<Rightarrow> 'c chainOps \<Rightarrow> ('sec, 'pub, 'sig, 'c) BFTProtocol \<Rightarrow>
    (unit, ('sec, 'pub, 'sig, 'c) BFTProtocol) res" where
  "BftStart L ops bft =
     (let bft = (case co_LatestBlock ops (bft_blockchain bft) of
                   Some b \<Rightarrow> bft\<lparr>bft_currentBlock := Some b, bft_latestCommittedBlockHash := Hash b\<rparr>
                 | None \<Rightarrow> bft)
      in if cfg_IsLeader (bft_config bft) then BftPrepare L ops bft else Ok bft)"

end
