(* ===== verification/Quorum.thy ===== *)
theory Quorum
  imports Consensus
begin

text \<open>
  Runs of a node. The locale \<open>chain_interface\<close> states what the consensus needs of the block store; the steps of a
  node are \<open>nodeStep\<close>, the handlers on messages of the consensus, headers and chunks. A block enters the chain of a node only with
  a signature of the nodes that its bitmap names and whose keys are known, and with enough bits in the bitmap
  (\<open>committed_blocks_certified\<close>); bits without a key count too (\<open>one_signer_committed\<close>). The theory ends with a
  concrete shard, on which the properties of the consensus are run.
\<close>

section \<open>The chain as the consensus sees it\<close>

text \<open>Blocks are filed under their height by \<open>Commit\<close> and by no other operation.\<close>

locale chain_interface =
  fixes ops :: "'c chainOps" and blocks :: "'c \<Rightarrow> u32 \<rightharpoonup> Block"
  assumes create_blocks: "co_CreateNewBlock ops c = Ok (b, c') \<Longrightarrow> blocks c' = blocks c"
    and check_blocks: "co_CheckBlock ops c b = Ok (e, c') \<Longrightarrow> blocks c' = blocks c"
    and commit_blocks: "co_Commit ops c b = Ok c' \<Longrightarrow> blocks c' = (blocks c)(Height b \<mapsto> b)"

lemma rbind_OkE: "rbind m f = Ok y \<Longrightarrow> (\<And>x. m = Ok x \<Longrightarrow> f x = Ok y \<Longrightarrow> P) \<Longrightarrow> P"
  by (cases m) auto

lemma Genesis_BlockDB: "Genesis N now chain = Ok (b, chain') \<Longrightarrow> bc_BlockDB chain' = bc_BlockDB chain"
  by (auto simp: Genesis_def Let_def split: option.splits prod.splits)

lemma packBlock_BlockDB: "packBlock N now latest chain txs chunks = Ok (b, chain') \<Longrightarrow> bc_BlockDB chain' = bc_BlockDB chain"
  by (auto simp: packBlock_def Let_def res_simps split: option.splits prod.splits)

lemma CreateNewBlock_BlockDB: "CreateNewBlock N now draws chain = Ok (b, chain') \<Longrightarrow> bc_BlockDB chain' = bc_BlockDB chain"
  by (auto simp: CreateNewBlock_def Let_def split: option.splits prod.splits dest!: Genesis_BlockDB packBlock_BlockDB)

lemma RollBack_BlockDB [simp]: "bc_BlockDB (snd (RollBack N chain h)) = bc_BlockDB chain"
  by (simp add: RollBack_def split: sum.splits)

lemma checkRoots_BlockDB: "checkRoots N chain block s = Ok (e, chain') \<Longrightarrow> bc_BlockDB chain' = bc_BlockDB chain"
  by (auto simp: checkRoots_def Let_def split: option.splits prod.splits if_splits)

lemma checkBody_BlockDB: "checkBody N chain block = Ok (e, chain') \<Longrightarrow> bc_BlockDB chain' = bc_BlockDB chain"
  by (auto simp: checkBody_def Let_def res_simps split: option.splits prod.splits if_splits dest!: checkRoots_BlockDB)

lemma CheckBlock_BlockDB: "CheckBlock N chain block = Ok (e, chain') \<Longrightarrow> bc_BlockDB chain' = bc_BlockDB chain"
  by (auto simp: CheckBlock_def res_simps split: option.splits prod.splits dest!: checkBody_BlockDB)

lemma ExecuteBlock_BlockDB: "ExecuteBlock N chain block = Ok chain' \<Longrightarrow> bc_BlockDB chain' = bc_BlockDB chain"
  by (auto simp: ExecuteBlock_def Let_def elim!: rbind_OkE split: option.split_asm prod.split_asm if_split_asm)

lemma sendChunks_BlockDB [simp]: "bc_BlockDB (sendChunks chain chunks) = bc_BlockDB chain"
proof -
  have "bc_BlockDB (foldl (\<lambda>chain (i, c). if of_nat i + 1001 = cfg_ShardId (bc_config chain) then chain
      else if length (Txs c) > 0 then gossip chain (of_nat i + 1001) OutboundChunkGossip (PChunk c) else chain) chain ics) = bc_BlockDB chain" for ics
    by (induction ics arbitrary: chain) (auto simp: gossip_def)
  then show ?thesis by (simp add: sendChunks_def)
qed

lemma ChainCommit_BlockDB:
  assumes "ChainCommit N chain block = Ok chain'"
  shows "bc_BlockDB chain' = (bc_BlockDB chain)(Height block \<mapsto> block)"
proof -
  let ?c = "chain\<lparr>bc_LatestBlock := Some block, bc_BlockDB := (bc_BlockDB chain)(Height block \<mapsto> block)\<rparr>"
  obtain c1 where c1: "(case RollBack N ?c (StateRoot block) of (True, c) \<Rightarrow> Ok c | (False, c) \<Rightarrow> ExecuteBlock N c block) = Ok c1"
    using assms by (auto simp: ChainCommit_def Let_def res_simps)
  obtain ok c where r: "RollBack N ?c (StateRoot block) = (ok, c)" by (cases "RollBack N ?c (StateRoot block)")
  have "bc_BlockDB c = bc_BlockDB ?c" using RollBack_BlockDB [of N ?c "StateRoot block"] unfolding r by simp
  then have "bc_BlockDB c1 = bc_BlockDB ?c" using c1 unfolding r by (cases ok) (auto dest!: ExecuteBlock_BlockDB)
  moreover have "bc_BlockDB chain' = bc_BlockDB c1"
    using assms c1 by (auto simp: ChainCommit_def Let_def res_simps gossip_def)
  ultimately show ?thesis by simp
qed

interpretation node_chain: chain_interface "nodeChain N now draws" bc_BlockDB for N now draws
  by unfold_locales (auto simp: nodeChain_def dest: CreateNewBlock_BlockDB CheckBlock_BlockDB ChainCommit_BlockDB)

section \<open>Certificates\<close>

text \<open>
  The signers that a bitmap names and whose key the node holds, as bitmap keys, and the sum of their keys. A bit without a key adds nothing
  to the aggregate key, but \<open>GetSize\<close> counts it; in a keyed bitmap there is none. The bound on its length keeps
  the 32-bit keys different.
\<close>

definition signers :: "('sec, 'pub) BLS \<Rightarrow> Config \<Rightarrow> Bitmap \<Rightarrow> u32 list" where
  "signers b config bitmap = filter (\<lambda>k. GetPubKey (PubKeys b) (cfg_ShardId config) (k + bftKeyOffset config) \<noteq> None) (GetElement bitmap)"

definition keySum :: "('sec, 'pub, 'sig) blsLib \<Rightarrow> ('sec, 'pub) BLS \<Rightarrow> Config \<Rightarrow> u32 list \<Rightarrow> 'pub" where
  "keySum L b config ks =
     foldl (pubAdd L) (pubZero L) (map (\<lambda>k. the (GetPubKey (PubKeys b) (cfg_ShardId config) (k + bftKeyOffset config))) ks)"

definition keyed :: "('sec, 'pub) BLS \<Rightarrow> Config \<Rightarrow> Bitmap \<Rightarrow> bool" where
  "keyed b config bitmap \<longleftrightarrow> length bitmap \<le> 2 ^ 28 \<and>
     (\<forall>k\<in>set (GetElement bitmap). GetPubKey (PubKeys b) (cfg_ShardId config) (k + bftKeyOffset config) \<noteq> None)"

text \<open>What the guards of the handlers establish of a block that is committed.\<close>

definition certified :: "('sec, 'pub, 'sig) blsLib \<Rightarrow> ('sec, 'pub) BLS \<Rightarrow> Config \<Rightarrow> Block \<Rightarrow> bool" where
  "certified L b config block \<longleftrightarrow>
     VerifyAggregateSig L b (Signature block) (Hash block) (SignBitMap block) (cfg_ShardId config) (bftKeyOffset config) \<and>
     cfg_ConsensusThreshold config \<le> GetSize (SignBitMap block) \<and>
     (cfg_IsLeader config \<longrightarrow> keyed b config (SignBitMap block))"

lemma foldl_known:
  "foldl (\<lambda>acc i. case p (i + x) of Some pbk \<Rightarrow> f acc pbk | None \<Rightarrow> acc) z is =
     foldl f z (map (\<lambda>i. the (p (i + x))) (filter (\<lambda>i. p (i + x) \<noteq> None) is))"
  by (induction "is" arbitrary: z) (auto split: option.splits)

lemma aggregate_keySum:
  assumes "blsOk L" "VerifyAggregateSig L b sig msg bitmap (cfg_ShardId config) (bftKeyOffset config)"
  shows "VerifyByte L (sigDeserialize L sig) (Some (keySum L b config (signers b config bitmap))) msg"
proof (cases "PubKeys b (cfg_ShardId config)")
  case None
  then show ?thesis using assms(2) blsOkD(3) [OF assms(1)] by (simp add: VerifyAggregateSig_def GetAggregatePubKey_def)
next
  case (Some d)
  have "dbAggregate L d bitmap (bftKeyOffset config) = keySum L b config (signers b config bitmap)"
    using Some by (simp add: dbAggregate_def keySum_def signers_def GetPubKey_def dbGetPubKey_def foldl_known)
  then show ?thesis using assms(2) Some by (simp add: VerifyAggregateSig_def GetAggregatePubKey_def)
qed

lemma keyed_signers:
  assumes "keyed b config bitmap"
  shows "unat (GetSize bitmap) \<le> card (set (signers b config bitmap))"
proof -
  have len: "length bitmap \<le> 2 ^ 28" and "signers b config bitmap = GetElement bitmap"
    using assms by (simp_all add: keyed_def signers_def)
  then show ?thesis
    using card_image_le [of "set (GetElement bitmap)" unat] unat_GetSize [OF len] set_GetElement [OF len] by simp
qed

lemma keyed_keys:
  "keyed b config bitmap \<longleftrightarrow> length bitmap \<le> 2 ^ 28 \<and>
     (\<forall>k\<in>keys bitmap. GetPubKey (PubKeys b) (cfg_ShardId config) (of_nat k + bftKeyOffset config) \<noteq> None)"
  by (simp add: keyed_def GetElement_keyList set_keyList)

text \<open>The laws of the BLS library, a shard of fewer than \<open>2 ^ 31\<close> nodes, and a node whose key is in its own store.\<close>

definition nodeReady :: "('sec, 'pub, 'sig) blsLib \<Rightarrow> ('sec, 'pub) BLS \<Rightarrow> Config \<Rightarrow> bool" where
  "nodeReady L b config \<longleftrightarrow> blsOk L \<and> unat (cfg_NodeNumPerShard config) < 2 ^ 31 - 7 \<and>
     GetPubKey (PubKeys b) (cfg_ShardId config) (cfg_NodeId config) = Some (GetPublicKey L (kp_Sec (KeyPair b)))"

definition singleVote :: "BFTMessage \<Rightarrow> bool" where
  "singleVote m \<longleftrightarrow> length (GetElement (SenderPubkeyBitmap m)) = 1"

lemma key2NodeId_offset: "key2NodeId config key = key + bftKeyOffset config"
  by (simp add: key2NodeId_def bftKeyOffset_def add.assoc)

lemma key2NodeId_nodeId2Key: "key2NodeId config (nodeId2Key config) = cfg_NodeId config"
  by (simp add: key2NodeId_def nodeId2Key_def)

lemma length_ready: "unat n < 2 ^ 31 - 7 \<Longrightarrow> length (NewBitmap n) \<le> 2 ^ 28"
proof -
  assume n: "unat n < 2 ^ 31 - 7"
  have "unat (n + 7) = unat n + 7" using n by (simp add: unat_word_ariths)
  then show ?thesis using n by (simp add: NewBitmap_def unat_div)
qed

lemma ownBitmap_aggregate:
  assumes "nodeReady L b config" "ownBitmap config = Some bitmap"
  shows "length bitmap = length (NewBitmap (cfg_NodeNumPerShard config))"
    and "aggregateOf L b (cfg_ShardId config) (bftKeyOffset config) msg bitmap (blsSign L b msg)"
    and "keyed b config bitmap"
proof -
  have ok: "blsOk L" and n: "unat (cfg_NodeNumPerShard config) < 2 ^ 31 - 7" using assms(1) by (simp_all add: nodeReady_def)
  have k: "length bitmap = length (NewBitmap (cfg_NodeNumPerShard config))" "keys bitmap = {unat (nodeId2Key config)}"
    using SetKey_spec [OF assms(2) [unfolded ownBitmap_def]] by simp_all
  show "length bitmap = length (NewBitmap (cfg_NodeNumPerShard config))" by (rule k(1))
  have id: "of_nat (unat (nodeId2Key config)) + bftKeyOffset config = cfg_NodeId config"
    using key2NodeId_nodeId2Key [of config] by (simp add: key2NodeId_offset)
  then show "keyed b config bitmap" using k length_ready [OF n] assms(1) by (simp add: keyed_keys nodeReady_def)
  show "aggregateOf L b (cfg_ShardId config) (bftKeyOffset config) msg bitmap (blsSign L b msg)"
    using id aggregate_single [OF ok k(2)] k(1) length_ready [OF n] assms(1) blsOkD(2) [OF ok]
    by (simp add: nodeReady_def blsSign_def)
qed

lemma countVote_spec:
  assumes "countVote L bft msg bitmap (Some sig) m = Ok (Inr (bitmap', sig'))" "blsOk L" "singleVote m" "length bitmap \<le> 2 ^ 28"
    and "aggregateOf L (bft_bls bft) (cfg_ShardId (bft_config bft)) (bftKeyOffset (bft_config bft)) msg bitmap sig"
  shows "length bitmap' = length bitmap"
    and "aggregateOf L (bft_bls bft) (cfg_ShardId (bft_config bft)) (bftKeyOffset (bft_config bft)) msg bitmap' sig'"
    and "keyed (bft_bls bft) (bft_config bft) bitmap \<Longrightarrow> keyed (bft_bls bft) (bft_config bft) bitmap'"
proof -
  let ?x = "SenderPubkeyBitmap m"
  obtain k where k: "keyList ?x = [k]"
    using assms(3) by (auto simp: singleVote_def GetElement_keyList length_Suc_conv)
  then have keys: "keys ?x = {k}" using set_keyList [of ?x] by simp
  have r: "VerifySign L (bft_bls bft) (SenderSig m) msg (of_nat k + bftKeyOffset (bft_config bft)) (cfg_ShardId (bft_config bft))"
      "snd (Merge bitmap ?x) \<noteq> []" "bitmap' = fst (Merge bitmap ?x)" "sig' = sigAdd L sig (sigDeserialize L (SenderSig m))"
    using assms(1) k by (auto simp: countVote_def GetElement_keyList key2NodeId_offset Let_def split: prod.splits if_splits)
  have len: "length bitmap = length ?x" using r(2) by (auto simp: Merge_def split: if_splits)
  then have "keys (map2 (\<lambda>c d. (c AND d) XOR d) bitmap ?x) \<noteq> {}"
    using r(2) set_keyList [of "map2 (\<lambda>c d. (c AND d) XOR d) bitmap ?x"] by (auto simp: Merge_new len GetElement_keyList)
  then have new: "k \<notin> keys bitmap" using keys_Merge_diff [OF len] keys by auto
  show "length bitmap' = length bitmap" using r(3) by simp
  show "aggregateOf L (bft_bls bft) (cfg_ShardId (bft_config bft)) (bftKeyOffset (bft_config bft)) msg bitmap' sig'"
    using aggregate_merge [OF assms(2,5) len _ keys new r(1)] assms(4) len r(3,4) by simp
  have known: "GetPubKey (PubKeys (bft_bls bft)) (cfg_ShardId (bft_config bft)) (of_nat k + bftKeyOffset (bft_config bft)) \<noteq> None"
    using r(1) blsOkD(3) [OF assms(2)] unfolding VerifySign_def by metis
  have "keys bitmap' = insert k (keys bitmap)" using keys_Merge [of bitmap ?x] len keys r(3) by auto
  then show "keyed (bft_bls bft) (bft_config bft) bitmap'" if "keyed (bft_bls bft) (bft_config bft) bitmap"
    using that known r(3) by (simp add: keyed_keys)
qed

text \<open>
  At most one of the three collections of a leader is incomplete, and while it is that of the precommit phase, it
  is the aggregate for the current block.
\<close>

definition isOpen :: "Config \<Rightarrow> Bitmap option \<Rightarrow> bool" where
  "isOpen config x \<longleftrightarrow> (case x of None \<Rightarrow> False | Some b \<Rightarrow> GetSize b < cfg_ConsensusThreshold config)"

definition collecting :: "('sec, 'pub, 'sig) blsLib \<Rightarrow> ('sec, 'pub, 'sig, 'c) BFTProtocol \<Rightarrow> bool" where
  "collecting L bft \<longleftrightarrow>
     (\<exists>b block sig. bft_precommitBitmap bft = Some b \<and> bft_currentBlock bft = Some block \<and> bft_aggregatePrecommitSig bft = Some sig \<and>
        length b = length (NewBitmap (cfg_NodeNumPerShard (bft_config bft))) \<and> keyed (bft_bls bft) (bft_config bft) b \<and>
        aggregateOf L (bft_bls bft) (cfg_ShardId (bft_config bft)) (bftKeyOffset (bft_config bft)) (Hash block) b sig)"

definition leaderInv :: "('sec, 'pub, 'sig) blsLib \<Rightarrow> ('sec, 'pub, 'sig, 'c) BFTProtocol \<Rightarrow> bool" where
  "leaderInv L bft \<longleftrightarrow>
     (isOpen (bft_config bft) (bft_prepareBitmap bft) \<longrightarrow>
        \<not> isOpen (bft_config bft) (bft_precommitBitmap bft) \<and> \<not> isOpen (bft_config bft) (bft_commitBitmap bft)) \<and>
     (isOpen (bft_config bft) (bft_precommitBitmap bft) \<longrightarrow> \<not> isOpen (bft_config bft) (bft_commitBitmap bft) \<and> collecting L bft)"

definition certInv :: "('sec, 'pub, 'sig) blsLib \<Rightarrow> ('c \<Rightarrow> u32 \<rightharpoonup> Block) \<Rightarrow> ('sec, 'pub, 'sig, 'c) BFTProtocol \<Rightarrow> bool" where
  "certInv L blocks bft \<longleftrightarrow>
     (\<forall>h block. blocks (bft_blockchain bft) h = Some block \<longrightarrow> certified L (bft_bls bft) (bft_config bft) block) \<and>
     (cfg_IsLeader (bft_config bft) \<longrightarrow> leaderInv L bft)"

definition sameNode :: "('sec, 'pub, 'sig, 'c) BFTProtocol \<Rightarrow> ('sec, 'pub, 'sig, 'c) BFTProtocol \<Rightarrow> bool" where
  "sameNode bft bft' \<longleftrightarrow> bft_bls bft' = bft_bls bft \<and> bft_config bft' = bft_config bft"

lemma sameNode_refl [simp]: "sameNode bft bft"
  by (simp add: sameNode_def)

context chain_interface
begin

lemma BftPrepare_cert:
  assumes "BftPrepare L ops bft = Ok bft'"
    and "\<forall>h block. blocks (bft_blockchain bft) h = Some block \<longrightarrow> certified L (bft_bls bft) (bft_config bft) block"
    and "\<not> isOpen (bft_config bft) (bft_precommitBitmap bft)" "\<not> isOpen (bft_config bft) (bft_commitBitmap bft)"
  shows "certInv L blocks bft' \<and> sameNode bft bft'"
  using assms(1)
proof (unfold BftPrepare_def, elim rbind_OkE)
  fix x assume x: "co_CreateNewBlock ops (bft_blockchain bft) = Ok x"
    and run: "(case x of (block, chain) \<Rightarrow> case ownBitmap (bft_config bft) of None \<Rightarrow> Panic
       | Some bitmap \<Rightarrow>
           let msg = Hash block @ [messageTypeByte MessageType_PREPARE];
               signedMsg = blsSign L (bft_bls bft) msg;
               prepareMsg = NewBFTMsg MessageType_PREPARE block (sigSerialize L signedMsg) bitmap;
               bft = bft\<lparr>bft_blockchain := chain, bft_currentBlock := Some block, bft_prepareBitmap := Some bitmap,
                 bft_aggregatePrepareSig := Some signedMsg, bft_phase := Switch (bft_phase bft) (Height block) BFT_PREPARE\<rparr>
           in Ok (send bft prepareMsg ConsensusValidator)) = Ok bft'"
  obtain block chain where bc: "x = (block, chain)" by (cases x)
  then have "blocks chain = blocks (bft_blockchain bft)" using create_blocks x by blast
  then show ?thesis using run bc assms(2-4)
    by (auto simp: Let_def send_def certInv_def leaderInv_def sameNode_def split: option.splits)
qed

lemma BftPrecommit_cert:
  assumes "BftPrecommit L bft = Ok bft'" "nodeReady L (bft_bls bft) (bft_config bft)"
    and "\<forall>h block. blocks (bft_blockchain bft) h = Some block \<longrightarrow> certified L (bft_bls bft) (bft_config bft) block"
    and "\<not> isOpen (bft_config bft) (bft_prepareBitmap bft)" "\<not> isOpen (bft_config bft) (bft_commitBitmap bft)"
  shows "certInv L blocks bft' \<and> sameNode bft bft'"
  using assms ownBitmap_aggregate [OF assms(2)]
  by (auto simp: BftPrecommit_def Let_def send_def certInv_def leaderInv_def sameNode_def collecting_def split: option.splits)

lemma BftCommit_cert:
  assumes "BftCommit L ops bft = Ok bft'" "blsOk L" "collecting L bft" "\<not> isOpen (bft_config bft) (bft_precommitBitmap bft)"
    and "\<forall>h block. blocks (bft_blockchain bft) h = Some block \<longrightarrow> certified L (bft_bls bft) (bft_config bft) block"
    and "\<not> isOpen (bft_config bft) (bft_prepareBitmap bft)"
  shows "certInv L blocks bft' \<and> sameNode bft bft'"
proof -
  obtain b block sig where c: "bft_precommitBitmap bft = Some b" "bft_currentBlock bft = Some block" "bft_aggregatePrecommitSig bft = Some sig"
      "aggregateOf L (bft_bls bft) (cfg_ShardId (bft_config bft)) (bftKeyOffset (bft_config bft)) (Hash block) b sig"
      "keyed (bft_bls bft) (bft_config bft) b"
    using assms(3) by (auto simp: collecting_def)
  let ?block = "block\<lparr>Signature := sigSerialize L sig, SignBitMap := b\<rparr>"
  have cert: "certified L (bft_bls bft) (bft_config bft) ?block"
    using aggregate_verifies [OF assms(2) c(4)] assms(4) c(1,5) by (simp add: certified_def isOpen_def not_less)
  obtain bitmap where bm: "ownBitmap (bft_config bft) = Some bitmap"
    using assms(1) c by (cases "ownBitmap (bft_config bft)") (auto simp: BftCommit_def)
  obtain chain latest where ch: "co_Commit ops (bft_blockchain bft) ?block = Ok chain" "co_LatestBlock ops chain = Some latest"
    using assms(1) c bm by (auto simp: BftCommit_def Let_def send_def res_simps split: option.splits)
  have "\<forall>h x. blocks chain h = Some x \<longrightarrow> certified L (bft_bls bft) (bft_config bft) x"
    using commit_blocks [OF ch(1)] cert assms(5) by simp
  then show ?thesis using assms(1,4,6) c bm ch
    by (auto simp: BftCommit_def Let_def send_def certInv_def leaderInv_def sameNode_def)
qed

lemma OnPrepareVoteMsg_cert:
  assumes "OnPrepareVoteMsg L bft m = Ok (e, bft')" "nodeReady L (bft_bls bft) (bft_config bft)"
    and "certInv L blocks bft" "cfg_IsLeader (bft_config bft)"
  shows "certInv L blocks bft' \<and> sameNode bft bft'"
proof (cases "bft' = bft")
  case True
  then show ?thesis using assms(3) by (simp add: sameNode_def)
next
  case False
  have inv: "\<forall>h block. blocks (bft_blockchain bft) h = Some block \<longrightarrow> certified L (bft_bls bft) (bft_config bft) block" "leaderInv L bft"
    using assms(3,4) by (simp_all add: certInv_def)
  obtain bitmap where o: "bft_prepareBitmap bft = Some bitmap" "isOpen (bft_config bft) (bft_prepareBitmap bft)"
    using assms(1) False by (auto simp: OnPrepareVoteMsg_def isOpen_def split: option.splits if_splits)
  obtain b sig where v: "(if GetSize b \<ge> cfg_ConsensusThreshold (bft_config bft)
      then rmap (Pair None) (BftPrecommit L (bft\<lparr>bft_prepareBitmap := Some b, bft_aggregatePrepareSig := Some sig\<rparr>))
      else Ok (None, bft\<lparr>bft_prepareBitmap := Some b, bft_aggregatePrepareSig := Some sig\<rparr>)) = Ok (e, bft')"
    using assms(1) False o by (auto simp: OnPrepareVoteMsg_def Let_def elim!: rbind_OkE split: option.splits if_splits sum.splits)
  have closed: "\<not> isOpen (bft_config bft) (bft_precommitBitmap bft)" "\<not> isOpen (bft_config bft) (bft_commitBitmap bft)"
    using inv(2) o(2) by (simp_all add: leaderInv_def)
  show ?thesis
  proof (cases "GetSize b \<ge> cfg_ConsensusThreshold (bft_config bft)")
    case True
    then have "BftPrecommit L (bft\<lparr>bft_prepareBitmap := Some b, bft_aggregatePrepareSig := Some sig\<rparr>) = Ok bft'"
      using v by (auto simp: res_simps)
    then show ?thesis using BftPrecommit_cert assms(2) inv(1) True closed(2) by (fastforce simp: isOpen_def sameNode_def)
  next
    case False
    then show ?thesis using v inv(1) closed by (auto simp: certInv_def leaderInv_def sameNode_def)
  qed
qed

lemma OnPrecommitVoteMsg_cert:
  assumes "OnPrecommitVoteMsg L ops bft m = Ok (e, bft')" "nodeReady L (bft_bls bft) (bft_config bft)"
    and "certInv L blocks bft" "cfg_IsLeader (bft_config bft)" "singleVote m"
  shows "certInv L blocks bft' \<and> sameNode bft bft'"
proof (cases "bft' = bft")
  case True
  then show ?thesis using assms(3) by (simp add: sameNode_def)
next
  case False
  have ok: "blsOk L" and n: "unat (cfg_NodeNumPerShard (bft_config bft)) < 2 ^ 31 - 7" using assms(2) by (simp_all add: nodeReady_def)
  have inv: "\<forall>h block. blocks (bft_blockchain bft) h = Some block \<longrightarrow> certified L (bft_bls bft) (bft_config bft) block" "leaderInv L bft"
    using assms(3,4) by (simp_all add: certInv_def)
  have o: "isOpen (bft_config bft) (bft_precommitBitmap bft)"
    using assms(1) False by (auto simp: OnPrecommitVoteMsg_def isOpen_def split: option.splits if_splits)
  have closed: "\<not> isOpen (bft_config bft) (bft_prepareBitmap bft)" "\<not> isOpen (bft_config bft) (bft_commitBitmap bft)" and col: "collecting L bft"
    using inv(2) o by (auto simp: leaderInv_def)
  obtain bitmap block sig where c: "bft_precommitBitmap bft = Some bitmap" "bft_currentBlock bft = Some block"
      "bft_aggregatePrecommitSig bft = Some sig" "length bitmap = length (NewBitmap (cfg_NodeNumPerShard (bft_config bft)))"
      "aggregateOf L (bft_bls bft) (cfg_ShardId (bft_config bft)) (bftKeyOffset (bft_config bft)) (Hash block) bitmap sig"
      "keyed (bft_bls bft) (bft_config bft) bitmap"
    using col by (auto simp: collecting_def)
  have h: "msgBlockHash m = Hash block"
    using assms(1) False c by (auto simp: OnPrecommitVoteMsg_def split: if_splits)
  obtain b s where cv: "countVote L bft (Hash block) bitmap (Some sig) m = Ok (Inr (b, s))"
    and v: "(if GetSize b \<ge> cfg_ConsensusThreshold (bft_config bft)
      then rmap (Pair None) (BftCommit L ops (bft\<lparr>bft_precommitBitmap := Some b, bft_aggregatePrecommitSig := Some s\<rparr>))
      else Ok (None, bft\<lparr>bft_precommitBitmap := Some b, bft_aggregatePrecommitSig := Some s\<rparr>)) = Ok (e, bft')"
    using assms(1) False c h by (auto simp: OnPrecommitVoteMsg_def Let_def elim!: rbind_OkE split: option.splits if_splits sum.splits)
  note agg = countVote_spec [OF cv ok assms(5) _ c(5)]
  have bl: "length bitmap \<le> 2 ^ 28" using c(4) length_ready [OF n] by simp
  have col': "collecting L (bft\<lparr>bft_precommitBitmap := Some b, bft_aggregatePrecommitSig := Some s\<rparr>)"
    using agg [OF bl] c(2,4,6) by (simp add: collecting_def)
  show ?thesis
  proof (cases "GetSize b \<ge> cfg_ConsensusThreshold (bft_config bft)")
    case True
    then have "BftCommit L ops (bft\<lparr>bft_precommitBitmap := Some b, bft_aggregatePrecommitSig := Some s\<rparr>) = Ok bft'"
      using v by (auto simp: res_simps)
    from BftCommit_cert [OF this ok col'] show ?thesis using inv(1) True closed(1) by (auto simp: isOpen_def sameNode_def)
  next
    case False
    then show ?thesis using v inv(1) closed col' by (auto simp: certInv_def leaderInv_def sameNode_def)
  qed
qed

lemma OnCommitVoteMsg_cert:
  assumes "OnCommitVoteMsg L ops bft m = Ok (e, bft')" "certInv L blocks bft" "cfg_IsLeader (bft_config bft)"
  shows "certInv L blocks bft' \<and> sameNode bft bft'"
proof (cases "bft' = bft")
  case True
  then show ?thesis using assms(2) by (simp add: sameNode_def)
next
  case False
  have inv: "\<forall>h block. blocks (bft_blockchain bft) h = Some block \<longrightarrow> certified L (bft_bls bft) (bft_config bft) block" "leaderInv L bft"
    using assms(2,3) by (simp_all add: certInv_def)
  have o: "isOpen (bft_config bft) (bft_commitBitmap bft)"
    using assms(1) False by (auto simp: OnCommitVoteMsg_def isOpen_def split: option.splits if_splits)
  have closed: "\<not> isOpen (bft_config bft) (bft_prepareBitmap bft)" "\<not> isOpen (bft_config bft) (bft_precommitBitmap bft)"
    using inv(2) o by (auto simp: leaderInv_def)
  obtain b sig where v: "(if GetSize b \<ge> cfg_ConsensusThreshold (bft_config bft)
      then rmap (Pair None) (BftPrepare L ops (bft\<lparr>bft_commitBitmap := Some b, bft_aggregateCommitSig := Some sig\<rparr>))
      else Ok (None, bft\<lparr>bft_commitBitmap := Some b, bft_aggregateCommitSig := Some sig\<rparr>)) = Ok (e, bft')"
    using assms(1) False by (auto simp: OnCommitVoteMsg_def Let_def elim!: rbind_OkE split: option.splits if_splits sum.splits)
  show ?thesis
  proof (cases "GetSize b \<ge> cfg_ConsensusThreshold (bft_config bft)")
    case True
    then have "BftPrepare L ops (bft\<lparr>bft_commitBitmap := Some b, bft_aggregateCommitSig := Some sig\<rparr>) = Ok bft'"
      using v by (auto simp: res_simps)
    from BftPrepare_cert [OF this] show ?thesis using inv(1) True closed(2) by (auto simp: isOpen_def sameNode_def)
  next
    case False
    then show ?thesis using v inv(1) closed by (auto simp: certInv_def leaderInv_def sameNode_def)
  qed
qed

lemma OnPrepareMsg_cert:
  assumes "OnPrepareMsg L ops bft m = Ok (e, bft')" "certInv L blocks bft" "\<not> cfg_IsLeader (bft_config bft)"
  shows "certInv L blocks bft' \<and> sameNode bft bft'"
proof -
  have inv: "\<forall>h block. blocks (bft_blockchain bft) h = Some block \<longrightarrow> certified L (bft_bls bft) (bft_config bft) block"
    using assms(2) by (simp add: certInv_def)
  have "bft_bls bft' = bft_bls bft \<and> bft_config bft' = bft_config bft \<and> blocks (bft_blockchain bft') = blocks (bft_blockchain bft)"
    using assms(1) by (auto simp: OnPrepareMsg_def Let_def send_def elim!: rbind_OkE
        split: option.split_asm list.split_asm if_split_asm prod.split_asm) (drule check_blocks, assumption)+
  then show ?thesis using inv assms(3) by (simp add: certInv_def sameNode_def)
qed

lemma OnPrecommitMsg_cert:
  assumes "OnPrecommitMsg L bft m = Ok (e, bft')" "certInv L blocks bft" "\<not> cfg_IsLeader (bft_config bft)"
  shows "certInv L blocks bft' \<and> sameNode bft bft'"
  using assms by (auto simp: OnPrecommitMsg_def certInv_def sameNode_def Let_def send_def split: option.split_asm if_split_asm)

lemma OnCommitMsg_cert:
  assumes "OnCommitMsg L ops bft m = Ok (e, bft')" "certInv L blocks bft" "\<not> cfg_IsLeader (bft_config bft)" "blsOk L"
  shows "certInv L blocks bft' \<and> sameNode bft bft'"
proof (cases "bft' = bft")
  case True
  then show ?thesis using assms(2) by (simp add: sameNode_def)
next
  case False
  have inv: "\<forall>h block. blocks (bft_blockchain bft) h = Some block \<longrightarrow> certified L (bft_bls bft) (bft_config bft) block"
    using assms(2) by (simp add: certInv_def)
  obtain current bitmap where c: "bft_currentBlock bft = Some current" "ownBitmap (bft_config bft) = Some bitmap"
      "cfg_ConsensusThreshold (bft_config bft) \<le> GetSize (SenderPubkeyBitmap m)"
      "VerifyAggregateSig L (bft_bls bft) (SenderSig m) (Hash current) (SenderPubkeyBitmap m) (cfg_ShardId (bft_config bft)) (bftKeyOffset (bft_config bft))"
    using assms(1) False by (auto simp: OnCommitMsg_def not_less Let_def split: option.splits if_splits)
  let ?block = "current\<lparr>Signature := sigSerialize L (sigDeserialize L (SenderSig m)), SignBitMap := SenderPubkeyBitmap m\<rparr>"
  have cert: "certified L (bft_bls bft) (bft_config bft) ?block"
    using c(3,4) assms(3) by (simp add: certified_def VerifyAggregateSig_def blsOkD(1) [OF assms(4)])
  have "bft_bls bft' = bft_bls bft \<and> bft_config bft' = bft_config bft \<and> co_Commit ops (bft_blockchain bft) ?block = Ok (bft_blockchain bft')"
    using assms(1) False c by (auto simp: OnCommitMsg_def Let_def send_def elim!: rbind_OkE split: option.split_asm if_split_asm)
  then show ?thesis using inv cert assms(3) by (auto simp: certInv_def sameNode_def commit_blocks split: if_split_asm)
qed

lemma HandleBFTMsg_cert:
  assumes "HandleBFTMsg L ops bft (Some (PBFT m)) = Ok (e, bft')" "nodeReady L (bft_bls bft) (bft_config bft)"
    and "certInv L blocks bft" "cfg_IsLeader (bft_config bft) \<Longrightarrow> msgType m = MessageType_PRECOMMITVOTE \<Longrightarrow> singleVote m"
  shows "certInv L blocks bft' \<and> sameNode bft bft'"
proof (cases "cfg_IsLeader (bft_config bft)")
  case True
  then show ?thesis
    using assms OnPrepareVoteMsg_cert [OF _ assms(2,3) True] OnPrecommitVoteMsg_cert [OF _ assms(2,3) True]
      OnCommitVoteMsg_cert [OF _ assms(3) True]
    by (simp add: HandleBFTMsg_def split: MessageType.split_asm)
next
  case False
  have "blsOk L" using assms(2) by (simp add: nodeReady_def)
  then show ?thesis
    using assms(1,3) False OnPrepareMsg_cert [OF _ assms(3) False] OnPrecommitMsg_cert [OF _ assms(3) False]
      OnCommitMsg_cert [OF _ assms(3) False]
    by (simp add: HandleBFTMsg_def split: MessageType.split_asm)
qed

lemma BftStart_cert:
  assumes "BftStart L ops (NewBFTProtocol b c config) = Ok bft" "blocks c = Map.empty"
  shows "certInv L blocks bft" and "bft_bls bft = b \<and> bft_config bft = config"
proof -
  obtain bft0 where s: "if cfg_IsLeader config then BftPrepare L ops bft0 = Ok bft else bft = bft0"
      and b0: "bft_bls bft0 = b" "bft_config bft0 = config" "bft_blockchain bft0 = c" "bft_precommitBitmap bft0 = None" "bft_commitBitmap bft0 = None"
    using assms(1) by (auto simp: BftStart_def Let_def NewBFTProtocol_def split: option.split_asm if_split_asm)
  have "certInv L blocks bft \<and> sameNode bft0 bft"
  proof (cases "cfg_IsLeader config")
    case True
    then show ?thesis using BftPrepare_cert [of L bft0 bft] s b0 assms(2) by (simp add: isOpen_def)
  next
    case False
    then show ?thesis using s b0 assms(2) by (simp add: certInv_def sameNode_def)
  qed
  then show "certInv L blocks bft" "bft_bls bft = b \<and> bft_config bft = config" using b0 by (simp_all add: sameNode_def)
qed

end

section \<open>The runs of a node\<close>

text \<open>
  A node takes messages of the consensus, headers and chunks in any order; \<open>P\<close> says which
  consensus messages it may receive.
\<close>

inductive nodeStep :: "(BFTMessage \<Rightarrow> bool) \<Rightarrow> ('sec, 'pub, 'sig) blsLib \<Rightarrow> nodeEnv \<Rightarrow>
    ('sec, 'pub, 'sig, Blockchain) BFTProtocol \<Rightarrow> ('sec, 'pub, 'sig, Blockchain) BFTProtocol \<Rightarrow> bool" for P L N where
  step_bft: "P m \<Longrightarrow> HandleBFTMsg L (nodeChain N now draws) bft (Some (PBFT m)) = Ok (e, bft') \<Longrightarrow> nodeStep P L N bft bft'"
| step_header: "HandleHeaderMsg N (bft_blockchain bft) dat = Ok chain \<Longrightarrow> nodeStep P L N bft (bft\<lparr>bft_blockchain := chain\<rparr>)"
| step_chunk: "HandleInboundChunkMsg N (bft_blockchain bft) dat = Ok chain \<Longrightarrow> nodeStep P L N bft (bft\<lparr>bft_blockchain := chain\<rparr>)"

lemma HandleBFTMsgs_steps:
  assumes "HandleBFTMsgs L (nodeChain N now draws) bft ms = Ok bft'" "\<forall>m\<in>set ms. P m"
  shows "(nodeStep P L N)\<^sup>*\<^sup>* bft bft'"
  using assms
proof (induction ms arbitrary: bft)
  case (Cons m ms)
  obtain e bft1 where s: "HandleBFTMsg L (nodeChain N now draws) bft (Some (PBFT m)) = Ok (e, bft1)"
      "HandleBFTMsgs L (nodeChain N now draws) bft1 ms = Ok bft'"
    using Cons.prems(1) by (auto elim!: rbind_OkE)
  have "nodeStep P L N bft bft1" using s(1) Cons.prems(2) by (intro step_bft) auto
  then show ?case using Cons.IH [OF s(2)] Cons.prems(2) by (simp add: converse_rtranclp_into_rtranclp)
qed simp

lemma gossip_BlockDB [simp]: "bc_BlockDB (gossip chain shard t p) = bc_BlockDB chain"
  by (simp add: gossip_def)

lemma foldl_gossip_BlockDB [simp]: "bc_BlockDB (foldl (\<lambda>chain k. gossip chain (k + 1001) t p) chain ks) = bc_BlockDB chain"
  by (induction ks arbitrary: chain) auto

lemma HandleHeaderMsg_BlockDB: "HandleHeaderMsg N chain dat = Ok chain' \<Longrightarrow> bc_BlockDB chain' = bc_BlockDB chain"
  by (auto simp: HandleHeaderMsg_def Let_def elim!: rbind_OkE split: if_split_asm prod.split_asm)

lemma HandleInboundChunkMsg_BlockDB: "HandleInboundChunkMsg N chain dat = Ok chain' \<Longrightarrow> bc_BlockDB chain' = bc_BlockDB chain"
  by (auto simp: HandleInboundChunkMsg_def Let_def elim!: rbind_OkE split: list.split_asm if_split_asm prod.split_asm)

lemma certInv_chain:
  "certInv L bc_BlockDB bft \<Longrightarrow> bc_BlockDB chain = bc_BlockDB (bft_blockchain bft) \<Longrightarrow> certInv L bc_BlockDB (bft\<lparr>bft_blockchain := chain\<rparr>)"
  by (simp add: certInv_def leaderInv_def collecting_def)

text \<open>The precommit votes that a leader takes have one signer each. Nothing is asked of the messages of a validator.\<close>

definition legitVote :: "Config \<Rightarrow> BFTMessage \<Rightarrow> bool" where
  "legitVote config m \<longleftrightarrow> (cfg_IsLeader config \<and> msgType m = MessageType_PRECOMMITVOTE \<longrightarrow> singleVote m)"

lemma nodeStep_cert:
  assumes "nodeStep (legitVote (bft_config bft)) L N bft bft'" "nodeReady L (bft_bls bft) (bft_config bft)" "certInv L bc_BlockDB bft"
  shows "certInv L bc_BlockDB bft' \<and> sameNode bft bft'"
  using assms(1)
proof (cases rule: nodeStep.cases)
  case (step_bft m now draws e)
  then show ?thesis using node_chain.HandleBFTMsg_cert [OF step_bft(2) assms(2,3)] by (auto simp: legitVote_def)
next
  case (step_header dat chain)
  then show ?thesis using certInv_chain [OF assms(3) HandleHeaderMsg_BlockDB [OF step_header(2)]] by (simp add: sameNode_def)
next
  case (step_chunk dat chain)
  then show ?thesis using certInv_chain [OF assms(3) HandleInboundChunkMsg_BlockDB [OF step_chunk(2)]] by (simp add: sameNode_def)
qed

lemma nodeSteps_cert:
  assumes "(nodeStep (legitVote config) L N)\<^sup>*\<^sup>* bft bft'" "nodeReady L b config" "certInv L bc_BlockDB bft"
    and "bft_bls bft = b \<and> bft_config bft = config"
  shows "certInv L bc_BlockDB bft' \<and> bft_bls bft' = b \<and> bft_config bft' = config"
  using assms(1)
proof (induction rule: rtranclp_induct)
  case base
  then show ?case using assms(3,4) by simp
next
  case (step x y)
  then have "certInv L bc_BlockDB y \<and> sameNode x y" using nodeStep_cert [of x L N y] assms(2) by simp
  then show ?case using step.IH by (simp add: sameNode_def)
qed

text \<open>
  C5: which blocks enter the chain of a node. Take any run of a validator, whatever messages of the consensus, headers
  and chunks it receives, or a run of a leader whose precommit votes have one signer each (the vote handlers check the
  signature of the first signer only). Then the \<open>Signature\<close> of every block in its \<open>BlockDB\<close> verifies for the hash of the block under the
  sum of the keys of exactly those nodes that the \<open>SignBitMap\<close> names and whose keys the node holds, and the bitmap has at least
  \<open>ConsensusThreshold\<close> bits. In the chain of a leader these are \<open>ConsensusThreshold\<close> different nodes with keys at least; in that of a
  validator they are when every bit of the bitmap belongs to a node with a key (and it has at most \<open>2 ^ 28\<close> bytes), which the code does not check
  (\<open>one_signer_committed\<close>).
\<close>

theorem committed_blocks_certified:
  assumes "nodeReady L b config" "NewBlockchain N config = Some chain"
    and "BftStart L (nodeChain N now draws) (NewBFTProtocol b chain config) = Ok bft0"
    and "(nodeStep (legitVote config) L N)\<^sup>*\<^sup>* bft0 bft"
    and "bc_BlockDB (bft_blockchain bft) h = Some block"
  shows "VerifyByte L (sigDeserialize L (Signature block)) (Some (keySum L b config (signers b config (SignBitMap block)))) (Hash block) \<and>
     cfg_ConsensusThreshold config \<le> GetSize (SignBitMap block) \<and>
     (cfg_IsLeader config \<or> keyed b config (SignBitMap block) \<longrightarrow>
        unat (cfg_ConsensusThreshold config) \<le> card (set (signers b config (SignBitMap block))))"
proof -
  have "bc_BlockDB chain = Map.empty" using assms(2) by (auto simp: NewBlockchain_def split: sum.splits)
  note s = node_chain.BftStart_cert [OF assms(3) this]
  have c: "certified L b config block" using nodeSteps_cert [OF assms(4,1) s] assms(5) by (auto simp: certInv_def)
  have "unat (cfg_ConsensusThreshold config) \<le> card (set (signers b config (SignBitMap block)))" if "keyed b config (SignBitMap block)"
    using keyed_signers [OF that] c by (simp add: certified_def word_le_nat_alt)
  moreover have "blsOk L" using assms(1) by (simp add: nodeReady_def)
  ultimately show ?thesis using c aggregate_keySum [of L b "Signature block" "Hash block" "SignBitMap block" config] by (auto simp: certified_def)
qed

section \<open>A shard of four nodes\<close>

text \<open>
  Nodes \<open>5\<close> to \<open>8\<close> of shard \<open>1001\<close>, whose bitmap keys are \<open>0\<close> to \<open>3\<close>; node \<open>8\<close> leads. \<open>voteOf\<close> is
  the vote of the node with secret key \<open>k\<close>.
\<close>

definition keyring :: "u32 \<rightharpoonup> (u32 \<rightharpoonup> byte)" where
  "keyring = [1001 \<mapsto> [5 \<mapsto> 1, 6 \<mapsto> 2, 7 \<mapsto> 3, 8 \<mapsto> 4]]"

definition shardConfig :: "bool \<Rightarrow> byte \<Rightarrow> Config" where
  "shardConfig leader k = nullConfig\<lparr>cfg_Accounts := [], cfg_IsLeader := leader, cfg_NodeId := ucast k + 4\<rparr>"

definition shardBls :: "byte \<Rightarrow> (byte, byte) BLS" where
  "shardBls k = \<lparr>KeyPair = \<lparr>kp_Sec = k, kp_Pub = k\<rparr>, PubKeys = keyring\<rparr>"

definition shardOps :: "Blockchain chainOps" where
  "shardOps = nodeChain endNode 7 (\<lambda>_. (0, 0, 0, []))"

definition startNode :: "bool \<Rightarrow> byte \<Rightarrow> (unit, (byte, byte, bytes \<times> byte, Blockchain) BFTProtocol) res" where
  "startNode leader k =
     (case NewBlockchain endNode (shardConfig leader k) of
        None \<Rightarrow> Panic
      | Some chain \<Rightarrow> BftStart sumLib shardOps (NewBFTProtocol (shardBls k) chain (shardConfig leader k)))"

definition genesisBlock :: Block where
  "genesisBlock = (case startNode True 4 of Ok l \<Rightarrow> (case bft_currentBlock l of Some b \<Rightarrow> b | None \<Rightarrow> zeroBlock) | _ \<Rightarrow> zeroBlock)"

definition signedBy :: "byte list \<Rightarrow> bytes \<Rightarrow> bytes" where
  "signedBy ks msg = sum_list ks # msg"

definition bitmapOf :: "byte list \<Rightarrow> Bitmap" where
  "bitmapOf ks = [sum_list (map (\<lambda>k. 2 ^ (unat k - 1)) ks)]"

definition voteOf :: "MessageType \<Rightarrow> bytes \<Rightarrow> Block \<Rightarrow> byte list \<Rightarrow> BFTMessage" where
  "voteOf t tail block ks = NewBFTMsg t block (signedBy ks (Hash block @ tail)) (bitmapOf ks)"

definition leaderVotes :: "BFTMessage list" where
  "leaderVotes =
     [voteOf MessageType_PREPAREVOTE [messageTypeByte MessageType_PREPARE] genesisBlock [2],
      voteOf MessageType_PREPAREVOTE [messageTypeByte MessageType_PREPARE] genesisBlock [3],
      voteOf MessageType_PRECOMMITVOTE [] genesisBlock [1],
      voteOf MessageType_PRECOMMITVOTE [] genesisBlock [3]]"

lemma startNode_Ok:
  assumes "startNode leader k = Ok bft"
  obtains chain where "NewBlockchain endNode (shardConfig leader k) = Some chain"
    "BftStart sumLib shardOps (NewBFTProtocol (shardBls k) chain (shardConfig leader k)) = Ok bft"
  using assms by (auto simp: startNode_def split: option.splits)

lemma leader_round:
  "\<exists>l0 l block. startNode True 4 = Ok l0 \<and> HandleBFTMsgs sumLib shardOps l0 leaderVotes = Ok l \<and>
     bc_BlockDB (bft_blockchain l) 0 = Some block"
proof -
  have "(case startNode True 4 of Ok l0 \<Rightarrow>
          (case HandleBFTMsgs sumLib shardOps l0 leaderVotes of Ok l \<Rightarrow> bc_BlockDB (bft_blockchain l) 0 \<noteq> None | _ \<Rightarrow> False) | _ \<Rightarrow> False)"
    by code_simp
  then show ?thesis by (auto split: res.splits)
qed

lemma shard_ready: "k \<in> {1, 2, 3, 4} \<Longrightarrow> nodeReady sumLib (shardBls k) (shardConfig leader k)"
  using sumLib_ok by (auto simp: nodeReady_def GetPubKey_def dbGetPubKey_def shardBls_def shardConfig_def keyring_def nullConfig_def sumLib_def)

lemma leaderVotes_single: "\<forall>m\<in>set leaderVotes. legitVote (shardConfig True 4) m"
  unfolding legitVote_def singleVote_def by code_simp

theorem committed_blocks_certified_witness:
  "\<exists>l0 l block. startNode True 4 = Ok l0 \<and> HandleBFTMsgs sumLib shardOps l0 leaderVotes = Ok l \<and>
     bc_BlockDB (bft_blockchain l) 0 = Some block \<and> 3 \<le> card (set (signers (shardBls 4) (shardConfig True 4) (SignBitMap block)))"
proof -
  obtain l0 l block where r: "startNode True 4 = Ok l0" "HandleBFTMsgs sumLib shardOps l0 leaderVotes = Ok l"
      "bc_BlockDB (bft_blockchain l) 0 = Some block"
    using leader_round by blast
  obtain chain where c: "NewBlockchain endNode (shardConfig True 4) = Some chain"
      "BftStart sumLib shardOps (NewBFTProtocol (shardBls 4) chain (shardConfig True 4)) = Ok l0"
    using r(1) by (rule startNode_Ok)
  have "cfg_IsLeader (shardConfig True 4)" "unat (cfg_ConsensusThreshold (shardConfig True 4)) = 3"
    by (simp_all add: shardConfig_def nullConfig_def)
  then have "3 \<le> card (set (signers (shardBls 4) (shardConfig True 4) (SignBitMap block)))"
    using committed_blocks_certified [OF shard_ready c(1) c(2) [unfolded shardOps_def]
        HandleBFTMsgs_steps [OF r(2) [unfolded shardOps_def] leaderVotes_single] r(3)] by simp
  then show ?thesis using r by blast
qed

text \<open>
  Bits without a key count as signers: the leader alone signs, sets its own bit and those of two nodes that do not exist, and a
  validator commits the block.
\<close>

definition loneLeader :: "BFTMessage list" where
  "loneLeader =
     [voteOf MessageType_PREPARE [messageTypeByte MessageType_PREPARE] genesisBlock [4],
      (voteOf MessageType_PRECOMMIT [messageTypeByte MessageType_PREPARE] genesisBlock [4])\<lparr>SenderPubkeyBitmap := [56]\<rparr>,
      (voteOf MessageType_COMMIT [] genesisBlock [4])\<lparr>SenderPubkeyBitmap := [56]\<rparr>]"

lemma one_signer_committed:
  "\<exists>v0 v block. startNode False 2 = Ok v0 \<and> HandleBFTMsgs sumLib shardOps v0 loneLeader = Ok v \<and>
     bc_BlockDB (bft_blockchain v) 0 = Some block \<and> GetSize (SignBitMap block) = 3 \<and>
     signers (shardBls 2) (shardConfig False 2) (SignBitMap block) = [3]"
proof -
  have "(case startNode False 2 of Ok v0 \<Rightarrow>
          (case HandleBFTMsgs sumLib shardOps v0 loneLeader of Ok v \<Rightarrow>
             (case bc_BlockDB (bft_blockchain v) 0 of None \<Rightarrow> False
              | Some block \<Rightarrow> GetSize (SignBitMap block) = 3 \<and> signers (shardBls 2) (shardConfig False 2) (SignBitMap block) = [3])
           | _ \<Rightarrow> False) | _ \<Rightarrow> False)"
    by code_simp
  then show ?thesis by (auto split: res.splits option.splits)
qed

end
