(* ===== verification/Votes.thy ===== *)
theory Votes
  imports Quorum
begin

text \<open>
  What a validator votes for. When the messages of the leader are numbered by the heights of their blocks, a validator
  votes once per height and phase (\<open>votes_once\<close>). The handlers do not check that numbering, and without it
  a leader gets precommit votes for any number of blocks of one height (\<open>precommit_equivocation\<close>).
\<close>

section \<open>Phases are ordered\<close>

lemma IsNew_less: "IsNew p x \<longleftrightarrow> ph_height p < ph_height x \<or> (ph_height p = ph_height x \<and> ph_bftPhase p < ph_bftPhase x)"
  by (auto simp: IsNew_def not_less not_le)

lemma IsNew_trans: "IsNew p q \<Longrightarrow> IsNew q r \<Longrightarrow> IsNew p r"
  by (auto simp: IsNew_less)

lemma IsNew_irrefl [simp]: "\<not> IsNew p p"
  by (simp add: IsNew_less)

lemma IsNew_between: "\<not> IsNew p q \<Longrightarrow> IsNew p r \<Longrightarrow> IsNew q r"
  by (auto simp: IsNew_less)

lemma Switch_new: "IsNew p \<lparr>ph_height = n, ph_bftPhase = ph\<rparr> \<Longrightarrow> Switch p n ph = \<lparr>ph_height = n, ph_bftPhase = ph\<rparr>"
  by (auto simp: Switch_def IsNew_def split: if_splits)

lemma sorted_IsNew_distinct: "sorted_wrt IsNew ps \<Longrightarrow> distinct ps"
  by (induction ps) auto

section \<open>One vote per height and phase\<close>

text \<open>Messages that are numbered by the height of their block, which \<open>h\<close> reads off its hash.\<close>

definition numbered :: "(hash \<Rightarrow> u32) \<Rightarrow> BFTMessage \<Rightarrow> bool" where
  "numbered h m \<longleftrightarrow> BlockNum m = Height (msgBlock m) \<and> msgBlockHash m = Hash (msgBlock m) \<and> Height (msgBlock m) = h (Hash (msgBlock m))"

fun votePhase :: "MessageType \<Rightarrow> BFTPhase" where
  "votePhase MessageType_PREPAREVOTE = BFT_PREPARE"
| "votePhase MessageType_PRECOMMITVOTE = BFT_PRECOMMIT"
| "votePhase MessageType_COMMITVOTE = BFT_COMMIT"
| "votePhase _ = BFT_INIT"

definition heightOk :: "(hash \<Rightarrow> u32) \<Rightarrow> Block option \<Rightarrow> bool" where
  "heightOk h b \<longleftrightarrow> (case b of None \<Rightarrow> True | Some block \<Rightarrow> Height block = h (Hash block))"

definition voteInv :: "(hash \<Rightarrow> u32) \<Rightarrow> ('sec, 'pub, 'sig, 'c) BFTProtocol \<Rightarrow> bool" where
  "voteInv h bft \<longleftrightarrow> \<not> cfg_IsLeader (bft_config bft) \<and> heightOk h (bft_currentBlock bft) \<and>
     sorted_wrt IsNew (map fst (bft_sent bft)) \<and>
     (\<forall>(p, v, t)\<in>set (bft_sent bft). \<not> IsNew (bft_phase bft) p \<and> p = \<lparr>ph_height = BlockNum v, ph_bftPhase = votePhase (msgType v)\<rparr>)"

text \<open>The two things a step does: nothing the leader sees, or one vote in a new phase.\<close>

definition quiet :: "('sec, 'pub, 'sig, 'c) BFTProtocol \<Rightarrow> ('sec, 'pub, 'sig, 'c) BFTProtocol \<Rightarrow> bool" where
  "quiet bft bft' \<longleftrightarrow> bft_config bft' = bft_config bft \<and> bft_currentBlock bft' = bft_currentBlock bft \<and>
     bft_phase bft' = bft_phase bft \<and> bft_sent bft' = bft_sent bft"

definition casts :: "(hash \<Rightarrow> u32) \<Rightarrow> ('sec, 'pub, 'sig, 'c) BFTProtocol \<Rightarrow> BFTMessage \<Rightarrow> ('sec, 'pub, 'sig, 'c) BFTProtocol \<Rightarrow> bool" where
  "casts h bft v bft' \<longleftrightarrow> bft_config bft' = bft_config bft \<and> heightOk h (bft_currentBlock bft') \<and>
     IsNew (bft_phase bft) (bft_phase bft') \<and> bft_phase bft' = \<lparr>ph_height = BlockNum v, ph_bftPhase = votePhase (msgType v)\<rparr> \<and>
     bft_sent bft' = bft_sent bft @ [(bft_phase bft', v, ConsensusLeader)]"

lemma quiet_refl [simp]: "quiet bft bft"
  by (simp add: quiet_def)

lemma voteInv_quiet: "voteInv h bft \<Longrightarrow> quiet bft bft' \<Longrightarrow> voteInv h bft'"
  by (simp add: voteInv_def quiet_def)

lemma voteInv_casts:
  assumes "voteInv h bft" "casts h bft v bft'"
  shows "voteInv h bft'"
proof -
  have old: "IsNew p (bft_phase bft')" if "(p, w, t) \<in> set (bft_sent bft)" for p w t
    using assms that by (force simp: voteInv_def casts_def intro: IsNew_between)
  then have "\<not> IsNew (bft_phase bft') p" if "(p, w, t) \<in> set (bft_sent bft)" for p w t
    using that IsNew_trans IsNew_irrefl by blast
  then show ?thesis using assms old by (fastforce simp: voteInv_def casts_def sorted_wrt_append)
qed

lemma headerOnly_Height [simp]: "Height (headerOnly b) = Height b"
  by (simp add: HeaderCopy_def Header.defs)

lemmas handler_splits = option.split_asm list.split_asm if_split_asm prod.split_asm

lemma OnPrepareMsg_casts:
  assumes "OnPrepareMsg L ops bft m = Ok (e, bft')" "numbered h m"
  shows "quiet bft bft' \<or> casts h bft (fst (snd (last (bft_sent bft')))) bft'"
  using assms by (auto simp: OnPrepareMsg_def quiet_def casts_def Let_def send_def numbered_def heightOk_def Switch_new NewBFTMsg_def
      elim!: rbind_OkE split: handler_splits)

lemma OnPrecommitMsg_casts:
  assumes "OnPrecommitMsg L bft m = Ok (e, bft')" "numbered h m" "heightOk h (bft_currentBlock bft)"
  shows "quiet bft bft' \<or> casts h bft (fst (snd (last (bft_sent bft')))) bft'"
  using assms by (auto simp: OnPrecommitMsg_def quiet_def casts_def Let_def send_def numbered_def heightOk_def Switch_new NewBFTMsg_def
      split: handler_splits)

lemma OnCommitMsg_casts:
  assumes "OnCommitMsg L ops bft m = Ok (e, bft')" "numbered h m" "heightOk h (bft_currentBlock bft)"
  shows "quiet bft bft' \<or> casts h bft (fst (snd (last (bft_sent bft')))) bft'"
  using assms by (auto simp: OnCommitMsg_def quiet_def casts_def Let_def send_def numbered_def heightOk_def Switch_new NewBFTMsg_def
      elim!: rbind_OkE split: handler_splits)

lemma HandleBFTMsg_casts:
  assumes "HandleBFTMsg L ops bft (Some (PBFT m)) = Ok (e, bft')" "numbered h m" "voteInv h bft"
  shows "quiet bft bft' \<or> casts h bft (fst (snd (last (bft_sent bft')))) bft'"
proof -
  have i: "\<not> cfg_IsLeader (bft_config bft)" "heightOk h (bft_currentBlock bft)" using assms(3) by (simp_all add: voteInv_def)
  show ?thesis
    using assms(1) i(1) OnPrepareMsg_casts [OF _ assms(2)] OnPrecommitMsg_casts [OF _ assms(2) i(2)] OnCommitMsg_casts [OF _ assms(2) i(2)]
    by (simp add: HandleBFTMsg_def split: MessageType.split_asm)
qed

lemma nodeStep_votes: "nodeStep (numbered h) L N bft bft' \<Longrightarrow> voteInv h bft \<Longrightarrow> voteInv h bft'"
proof (induction rule: nodeStep.induct)
  case (step_bft m now draws bft e bft')
  then show ?case using HandleBFTMsg_casts [of L "nodeChain N now draws" bft m e bft' h] voteInv_quiet voteInv_casts by blast
qed (auto simp: voteInv_def)

lemma nodeSteps_votes: "(nodeStep (numbered h) L N)\<^sup>*\<^sup>* bft bft' \<Longrightarrow> voteInv h bft \<Longrightarrow> voteInv h bft'"
  by (induction rule: rtranclp_induct) (auto intro: nodeStep_votes)

text \<open>
  C6: a validator votes at most once per height and phase. Starting from a new chain, whatever messages of the
  consensus (numbered by the heights of their blocks), headers and chunks it takes, and however often the
  leader repeats them, no two of the votes it sends have the same block number and type.
\<close>

theorem votes_once:
  assumes "NewBlockchain N config = Some chain" "\<not> cfg_IsLeader config"
    and "BftStart L (nodeChain N now draws) (NewBFTProtocol b chain config) = Ok bft0"
    and "(nodeStep (numbered h) L N)\<^sup>*\<^sup>* bft0 bft"
  shows "distinct (map (\<lambda>(_, v, _). (BlockNum v, msgType v)) (bft_sent bft))"
proof -
  have "bc_LatestBlock chain = None" using assms(1) by (auto simp: NewBlockchain_def split: sum.splits)
  then have "voteInv h bft0"
    using assms(2,3) by (auto simp: BftStart_def nodeChain_def NewBFTProtocol_def voteInv_def heightOk_def)
  then have i: "voteInv h bft" by (rule nodeSteps_votes [OF assms(4)])
  let ?f = "\<lambda>(n, t). \<lparr>ph_height = n, ph_bftPhase = votePhase t\<rparr>"
  have "map fst (bft_sent bft) = map ?f (map (\<lambda>(_, v, _). (BlockNum v, msgType v)) (bft_sent bft))"
    using i by (auto simp: voteInv_def)
  moreover have "distinct (map fst (bft_sent bft))" using i sorted_IsNew_distinct by (auto simp: voteInv_def)
  ultimately show ?thesis by (simp only: distinct_map)
qed

text \<open>The leader's messages of a round as they reach a validator, some of them twice.\<close>

definition roundMsgs :: "BFTMessage list" where
  "roundMsgs =
     (let prepare = voteOf MessageType_PREPARE [messageTypeByte MessageType_PREPARE] genesisBlock [4];
          precommit = voteOf MessageType_PRECOMMIT [messageTypeByte MessageType_PREPARE] genesisBlock [2, 3, 4];
          commit = voteOf MessageType_COMMIT [] genesisBlock [1, 3, 4]
      in [prepare, prepare, precommit, prepare, commit, precommit])"

lemma validator_round:
  "\<exists>v0 v. startNode False 2 = Ok v0 \<and> HandleBFTMsgs sumLib shardOps v0 roundMsgs = Ok v \<and>
     map (\<lambda>(_, m, _). msgType m) (bft_sent v) = [MessageType_PREPAREVOTE, MessageType_PRECOMMITVOTE, MessageType_COMMITVOTE]"
proof -
  have "(case startNode False 2 of Ok v0 \<Rightarrow>
          (case HandleBFTMsgs sumLib shardOps v0 roundMsgs of Ok v \<Rightarrow>
             map (\<lambda>(_, m, _). msgType m) (bft_sent v) = [MessageType_PREPAREVOTE, MessageType_PRECOMMITVOTE, MessageType_COMMITVOTE]
           | _ \<Rightarrow> False) | _ \<Rightarrow> False)"
    by code_simp
  then show ?thesis by (auto split: res.splits)
qed

lemma genesisBlock_height: "Height genesisBlock = 0"
  by code_simp

lemma roundMsgs_numbered: "\<forall>m\<in>set roundMsgs. numbered (\<lambda>_. 0) m"
  by (simp add: roundMsgs_def Let_def numbered_def voteOf_def NewBFTMsg_def genesisBlock_height)

theorem votes_once_witness:
  "\<exists>v0 v. startNode False 2 = Ok v0 \<and> HandleBFTMsgs sumLib shardOps v0 roundMsgs = Ok v \<and>
     map (\<lambda>(_, m, _). msgType m) (bft_sent v) = [MessageType_PREPAREVOTE, MessageType_PRECOMMITVOTE, MessageType_COMMITVOTE] \<and>
     distinct (map (\<lambda>(_, m, _). (BlockNum m, msgType m)) (bft_sent v))"
proof -
  obtain v0 v where r: "startNode False 2 = Ok v0" "HandleBFTMsgs sumLib shardOps v0 roundMsgs = Ok v"
      "map (\<lambda>(_, m, _). msgType m) (bft_sent v) = [MessageType_PREPAREVOTE, MessageType_PRECOMMITVOTE, MessageType_COMMITVOTE]"
    using validator_round by (elim exE conjE) (rule that)
  obtain chain where c: "NewBlockchain endNode (shardConfig False 2) = Some chain"
      "BftStart sumLib shardOps (NewBFTProtocol (shardBls 2) chain (shardConfig False 2)) = Ok v0"
    using r(1) by (rule startNode_Ok)
  have "distinct (map (\<lambda>(_, m, _). (BlockNum m, msgType m)) (bft_sent v))"
    using votes_once [OF c(1) _ c(2) [unfolded shardOps_def] HandleBFTMsgs_steps [OF r(2) [unfolded shardOps_def] roundMsgs_numbered]]
    by (simp add: shardConfig_def)
  with r show ?thesis by (intro exI conjI)
qed

section \<open>Equivocation\<close>

text \<open>
  A prepare and a precommit message for another block of height \<open>h\<close> on the same predecessor, both numbered one higher: the signature
  of one node of the shard on the first, a certificate of enough signers on the second.
\<close>

definition secondProposal :: "('sec, 'pub, 'sig) blsLib \<Rightarrow> ('sec, 'pub, 'sig, 'c) BFTProtocol \<Rightarrow> u32 \<Rightarrow> BFTMessage \<times> BFTMessage \<Rightarrow> bool" where
  "secondProposal L bft h = (\<lambda>(m1, m2).
     msgType m1 = MessageType_PREPARE \<and> msgType m2 = MessageType_PRECOMMIT \<and> BlockNum m1 = h + 1 \<and> BlockNum m2 = h + 1 \<and>
     Height (msgBlock m1) = h \<and> PrevBlockHash (msgBlock m1) = bft_latestCommittedBlockHash bft \<and> msgBlock m2 = msgBlock m1 \<and>
     msgBlockHash m1 = Hash (msgBlock m1) \<and> msgBlockHash m2 = Hash (msgBlock m1) \<and>
     (case GetElement (SenderPubkeyBitmap m1) of [] \<Rightarrow> False
      | key # _ \<Rightarrow> VerifySign L (bft_bls bft) (SenderSig m1) (msgBlockHash m1 @ [messageTypeByte MessageType_PREPARE])
          (key2NodeId (bft_config bft) key) (cfg_ShardId (bft_config bft))) \<and>
     cfg_ConsensusThreshold (bft_config bft) \<le> GetSize (SenderPubkeyBitmap m2) \<and>
     VerifyAggregateSig L (bft_bls bft) (SenderSig m2) (msgBlockHash m1 @ [messageTypeByte MessageType_PREPARE])
       (SenderPubkeyBitmap m2) (cfg_ShardId (bft_config bft)) (bftKeyOffset (bft_config bft)))"

text \<open>The chain accepts the blocks one after the other.\<close>

primrec accepted :: "'c chainOps \<Rightarrow> 'c \<Rightarrow> Block list \<Rightarrow> bool" where
  "accepted ops c [] = True"
| "accepted ops c (b # bs) = (case co_CheckBlock ops c b of Ok (None, c') \<Rightarrow> accepted ops c' bs | _ \<Rightarrow> False)"

text \<open>The votes of the node on a block in the two phases.\<close>

definition prepareVoteOf :: "('sec, 'pub, 'sig) blsLib \<Rightarrow> ('sec, 'pub, 'sig, 'c) BFTProtocol \<Rightarrow> Bitmap \<Rightarrow> Block \<Rightarrow> BFTMessage" where
  "prepareVoteOf L bft own block = NewBFTMsg MessageType_PREPAREVOTE (headerOnly block)
     (sigSerialize L (blsSign L (bft_bls bft) (Hash block @ [messageTypeByte MessageType_PREPARE]))) own"

definition precommitVoteOf :: "('sec, 'pub, 'sig) blsLib \<Rightarrow> ('sec, 'pub, 'sig, 'c) BFTProtocol \<Rightarrow> Bitmap \<Rightarrow> Block \<Rightarrow> BFTMessage" where
  "precommitVoteOf L bft own block = NewBFTMsg MessageType_PRECOMMITVOTE (headerOnly block)
     (sigSerialize L (blsSign L (bft_bls bft) (Hash block))) own"

definition precommitted :: "('sec, 'pub, 'sig, 'c) BFTProtocol \<Rightarrow> u32 \<Rightarrow> bool" where
  "precommitted bft h \<longleftrightarrow> \<not> cfg_IsLeader (bft_config bft) \<and> bft_phase bft = \<lparr>ph_height = h, ph_bftPhase = BFT_PRECOMMIT\<rparr> \<and>
     (\<exists>block. bft_currentBlock bft = Some block \<and> Height block = h)"

lemma precommit_again:
  assumes pre: "precommitted bft h" "h < h + 1" "ownBitmap (bft_config bft) = Some own"
    and two: "secondProposal L bft h (m1, m2)" "co_CheckBlock ops (bft_blockchain bft) (msgBlock m1) = Ok (None, c')"
  shows "\<exists>bft'. HandleBFTMsgs L ops bft [m1, m2] = Ok bft' \<and> precommitted bft' h \<and> bft_blockchain bft' = c' \<and>
     bft_bls bft' = bft_bls bft \<and> bft_config bft' = bft_config bft \<and> bft_latestCommittedBlockHash bft' = bft_latestCommittedBlockHash bft \<and>
     bft_sent bft' = bft_sent bft @
       [(bft_phase bft, prepareVoteOf L bft own (msgBlock m1), ConsensusLeader), (bft_phase bft, precommitVoteOf L bft own (msgBlock m1), ConsensusLeader)]"
proof -
  obtain key ks where k: "GetElement (SenderPubkeyBitmap m1) = key # ks"
    using two(1) by (auto simp: secondProposal_def split: list.splits)
  obtain bft1 where s1: "HandleBFTMsg L ops bft (Some (PBFT m1)) = Ok (None, bft1)" "bft_currentBlock bft1 = Some (msgBlock m1)"
      "bft_phase bft1 = bft_phase bft" "bft_blockchain bft1 = c'" "bft_bls bft1 = bft_bls bft" "bft_config bft1 = bft_config bft"
      "bft_latestCommittedBlockHash bft1 = bft_latestCommittedBlockHash bft"
      "bft_sent bft1 = bft_sent bft @ [(bft_phase bft, prepareVoteOf L bft own (msgBlock m1), ConsensusLeader)]"
    using assms k by (auto simp: HandleBFTMsg_def OnPrepareMsg_def secondProposal_def precommitted_def IsNew_less skipped_def Let_def send_def
        Switch_def less_eq_BFTPhase_def prepareVoteOf_def)
  obtain bft2 where "HandleBFTMsg L ops bft1 (Some (PBFT m2)) = Ok (None, bft2)" "bft_currentBlock bft2 = Some (msgBlock m1)"
      "bft_phase bft2 = bft_phase bft" "bft_blockchain bft2 = c'" "bft_bls bft2 = bft_bls bft" "bft_config bft2 = bft_config bft"
      "bft_latestCommittedBlockHash bft2 = bft_latestCommittedBlockHash bft"
      "bft_sent bft2 = bft_sent bft1 @ [(bft_phase bft, precommitVoteOf L bft own (msgBlock m1), ConsensusLeader)]"
    using pre two(1) s1(2-7) by (auto simp: HandleBFTMsg_def OnPrecommitMsg_def secondProposal_def precommitted_def IsNew_less skipped_def Let_def
        send_def Switch_def less_eq_BFTPhase_def precommitVoteOf_def not_less)
  then show ?thesis using s1 pre(1) two(1) by (simp add: precommitted_def secondProposal_def)
qed

text \<open>
  C8: the votes of a validator are not bound to the heights of blocks. A validator that has precommitted a block of height \<open>h\<close> is sent
  any sequence of further blocks of height \<open>h\<close> on the same predecessor, each with a signed prepare message and a certified precommit
  message that are numbered \<open>h + 1\<close>. When the chain accepts the blocks, the validator signs a precommit vote for
  every one of them, and its phase does not move: the handlers never compare the number of a message with the height of its block.
\<close>

theorem precommit_equivocation:
  assumes "precommitted bft h" "h < h + 1" "ownBitmap (bft_config bft) = Some own"
    and "\<forall>r\<in>set rounds. secondProposal L bft h r" "accepted ops (bft_blockchain bft) (map (\<lambda>(m1, m2). msgBlock m1) rounds)"
  shows "\<exists>bft'. HandleBFTMsgs L ops bft (concat (map (\<lambda>(m1, m2). [m1, m2]) rounds)) = Ok bft' \<and> bft_phase bft' = bft_phase bft \<and>
     bft_sent bft' = bft_sent bft @ concat (map (\<lambda>(m1, m2).
       [(bft_phase bft, prepareVoteOf L bft own (msgBlock m1), ConsensusLeader),
        (bft_phase bft, precommitVoteOf L bft own (msgBlock m1), ConsensusLeader)]) rounds)"
  using assms
proof (induction rounds arbitrary: bft)
  case (Cons r rounds)
  obtain m1 m2 where r: "r = (m1, m2)" by (cases r)
  obtain c' where c: "co_CheckBlock ops (bft_blockchain bft) (msgBlock m1) = Ok (None, c')" "accepted ops c' (map (\<lambda>(m1, m2). msgBlock m1) rounds)"
    using Cons.prems(5) r by (auto split: res.splits prod.splits option.splits)
  obtain bft1 where s: "HandleBFTMsgs L ops bft [m1, m2] = Ok bft1" "precommitted bft1 h" "bft_blockchain bft1 = c'" "bft_bls bft1 = bft_bls bft"
      "bft_config bft1 = bft_config bft" "bft_latestCommittedBlockHash bft1 = bft_latestCommittedBlockHash bft"
      "bft_sent bft1 = bft_sent bft @ [(bft_phase bft, prepareVoteOf L bft own (msgBlock m1), ConsensusLeader),
         (bft_phase bft, precommitVoteOf L bft own (msgBlock m1), ConsensusLeader)]"
    using precommit_again [OF Cons.prems(1-3) _ c(1)] Cons.prems(4) r by auto
  have "secondProposal L bft1 h = secondProposal L bft h" unfolding secondProposal_def by (simp only: s(4-6))
  moreover have "prepareVoteOf L bft1 = prepareVoteOf L bft" "precommitVoteOf L bft1 = precommitVoteOf L bft"
    by (simp_all add: fun_eq_iff prepareVoteOf_def precommitVoteOf_def s(4))
  moreover have "bft_phase bft1 = bft_phase bft" using Cons.prems(1) s(2) by (simp add: precommitted_def)
  ultimately show ?case using Cons.IH [OF s(2) Cons.prems(2)] Cons.prems(3,4) s(1,3,5,7) c(2) r
    by (auto elim!: rbind_OkE)
qed simp

text \<open>The second block is the first one with another hash.\<close>

definition otherBlock :: Block where
  "otherBlock = genesisBlock\<lparr>Hash := replicate 32 1\<rparr>"

definition firstRound :: "BFTMessage list" where
  "firstRound =
     [voteOf MessageType_PREPARE [messageTypeByte MessageType_PREPARE] genesisBlock [4],
      voteOf MessageType_PRECOMMIT [messageTypeByte MessageType_PREPARE] genesisBlock [2, 3, 4]]"

definition otherRound :: "BFTMessage \<times> BFTMessage" where
  "otherRound =
     ((voteOf MessageType_PREPARE [messageTypeByte MessageType_PREPARE] otherBlock [4])\<lparr>BlockNum := 1\<rparr>,
      (voteOf MessageType_PRECOMMIT [messageTypeByte MessageType_PREPARE] otherBlock [2, 3, 4])\<lparr>BlockNum := 1\<rparr>)"

lemma firstRound_done:
  "\<exists>v0 v. startNode False 2 = Ok v0 \<and> HandleBFTMsgs sumLib shardOps v0 firstRound = Ok v \<and>
     precommitted v 0 \<and> ownBitmap (bft_config v) = Some [2] \<and> secondProposal sumLib v 0 otherRound \<and> accepted shardOps (bft_blockchain v) [otherBlock] \<and>
     map (\<lambda>(_, m, _). (msgType m, msgBlockHash m)) (bft_sent v) =
       [(MessageType_PREPAREVOTE, Hash genesisBlock), (MessageType_PRECOMMITVOTE, Hash genesisBlock)]"
proof -
  have "(case startNode False 2 of Ok v0 \<Rightarrow>
          (case HandleBFTMsgs sumLib shardOps v0 firstRound of Ok v \<Rightarrow>
             \<not> cfg_IsLeader (bft_config v) \<and> bft_phase v = \<lparr>ph_height = 0, ph_bftPhase = BFT_PRECOMMIT\<rparr> \<and>
             (case bft_currentBlock v of None \<Rightarrow> False | Some block \<Rightarrow> Height block = 0) \<and>
             ownBitmap (bft_config v) = Some [2] \<and> secondProposal sumLib v 0 otherRound \<and> accepted shardOps (bft_blockchain v) [otherBlock] \<and>
             map (\<lambda>(_, m, _). (msgType m, msgBlockHash m)) (bft_sent v) =
               [(MessageType_PREPAREVOTE, Hash genesisBlock), (MessageType_PRECOMMITVOTE, Hash genesisBlock)]
           | _ \<Rightarrow> False) | _ \<Rightarrow> False)"
    by code_simp
  then show ?thesis by (auto simp: precommitted_def split: res.splits option.splits)
qed

theorem precommit_equivocation_witness:
  "\<exists>v0 v v'. startNode False 2 = Ok v0 \<and> HandleBFTMsgs sumLib shardOps v0 firstRound = Ok v \<and>
     HandleBFTMsgs sumLib shardOps v [fst otherRound, snd otherRound] = Ok v' \<and>
     Height otherBlock = Height genesisBlock \<and> Hash otherBlock \<noteq> Hash genesisBlock \<and>
     map (\<lambda>(_, m, _). (msgType m, msgBlockHash m)) (bft_sent v') =
       [(MessageType_PREPAREVOTE, Hash genesisBlock), (MessageType_PRECOMMITVOTE, Hash genesisBlock),
        (MessageType_PREPAREVOTE, Hash otherBlock), (MessageType_PRECOMMITVOTE, Hash otherBlock)]"
proof -
  obtain v0 v where r: "startNode False 2 = Ok v0" "HandleBFTMsgs sumLib shardOps v0 firstRound = Ok v"
      "precommitted v 0" "ownBitmap (bft_config v) = Some [2]" "secondProposal sumLib v 0 otherRound"
      "accepted shardOps (bft_blockchain v) [otherBlock]"
      "map (\<lambda>(_, m, _). (msgType m, msgBlockHash m)) (bft_sent v) =
         [(MessageType_PREPAREVOTE, Hash genesisBlock), (MessageType_PRECOMMITVOTE, Hash genesisBlock)]"
    using firstRound_done by (elim exE conjE) (rule that)
  have o: "msgBlock (fst otherRound) = otherBlock" by (simp add: otherRound_def voteOf_def NewBFTMsg_def)
  have b: "Height otherBlock = Height genesisBlock" "Hash otherBlock \<noteq> Hash genesisBlock" by code_simp+
  have h: "Hash (headerOnly otherBlock) = Hash otherBlock" by code_simp
  obtain v' where "HandleBFTMsgs sumLib shardOps v [fst otherRound, snd otherRound] = Ok v'"
      "bft_sent v' = bft_sent v @ [(bft_phase v, prepareVoteOf sumLib v [2] otherBlock, ConsensusLeader),
         (bft_phase v, precommitVoteOf sumLib v [2] otherBlock, ConsensusLeader)]"
    using precommit_equivocation [OF r(3) _ r(4), of "[otherRound]" sumLib shardOps] r(5,6) o by (auto simp: split_beta)
  with r b show ?thesis by (auto simp: prepareVoteOf_def precommitVoteOf_def NewBFTMsg_def h)
qed

end
