(* ===== verification/Progress.thy ===== *)
theory Progress
  imports Votes
begin

text \<open>
  A leader that hears from enough validators moves on: \<open>prepare_quorum_advances\<close>. The lemmas follow the loop over the
  messages from the bitmap with the leader's own key to the one with a quorum.
\<close>

section \<open>Counting one vote\<close>

text \<open>A valid vote of the node with key \<open>k\<close> for the block.\<close>

definition prepareVote :: "('sec, 'pub, 'sig) blsLib \<Rightarrow> ('sec, 'pub) BLS \<Rightarrow> Config \<Rightarrow> Block \<Rightarrow> BFTMessage \<times> nat \<Rightarrow> bool" where
  "prepareVote L b config block = (\<lambda>(m, k).
     msgType m = MessageType_PREPAREVOTE \<and> BlockNum m = Height block \<and> msgBlockHash m = Hash block \<and>
     length (SenderPubkeyBitmap m) = length (NewBitmap (cfg_NodeNumPerShard config)) \<and> keys (SenderPubkeyBitmap m) = {k} \<and>
     VerifySign L b (SenderSig m) (Hash block @ [messageTypeByte MessageType_PREPARE]) (of_nat k + bftKeyOffset config) (cfg_ShardId config))"

definition preparing :: "('sec, 'pub, 'sig) blsLib \<Rightarrow> ('sec, 'pub, 'sig, 'c) BFTProtocol \<Rightarrow> Block \<Rightarrow> Bitmap \<Rightarrow> bool" where
  "preparing L bft block bitmap \<longleftrightarrow>
     cfg_IsLeader (bft_config bft) \<and> bft_currentBlock bft = Some block \<and> bft_prepareBitmap bft = Some bitmap \<and>
     bft_phase bft = \<lparr>ph_height = Height block, ph_bftPhase = BFT_PREPARE\<rparr> \<and> length bitmap = length (NewBitmap (cfg_NodeNumPerShard (bft_config bft))) \<and>
     (\<exists>sig. bft_aggregatePrepareSig bft = Some sig \<and>
        aggregateOf L (bft_bls bft) (cfg_ShardId (bft_config bft)) (bftKeyOffset (bft_config bft))
          (Hash block @ [messageTypeByte MessageType_PREPARE]) bitmap sig)"

lemma countVote_ok:
  assumes "keys (SenderPubkeyBitmap m) = {k}" "k \<notin> keys bitmap" "length bitmap = length (SenderPubkeyBitmap m)"
    and "VerifySign L (bft_bls bft) (SenderSig m) msg (of_nat k + bftKeyOffset (bft_config bft)) (cfg_ShardId (bft_config bft))"
  shows "countVote L bft msg bitmap (Some sig) m =
    Ok (Inr (fst (Merge bitmap (SenderPubkeyBitmap m)), sigAdd L sig (sigDeserialize L (SenderSig m))))"
proof -
  let ?x = "SenderPubkeyBitmap m"
  have "length (keyList ?x) = 1" using assms(1) length_keyList [of ?x] by simp
  then have "keyList ?x = [k]" using set_keyList [of ?x] assms(1) by (auto simp: length_Suc_conv)
  moreover have "keys (map2 (\<lambda>c d. (c AND d) XOR d) bitmap ?x) = {k}" using keys_Merge_diff [OF assms(3)] assms(1,2) by auto
  then have "snd (Merge bitmap ?x) \<noteq> []"
    using set_keyList [of "map2 (\<lambda>c d. (c AND d) XOR d) bitmap ?x"] by (auto simp: Merge_new assms(3) GetElement_keyList)
  ultimately show ?thesis using assms(4)
    by (cases "Merge bitmap ?x") (auto simp: countVote_def GetElement_keyList key2NodeId_offset Let_def)
qed

lemma prepareVote_counted:
  assumes "preparing L bft block bitmap" "prepareVote L (bft_bls bft) (bft_config bft) block (m, k)" "k \<notin> keys bitmap"
    and "nodeReady L (bft_bls bft) (bft_config bft)" "GetSize bitmap < cfg_ConsensusThreshold (bft_config bft)"
  shows "\<exists>b sig bft1. keys b = insert k (keys bitmap) \<and> bft1 = bft\<lparr>bft_prepareBitmap := Some b, bft_aggregatePrepareSig := Some sig\<rparr> \<and>
     preparing L bft1 block b \<and>
     HandleBFTMsg L ops bft (Some (PBFT m)) =
       (if cfg_ConsensusThreshold (bft_config bft) \<le> GetSize b then rmap (Pair None) (BftPrecommit L bft1) else Ok (None, bft1))"
proof -
  let ?x = "SenderPubkeyBitmap m" and ?msg = "Hash block @ [messageTypeByte MessageType_PREPARE]"
  let ?b = "fst (Merge bitmap ?x)"
  have ok: "blsOk L" and n: "unat (cfg_NodeNumPerShard (bft_config bft)) < 2 ^ 31 - 7" using assms(4) by (simp_all add: nodeReady_def)
  obtain sig where s: "bft_aggregatePrepareSig bft = Some sig"
      "aggregateOf L (bft_bls bft) (cfg_ShardId (bft_config bft)) (bftKeyOffset (bft_config bft)) ?msg bitmap sig"
    using assms(1) unfolding preparing_def by blast
  have v: "keys ?x = {k}" "length bitmap = length ?x" "length ?x \<le> 2 ^ 28"
      "VerifySign L (bft_bls bft) (SenderSig m) ?msg (of_nat k + bftKeyOffset (bft_config bft)) (cfg_ShardId (bft_config bft))"
    using assms(1,2) length_ready [OF n] by (simp_all add: preparing_def prepareVote_def)
  let ?s = "sigAdd L sig (sigDeserialize L (SenderSig m))"
  have agg: "aggregateOf L (bft_bls bft) (cfg_ShardId (bft_config bft)) (bftKeyOffset (bft_config bft)) ?msg ?b ?s"
    by (rule aggregate_merge [OF ok s(2) v(2,3,1) assms(3) v(4)])
  have cv: "countVote L bft ?msg bitmap (Some sig) m = Ok (Inr (?b, ?s))"
    by (rule countVote_ok [OF v(1) assms(3) v(2,4)])
  have "keys ?b = insert k (keys bitmap)" using v(1,2) by (simp add: keys_Merge)
  moreover have "preparing L (bft\<lparr>bft_prepareBitmap := Some ?b, bft_aggregatePrepareSig := Some ?s\<rparr>) block ?b"
    using assms(1) agg by (simp add: preparing_def)
  moreover have "HandleBFTMsg L ops bft (Some (PBFT m)) =
       (let bft1 = bft\<lparr>bft_prepareBitmap := Some ?b, bft_aggregatePrepareSig := Some ?s\<rparr> in
        if cfg_ConsensusThreshold (bft_config bft) \<le> GetSize ?b then rmap (Pair None) (BftPrecommit L bft1) else Ok (None, bft1))"
    using assms(1,2) assms(5) [folded not_le] s(1) cv
    by (simp add: HandleBFTMsg_def OnPrepareVoteMsg_def preparing_def prepareVote_def IsOut_def Let_def)
  ultimately show ?thesis unfolding Let_def
    by (intro exI [of _ ?b] exI [of _ ?s] exI [of _ "bft\<lparr>bft_prepareBitmap := Some ?b, bft_aggregatePrepareSig := Some ?s\<rparr>"] conjI refl)
qed

section \<open>Counting a quorum\<close>

definition advanced :: "('sec, 'pub, 'sig) blsLib \<Rightarrow> ('sec, 'pub, 'sig, 'c) BFTProtocol \<Rightarrow> Block \<Rightarrow> bool" where
  "advanced L bft block \<longleftrightarrow>
     bft_phase bft = \<lparr>ph_height = Height block, ph_bftPhase = BFT_PRECOMMIT\<rparr> \<and>
     (\<exists>sig bitmap. last (bft_sent bft) = (bft_phase bft, NewBFTMsg MessageType_PRECOMMIT block sig bitmap, ConsensusValidator) \<and>
        VerifyAggregateSig L (bft_bls bft) sig (Hash block @ [messageTypeByte MessageType_PREPARE]) bitmap
          (cfg_ShardId (bft_config bft)) (bftKeyOffset (bft_config bft)) \<and>
        GetSize bitmap = cfg_ConsensusThreshold (bft_config bft))"

lemma BftPrecommit_advances:
  assumes "preparing L bft block bitmap" "blsOk L" "ownBitmap (bft_config bft) = Some own"
    and "GetSize bitmap = cfg_ConsensusThreshold (bft_config bft)"
  shows "\<exists>bft'. BftPrecommit L bft = Ok bft' \<and> advanced L bft' block"
proof -
  have "Switch \<lparr>ph_height = Height block, ph_bftPhase = BFT_PREPARE\<rparr> (Height block) BFT_PRECOMMIT =
      \<lparr>ph_height = Height block, ph_bftPhase = BFT_PRECOMMIT\<rparr>"
    by (simp add: Switch_def less_eq_BFTPhase_def)
  then show ?thesis using assms aggregate_verifies [OF assms(2)]
    by (auto simp: BftPrecommit_def preparing_def advanced_def send_def Let_def NewBFTMsg_def)
qed

lemma quorum_advances:
  assumes "preparing L bft block bitmap" "nodeReady L (bft_bls bft) (bft_config bft)" "ownBitmap (bft_config bft) = Some own"
    and "votes \<noteq> []" "\<forall>v\<in>set votes. prepareVote L (bft_bls bft) (bft_config bft) block v"
    and "distinct (map snd votes)" "keys bitmap \<inter> set (map snd votes) = {}"
    and "unat (cfg_ConsensusThreshold (bft_config bft)) = card (keys bitmap) + length votes"
  shows "\<exists>bft'. HandleBFTMsgs L ops bft (map fst votes) = Ok bft' \<and> advanced L bft' block"
  using assms
proof (induction votes arbitrary: bft bitmap)
  case (Cons v votes)
  obtain m k where v: "v = (m, k)" by (cases v)
  have n: "unat (cfg_NodeNumPerShard (bft_config bft)) < 2 ^ 31 - 7" and ok: "blsOk L"
    using Cons.prems(2) by (simp_all add: nodeReady_def)
  have size: "unat (GetSize bm) = card (keys bm)" if "preparing L bft1 block bm" "bft_config bft1 = bft_config bft" for bm bft1
    using that length_ready [OF n] by (simp add: preparing_def unat_GetSize)
  have small: "GetSize bitmap < cfg_ConsensusThreshold (bft_config bft)"
    using Cons.prems(8) size [OF Cons.prems(1) refl] by (simp add: word_less_nat_alt)
  have k: "k \<notin> keys bitmap" "prepareVote L (bft_bls bft) (bft_config bft) block (m, k)" using Cons.prems(5,7) v by auto
  obtain b sig bft1 where c: "keys b = insert k (keys bitmap)"
      and b1: "bft1 = bft\<lparr>bft_prepareBitmap := Some b, bft_aggregatePrepareSig := Some sig\<rparr>"
      and p: "preparing L bft1 block b"
      and run: "HandleBFTMsg L ops bft (Some (PBFT m)) =
        (if cfg_ConsensusThreshold (bft_config bft) \<le> GetSize b then rmap (Pair None) (BftPrecommit L bft1) else Ok (None, bft1))"
    using prepareVote_counted [OF Cons.prems(1) k(2,1) Cons.prems(2) small, where ops = ops] by blast
  have same: "bft_config bft1 = bft_config bft" "bft_bls bft1 = bft_bls bft" by (simp_all add: b1)
  have card: "unat (GetSize b) = card (keys bitmap) + 1" using size [OF p same(1)] c k(1) by simp
  show ?case
  proof (cases "votes = []")
    case True
    then have q: "GetSize b = cfg_ConsensusThreshold (bft_config bft)" using card Cons.prems(8) by (simp add: word_unat_eq_iff)
    obtain bft' where "BftPrecommit L bft1 = Ok bft'" "advanced L bft' block"
      using BftPrecommit_advances [OF p ok] Cons.prems(3) q same by auto
    then show ?thesis using run q True v by simp
  next
    case False
    have less: "\<not> cfg_ConsensusThreshold (bft_config bft) \<le> GetSize b"
      using card Cons.prems(8) False by (auto simp: word_le_nat_alt neq_Nil_conv)
    have "\<exists>bft'. HandleBFTMsgs L ops bft1 (map fst votes) = Ok bft' \<and> advanced L bft' block"
      by (rule Cons.IH [OF p]) (use Cons.prems c k(1) v False same in auto)
    then show ?thesis using run less v by simp
  qed
qed simp

lemma BftPrepare_preparing:
  assumes "BftPrepare L ops bft0 = Ok bft" "bft_currentBlock bft = Some block" "nodeReady L (bft_bls bft0) (bft_config bft0)"
    and "cfg_IsLeader (bft_config bft0)" "IsNew (bft_phase bft0) \<lparr>ph_height = Height block, ph_bftPhase = BFT_PREPARE\<rparr>"
  shows "\<exists>own. ownBitmap (bft_config bft) = Some own \<and> keys own = {unat (nodeId2Key (bft_config bft))} \<and> preparing L bft block own"
    and "bft_bls bft = bft_bls bft0 \<and> bft_config bft = bft_config bft0"
proof -
  obtain own chain where o: "ownBitmap (bft_config bft0) = Some own"
      "bft = send (bft0\<lparr>bft_blockchain := chain, bft_currentBlock := Some block, bft_prepareBitmap := Some own,
         bft_aggregatePrepareSig := Some (blsSign L (bft_bls bft0) (Hash block @ [messageTypeByte MessageType_PREPARE])),
         bft_phase := Switch (bft_phase bft0) (Height block) BFT_PREPARE\<rparr>)
         (NewBFTMsg MessageType_PREPARE block (sigSerialize L (blsSign L (bft_bls bft0) (Hash block @ [messageTypeByte MessageType_PREPARE]))) own)
         ConsensusValidator"
    using assms(1,2) by (auto simp: BftPrepare_def Let_def send_def elim!: rbind_OkE split: option.split_asm)
  note a = ownBitmap_aggregate [OF assms(3) o(1)]
  have "keys own = {unat (nodeId2Key (bft_config bft0))}" using SetKey_spec [OF o(1) [unfolded ownBitmap_def]] by simp
  then show "\<exists>own. ownBitmap (bft_config bft) = Some own \<and> keys own = {unat (nodeId2Key (bft_config bft))} \<and> preparing L bft block own"
    using o a assms(4) Switch_new [OF assms(5)] by (simp add: preparing_def send_def)
  show "bft_bls bft = bft_bls bft0 \<and> bft_config bft = bft_config bft0" using o(2) by (simp add: send_def)
qed

text \<open>
  C7: a quorum of prepare votes moves the leader on. After \<open>Prepare\<close> for a block of a new phase, once the
  leader has taken valid votes of so many distinct other nodes, in whatever order, that with its own they are
  \<open>ConsensusThreshold\<close>, it is in the precommit phase, and the last message it sent is a precommit message for the
  block whose aggregate signature and bitmap pass the check of the validators. (The threshold is
  more than one, so there is a vote to trigger the step.)
\<close>

theorem prepare_quorum_advances:
  assumes "BftPrepare L (nodeChain N now draws) bft0 = Ok bft" "bft_currentBlock bft = Some block"
    and "nodeReady L (bft_bls bft0) (bft_config bft0)" "cfg_IsLeader (bft_config bft0)"
    and "IsNew (bft_phase bft0) \<lparr>ph_height = Height block, ph_bftPhase = BFT_PREPARE\<rparr>"
    and "\<forall>v\<in>set votes. prepareVote L (bft_bls bft0) (bft_config bft0) block v"
    and "distinct (unat (nodeId2Key (bft_config bft0)) # map snd votes)"
    and "unat (cfg_ConsensusThreshold (bft_config bft0)) = Suc (length votes)" "votes \<noteq> []"
  shows "\<exists>bft'. HandleBFTMsgs L (nodeChain N now draws) bft (map fst votes) = Ok bft' \<and> advanced L bft' block"
proof -
  obtain own where o: "ownBitmap (bft_config bft) = Some own" "keys own = {unat (nodeId2Key (bft_config bft))}" "preparing L bft block own"
    and s: "bft_bls bft = bft_bls bft0 \<and> bft_config bft = bft_config bft0"
    using BftPrepare_preparing [OF assms(1-5)] by blast
  show ?thesis
    by (rule quorum_advances [OF o(3) _ o(1) assms(9)]) (use assms(3,6,7,8) o(2) s in auto)
qed

text \<open>The leader of the four nodes with the votes of nodes \<open>6\<close> and \<open>7\<close>.\<close>

definition prepareVotes :: "(BFTMessage \<times> nat) list" where
  "prepareVotes = zip (take 2 leaderVotes) [1, 2]"

theorem prepare_quorum_advances_witness:
  "\<exists>l0 l. startNode True 4 = Ok l0 \<and> HandleBFTMsgs sumLib shardOps l0 (map fst prepareVotes) = Ok l \<and> advanced sumLib l genesisBlock"
proof -
  obtain l0 where r: "startNode True 4 = Ok l0" using leader_round by blast
  obtain chain where c: "NewBlockchain endNode (shardConfig True 4) = Some chain"
      "BftStart sumLib shardOps (NewBFTProtocol (shardBls 4) chain (shardConfig True 4)) = Ok l0"
    using r by (rule startNode_Ok)
  let ?bft = "NewBFTProtocol (shardBls 4) chain (shardConfig True 4) :: (byte, byte, bytes \<times> byte, Blockchain) BFTProtocol"
  have cfg: "bft_config ?bft = shardConfig True 4" "bft_bls ?bft = shardBls 4" "bft_phase ?bft = \<lparr>ph_height = 0, ph_bftPhase = BFT_INIT\<rparr>"
    by (simp_all add: NewBFTProtocol_def)
  have "co_LatestBlock shardOps chain = None" using c(1) by (auto simp: shardOps_def nodeChain_def NewBlockchain_def split: sum.splits)
  then have p: "BftPrepare sumLib shardOps ?bft = Ok l0" using c(2) by (simp add: BftStart_def NewBFTProtocol_def shardConfig_def)
  have "case startNode True 4 of Ok l \<Rightarrow> bft_currentBlock l \<noteq> None | _ \<Rightarrow> False" by code_simp
  then have b: "bft_currentBlock l0 = Some genesisBlock" using r by (auto simp: genesisBlock_def)
  have vs: "\<forall>v\<in>set prepareVotes. prepareVote sumLib (shardBls 4) (shardConfig True 4) genesisBlock v"
    unfolding prepareVote_def set_keyList [symmetric] by code_simp
  have ds: "distinct (unat (nodeId2Key (shardConfig True 4)) # map snd prepareVotes)" by code_simp
  have th: "unat (cfg_ConsensusThreshold (shardConfig True 4)) = Suc (length prepareVotes)" "prepareVotes \<noteq> []" by code_simp+
  have nw: "IsNew \<lparr>ph_height = 0, ph_bftPhase = BFT_INIT\<rparr> \<lparr>ph_height = Height genesisBlock, ph_bftPhase = BFT_PREPARE\<rparr>"
    by (simp add: IsNew_def genesisBlock_height less_eq_BFTPhase_def)
  have "\<exists>l. HandleBFTMsgs sumLib shardOps l0 (map fst prepareVotes) = Ok l \<and> advanced sumLib l genesisBlock"
    using prepare_quorum_advances [of sumLib endNode 7 "\<lambda>_. (0, 0, 0, [])" ?bft l0 genesisBlock prepareVotes]
      p b vs ds th nw shard_ready [of 4 True] unfolding cfg shardOps_def by (simp add: shardConfig_def)
  then show ?thesis using r by blast
qed

end
