(* ===== verification/Spec2Isabelle.thy ===== *)
theory Spec2Isabelle
  imports Bitmap Types Topics Message Eventbus Encoding Store Patricia Trie Hasher StateDB SecureTrie Decode Proof ChunkRoot Database Committer StackTrie Iterator PathProof
    Eviction Garbage
    Config Bls TxPool ShardStates Ledger Blockchain Agreement Consensus Quorum Votes Progress
begin

text \<open>
  Mitosis: a verification development of the sharded blockchain node.

  \<^bold>\<open>The program.\<close> The Go code under \<open>src/Mitosis\<close> is a blockchain in which the accounts are divided among
  processing shards. Each shard keeps its accounts in a binary Merkle Patricia trie (\<open>trie/\<close>) behind an account state with
  a journal (\<open>state/\<close>). Its leader collects transactions, executes them on the state and makes a block (\<open>core/\<close>, \<open>types/\<close>);
  the nodes of the shard agree on the block in three phases of aggregated BLS votes (\<open>consensus/\<close>, \<open>bls/\<close>) and then commit it.
  Transactions for another shard leave it as an outbound chunk of the block: the destination
  shards receive the header, and the chunk with a Merkle proof against the transaction root of the header; the header may come
  first or last. Inside a node the components talk through an event bus (\<open>eventbus/\<close>) with messages tagged by a topic
  (\<open>message/\<close>, \<open>topics/\<close>); between nodes messages are gossiped by libp2p (\<open>p2p/\<close>). \<open>config/\<close> assigns nodes to shards.

  \<^bold>\<open>The theories\<close>, in the order of the code's layers. Definitions have the names of the functions they model, with a
  prefix or suffix where two functions share a name or a name is taken.

  \<^item> \<open>Prelude\<close>: machine integers, byte strings, the result type \<open>res\<close> (\<open>Ok\<close>, \<open>Err\<close>, \<open>Panic\<close>, \<open>Hang\<close>) with its
    sequencing \<open>rbind\<close>, the collection \<open>res_simps\<close>.
  \<^item> \<open>Bitmap\<close> (\<open>types/bitmap.go\<close>), \<open>Types\<close> (the other data of \<open>types/\<close>, as record extensions where Go embeds a struct),
    \<open>Topics\<close> (\<open>topics/topics.go\<close>), \<open>Message\<close> (\<open>message/\<close>), \<open>Eventbus\<close> (\<open>eventbus/\<close>: channels in a store, goroutines recorded
    and run by a separate step).
  \<^item> \<open>Encoding\<close> (\<open>trie/encoding.go\<close>): the key encodings. \<open>Store\<close>: the locales \<open>byte_store\<close> and \<open>canonical_store\<close>, the contract
    of every trie. \<open>Patricia\<close>: the abstract tree \<open>ptree\<close>, with minimality \<open>pwf\<close>, insertion, deletion and canonicity; no code.
  \<^item> \<open>Trie\<close> (\<open>trie/node.go\<close>, \<open>trie/trie.go\<close>): the lazily loaded trie; \<open>represents\<close> relates it to an abstract tree.
    \<open>Hasher\<close> (\<open>trie/hasher.go\<close>), \<open>Decode\<close> (\<open>decodeNode\<close>), \<open>Proof\<close> (\<open>trie/proof.go\<close>), \<open>Database\<close> (\<open>trie/database.go\<close>:
    collapsed nodes, insertion, reading), \<open>Eviction\<close> (its \<open>Dereference\<close>, \<open>Cap\<close> and \<open>Commit\<close>: how nodes leave the memory; the flush list)
    and \<open>Garbage\<close> (the reference counts, runs \<open>gcRun\<close> of all its operations; no code),
    \<open>Committer\<close> (\<open>trie/committer.go\<close>), \<open>StackTrie\<close> (\<open>trie/stacktrie.go\<close>), \<open>Iterator\<close> (\<open>trie/iterator.go\<close>),
    \<open>PathProof\<close> (proofs of several keys in \<open>trie/proof.go\<close>, with their users in \<open>state/\<close>), \<open>ChunkRoot\<close> (\<open>types/derive_sha.go\<close>, \<open>OutboundChunk.Root\<close>).
  \<^item> \<open>StateDB\<close> (\<open>state/\<close>): journal, account objects, state over the interface \<open>trieOps\<close>, with the locales \<open>account_trie\<close> and
    \<open>persistent_trie\<close>. \<open>SecureTrie\<close> (\<open>trie/secure_trie.go\<close>) provides that interface. \<open>Ledger\<close>: the abstract state of the account state.
  \<^item> \<open>Config\<close> (\<open>config/config.go\<close>), \<open>Bls\<close> (\<open>bls/\<close>), \<open>TxPool\<close>, \<open>ShardStates\<close>, \<open>Blockchain\<close> (\<open>core/\<close>), \<open>Agreement\<close>: what the
    chain guarantees, through the locale \<open>chain_node\<close>.
  \<^item> \<open>Consensus\<close> (\<open>consensus/\<close>) over the interface \<open>chainOps\<close>; \<open>Quorum\<close> (runs \<open>nodeStep\<close>, locale \<open>chain_interface\<close>), \<open>Votes\<close> and
    \<open>Progress\<close>: its safety and its liveness.

  \<^bold>\<open>How the layers are connected.\<close> A trie represents a minimal Patricia tree; its operations implement those of the tree,
  the tree implements a map, and the map determines the tree (\<open>pwf_canonical\<close>). Hence the root hash depends on the content
  only, however the trie was built, loaded or cached. \<open>goTrie\<close>, \<open>pat\<close> and \<open>secure\<close> are the interpretations of the store
  contract; the lemmas on the account state are proved once under \<open>account_trie\<close> and hold for the secure trie
  through the sublocale of \<open>address_crypto\<close>, and those on persistence under \<open>persistent_trie\<close> through \<open>storing_crypto\<close>.
  Executing a block refines the function \<open>ledgerBlock\<close> on ledgers, from which the agreement of leader and
  validators follows. Every locale is interpreted on the model's own definitions, with concrete functions for the library
  parameters where there are some (\<open>plain\<close>, \<open>mark\<close>, \<open>endN\<close>).

  \<^bold>\<open>What is a parameter.\<close> RLP, Keccak-256 (\<open>crypto\<close>, \<open>rlpReader\<close>, \<open>codec\<close>), the BLS library (\<open>blsLib\<close>), random
  numbers, the clock, and the disk with its batches (\<open>batchIO\<close>: which writes fail, and after how many entries). What is relied on of them is named: \<open>rlpOk\<close> (the reader inverts the writer), \<open>blsOk\<close>
  (signatures verify under their key and add up), \<open>stackOk\<close> (RLP frames the encodings of the elements, hashes have
  32 bytes), \<open>collisionFree\<close>, \<open>storable\<close> and \<open>inj_on\<close> of the hash function (no two of the encodings or subtrees in question have
  the same hash, and none has that of the empty trie). None of these says more than the documentation of the library, and each property that needs one has a
  witness with a concrete function.

  \<^bold>\<open>Bounds.\<close> The recursions of the trie count the hash nodes they resolve; the exported operations use
  \<open>keyFuel\<close>, the length of the key plus one, which the lemmas show to be enough on every well-formed trie: a resolution
  is followed by at least one digit of the key. \<open>verifyLoop\<close>, \<open>PruneProofs\<close> and the loops
  of the iterator are each a \<open>partial_function\<close>, because a database made by an
  adversary may have a cycle; that they return is part of the properties on them. The recursions and
  loops over the node database take a bound as an argument, and one more than the number of cached nodes (plus one for recursion) is
  shown to be enough while the references form no cycle. The loop of the block check that waits for a header
  is the result \<open>Hang\<close>. Sized integers are words wherever the code computes with them.

  \<^bold>\<open>Abstractions.\<close> A Go map is a HOL map, or a distinct list where the code iterates over it, the order being an argument of
  the operation. Locks make an operation atomic; a goroutine that the code starts is recorded. Slices are values: where the
  code shares an array the text of the theory says so. Metrics, logging and times are left out.

  \<^bold>\<open>Not modelled.\<close> The clean cache of the node database, which is nil; the range proofs, the difference and
  union iterators and the trie synchronisation of \<open>trie/\<close>, which the program does not call; the network \<open>p2p/\<close>, which is calls of
  libp2p; JSON files, key files, block files and command lines, which are input and output; the table of keys in
  \<open>bls/pubkeydb.go\<close>, which is commented out.
\<close>

end
